(* ===== verification/RF_Prelude.thy ===== *)
theory RF_Prelude
  imports Main "HOL-Library.Monad_Syntax" "HOL-Library.AList" "HOL-Library.Sublist" "HOL-Library.Multiset"
begin

text \<open>
  Shared vocabulary of the development: the names of the machine types, the fact
  collections, and generic lemmas on lists, association lists and the option monad.

  The option type is used throughout as the result of code that dereferences pointers or
  loops: \<open>None\<close> means that the C++ code would read through a dangling or null pointer,
  index out of range, or not return. A theorem that an operation yields \<open>Some\<close> is
  therefore a memory-safety and termination theorem.
\<close>

section \<open>Names of the basic types\<close>

text \<open>
  \<open>llama_token\<close> and \<open>llama_seq_id\<close> are \<open>int32_t\<close> in llama.h; no operation of the
  modelled code does arithmetic on them. Heap addresses stand for \<open>RadixNode*\<close>, and a
  pointer that may be null is an optional address.
\<close>

type_synonym token = int
type_synonym seq_id = int
type_synonym addr = nat
type_synonym ptr = "addr option"

named_theorems bind_split \<open>inversion rules for successful option computations\<close>

section \<open>The option monad\<close>

lemma bind_SomeE [elim!]:
  assumes "Option.bind x f = Some y"
  obtains z where "x = Some z" and "f z = Some y"
  using assms by (auto simp: Option.bind_eq_Some_conv)

lemma bind_Some_eq [bind_split]:
  "Option.bind x f = Some y \<longleftrightarrow> (\<exists>z. x = Some z \<and> f z = Some y)"
  by (rule Option.bind_eq_Some_conv)

definition first_of :: "'a list \<Rightarrow> 'a option" where
  "first_of xs = (case xs of [] \<Rightarrow> None | x # _ \<Rightarrow> Some x)"

lemma first_of_simps [simp]: "first_of [] = None" "first_of (x # xs) = Some x"
  by (simp_all add: first_of_def)

lemma first_of_nonempty: "xs \<noteq> [] \<Longrightarrow> first_of xs = Some (hd xs)"
  by (cases xs) auto

lemma first_of_eq_Some: "first_of xs = Some x \<longleftrightarrow> xs \<noteq> [] \<and> x = hd xs"
  by (cases xs) auto

section \<open>Lists and prefixes\<close>

text \<open>The length of the longest common prefix of two token lists.\<close>

fun match_len :: "'a list \<Rightarrow> 'a list \<Rightarrow> nat" where
  "match_len (x # xs) (y # ys) = (if x = y then Suc (match_len xs ys) else 0)"
| "match_len _ _ = 0"

lemma match_len_Nil [simp]: "match_len xs [] = 0" "match_len [] ys = 0"
  by (cases xs; simp)+

lemma match_len_lcp: "match_len xs ys = length (longest_common_prefix xs ys)"
  by (induction xs ys rule: match_len.induct) auto

lemma match_len_le: "match_len xs ys \<le> length xs" "match_len xs ys \<le> length ys"
  by (induction xs ys rule: match_len.induct) auto

lemma match_len_take: "take (match_len xs ys) xs = take (match_len xs ys) ys"
  by (induction xs ys rule: match_len.induct) auto

lemma match_len_full: "match_len xs ys = length xs \<Longrightarrow> prefix xs ys"
  by (metis match_len_take take_all_iff order_refl take_is_prefix)

lemma match_len_diff:
  "match_len xs ys < length xs \<Longrightarrow> match_len xs ys < length ys \<Longrightarrow>
   xs ! match_len xs ys \<noteq> ys ! match_len xs ys"
  by (induction xs ys rule: match_len.induct) (auto split: if_splits)

lemma match_len_pos: "xs \<noteq> [] \<Longrightarrow> ys \<noteq> [] \<Longrightarrow> hd xs = hd ys \<Longrightarrow> 0 < match_len xs ys"
  by (cases xs; cases ys) auto

lemma prefix_take_iff: "prefix xs ys \<longleftrightarrow> take (length xs) ys = xs"
  by (metis append_eq_conv_conj prefix_def take_is_prefix)

lemma prefix_nth: "prefix xs ys \<Longrightarrow> i < length xs \<Longrightarrow> xs ! i = ys ! i"
  by (auto simp: prefix_def nth_append)

lemma prefix_linear:
  "prefix xs zs \<Longrightarrow> prefix ys zs \<Longrightarrow> length xs \<le> length ys \<Longrightarrow> prefix xs ys"
  by (rule prefix_length_prefix)

lemma strict_prefix_iff_length: "strict_prefix xs ys \<longleftrightarrow> prefix xs ys \<and> length xs < length ys"
  by (metis nat_less_le not_equal_is_parallel prefix_length_less prefix_order.le_less
      prefix_order.less_irrefl strict_prefixE)

section \<open>Association lists\<close>

text \<open>
  \<open>std::unordered_map\<close> is an association list with distinct keys; its order stands for
  the (unspecified) iteration order.
\<close>

lemma map_of_update [simp]: "map_of (AList.update k v al) = (map_of al)(k \<mapsto> v)"
  by (rule update_conv')

lemma map_of_delete [simp]: "map_of (AList.delete k al) = (map_of al)(k := None)"
  by (rule delete_conv')

lemma distinct_update: "distinct (map fst al) \<Longrightarrow> distinct (map fst (AList.update k v al))"
  by (rule distinct_update)

lemma set_delete: "set (AList.delete k al) = {x \<in> set al. fst x \<noteq> k}"
  by (auto simp: AList.delete_eq)

lemma in_set_map_of: "distinct (map fst al) \<Longrightarrow> (k, v) \<in> set al \<longleftrightarrow> map_of al k = Some v"
  by simp

end
