(* ===== verification/RF_Config.thy ===== *)
theory RF_Config
  imports Complex_Main RF_Prelude
begin

text \<open>
  The configuration of the server (include/radixforge/config.h), with the defaults of the
  structure. The \<open>float\<close> members are rational numbers: \<open>0.9f\<close> and \<open>0.7f\<close> are the
  binary fractions below. \<open>int32_t\<close> members are integers; their ranges are stated where
  a property needs them.
\<close>

record config =
  model_path :: string
  n_gpu_layers :: int
  n_ctx :: int
  n_batch :: int
  max_sequences :: int
  gc_watermark :: int
  kv_high_watermark :: rat
  prefix_cache_enabled :: bool
  host :: string
  port :: int
  admit_window_ms :: int
  request_timeout_seconds :: int
  shutdown_timeout_seconds :: int
  max_body_bytes :: nat
  cfg_max_tokens :: int
  cfg_temperature :: rat
  cfg_top_p :: rat
  admin_token :: string
  log_level :: string
  debug_metrics :: bool

definition float_0_9 :: rat where
  "float_0_9 = 15099494 / 16777216"

definition float_0_7 :: rat where
  "float_0_7 = 11744051 / 16777216"

definition default_config :: config where
  "default_config = \<lparr>model_path = '''', n_gpu_layers = 99, n_ctx = 32768, n_batch = 2048,
     max_sequences = 32, gc_watermark = 28, kv_high_watermark = float_0_9,
     prefix_cache_enabled = True, host = ''127.0.0.1'', port = 8400, admit_window_ms = 2,
     request_timeout_seconds = 300, shutdown_timeout_seconds = 10,
     max_body_bytes = 8 * 1024 * 1024, cfg_max_tokens = 4096, cfg_temperature = float_0_7,
     cfg_top_p = float_0_9, admin_token = '''', log_level = ''info'', debug_metrics = False\<rparr>"

end
