(* ===== verification/RF_RadixTree.thy ===== *)
theory RF_RadixTree
  imports RF_Prelude
begin

text \<open>
  The radix tree of cached token prefixes (include/radixforge/radix_tree.h and
  src/radix_tree.cpp): the data and every operation of the class \<open>RadixTree\<close>.

  The nodes live in a heap of addresses, because requests keep raw \<open>RadixNode*\<close> handles
  into the tree while other requests split, prune and evict nodes. An address is never
  reused. \<open>std::set\<close> is a set (\<open>*begin()\<close> is its least element, iteration is in
  ascending order), \<open>std::unordered_map\<close> an association list. The tree's lock makes
  every public operation atomic, so an operation is a function from tree to tree.
\<close>

section \<open>Data\<close>

record radix_node =
  tokens :: "token list"
  ref_count :: int
  seq_ids :: "seq_id set"
  ready_seq_ids :: "seq_id set"
  last_access_tick :: nat
  canonical_len :: int
  children :: "(token \<times> addr) list"
  parent :: ptr

record radix_tree =
  heap :: "addr \<rightharpoonup> radix_node"
  tick :: nat
  next_addr :: addr

record prefix_match =
  match_node :: addr
  cache_node :: addr
  cache_seq_id :: seq_id
  matched_tokens :: nat
  remaining :: "token list"

record prefix_availability =
  avail_matched :: int
  ready_tokens :: int
  pending_tokens :: int

definition empty_node :: radix_node where
  "empty_node = \<lparr>tokens = [], ref_count = 0, seq_ids = {}, ready_seq_ids = {},
     last_access_tick = 0, canonical_len = 0, children = [], parent = None\<rparr>"

definition has_physical_cache :: "radix_node \<Rightarrow> bool" where
  "has_physical_cache nd \<longleftrightarrow> ready_seq_ids nd \<noteq> {}"

definition any_seq_id :: "radix_node \<Rightarrow> seq_id option" where
  "any_seq_id nd = (if ready_seq_ids nd = {} then None else Some (Min (ready_seq_ids nd)))"

definition root_addr :: addr where
  "root_addr = 0"

definition new_tree :: radix_tree where
  "new_tree = \<lparr>heap = [root_addr \<mapsto> empty_node\<lparr>ref_count := 1\<rparr>], tick = 0, next_addr = 1\<rparr>"

definition set_node :: "radix_tree \<Rightarrow> addr \<Rightarrow> radix_node \<Rightarrow> radix_tree" where
  "set_node t n nd = t\<lparr>heap := (heap t)(n \<mapsto> nd)\<rparr>"

definition alloc_node :: "radix_tree \<Rightarrow> radix_node \<Rightarrow> radix_tree" where
  "alloc_node t nd = t\<lparr>heap := (heap t)(next_addr t \<mapsto> nd), next_addr := Suc (next_addr t)\<rparr>"

section \<open>Prefix search, with splitting of a partially matched node\<close>

fun reparent :: "addr \<Rightarrow> (token \<times> addr) list \<Rightarrow> radix_tree \<Rightarrow> radix_tree option" where
  "reparent p [] t = Some t"
| "reparent p ((k, c) # cs) t =
     do { cn \<leftarrow> heap t c; reparent p cs (set_node t c (cn\<lparr>parent := Some p\<rparr>)) }"

definition split_node :: "radix_tree \<Rightarrow> addr \<Rightarrow> nat \<Rightarrow> radix_tree option" where
  "split_node t n split_pos =
     do { nd \<leftarrow> heap t n;
          suffix_key \<leftarrow> first_of (drop split_pos (tokens nd));
          t1 \<leftarrow> reparent (next_addr t) (children nd)
                 (alloc_node t \<lparr>tokens = drop split_pos (tokens nd), ref_count = 0,
                    seq_ids = {}, ready_seq_ids = {},
                    last_access_tick = last_access_tick nd, canonical_len = 0,
                    children = children nd, parent = Some n\<rparr>);
          Some (set_node t1 n (nd\<lparr>tokens := take split_pos (tokens nd),
                                   children := [(suffix_key, next_addr t)]\<rparr>)) }"

partial_function (option) find_prefix_loop ::
  "radix_tree \<Rightarrow> addr \<Rightarrow> token list \<Rightarrow> nat \<Rightarrow> (radix_tree \<times> addr \<times> nat \<times> token list) option"
where
  "find_prefix_loop t current toks matched_total =
     (case toks of
        [] \<Rightarrow> Some (t, current, matched_total, [])
      | next_token # _ \<Rightarrow>
          do { cn \<leftarrow> heap t current;
               case map_of (children cn) next_token of
                 None \<Rightarrow> Some (t, current, matched_total, toks)
               | Some child \<Rightarrow>
                   do { chn \<leftarrow> heap t child;
                        let m = match_len (tokens chn) toks;
                        if m < length (tokens chn) then
                          do { t' \<leftarrow> split_node t child m;
                               Some (t', child, matched_total + m, drop m toks) }
                        else
                          find_prefix_loop t child (drop m toks) (matched_total + m) } })"

definition find_prefix_locked :: "radix_tree \<Rightarrow> token list \<Rightarrow> (radix_tree \<times> prefix_match) option" where
  "find_prefix_locked t toks =
     do { (t', current, matched_total, rest) \<leftarrow> find_prefix_loop t root_addr toks 0;
          Some (t', \<lparr>match_node = current, cache_node = current, cache_seq_id = -1,
                     matched_tokens = matched_total, remaining = rest\<rparr>) }"

section \<open>Insertion\<close>

definition add_leaf :: "radix_tree \<Rightarrow> addr \<Rightarrow> token list \<Rightarrow> nat \<Rightarrow> (radix_tree \<times> addr) option" where
  "add_leaf t p rest now =
     do { pn \<leftarrow> heap t p;
          key \<leftarrow> first_of rest;
          Some (set_node (alloc_node t (empty_node\<lparr>tokens := rest, parent := Some p,
                                                   last_access_tick := now\<rparr>))
                  p (pn\<lparr>children := AList.update key (next_addr t) (children pn)\<rparr>),
                next_addr t) }"

definition insert_prompt :: "radix_tree \<Rightarrow> token list \<Rightarrow> (radix_tree \<times> prefix_match) option" where
  "insert_prompt t0 prompt_tokens =
     do { let t = t0\<lparr>tick := Suc (tick t0)\<rparr>;
          (t1, match) \<leftarrow> find_prefix_locked t prompt_tokens;
          (t2, leaf) \<leftarrow> (if remaining match \<noteq> []
                          then add_leaf t1 (match_node match) (remaining match) (tick t1)
                          else Some (t1, match_node match));
          nd \<leftarrow> heap t2 leaf;
          Some (set_node t2 leaf (nd\<lparr>last_access_tick := tick t2, ref_count := ref_count nd + 1\<rparr>),
                match\<lparr>match_node := leaf, cache_node := match_node match\<rparr>) }"

section \<open>Inspection without modification\<close>

definition consider_availability ::
  "radix_node \<Rightarrow> int \<Rightarrow> prefix_availability \<Rightarrow> prefix_availability" where
  "consider_availability nd covered av =
     (if covered \<le> 0 then av
      else let cache_coverage = min covered (canonical_len nd) in
        if cache_coverage \<le> 0 then av
        else let av1 = (if ready_seq_ids nd \<noteq> {}
                        then av\<lparr>ready_tokens := max (ready_tokens av) cache_coverage\<rparr> else av) in
          if card (seq_ids nd) > card (ready_seq_ids nd)
          then av1\<lparr>pending_tokens := max (pending_tokens av1) cache_coverage\<rparr> else av1)"

partial_function (option) inspect_prefix_loop ::
  "radix_tree \<Rightarrow> addr \<Rightarrow> token list \<Rightarrow> int \<Rightarrow> prefix_availability \<Rightarrow> prefix_availability option"
where
  "inspect_prefix_loop t current toks matched av =
     (case toks of
        [] \<Rightarrow> Some (av\<lparr>avail_matched := matched\<rparr>)
      | next_token # _ \<Rightarrow>
          do { cn \<leftarrow> heap t current;
               case map_of (children cn) next_token of
                 None \<Rightarrow> Some (av\<lparr>avail_matched := matched\<rparr>)
               | Some child \<Rightarrow>
                   do { chn \<leftarrow> heap t child;
                        let m = match_len (tokens chn) toks;
                        if m = 0 then Some (av\<lparr>avail_matched := matched\<rparr>)
                        else if m < length (tokens chn) then
                          Some ((consider_availability chn (matched + int m) av)
                                  \<lparr>avail_matched := matched + int m\<rparr>)
                        else
                          inspect_prefix_loop t child (drop m toks) (matched + int m)
                            (consider_availability chn (matched + int m) av) } })"

definition inspect_prefix :: "radix_tree \<Rightarrow> token list \<Rightarrow> prefix_availability option" where
  "inspect_prefix t prompt_tokens =
     inspect_prefix_loop t root_addr prompt_tokens 0
       \<lparr>avail_matched = 0, ready_tokens = 0, pending_tokens = 0\<rparr>"

section \<open>Release and pruning\<close>

text \<open>
  \<open>children.erase(key)\<close> destroys the subtree stored under the key. The code calls it on
  childless nodes only; the model has no value for the other case.
\<close>

definition erase_child :: "radix_tree \<Rightarrow> addr \<Rightarrow> token \<Rightarrow> radix_tree option" where
  "erase_child t p key =
     do { pn \<leftarrow> heap t p;
          case map_of (children pn) key of
            None \<Rightarrow> Some t
          | Some c \<Rightarrow>
              do { cn \<leftarrow> heap t c;
                   if children cn \<noteq> [] then None
                   else Some (t\<lparr>heap := (heap (set_node t p
                           (pn\<lparr>children := AList.delete key (children pn)\<rparr>)))(c := None)\<rparr>) } }"

partial_function (option) prune_empty_leaves_locked ::
  "radix_tree \<Rightarrow> ptr \<Rightarrow> radix_tree option" where
  "prune_empty_leaves_locked t node =
     (case node of
        None \<Rightarrow> Some t
      | Some n \<Rightarrow>
          do { nd \<leftarrow> heap t n;
               if n \<noteq> root_addr \<and> ref_count nd = 0 \<and> seq_ids nd = {} \<and> children nd = [] then
                 do { p \<leftarrow> parent nd;
                      key \<leftarrow> first_of (tokens nd);
                      t' \<leftarrow> erase_child t p key;
                      prune_empty_leaves_locked t' (Some p) }
               else Some t })"

definition release :: "radix_tree \<Rightarrow> ptr \<Rightarrow> radix_tree option" where
  "release t node =
     (case node of
        None \<Rightarrow> Some t
      | Some n \<Rightarrow>
          do { nd \<leftarrow> heap t n;
               if ref_count nd > 0
               then prune_empty_leaves_locked (set_node t n (nd\<lparr>ref_count := ref_count nd - 1\<rparr>)) node
               else Some t })"

partial_function (option) cumulative_token_depth :: "radix_tree \<Rightarrow> ptr \<Rightarrow> int option" where
  "cumulative_token_depth t node =
     (case node of
        None \<Rightarrow> Some 0
      | Some n \<Rightarrow>
          do { nd \<leftarrow> heap t n;
               d \<leftarrow> cumulative_token_depth t (parent nd);
               Some (int (length (tokens nd)) + d) })"

section \<open>Eviction\<close>

text \<open>
  The explicit-stack traversals of the class share one shape: pop the back of the stack,
  visit the node, push its children in iteration order (the head of the list is the back
  of the stack).
\<close>

partial_function (option) visit_stack ::
  "(addr \<Rightarrow> radix_node \<Rightarrow> 'a \<Rightarrow> 'a) \<Rightarrow> radix_tree \<Rightarrow> addr list \<Rightarrow> 'a \<Rightarrow> 'a option" where
  "visit_stack visit t stack acc =
     (case stack of
        [] \<Rightarrow> Some acc
      | n # rest \<Rightarrow>
          do { nd \<leftarrow> heap t n;
               visit_stack visit t (rev (map snd (children nd)) @ rest) (visit n nd acc) })"

definition collect_candidate :: "addr \<Rightarrow> radix_node \<Rightarrow> (addr \<times> nat) list \<Rightarrow> (addr \<times> nat) list" where
  "collect_candidate n nd acc =
     (if n \<noteq> root_addr \<and> ref_count nd = 0 \<and> seq_ids nd \<noteq> {}
      then acc @ [(n, last_access_tick nd)] else acc)"

text \<open>
  The oldest first. The order of equal ticks, which \<open>std::sort\<close> does not specify, is here the order
  of the visits; \<open>evict_one_lru\<close> promises only that a candidate is one of the oldest.
\<close>

definition find_eviction_candidates :: "radix_tree \<Rightarrow> nat \<Rightarrow> addr list option" where
  "find_eviction_candidates t limit =
     do { candidates \<leftarrow> visit_stack collect_candidate t [root_addr] [];
          Some (take limit (map fst (sort_key snd candidates))) }"

definition evict :: "radix_tree \<Rightarrow> ptr \<Rightarrow> (radix_tree \<times> seq_id list) option" where
  "evict t node =
     (case node of
        None \<Rightarrow> Some (t, [])
      | Some n \<Rightarrow>
          do { nd \<leftarrow> heap t n;
               if parent nd = None \<or> ref_count nd \<noteq> 0 \<or> seq_ids nd = {} then Some (t, [])
               else
                 do { t' \<leftarrow> prune_empty_leaves_locked
                        (set_node t n (nd\<lparr>seq_ids := {}, ready_seq_ids := {}, canonical_len := 0\<rparr>)) node;
                      Some (t', sorted_list_of_set (seq_ids nd)) } })"

section \<open>Registration of physical sequences\<close>

definition register_seq_id :: "radix_tree \<Rightarrow> addr \<Rightarrow> seq_id \<Rightarrow> int \<Rightarrow> radix_tree option" where
  "register_seq_id t n seq clen =
     do { nd \<leftarrow> heap t n;
          Some (set_node t n (nd\<lparr>seq_ids := insert seq (seq_ids nd),
              canonical_len := (if canonical_len nd = 0 then clen else canonical_len nd)\<rparr>)) }"

definition mark_seq_id_ready :: "radix_tree \<Rightarrow> ptr \<Rightarrow> seq_id \<Rightarrow> radix_tree option" where
  "mark_seq_id_ready t node seq =
     (case node of
        None \<Rightarrow> Some t
      | Some n \<Rightarrow>
          do { nd \<leftarrow> heap t n;
               if seq \<in> seq_ids nd
               then Some (set_node t n (nd\<lparr>ready_seq_ids := insert seq (ready_seq_ids nd)\<rparr>))
               else Some t })"

definition remove_seq :: "seq_id \<Rightarrow> radix_node \<Rightarrow> radix_node" where
  "remove_seq seq nd =
     nd\<lparr>seq_ids := seq_ids nd - {seq}, ready_seq_ids := ready_seq_ids nd - {seq},
        canonical_len := (if seq_ids nd - {seq} = {} then 0 else canonical_len nd)\<rparr>"

definition release_seq_id :: "radix_tree \<Rightarrow> ptr \<Rightarrow> seq_id \<Rightarrow> bool \<Rightarrow> (radix_tree \<times> bool) option" where
  "release_seq_id t node seq retain =
     (case node of
        None \<Rightarrow> Some (t, False)
      | Some n \<Rightarrow>
          do { nd \<leftarrow> heap t n;
               if seq \<notin> seq_ids nd then Some (t, False)
               else if retain \<and> seq \<in> ready_seq_ids nd \<and> card (seq_ids nd) \<le> 1 then Some (t, False)
               else Some (set_node t n (remove_seq seq nd), True) })"

definition attach_ready :: "seq_id \<Rightarrow> int \<Rightarrow> nat \<Rightarrow> radix_node \<Rightarrow> radix_node" where
  "attach_ready seq clen now nd =
     nd\<lparr>seq_ids := insert seq (seq_ids nd), ready_seq_ids := insert seq (ready_seq_ids nd),
        canonical_len := clen, last_access_tick := now\<rparr>"

definition extend_seq_id ::
  "radix_tree \<Rightarrow> ptr \<Rightarrow> seq_id \<Rightarrow> token list \<Rightarrow> int \<Rightarrow> (radix_tree \<times> ptr) option" where
  "extend_seq_id t node seq toks clen =
     (case node of
        None \<Rightarrow> Some (t, None)
      | Some n \<Rightarrow>
          do { nd0 \<leftarrow> heap t n;
               if toks = [] \<or> clen \<le> 0 \<or> clen > int (length toks) \<or>
                  seq \<notin> seq_ids nd0 \<or> seq \<notin> ready_seq_ids nd0 then Some (t, node)
               else
                 do { (t1, match) \<leftarrow> find_prefix_locked t toks;
                      (t2, target) \<leftarrow>
                         (if remaining match \<noteq> []
                          then add_leaf (t1\<lparr>tick := Suc (tick t1)\<rparr>) (match_node match)
                                 (remaining match) (Suc (tick t1))
                          else Some (t1, match_node match));
                      nd \<leftarrow> heap t2 n;
                      if target = n then
                        Some (set_node t2 n (nd\<lparr>canonical_len := clen\<rparr>), Some n)
                      else
                        do { tn \<leftarrow> heap t2 target;
                             Some (set_node (set_node (t2\<lparr>tick := Suc (tick t2)\<rparr>) n (remove_seq seq nd))
                                     target (attach_ready seq clen (Suc (tick t2)) tn),
                                   Some target) } } })"

section \<open>Lookup of a physical source\<close>

partial_function (option) ready_ancestor :: "radix_tree \<Rightarrow> ptr \<Rightarrow> (seq_id \<times> int) option option" where
  "ready_ancestor t node =
     (case node of
        None \<Rightarrow> Some None
      | Some n \<Rightarrow>
          do { nd \<leftarrow> heap t n;
               if ready_seq_ids nd \<noteq> {} then
                 do { depth \<leftarrow> cumulative_token_depth t node;
                      Some (Some (Min (ready_seq_ids nd), min (canonical_len nd) depth)) }
               else ready_ancestor t (parent nd) })"

text \<open>
  \<open>find_covering_seq_id_locked\<close> on each node of a list in turn, up to the first hit: the
  body of the function is the case of one node, its loop over the children the recursive
  call. The inner \<open>None\<close> is the code's \<open>-1\<close>.
\<close>

partial_function (option) covering_in_list ::
  "radix_tree \<Rightarrow> addr list \<Rightarrow> (seq_id \<times> int) option option" where
  "covering_in_list t nodes =
     (case nodes of
        [] \<Rightarrow> Some None
      | n # rest \<Rightarrow>
          do { above \<leftarrow> ready_ancestor t (Some n);
               case above of
                 Some r \<Rightarrow> Some (Some r)
               | None \<Rightarrow>
                   do { nd \<leftarrow> heap t n;
                        below \<leftarrow> covering_in_list t (map snd (children nd));
                        case below of
                          Some r \<Rightarrow> Some (Some r)
                        | None \<Rightarrow> covering_in_list t rest } })"

definition find_covering_seq_id :: "radix_tree \<Rightarrow> ptr \<Rightarrow> (seq_id \<times> int) option option" where
  "find_covering_seq_id t node =
     (case node of None \<Rightarrow> Some None | Some n \<Rightarrow> covering_in_list t [n])"

section \<open>Counters\<close>

definition active_sequence_count :: "radix_tree \<Rightarrow> int option" where
  "active_sequence_count t =
     visit_stack (\<lambda>_ nd c. c + int (card (seq_ids nd))) t [root_addr] 0"

definition retained_sequence_count :: "radix_tree \<Rightarrow> int option" where
  "retained_sequence_count t =
     visit_stack (\<lambda>_ nd c. if ref_count nd = 0 then c + int (card (ready_seq_ids nd)) else c)
       t [root_addr] 0"

definition node_count :: "radix_tree \<Rightarrow> int option" where
  "node_count t = visit_stack (\<lambda>_ _ c. c + 1) t [root_addr] 0"

text \<open>The equations of the loops are code equations, so that concrete runs can be evaluated.\<close>

declare find_prefix_loop.simps [code]
declare inspect_prefix_loop.simps [code]
declare prune_empty_leaves_locked.simps [code]
declare cumulative_token_depth.simps [code]
declare visit_stack.simps [code]
declare ready_ancestor.simps [code]
declare covering_in_list.simps [code]

end
