(* ===== verification/RF_RadixInv.thy ===== *)
theory RF_RadixInv
  imports RF_RadixTree
begin

text \<open>
  Well-formedness of the radix tree and its preservation by the operations that change
  the shape of the tree: splitting a node, adding a leaf, erasing a leaf.

  The shape invariant \<open>wf_shape t P\<close> uses a ghost function \<open>P\<close> from addresses to token
  paths. A node's path is its parent's path followed by its own non-empty tokens, so
  paths get longer downwards: the parent links have no cycle, and every loop along them
  stops. \<open>P\<close> is determined by the heap (\<open>node_path\<close>).
\<close>

section \<open>The invariant\<close>

definition wf_root :: "radix_tree \<Rightarrow> (addr \<Rightarrow> token list) \<Rightarrow> bool" where
  "wf_root t P \<longleftrightarrow> P root_addr = [] \<and>
     (\<exists>r. heap t root_addr = Some r \<and> parent r = None \<and> tokens r = [] \<and> 1 \<le> ref_count r)"

definition wf_up :: "radix_tree \<Rightarrow> (addr \<Rightarrow> token list) \<Rightarrow> bool" where
  "wf_up t P \<longleftrightarrow> (\<forall>n nd. heap t n = Some nd \<longrightarrow> n < next_addr t \<and>
     (n \<noteq> root_addr \<longrightarrow> (\<exists>p pn. parent nd = Some p \<and> heap t p = Some pn \<and> tokens nd \<noteq> [] \<and>
        map_of (children pn) (hd (tokens nd)) = Some n \<and> P n = P p @ tokens nd)))"

definition wf_down :: "radix_tree \<Rightarrow> bool" where
  "wf_down t \<longleftrightarrow> (\<forall>n nd. heap t n = Some nd \<longrightarrow> distinct (map fst (children nd)) \<and>
     (\<forall>k c. map_of (children nd) k = Some c \<longrightarrow> c \<noteq> root_addr \<and>
        (\<exists>cn. heap t c = Some cn \<and> parent cn = Some n \<and> hd (tokens cn) = k)))"

definition wf_shape :: "radix_tree \<Rightarrow> (addr \<Rightarrow> token list) \<Rightarrow> bool" where
  "wf_shape t P \<longleftrightarrow> wf_root t P \<and> wf_up t P \<and> wf_down t"

definition wf_node :: "nat \<Rightarrow> nat \<Rightarrow> radix_node \<Rightarrow> bool" where
  "wf_node now depth nd \<longleftrightarrow> 0 \<le> ref_count nd \<and> finite (seq_ids nd) \<and>
     ready_seq_ids nd \<subseteq> seq_ids nd \<and> last_access_tick nd \<le> now \<and>
     (if seq_ids nd = {} then canonical_len nd = 0 else int depth \<le> canonical_len nd)"

definition owners_disjoint :: "radix_tree \<Rightarrow> bool" where
  "owners_disjoint t \<longleftrightarrow> (\<forall>n m nd md s. heap t n = Some nd \<longrightarrow> heap t m = Some md \<longrightarrow>
     s \<in> seq_ids nd \<longrightarrow> s \<in> seq_ids md \<longrightarrow> n = m)"

definition wf_data :: "radix_tree \<Rightarrow> (addr \<Rightarrow> token list) \<Rightarrow> bool" where
  "wf_data t P \<longleftrightarrow> (\<forall>n nd. heap t n = Some nd \<longrightarrow> wf_node (tick t) (length (P n)) nd) \<and>
     owners_disjoint t"

definition wf_tree :: "radix_tree \<Rightarrow> (addr \<Rightarrow> token list) \<Rightarrow> bool" where
  "wf_tree t P \<longleftrightarrow> wf_shape t P \<and> wf_data t P"

text \<open>The path of a node, computed by following the parent links.\<close>

partial_function (option) node_path :: "radix_tree \<Rightarrow> addr \<Rightarrow> token list option" where
  "node_path t n =
     do { nd \<leftarrow> heap t n;
          case parent nd of
            None \<Rightarrow> Some (tokens nd)
          | Some p \<Rightarrow> do { xs \<leftarrow> node_path t p; Some (xs @ tokens nd) } }"

declare node_path.simps [code]

section \<open>Rules for the invariant\<close>

lemma wf_rootD:
  assumes "wf_shape t P"
  obtains r where "heap t root_addr = Some r" "parent r = None" "tokens r = []" "1 \<le> ref_count r"
    "P root_addr = []"
  using assms by (auto simp: wf_shape_def wf_root_def)

lemma wf_upD:
  assumes "wf_shape t P" "heap t n = Some nd" "n \<noteq> root_addr"
  obtains p pn where "parent nd = Some p" "heap t p = Some pn" "tokens nd \<noteq> []"
    "map_of (children pn) (hd (tokens nd)) = Some n" "P n = P p @ tokens nd"
  using assms unfolding wf_shape_def wf_up_def by blast

lemma wf_addr: "wf_shape t P \<Longrightarrow> heap t n = Some nd \<Longrightarrow> n < next_addr t"
  by (auto simp: wf_shape_def wf_up_def)

lemma wf_fresh: "wf_shape t P \<Longrightarrow> heap t (next_addr t) = None"
  by (metis less_irrefl not_Some_eq wf_addr)

lemma wf_downD:
  assumes "wf_shape t P" "heap t n = Some nd" "map_of (children nd) k = Some c"
  obtains cn where "heap t c = Some cn" "parent cn = Some n" "hd (tokens cn) = k"
    "c \<noteq> root_addr" "tokens cn \<noteq> []" "P c = P n @ tokens cn"
proof -
  obtain cn where cn: "heap t c = Some cn" "parent cn = Some n" "hd (tokens cn) = k" "c \<noteq> root_addr"
    using assms unfolding wf_shape_def wf_down_def by blast
  obtain p where "parent cn = Some p" "tokens cn \<noteq> []" "P c = P p @ tokens cn"
    by (rule wf_upD [OF assms(1) cn(1) cn(4)])
  with cn that show thesis by auto
qed

lemma wf_children_distinct:
  "wf_shape t P \<Longrightarrow> heap t n = Some nd \<Longrightarrow> distinct (map fst (children nd))"
  by (auto simp: wf_shape_def wf_down_def)

lemma wf_child_in:
  assumes "wf_shape t P" "heap t n = Some nd" "(k, c) \<in> set (children nd)"
  shows "map_of (children nd) k = Some c"
  using assms wf_children_distinct by fastforce

lemma wf_child_unique:
  assumes "wf_shape t P" "heap t n = Some nd" "heap t m = Some md"
    and "map_of (children nd) k = Some c" "map_of (children md) k' = Some c"
  shows "n = m \<and> k = k'"
proof -
  obtain cn where "heap t c = Some cn" "parent cn = Some n" "hd (tokens cn) = k"
    by (rule wf_downD [OF assms(1,2,4)])
  moreover obtain cm where "heap t c = Some cm" "parent cm = Some m" "hd (tokens cm) = k'"
    by (rule wf_downD [OF assms(1,3,5)])
  ultimately show ?thesis by simp
qed

lemma wf_finite_heap: "wf_shape t P \<Longrightarrow> finite (dom (heap t))"
  by (rule finite_subset [of _ "{..<next_addr t}"]) (auto dest: wf_addr)

lemma wf_shapeI:
  assumes "P root_addr = []" "heap t root_addr = Some r" "parent r = None" "tokens r = []"
    "1 \<le> ref_count r"
    and "\<And>n nd. heap t n = Some nd \<Longrightarrow> n < next_addr t"
    and "\<And>n nd. heap t n = Some nd \<Longrightarrow> n \<noteq> root_addr \<Longrightarrow>
      \<exists>p pn. parent nd = Some p \<and> heap t p = Some pn \<and> tokens nd \<noteq> [] \<and>
        map_of (children pn) (hd (tokens nd)) = Some n \<and> P n = P p @ tokens nd"
    and "\<And>n nd. heap t n = Some nd \<Longrightarrow> distinct (map fst (children nd))"
    and "\<And>n nd k c. heap t n = Some nd \<Longrightarrow> map_of (children nd) k = Some c \<Longrightarrow>
      c \<noteq> root_addr \<and> (\<exists>cn. heap t c = Some cn \<and> parent cn = Some n \<and> hd (tokens cn) = k)"
  shows "wf_shape t P"
  using assms unfolding wf_shape_def wf_root_def wf_up_def wf_down_def by blast

lemma wf_dataD:
  "wf_data t P \<Longrightarrow> heap t n = Some nd \<Longrightarrow> wf_node (tick t) (length (P n)) nd"
  by (simp add: wf_data_def)

lemma wf_owner:
  "wf_data t P \<Longrightarrow> heap t n = Some nd \<Longrightarrow> heap t m = Some md \<Longrightarrow>
   s \<in> seq_ids nd \<Longrightarrow> s \<in> seq_ids md \<Longrightarrow> n = m"
  by (auto simp: wf_data_def owners_disjoint_def)

section \<open>Paths\<close>

lemma child_path_longer:
  assumes "wf_shape t P" "heap t n = Some nd" "map_of (children nd) k = Some c"
  shows "length (P n) < length (P c)" "prefix (P n) (P c)" "P c ! length (P n) = k"
proof -
  obtain cn where "heap t c = Some cn" "hd (tokens cn) = k" "tokens cn \<noteq> []"
    "P c = P n @ tokens cn"
    by (rule wf_downD [OF assms])
  then show "length (P n) < length (P c)" "prefix (P n) (P c)" "P c ! length (P n) = k"
    by (simp_all add: hd_conv_nth nth_append)
qed


lemma path_nonempty:
  assumes "wf_shape t P" "heap t n = Some nd"
  shows "P n = [] \<longleftrightarrow> n = root_addr"
proof (cases "n = root_addr")
  case True
  with assms(1) show ?thesis by (auto elim: wf_rootD)
next
  case False
  then show ?thesis using wf_upD [OF assms False] by (metis append_is_Nil_conv)
qed

lemma node_path_eq:
  assumes "wf_shape t P" "heap t n = Some nd"
  shows "node_path t n = Some (P n)"
  using assms(2)
proof (induction "length (P n)" arbitrary: n nd rule: less_induct)
  case less
  show ?case
  proof (cases "n = root_addr")
    case True
    with less.prems assms(1) show ?thesis
      by (auto elim!: wf_rootD simp: node_path.simps)
  next
    case False
    obtain p pn where p: "parent nd = Some p" "heap t p = Some pn" "tokens nd \<noteq> []"
      "P n = P p @ tokens nd"
      by (rule wf_upD [OF assms(1) less.prems False])
    with less.hyps have "node_path t p = Some (P p)" by simp
    with p less.prems show ?thesis by (simp add: node_path.simps [of t n])
  qed
qed

lemma path_toward:
  assumes wf: "wf_shape t P"
    and "heap t n = Some nd" "heap t m = Some md" "prefix (P n) (P m)"
  shows "n = m \<or> (\<exists>c. map_of (children nd) (P m ! length (P n)) = Some c \<and> prefix (P c) (P m))"
  using assms(2-)
proof (induction "length (P m)" arbitrary: n m nd md rule: less_induct)
  case less
  note n = less.prems(1) and m = less.prems(2) and pre = less.prems(3)
  have IH: "a = b \<or> (\<exists>c. map_of (children ad) (P b ! length (P a)) = Some c \<and> prefix (P c) (P b))"
    if "length (P b) < length (P m)" "heap t a = Some ad" "heap t b = Some bd" "prefix (P a) (P b)"
    for a b ad bd using less.hyps that by blast
  show ?case
  proof (cases "n = m")
    case False
    have m0: "m \<noteq> root_addr"
      using False pre path_nonempty [OF wf n] path_nonempty [OF wf m] by fastforce
    obtain p pn where p: "heap t p = Some pn" "tokens md \<noteq> []"
      "map_of (children pn) (hd (tokens md)) = Some m" "P m = P p @ tokens md"
      by (rule wf_upD [OF wf m m0])
    have lenp: "length (P p) < length (P m)" using p by simp
    have hdm: "P m ! length (P p) = hd (tokens md)" using p by (simp add: hd_conv_nth nth_append)
    consider (above) "prefix (P n) (P p)" | (below) "prefix (P p) (P n)" "length (P p) < length (P n)"
    proof (cases "length (P n) \<le> length (P p)")
      case True
      with pre p(4) above show thesis by (metis prefixI prefix_length_prefix)
    next
      case False
      with pre p(4) below show thesis by (metis not_le_imp_less order_less_imp_le prefixI prefix_length_prefix)
    qed
    then show ?thesis
    proof cases
      case above
      from IH [OF lenp n p(1) above] show ?thesis
      proof
        assume "n = p" then show ?thesis using p hdm n by auto
      next
        assume "\<exists>c. map_of (children nd) (P p ! length (P n)) = Some c \<and> prefix (P c) (P p)"
        then obtain c where c: "map_of (children nd) (P p ! length (P n)) = Some c" "prefix (P c) (P p)"
          by blast
        have "length (P n) < length (P c)" by (rule child_path_longer [OF wf n c(1)])
        then have "P p ! length (P n) = P m ! length (P n)"
          using c(2) p(4) by (metis nth_append order_less_le_trans prefix_length_le)
        then show ?thesis using c p(4) by (metis append_prefixD prefixI prefix_order.trans)
      qed
    next
      case below
      show ?thesis
      proof (cases "length (P n) < length (P m)")
        case True
        from IH [OF True p(1) n below(1)] below(2)
        obtain c where c: "map_of (children pn) (P n ! length (P p)) = Some c" "prefix (P c) (P n)"
          by auto
        have "P n ! length (P p) = hd (tokens md)"
          using below(2) pre hdm by (metis prefix_nth)
        with c p(3) have "prefix (P m) (P n)" by simp
        with True show ?thesis by (auto dest: prefix_length_le)
      next
        case False
        with pre have eq: "P n = P m"
          by (metis not_equal_is_parallel prefix_length_le prefix_order.eq_iff
              nat_less_le prefix_length_less strict_prefixI)
        have n0: "n \<noteq> root_addr" using eq path_nonempty [OF wf n] path_nonempty [OF wf m] m0 by simp
        obtain q qn where q: "heap t q = Some qn" "tokens nd \<noteq> []"
          "map_of (children qn) (hd (tokens nd)) = Some n" "P n = P q @ tokens nd"
          by (rule wf_upD [OF wf n n0])
        have lenq: "length (P q) < length (P m)" using q eq by simp
        have hdn: "P n ! length (P q) = hd (tokens nd)" using q by (simp add: hd_conv_nth nth_append)
        have "prefix (P q) (P p) \<or> prefix (P p) (P q)"
          using q(4) p(4) eq by (metis prefix_same_cases prefixI)
        then show ?thesis
        proof
          assume qp: "prefix (P q) (P p)"
          from IH [OF lenp q(1) p(1) qp] show ?thesis
          proof
            assume "q = p"
            then show ?thesis using p q eq by auto
          next
            assume "\<exists>c. map_of (children qn) (P p ! length (P q)) = Some c \<and> prefix (P c) (P p)"
            then obtain c where c: "map_of (children qn) (P p ! length (P q)) = Some c" "prefix (P c) (P p)"
              by blast
            have "length (P q) < length (P p)"
              using child_path_longer(1) [OF wf q(1) c(1)] prefix_length_le [OF c(2)] by simp
            then have "P p ! length (P q) = hd (tokens nd)" using p(4) eq hdn by (metis nth_append)
            with c q(3) have "prefix (P n) (P p)" by simp
            then show ?thesis using eq lenp by (auto dest: prefix_length_le)
          qed
        next
          assume pq: "prefix (P p) (P q)"
          from IH [OF lenq p(1) q(1) pq] show ?thesis
          proof
            assume "p = q"
            then show ?thesis using p q eq by auto
          next
            assume "\<exists>c. map_of (children pn) (P q ! length (P p)) = Some c \<and> prefix (P c) (P q)"
            then obtain c where c: "map_of (children pn) (P q ! length (P p)) = Some c" "prefix (P c) (P q)"
              by blast
            have "length (P p) < length (P q)"
              using child_path_longer(1) [OF wf p(1) c(1)] prefix_length_le [OF c(2)] by simp
            then have "P q ! length (P p) = hd (tokens md)" using q(4) eq hdm by (metis nth_append)
            with c p(3) have "prefix (P m) (P q)" by simp
            then show ?thesis using lenq by (auto dest: prefix_length_le)
          qed
        qed
      qed
    qed
  qed simp
qed

lemma path_inj:
  assumes "wf_shape t P" "heap t n = Some nd" "heap t m = Some md" "P n = P m"
  shows "n = m"
proof (rule ccontr)
  assume "n \<noteq> m"
  then obtain c where "map_of (children nd) (P m ! length (P n)) = Some c" "prefix (P c) (P m)"
    using path_toward [OF assms(1-3)] assms(4) by auto
  then show False
    using child_path_longer(1) [OF assms(1,2)] assms(4) prefix_length_le
    by (metis leD)
qed

section \<open>Splitting a node\<close>

lemma reparent_heap:
  assumes "\<forall>c \<in> snd ` set cs. heap t c \<noteq> None"
  shows "reparent p cs t = Some (t\<lparr>heap := (\<lambda>x. if x \<in> snd ` set cs
     then map_option (\<lambda>cn. cn\<lparr>parent := Some p\<rparr>) (heap t x) else heap t x)\<rparr>)"
  using assms
proof (induction cs arbitrary: t)
  case Nil
  then show ?case by simp
next
  case (Cons kc cs)
  obtain k c where kc: "kc = (k, c)" by (cases kc)
  obtain cn where cn: "heap t c = Some cn" using Cons.prems kc by auto
  let ?t = "set_node t c (cn\<lparr>parent := Some p\<rparr>)"
  have "\<forall>c \<in> snd ` set cs. heap ?t c \<noteq> None" using Cons.prems by (auto simp: set_node_def)
  from Cons.IH [OF this] cn kc show ?case
    by (auto simp: set_node_def fun_eq_iff)
qed

definition split_suffix :: "addr \<Rightarrow> radix_node \<Rightarrow> nat \<Rightarrow> radix_node" where
  "split_suffix n nd pos = \<lparr>tokens = drop pos (tokens nd), ref_count = 0, seq_ids = {},
     ready_seq_ids = {}, last_access_tick = last_access_tick nd, canonical_len = 0,
     children = children nd, parent = Some n\<rparr>"

definition split_prefix :: "radix_node \<Rightarrow> nat \<Rightarrow> addr \<Rightarrow> radix_node" where
  "split_prefix nd pos s = nd\<lparr>tokens := take pos (tokens nd),
     children := [(hd (drop pos (tokens nd)), s)]\<rparr>"

definition split_heap :: "radix_tree \<Rightarrow> addr \<Rightarrow> radix_node \<Rightarrow> nat \<Rightarrow> addr \<Rightarrow> radix_node option" where
  "split_heap t n nd pos x =
     (if x = n then Some (split_prefix nd pos (next_addr t))
      else if x = next_addr t then Some (split_suffix n nd pos)
      else if x \<in> snd ` set (children nd)
      then map_option (\<lambda>cn. cn\<lparr>parent := Some (next_addr t)\<rparr>) (heap t x)
      else heap t x)"

definition split_paths ::
  "radix_tree \<Rightarrow> (addr \<Rightarrow> token list) \<Rightarrow> addr \<Rightarrow> radix_node \<Rightarrow> nat \<Rightarrow> addr \<Rightarrow> token list" where
  "split_paths t P n nd pos =
     P(next_addr t := P n, n := take (length (P n) - length (tokens nd) + pos) (P n))"

lemma parent_path:
  assumes "wf_shape t P" "heap t x = Some xd" "parent xd = Some y"
  shows "x \<noteq> root_addr" "length (P y) < length (P x)"
    "\<exists>yd. heap t y = Some yd \<and> map_of (children yd) (hd (tokens xd)) = Some x"
proof -
  show x: "x \<noteq> root_addr" using assms by (auto elim: wf_rootD)
  obtain p pn where "parent xd = Some p" "heap t p = Some pn" "tokens xd \<noteq> []"
    "map_of (children pn) (hd (tokens xd)) = Some x" "P x = P p @ tokens xd"
    by (rule wf_upD [OF assms(1,2) x])
  with assms(3) show "length (P y) < length (P x)"
    "\<exists>yd. heap t y = Some yd \<and> map_of (children yd) (hd (tokens xd)) = Some x" by auto
qed

lemma child_in_heap:
  assumes "wf_shape t P" "heap t n = Some nd" "c \<in> snd ` set (children nd)"
  shows "\<exists>k cn. map_of (children nd) k = Some c \<and> heap t c = Some cn \<and> parent cn = Some n \<and>
    c \<noteq> root_addr \<and> c \<noteq> n \<and> hd (tokens cn) = k"
proof -
  obtain k where k: "map_of (children nd) k = Some c"
    using assms wf_child_in by fastforce
  obtain cn where "heap t c = Some cn" "parent cn = Some n" "hd (tokens cn) = k"
    "c \<noteq> root_addr" "tokens cn \<noteq> []" "P c = P n @ tokens cn"
    by (rule wf_downD [OF assms(1,2) k])
  then show ?thesis using k child_path_longer(1) [OF assms(1,2) k] by auto
qed

lemma split_node_eq:
  assumes "wf_shape t P" "heap t n = Some nd" "pos < length (tokens nd)"
  shows "split_node t n pos =
    Some (t\<lparr>heap := split_heap t n nd pos, next_addr := Suc (next_addr t)\<rparr>)"
proof -
  let ?t = "alloc_node t (split_suffix n nd pos)"
  have in_heap: "\<forall>c \<in> snd ` set (children nd). heap ?t c \<noteq> None"
    using child_in_heap [OF assms(1,2)] by (fastforce simp: alloc_node_def)
  have fresh: "next_addr t \<notin> snd ` set (children nd)"
    using child_in_heap [OF assms(1,2)] wf_fresh [OF assms(1)] by fastforce
  have "first_of (drop pos (tokens nd)) = Some (hd (drop pos (tokens nd)))"
    using assms(3) by (simp add: first_of_nonempty)
  then show ?thesis
    using assms(2) reparent_heap [OF in_heap] fresh
    by (auto simp: split_node_def split_suffix_def [symmetric] split_prefix_def [symmetric]
        set_node_def alloc_node_def split_heap_def fun_eq_iff)
qed

lemma split_node_wf:
  assumes wf: "wf_shape t P" and n: "heap t n = Some nd" "n \<noteq> root_addr"
    and pos: "0 < pos" "pos < length (tokens nd)"
  shows "wf_shape (t\<lparr>heap := split_heap t n nd pos, next_addr := Suc (next_addr t)\<rparr>)
           (split_paths t P n nd pos)"
proof -
  define s where "s = next_addr t"
  define P' where "P' = split_paths t P n nd pos"
  have s_fresh: "heap t s = None" unfolding s_def by (rule wf_fresh [OF wf])
  have sn: "s \<noteq> n" using s_fresh n by auto
  obtain p pn where p: "parent nd = Some p" "heap t p = Some pn" "tokens nd \<noteq> []"
    "map_of (children pn) (hd (tokens nd)) = Some n" "P n = P p @ tokens nd"
    by (rule wf_upD [OF wf n])
  have pnn: "p \<noteq> n" using p by auto
  have P'n: "P' n = P p @ take pos (tokens nd)" and P's: "P' s = P n"
    and P'o: "\<And>x. x \<noteq> n \<Longrightarrow> x \<noteq> s \<Longrightarrow> P' x = P x"
    using p(5) pos sn by (auto simp: P'_def split_paths_def s_def)
  have s_root: "s \<noteq> root_addr" using s_fresh wf by (auto elim: wf_rootD)
  let ?h = "split_heap t n nd pos"
  have hn: "?h n = Some (split_prefix nd pos s)" by (simp add: split_heap_def s_def)
  have hs: "?h s = Some (split_suffix n nd pos)" using sn by (auto simp: split_heap_def s_def)
  have hc: "?h c = Some (cn\<lparr>parent := Some s\<rparr>)"
    if "heap t c = Some cn" "map_of (children nd) k = Some c" for c cn k
    using that child_path_longer(1) [OF wf n(1) that(2)] s_fresh map_of_SomeD [OF that(2)]
    by (force simp: split_heap_def s_def)
  have ho: "?h x = Some xd"
    if "x \<noteq> n" "heap t x = Some xd" "parent xd \<noteq> Some n" for x xd
    using that child_in_heap [OF wf n(1)] s_fresh by (fastforce simp: split_heap_def s_def)
  have hp: "?h p = Some pn"
    using ho [OF pnn p(2)] parent_path(2) [OF wf p(2)] parent_path(2) [OF wf n(1) p(1)] by force
  have cases: "(x = n \<and> xd = split_prefix nd pos s) \<or> (x = s \<and> xd = split_suffix n nd pos) \<or>
     (x \<noteq> n \<and> x \<noteq> s \<and> (\<exists>x0. heap t x = Some x0 \<and> parent x0 = Some n \<and>
        map_of (children nd) (hd (tokens x0)) = Some x \<and> xd = x0\<lparr>parent := Some s\<rparr>)) \<or>
     (x \<noteq> n \<and> x \<noteq> s \<and> heap t x = Some xd \<and> parent xd \<noteq> Some n)"
    if "?h x = Some xd" for x xd
  proof (cases "x = n \<or> x = s")
    case True
    then show ?thesis using that hn hs by auto
  next
    case False
    show ?thesis
    proof (cases "x \<in> snd ` set (children nd)")
      case True
      with child_in_heap [OF wf n(1) True] False that show ?thesis
        by (auto simp: split_heap_def s_def)
    next
      case out: False
      then have x: "heap t x = Some xd" using False that by (auto simp: split_heap_def s_def)
      have "parent xd \<noteq> Some n"
        using parent_path(3) [OF wf x] out n(1) by (force dest: map_of_SomeD)
      with x False show ?thesis by simp
    qed
  qed
  obtain r where r: "heap t root_addr = Some r" "parent r = None" "tokens r = []"
    "1 \<le> ref_count r" "P root_addr = []" by (rule wf_rootD [OF wf])
  show ?thesis unfolding P'_def [symmetric]
  proof (rule wf_shapeI)
    show "P' root_addr = []" using P'o s_root n(2) r(5) by metis
    show "heap (t\<lparr>heap := ?h, next_addr := Suc (next_addr t)\<rparr>) root_addr = Some r"
      using ho [OF n(2) [symmetric] r(1)] r(2) by simp
    show "parent r = None" "tokens r = []" "1 \<le> ref_count r" using r by auto
  next
    fix x xd assume x: "heap (t\<lparr>heap := ?h, next_addr := Suc (next_addr t)\<rparr>) x = Some xd"
    then have x: "?h x = Some xd" by simp
    show "x < next_addr (t\<lparr>heap := ?h, next_addr := Suc (next_addr t)\<rparr>)"
      using cases [OF x] wf_addr [OF wf] n by (auto simp: s_def less_Suc_eq)
    show "distinct (map fst (children xd))"
      using cases [OF x] wf_children_distinct [OF wf] n
      by (auto simp: split_prefix_def split_suffix_def)
  next
    fix x xd assume x: "heap (t\<lparr>heap := ?h, next_addr := Suc (next_addr t)\<rparr>) x = Some xd"
      and x0: "x \<noteq> root_addr"
    then have x: "?h x = Some xd" by simp
    from cases [OF x] show "\<exists>q qd. parent xd = Some q \<and>
        heap (t\<lparr>heap := ?h, next_addr := Suc (next_addr t)\<rparr>) q = Some qd \<and>
        tokens xd \<noteq> [] \<and> map_of (children qd) (hd (tokens xd)) = Some x \<and> P' x = P' q @ tokens xd"
    proof (elim disjE conjE exE)
      assume "x = n" "xd = split_prefix nd pos s"
      moreover have "p \<noteq> s" using p(2) s_fresh by auto
      ultimately show ?thesis using p hp pos P'n P'o [OF pnn]
        by (auto simp: split_prefix_def hd_take)
    next
      assume "x = s" "xd = split_suffix n nd pos"
      then show ?thesis using hn pos P'n P's p(5)
        by (auto simp: split_suffix_def split_prefix_def)
    next
      fix c0 assume c: "x \<noteq> n" "x \<noteq> s" "heap t x = Some c0" "parent c0 = Some n"
        "map_of (children nd) (hd (tokens c0)) = Some x" "xd = c0\<lparr>parent := Some s\<rparr>"
      obtain q qn where "parent c0 = Some q" "heap t q = Some qn" "tokens c0 \<noteq> []"
        "map_of (children qn) (hd (tokens c0)) = Some x" "P x = P q @ tokens c0"
        by (rule wf_upD [OF wf c(3) x0])
      then show ?thesis using c hs P's P'o [OF c(1,2)]
        by (auto simp: split_suffix_def)
    next
      assume c: "x \<noteq> n" "x \<noteq> s" "heap t x = Some xd" "parent xd \<noteq> Some n"
      obtain q qn where q: "parent xd = Some q" "heap t q = Some qn" "tokens xd \<noteq> []"
        "map_of (children qn) (hd (tokens xd)) = Some x" "P x = P q @ tokens xd"
        by (rule wf_upD [OF wf c(3) x0])
      have qo: "q \<noteq> n" "q \<noteq> s" using c q s_fresh by auto
      obtain qd where "?h q = Some qd" "children qd = children qn"
        using qo q(2) by (cases "q \<in> snd ` set (children nd)") (auto simp: split_heap_def s_def)
      then show ?thesis using q P'o [OF c(1,2)] P'o [OF qo] by auto
    qed
  next
    fix x xd k c assume x: "heap (t\<lparr>heap := ?h, next_addr := Suc (next_addr t)\<rparr>) x = Some xd"
      and k: "map_of (children xd) k = Some c"
    then have x: "?h x = Some xd" by simp
    from cases [OF x] show "c \<noteq> root_addr \<and>
        (\<exists>cn. heap (t\<lparr>heap := ?h, next_addr := Suc (next_addr t)\<rparr>) c = Some cn \<and>
           parent cn = Some x \<and> hd (tokens cn) = k)"
    proof (elim disjE conjE exE)
      assume "x = n" "xd = split_prefix nd pos s"
      then show ?thesis using k hs s_root
        by (auto simp: split_prefix_def split_suffix_def split: if_splits)
    next
      assume "x = s" "xd = split_suffix n nd pos"
      with k have "map_of (children nd) k = Some c" by (simp add: split_suffix_def)
      moreover from this obtain cn where "heap t c = Some cn" "parent cn = Some n" "hd (tokens cn) = k"
        "c \<noteq> root_addr" "tokens cn \<noteq> []" "P c = P n @ tokens cn"
        by (rule wf_downD [OF wf n(1)])
      ultimately show ?thesis using hc \<open>x = s\<close> by auto
    next
      fix c0 assume c: "x \<noteq> n" "x \<noteq> s" "heap t x = Some c0" "xd = c0\<lparr>parent := Some s\<rparr>"
      with k have k0: "map_of (children c0) k = Some c" by simp
      obtain cn where "heap t c = Some cn" "parent cn = Some x" "hd (tokens cn) = k"
        "c \<noteq> root_addr" "tokens cn \<noteq> []" "P c = P x @ tokens cn"
        by (rule wf_downD [OF wf c(3) k0])
      then show ?thesis using ho c n(1) s_fresh sn
        by (cases "c = n") (use hn in \<open>auto simp: split_prefix_def hd_take pos\<close>)
    next
      assume c: "x \<noteq> n" "x \<noteq> s" "heap t x = Some xd" "parent xd \<noteq> Some n"
      obtain cn where "heap t c = Some cn" "parent cn = Some x" "hd (tokens cn) = k"
        "c \<noteq> root_addr" "tokens cn \<noteq> []" "P c = P x @ tokens cn"
        by (rule wf_downD [OF wf c(3) k])
      then show ?thesis using ho c n(1)
        by (cases "c = n") (use hn in \<open>auto simp: split_prefix_def hd_take pos\<close>)
    qed
  qed
qed

section \<open>Changing the data of one node\<close>

text \<open>The fields the shape depends on.\<close>

definition same_shape :: "radix_node \<Rightarrow> radix_node \<Rightarrow> bool" where
  "same_shape nd nd' \<longleftrightarrow>
     tokens nd' = tokens nd \<and> children nd' = children nd \<and> parent nd' = parent nd"

lemma set_node_heap [simp]: "heap (set_node t n nd) = (heap t)(n \<mapsto> nd)"
  and set_node_tick [simp]: "tick (set_node t n nd) = tick t"
  and set_node_next [simp]: "next_addr (set_node t n nd) = next_addr t"
  by (simp_all add: set_node_def)

lemma wf_shape_cong:
  assumes wf: "wf_shape t P" and next_eq: "next_addr t' = next_addr t"
    and same: "\<And>x xd'. heap t' x = Some xd' \<Longrightarrow> \<exists>xd. heap t x = Some xd \<and> same_shape xd xd'"
    and same': "\<And>x xd. heap t x = Some xd \<Longrightarrow> \<exists>xd'. heap t' x = Some xd' \<and> same_shape xd xd'"
    and root: "\<And>r. heap t' root_addr = Some r \<Longrightarrow> 1 \<le> ref_count r"
  shows "wf_shape t' P"
proof -
  obtain r0 where "heap t root_addr = Some r0" "parent r0 = None" "tokens r0 = []"
    "1 \<le> ref_count r0" and P0: "P root_addr = []" by (rule wf_rootD [OF wf])
  then obtain r where r: "heap t' root_addr = Some r" "parent r = None" "tokens r = []"
    using same' by (force simp: same_shape_def)
  show ?thesis
  proof (rule wf_shapeI [where P = P and r = r])
    show "P root_addr = []" "heap t' root_addr = Some r" "parent r = None" "tokens r = []"
      "1 \<le> ref_count r" using P0 r root [OF r(1)] by auto
  next
    fix x xd' assume "heap t' x = Some xd'"
    then obtain xd where x: "heap t x = Some xd" "same_shape xd xd'" using same by blast
    show "x < next_addr t'" using wf_addr [OF wf x(1)] next_eq by simp
    show "distinct (map fst (children xd'))"
      using wf_children_distinct [OF wf x(1)] x(2) by (simp add: same_shape_def)
    show "\<exists>p pn. parent xd' = Some p \<and> heap t' p = Some pn \<and> tokens xd' \<noteq> [] \<and>
        map_of (children pn) (hd (tokens xd')) = Some x \<and> P x = P p @ tokens xd'" if x0: "x \<noteq> root_addr"
    proof -
      obtain p pn where p: "parent xd = Some p" "heap t p = Some pn" "tokens xd \<noteq> []"
        "map_of (children pn) (hd (tokens xd)) = Some x" "P x = P p @ tokens xd"
        by (rule wf_upD [OF wf x(1) x0])
      with same' [OF p(2)] x(2) show ?thesis by (auto simp: same_shape_def)
    qed
    show "c \<noteq> root_addr \<and> (\<exists>cn. heap t' c = Some cn \<and> parent cn = Some x \<and> hd (tokens cn) = k)"
      if k: "map_of (children xd') k = Some c" for k c
    proof -
      have k: "map_of (children xd) k = Some c" using k x(2) by (simp add: same_shape_def)
      obtain cn where c: "heap t c = Some cn" "parent cn = Some x" "hd (tokens cn) = k"
        "c \<noteq> root_addr" "tokens cn \<noteq> []" "P c = P x @ tokens cn"
        by (rule wf_downD [OF wf x(1) k])
      with same' [OF c(1)] show ?thesis by (auto simp: same_shape_def)
    qed
  qed
qed

lemma wf_shape_set_node:
  assumes "wf_shape t P" "heap t n = Some nd" "same_shape nd nd'"
    and "n = root_addr \<Longrightarrow> 1 \<le> ref_count nd'"
  shows "wf_shape (set_node t n nd') P"
proof -
  obtain r where r: "heap t root_addr = Some r" "1 \<le> ref_count r" using wf_rootD [OF assms(1)] by metis
  show ?thesis
  proof (rule wf_shape_cong [OF assms(1)])
    show "\<exists>xd. heap t x = Some xd \<and> same_shape xd xd'" if "heap (set_node t n nd') x = Some xd'" for x xd'
      using that assms(2,3) by (cases "x = n") (auto simp: same_shape_def)
    show "\<exists>xd'. heap (set_node t n nd') x = Some xd' \<and> same_shape xd xd'" if "heap t x = Some xd" for x xd
      using that assms(2,3) by (cases "x = n") (auto simp: same_shape_def)
    show "1 \<le> ref_count rd" if "heap (set_node t n nd') root_addr = Some rd" for rd
      using that assms(4) r by (cases "n = root_addr") auto
  qed simp
qed

section \<open>Adding and erasing a leaf\<close>

definition leaf_heap :: "radix_tree \<Rightarrow> addr \<Rightarrow> radix_node \<Rightarrow> token list \<Rightarrow> nat \<Rightarrow> addr \<rightharpoonup> radix_node" where
  "leaf_heap t p pn rest now = (heap t)
     (next_addr t \<mapsto> empty_node\<lparr>tokens := rest, parent := Some p, last_access_tick := now\<rparr>,
      p \<mapsto> pn\<lparr>children := AList.update (hd rest) (next_addr t) (children pn)\<rparr>)"

lemma add_leaf_eq:
  assumes "heap t p = Some pn" "rest \<noteq> []"
  shows "add_leaf t p rest now =
    Some (t\<lparr>heap := leaf_heap t p pn rest now, next_addr := Suc (next_addr t)\<rparr>, next_addr t)"
  using assms by (simp add: add_leaf_def leaf_heap_def first_of_nonempty alloc_node_def set_node_def)

lemma add_leaf_wf:
  assumes wf: "wf_shape t P" and p: "heap t p = Some pn" and rest: "rest \<noteq> []"
    and new: "map_of (children pn) (hd rest) = None"
  shows "wf_shape (t\<lparr>heap := leaf_heap t p pn rest now, next_addr := Suc (next_addr t)\<rparr>)
           (P(next_addr t := P p @ rest))" (is "wf_shape ?t ?P")
proof -
  let ?s = "next_addr t"
  have s: "heap t ?s = None" by (rule wf_fresh [OF wf])
  then have sp: "?s \<noteq> p" using p by auto
  obtain r where r: "heap t root_addr = Some r" "parent r = None" "tokens r = []"
    "1 \<le> ref_count r" "P root_addr = []" by (rule wf_rootD [OF wf])
  have s_root: "?s \<noteq> root_addr" using r s by auto
  let ?r = "if p = root_addr then r\<lparr>children := AList.update (hd rest) ?s (children r)\<rparr> else r"
  have up: "\<exists>q qn. parent xd = Some q \<and> heap ?t q = Some qn \<and> tokens xd \<noteq> [] \<and>
      map_of (children qn) (hd (tokens xd)) = Some x \<and> P x = P q @ tokens xd \<and> q \<noteq> ?s"
    if x: "heap t x = Some xd" "x \<noteq> root_addr" for x xd
  proof -
    obtain q qn where q: "parent xd = Some q" "heap t q = Some qn" "tokens xd \<noteq> []"
      "map_of (children qn) (hd (tokens xd)) = Some x" "P x = P q @ tokens xd"
      by (rule wf_upD [OF wf x])
    moreover have "q \<noteq> ?s" using q s by auto
    ultimately show ?thesis using p new by (auto simp: leaf_heap_def)
  qed
  have down: "c \<noteq> root_addr \<and> c \<noteq> ?s \<and> (\<exists>cn. heap ?t c = Some cn \<and> parent cn = Some x \<and> hd (tokens cn) = k)"
    if x: "heap t x = Some xd" "map_of (children xd) k = Some c" for x xd k c
  proof -
    obtain cn where "heap t c = Some cn" "parent cn = Some x" "hd (tokens cn) = k"
      "c \<noteq> root_addr" "tokens cn \<noteq> []" "P c = P x @ tokens cn"
      by (rule wf_downD [OF wf x])
    then show ?thesis using s p by (auto simp: leaf_heap_def)
  qed
  show ?thesis
  proof (rule wf_shapeI [where r = ?r])
    show "?P root_addr = []" using r s_root by simp
    show "heap ?t root_addr = Some ?r" using r s_root p by (auto simp: leaf_heap_def)
    show "parent ?r = None" "tokens ?r = []" "1 \<le> ref_count ?r" using r by auto
  next
    fix x xd assume x: "heap ?t x = Some xd"
    then show "x < next_addr ?t"
      using wf_addr [OF wf] p by (auto simp: leaf_heap_def less_Suc_eq split: if_splits)
    show "distinct (map fst (children xd))"
      using x wf_children_distinct [OF wf] p
      by (auto simp: leaf_heap_def empty_node_def AList.distinct_update split: if_splits)
    show "\<exists>q qn. parent xd = Some q \<and> heap ?t q = Some qn \<and> tokens xd \<noteq> [] \<and>
        map_of (children qn) (hd (tokens xd)) = Some x \<and> ?P x = ?P q @ tokens xd" if "x \<noteq> root_addr"
    proof (cases "x = ?s")
      case True
      then show ?thesis using x sp rest p by (intro exI [of _ p]) (auto simp: leaf_heap_def)
    next
      case False
      with x obtain x0 where "heap t x = Some x0" "tokens xd = tokens x0" "parent xd = parent x0"
        using p by (auto simp: leaf_heap_def split: if_splits)
      then show ?thesis using up [OF _ that] False by fastforce
    qed
    show "c \<noteq> root_addr \<and> (\<exists>cn. heap ?t c = Some cn \<and> parent cn = Some x \<and> hd (tokens cn) = k)"
      if k: "map_of (children xd) k = Some c" for k c
    proof (cases "x = p \<and> k = hd rest")
      case True
      then have "c = ?s" using x k p by (auto simp: leaf_heap_def)
      then show ?thesis using True s_root sp by (auto simp: leaf_heap_def)
    next
      case False
      then obtain x0 where "heap t x = Some x0" "map_of (children x0) k = Some c"
        using x k p by (auto simp: leaf_heap_def empty_node_def split: if_splits)
      then show ?thesis using down by blast
    qed
  qed
qed

definition erase_heap :: "radix_tree \<Rightarrow> addr \<Rightarrow> addr \<Rightarrow> radix_node \<Rightarrow> token \<Rightarrow> addr \<rightharpoonup> radix_node" where
  "erase_heap t n p pn key =
     ((heap t)(p \<mapsto> pn\<lparr>children := AList.delete key (children pn)\<rparr>))(n := None)"

lemma erase_child_eq:
  assumes "heap t p = Some pn" "map_of (children pn) key = Some n" "heap t n = Some nd" "children nd = []"
  shows "erase_child t p key = Some (t\<lparr>heap := erase_heap t n p pn key\<rparr>)"
  using assms by (simp add: erase_child_def erase_heap_def)

lemma erase_child_wf:
  assumes wf: "wf_shape t P" and n: "heap t n = Some nd" "children nd = []"
    and p: "heap t p = Some pn" and key: "map_of (children pn) key = Some n"
  shows "wf_shape (t\<lparr>heap := erase_heap t n p pn key\<rparr>) P" (is "wf_shape ?t P")
proof -
  obtain cn where cn: "heap t n = Some cn" "parent cn = Some p" "hd (tokens cn) = key"
    "n \<noteq> root_addr" "tokens cn \<noteq> []" "P n = P p @ tokens cn"
    by (rule wf_downD [OF wf p key])
  then have np: "n \<noteq> p" by auto
  obtain r where r: "heap t root_addr = Some r" "parent r = None" "tokens r = []"
    "1 \<le> ref_count r" "P root_addr = []" by (rule wf_rootD [OF wf])
  let ?r = "if p = root_addr then r\<lparr>children := AList.delete key (children r)\<rparr> else r"
  have unique: "k = key \<and> x = p" if "heap t x = Some xd" "map_of (children xd) k = Some n" for x xd k
    using wf_child_unique [OF wf that(1) p that(2) key] by simp
  show ?thesis
  proof (rule wf_shapeI [where P = P and r = ?r])
    show "P root_addr = []" by (rule r(5))
    show "heap ?t root_addr = Some ?r" using r cn(4) p by (auto simp: erase_heap_def)
    show "parent ?r = None" "tokens ?r = []" "1 \<le> ref_count ?r" using r by auto
  next
    fix x xd assume x: "heap ?t x = Some xd"
    then obtain x0 where x0: "heap t x = Some x0" "tokens xd = tokens x0" "parent xd = parent x0"
      "x \<noteq> n" "x \<noteq> p \<Longrightarrow> xd = x0"
      using p by (auto simp: erase_heap_def split: if_splits)
    show "x < next_addr ?t" using wf_addr [OF wf x0(1)] by simp
    show "distinct (map fst (children xd))"
      using x wf_children_distinct [OF wf] p
      by (auto simp: erase_heap_def distinct_delete split: if_splits)
    show "\<exists>q qn. parent xd = Some q \<and> heap ?t q = Some qn \<and> tokens xd \<noteq> [] \<and>
        map_of (children qn) (hd (tokens xd)) = Some x \<and> P x = P q @ tokens xd" if nr: "x \<noteq> root_addr"
    proof -
      obtain q qn where q: "parent x0 = Some q" "heap t q = Some qn" "tokens x0 \<noteq> []"
        "map_of (children qn) (hd (tokens x0)) = Some x" "P x = P q @ tokens x0"
        by (rule wf_upD [OF wf x0(1) nr])
      have "q \<noteq> n" using q(2,4) n by auto
      then show ?thesis using q x0 p key by (auto simp: erase_heap_def)
    qed
    show "c \<noteq> root_addr \<and> (\<exists>cn. heap ?t c = Some cn \<and> parent cn = Some x \<and> hd (tokens cn) = k)"
      if k: "map_of (children xd) k = Some c" for k c
    proof -
      have k0: "map_of (children x0) k = Some c" and nk: "\<not> (x = p \<and> k = key)"
        using k x p x0 by (auto simp: erase_heap_def split: if_splits)
      obtain c0 where c0: "heap t c = Some c0" "parent c0 = Some x" "hd (tokens c0) = k"
        "c \<noteq> root_addr" "tokens c0 \<noteq> []" "P c = P x @ tokens c0"
        by (rule wf_downD [OF wf x0(1) k0])
      have "c \<noteq> n" using unique [OF x0(1)] k0 nk by auto
      then show ?thesis using c0 p by (auto simp: erase_heap_def)
    qed
  qed
qed

section \<open>The data invariant under change of shape\<close>

definition same_data :: "radix_node \<Rightarrow> radix_node \<Rightarrow> bool" where
  "same_data nd nd' \<longleftrightarrow> ref_count nd' = ref_count nd \<and> seq_ids nd' = seq_ids nd \<and>
     ready_seq_ids nd' = ready_seq_ids nd \<and> canonical_len nd' = canonical_len nd \<and>
     last_access_tick nd' = last_access_tick nd"

definition blank_node :: "nat \<Rightarrow> radix_node \<Rightarrow> bool" where
  "blank_node now nd \<longleftrightarrow> ref_count nd = 0 \<and> seq_ids nd = {} \<and> ready_seq_ids nd = {} \<and>
     canonical_len nd = 0 \<and> last_access_tick nd \<le> now"

lemma same_data_refl [simp]: "same_data nd nd"
  by (simp add: same_data_def)

lemma same_data_trans: "same_data a b \<Longrightarrow> same_data b c \<Longrightarrow> same_data a c"
  by (simp add: same_data_def)

lemma blank_same_data: "blank_node now a \<Longrightarrow> same_data a b \<Longrightarrow> blank_node now b"
  by (simp add: same_data_def blank_node_def)

lemma wf_node_same_data:
  "wf_node now d nd \<Longrightarrow> same_data nd nd' \<Longrightarrow> now \<le> now' \<Longrightarrow> d' \<le> d \<Longrightarrow> wf_node now' d' nd'"
  by (auto simp: wf_node_def same_data_def split: if_splits)

lemma wf_node_blank: "blank_node now nd \<Longrightarrow> wf_node now d nd"
  by (auto simp: wf_node_def blank_node_def)

lemma wf_data_cong:
  assumes wf: "wf_data t P" and "tick t \<le> tick t'"
    and old: "\<And>x xd'. heap t' x = Some xd' \<Longrightarrow> blank_node (tick t') xd' \<or>
      (\<exists>xd. heap t x = Some xd \<and> same_data xd xd' \<and> length (P' x) \<le> length (P x))"
  shows "wf_data t' P'"
  unfolding wf_data_def owners_disjoint_def
proof (intro conjI allI impI)
  fix x xd' assume "heap t' x = Some xd'"
  then show "wf_node (tick t') (length (P' x)) xd'"
    using old wf_node_blank wf_node_same_data [OF wf_dataD [OF wf]] assms(2) by blast
next
  fix n m nd md s
  assume *: "heap t' n = Some nd" "heap t' m = Some md" "s \<in> seq_ids nd" "s \<in> seq_ids md"
  then have "\<exists>nd0. heap t n = Some nd0 \<and> s \<in> seq_ids nd0" "\<exists>md0. heap t m = Some md0 \<and> s \<in> seq_ids md0"
    using old by (fastforce simp: blank_node_def same_data_def)+
  then show "n = m" using wf_owner [OF wf] by blast
qed

lemma wf_data_set_node:
  assumes wf: "wf_data t P" and n: "heap t n = Some nd"
    and ok: "wf_node (tick t) (length (P n)) nd'"
    and own: "\<And>s m md. s \<in> seq_ids nd' \<Longrightarrow> s \<notin> seq_ids nd \<Longrightarrow> heap t m = Some md \<Longrightarrow> m \<noteq> n \<Longrightarrow> s \<notin> seq_ids md"
  shows "wf_data (set_node t n nd') P"
  unfolding wf_data_def owners_disjoint_def
proof (intro conjI allI impI)
  fix x xd assume "heap (set_node t n nd') x = Some xd"
  then show "wf_node (tick (set_node t n nd')) (length (P x)) xd"
    using ok wf_dataD [OF wf] by (auto split: if_splits)
next
  fix a b ad bd s
  assume *: "heap (set_node t n nd') a = Some ad" "heap (set_node t n nd') b = Some bd"
    "s \<in> seq_ids ad" "s \<in> seq_ids bd"
  show "a = b"
  proof (rule ccontr)
    assume "a \<noteq> b"
    have False if "heap t m = Some md" "m \<noteq> n" "s \<in> seq_ids nd'" "s \<in> seq_ids md" for m md
      using that own wf_owner [OF wf n that(1)] by blast
    moreover have "n = a \<or> n = b"
      using * \<open>a \<noteq> b\<close> wf_owner [OF wf, of a ad b bd s] by (auto split: if_splits)
    ultimately show False using * \<open>a \<noteq> b\<close> by (auto split: if_splits)
  qed
qed

text \<open>
  \<open>tree_grows\<close>: what the search and the insertion do to the nodes that other requests
  hold: every node stays, with the same data, on a prefix of its old path; new nodes
  carry no data.
\<close>

definition tree_grows ::
  "radix_tree \<Rightarrow> (addr \<Rightarrow> token list) \<Rightarrow> radix_tree \<Rightarrow> (addr \<Rightarrow> token list) \<Rightarrow> bool" where
  "tree_grows t P t' P' \<longleftrightarrow> tick t \<le> tick t' \<and>
     (\<forall>x xd. heap t x = Some xd \<longrightarrow>
        (\<exists>xd'. heap t' x = Some xd' \<and> same_data xd xd' \<and> prefix (P' x) (P x))) \<and>
     (\<forall>x xd'. heap t' x = Some xd' \<longrightarrow> heap t x = None \<longrightarrow> blank_node (tick t') xd')"

lemma tree_grows_refl [simp]: "tree_grows t P t P"
  by (auto simp: tree_grows_def)

lemma blank_mono: "blank_node now nd \<Longrightarrow> now \<le> now' \<Longrightarrow> blank_node now' nd"
  by (auto simp: blank_node_def)

lemma tree_grows_trans:
  assumes "tree_grows t P t1 P1" "tree_grows t1 P1 t2 P2"
  shows "tree_grows t P t2 P2"
  unfolding tree_grows_def
proof (intro conjI allI impI)
  show "tick t \<le> tick t2" using assms by (auto simp: tree_grows_def)
next
  fix x xd assume "heap t x = Some xd"
  then show "\<exists>xd'. heap t2 x = Some xd' \<and> same_data xd xd' \<and> prefix (P2 x) (P x)"
    using assms unfolding tree_grows_def by (meson prefix_order.trans same_data_trans)
next
  fix x xd' assume x: "heap t2 x = Some xd'" "heap t x = None"
  show "blank_node (tick t2) xd'"
  proof (cases "heap t1 x")
    case None
    then show ?thesis using x assms(2) by (auto simp: tree_grows_def)
  next
    case (Some x1)
    then have "blank_node (tick t1) x1" using x assms(1) by (auto simp: tree_grows_def)
    moreover have "same_data x1 xd'" "tick t1 \<le> tick t2"
      using Some x assms(2) by (force simp: tree_grows_def)+
    ultimately show ?thesis using blank_same_data blank_mono by blast
  qed
qed

lemma tree_grows_data: "wf_data t P \<Longrightarrow> tree_grows t P t' P' \<Longrightarrow> wf_data t' P'"
  by (rule wf_data_cong [of t P t' P'])
    (auto simp: tree_grows_def dest!: prefix_length_le, metis not_Some_eq option.inject prefix_length_le)

end
