(* ===== verification/RF_RadixSearch.thy ===== *)
theory RF_RadixSearch
  imports RF_RadixInv
begin

text \<open>
  The prefix search of the radix tree: it terminates without touching an invalid node,
  finds the longest cached prefix, and changes the tree only by splitting one node. The
  insertion adds exactly the prefixes of the inserted prompt to the logical content.
\<close>

section \<open>The logical content of a tree\<close>

definition keys :: "radix_tree \<Rightarrow> (addr \<Rightarrow> token list) \<Rightarrow> token list set" where
  "keys t P = {xs. \<exists>x xd. heap t x = Some xd \<and> prefix xs (P x)}"

definition logical_prefixes :: "radix_tree \<Rightarrow> token list set" where
  "logical_prefixes t = {xs. \<exists>x p. node_path t x = Some p \<and> prefix xs p}"

lemma node_path_in_heap: "node_path t x = Some p \<Longrightarrow> \<exists>xd. heap t x = Some xd"
  by (subst (asm) node_path.simps) auto

lemma logical_prefixes_keys: "wf_shape t P \<Longrightarrow> logical_prefixes t = keys t P"
  using node_path_eq node_path_in_heap unfolding logical_prefixes_def keys_def
  by (metis (no_types, lifting) option.inject)

lemma keys_Nil: "wf_shape t P \<Longrightarrow> [] \<in> keys t P"
  using wf_rootD unfolding keys_def by (metis (mono_tags, lifting) Nil_prefix mem_Collect_eq)

lemma keys_prefix_closed: "xs \<in> keys t P \<Longrightarrow> prefix ys xs \<Longrightarrow> ys \<in> keys t P"
  by (auto simp: keys_def intro: prefix_order.trans)

lemma keys_path: "heap t x = Some xd \<Longrightarrow> P x \<in> keys t P"
  by (auto simp: keys_def)

lemma keys_stuck:
  assumes wf: "wf_shape t P" and n: "heap t n = Some nd" and "map_of (children nd) x = None"
  shows "P n @ [x] \<notin> keys t P"
proof
  assume "P n @ [x] \<in> keys t P"
  then obtain m md where m: "heap t m = Some md" and pre: "prefix (P n @ [x]) (P m)"
    by (auto simp: keys_def)
  have "P m ! length (P n) = x" using prefix_nth [OF pre, of "length (P n)"] by simp
  moreover have "n \<noteq> m" using pre by auto
  moreover have "prefix (P n) (P m)" using pre by (rule append_prefixD)
  ultimately show False using path_toward [OF wf n m] assms(3) by auto
qed

section \<open>Effect of a split and of a new leaf\<close>

lemma split_grows:
  assumes wf: "wf_shape t P" and n: "heap t n = Some nd"
    and pos: "pos < length (tokens nd)" and now: "last_access_tick nd \<le> tick t"
  shows "tree_grows t P (t\<lparr>heap := split_heap t n nd pos, next_addr := Suc (next_addr t)\<rparr>)
           (split_paths t P n nd pos)"
proof -
  have s: "heap t (next_addr t) = None" by (rule wf_fresh [OF wf])
  have "\<exists>xd'. split_heap t n nd pos x = Some xd' \<and> same_data xd xd' \<and>
      prefix (split_paths t P n nd pos x) (P x)" if x: "heap t x = Some xd" for x xd
    using x n s by (cases "x = n"; cases "x \<in> snd ` set (children nd)")
      (auto simp: split_heap_def split_prefix_def same_data_def split_paths_def take_is_prefix)
  moreover have "blank_node (tick t) xd'"
    if "split_heap t n nd pos x = Some xd'" "heap t x = None" for x xd'
    using that n now by (auto simp: split_heap_def split_suffix_def blank_node_def split: if_splits)
  ultimately show ?thesis by (auto simp: tree_grows_def)
qed

lemma split_keys:
  assumes wf: "wf_shape t P" and n: "heap t n = Some nd" "n \<noteq> root_addr"
    and pos: "0 < pos" "pos < length (tokens nd)"
  shows "keys (t\<lparr>heap := split_heap t n nd pos, next_addr := Suc (next_addr t)\<rparr>)
           (split_paths t P n nd pos) = keys t P" (is "?L = _")
proof
  have s: "heap t (next_addr t) = None" by (rule wf_fresh [OF wf])
  show "?L \<subseteq> keys t P"
  proof
    fix xs assume "xs \<in> ?L"
    then obtain x xd where x: "split_heap t n nd pos x = Some xd"
      "prefix xs (split_paths t P n nd pos x)" by (auto simp: keys_def)
    have "prefix (split_paths t P n nd pos x) (P (if x = next_addr t then n else x))"
      by (auto simp: split_paths_def take_is_prefix)
    moreover have "\<exists>yd. heap t (if x = next_addr t then n else x) = Some yd"
      using x(1) n by (auto simp: split_heap_def split: if_splits)
    ultimately show "xs \<in> keys t P" using x(2) by (auto simp: keys_def intro: prefix_order.trans)
  qed
  show "keys t P \<subseteq> ?L"
  proof
    fix xs assume "xs \<in> keys t P"
    then obtain x xd where x: "heap t x = Some xd" "prefix xs (P x)" by (auto simp: keys_def)
    let ?y = "if x = n then next_addr t else x"
    have "split_paths t P n nd pos ?y = P x" using x s n by (auto simp: split_paths_def)
    moreover have "\<exists>yd. split_heap t n nd pos ?y = Some yd"
      using x s n by (auto simp: split_heap_def)
    ultimately show "xs \<in> ?L" using x(2) by (auto simp: keys_def)
  qed
qed

lemma leaf_grows:
  assumes wf: "wf_shape t P" and p: "heap t p = Some pn" and "now \<le> tick t"
  shows "tree_grows t P (t\<lparr>heap := leaf_heap t p pn rest now, next_addr := Suc (next_addr t)\<rparr>)
           (P(next_addr t := P p @ rest))"
  using wf_fresh [OF wf] p assms(3)
  by (auto simp: tree_grows_def leaf_heap_def same_data_def blank_node_def empty_node_def split: if_splits)

lemma leaf_keys:
  assumes wf: "wf_shape t P" and p: "heap t p = Some pn"
  shows "keys (t\<lparr>heap := leaf_heap t p pn rest now, next_addr := Suc (next_addr t)\<rparr>)
           (P(next_addr t := P p @ rest)) = keys t P \<union> {xs. prefix xs (P p @ rest)}" (is "?L = ?R")
proof
  have s: "heap t (next_addr t) = None" by (rule wf_fresh [OF wf])
  then have sp: "next_addr t \<noteq> p" using p by auto
  show "?L \<subseteq> ?R" using p by (auto simp: keys_def leaf_heap_def split: if_splits)
  show "?R \<subseteq> ?L"
  proof
    fix xs assume "xs \<in> ?R"
    then consider "prefix xs (P p @ rest)" | x xd where "heap t x = Some xd" "prefix xs (P x)"
      by (auto simp: keys_def)
    then show "xs \<in> ?L"
    proof cases
      case 1
      then show ?thesis using sp by (auto simp: keys_def leaf_heap_def intro!: exI [of _ "next_addr t"])
    next
      case (2 x xd)
      then show ?thesis using s p by (auto simp: keys_def leaf_heap_def intro!: exI [of _ x])
    qed
  qed
qed

section \<open>The search loop\<close>

lemma find_prefix_loop_ok:
  assumes "wf_shape t P" "wf_data t P" "heap t cur = Some cd" "m = length (P cur)"
  shows "\<exists>t' P' n nd rest. find_prefix_loop t cur toks m = Some (t', n, length (P' n), rest) \<and>
     wf_shape t' P' \<and> tree_grows t P t' P' \<and> tick t' = tick t \<and> keys t' P' = keys t P \<and>
     heap t' n = Some nd \<and> P' n @ rest = P cur @ toks \<and>
     (rest \<noteq> [] \<longrightarrow> map_of (children nd) (hd rest) = None)"
  using assms(3,4)
proof (induction "length toks" arbitrary: toks cur cd m rule: less_induct)
  case less
  note wf = assms(1) and cur = less.prems(1) and m = less.prems(2)
  show ?case
  proof (cases toks)
    case Nil
    then show ?thesis using wf cur m
      by (intro exI [of _ t] exI [of _ P] exI [of _ cur] exI [of _ cd])
        (auto simp: find_prefix_loop.simps)
  next
    case (Cons x xs)
    show ?thesis
    proof (cases "map_of (children cd) x")
      case None
      then show ?thesis using wf cur m Cons
        by (intro exI [of _ t] exI [of _ P] exI [of _ cur] exI [of _ cd])
          (auto simp: find_prefix_loop.simps)
    next
      case (Some c)
      obtain cn where c: "heap t c = Some cn" "parent cn = Some cur" "hd (tokens cn) = x"
        "c \<noteq> root_addr" "tokens cn \<noteq> []" "P c = P cur @ tokens cn"
        by (rule wf_downD [OF wf cur Some])
      define k where "k = match_len (tokens cn) toks"
      have kx: "match_len (tokens cn) (x # xs) = k" using Cons by (simp add: k_def)
      have k0: "0 < k" using c Cons by (simp add: k_def match_len_pos)
      have ktake: "take k (tokens cn) = take k toks" by (simp add: k_def match_len_take)
      show ?thesis
      proof (cases "k < length (tokens cn)")
        case True
        let ?t = "t\<lparr>heap := split_heap t c cn k, next_addr := Suc (next_addr t)\<rparr>"
        let ?P = "split_paths t P c cn k"
        have Pc: "?P c = P cur @ take k toks"
          using c(6) ktake True by (simp add: split_paths_def)
        have len: "length (?P c) = m + k" using Pc m by (simp add: k_def match_len_le)
        have stuck: "map_of (children (split_prefix cn k (next_addr t))) (hd (drop k toks)) = None"
          if "drop k toks \<noteq> []"
        proof -
          have "k < length toks" using that by simp
          then have "tokens cn ! k \<noteq> toks ! k" using match_len_diff True unfolding k_def by blast
          then show ?thesis using \<open>k < length toks\<close> True
            by (simp add: split_prefix_def hd_drop_conv_nth)
        qed
        have "find_prefix_loop t cur toks m = Some (?t, c, m + k, drop k toks)"
          using Cons cur Some c(1) True split_node_eq [OF wf c(1) True]
          by (subst find_prefix_loop.simps) (simp add: Let_def kx)
        moreover have "wf_shape ?t ?P" by (rule split_node_wf [OF wf c(1,4) k0 True])
        moreover have "tree_grows t P ?t ?P"
          using split_grows [OF wf c(1) True] wf_dataD [OF assms(2) c(1)] by (simp add: wf_node_def)
        moreover have "keys ?t ?P = keys t P" by (rule split_keys [OF wf c(1,4) k0 True])
        moreover have "heap ?t c = Some (split_prefix cn k (next_addr t))" by (simp add: split_heap_def)
        moreover have "?P c @ drop k toks = P cur @ toks" using Pc by simp
        ultimately show ?thesis using stuck len
          by (intro exI [of _ ?t] exI [of _ ?P] exI [of _ c]
              exI [of _ "split_prefix cn k (next_addr t)"] exI [of _ "drop k toks"]) simp
      next
        case False
        then have kl: "k = length (tokens cn)" using match_len_le(1) [of "tokens cn" toks] by (simp add: k_def)
        have toks: "tokens cn @ drop k toks = toks" using ktake kl by (metis append_take_drop_id order_refl take_all)
        have "find_prefix_loop t cur toks m = find_prefix_loop t c (drop k toks) (m + k)"
          using Cons cur Some c(1) False
          by (subst find_prefix_loop.simps) (simp add: Let_def kx)
        moreover have "length (drop k toks) < length toks" using k0 Cons by simp
        moreover have "m + k = length (P c)" using c(6) m kl by simp
        moreover have "P c @ drop k toks = P cur @ toks" using c(6) toks by simp
        ultimately show ?thesis using less.hyps [OF _ c(1)] by metis
      qed
    qed
  qed
qed

text \<open>
  The search from the root: it returns a node whose path and the remaining tokens make up
  the prompt, and no longer prefix of the prompt is in the tree.
\<close>

lemma find_prefix_locked_ok:
  assumes wf: "wf_tree t P"
  shows "\<exists>t' P' n nd rest. find_prefix_locked t toks = Some (t', \<lparr>match_node = n, cache_node = n,
        cache_seq_id = -1, matched_tokens = length (P' n), remaining = rest\<rparr>) \<and>
     wf_tree t' P' \<and> tree_grows t P t' P' \<and> tick t' = tick t \<and> keys t' P' = keys t P \<and>
     heap t' n = Some nd \<and> P' n @ rest = toks \<and>
     (rest \<noteq> [] \<longrightarrow> map_of (children nd) (hd rest) = None)"
proof -
  have wfs: "wf_shape t P" and wfd: "wf_data t P" using wf by (auto simp: wf_tree_def)
  obtain r where r: "heap t root_addr = Some r" "parent r = None" "tokens r = []"
    "1 \<le> ref_count r" "P root_addr = []" by (rule wf_rootD [OF wfs])
  have "0 = length (P root_addr)" using r(5) by simp
  from find_prefix_loop_ok [OF wfs wfd r(1) this, of toks] r(5)
  show ?thesis unfolding find_prefix_locked_def wf_tree_def
    by (fastforce dest: tree_grows_data [OF wfd])
qed

lemma longest_prefix:
  assumes wf: "wf_shape t P" and n: "heap t n = Some nd" and "P n @ rest = toks"
    and "rest \<noteq> [] \<longrightarrow> map_of (children nd) (hd rest) = None"
  shows "prefix xs toks \<Longrightarrow> xs \<in> keys t P \<longleftrightarrow> length xs \<le> length (P n)"
proof
  assume pre: "prefix xs toks" and "length xs \<le> length (P n)"
  then have "prefix xs (P n)" using assms(3) by (metis prefixI prefix_length_prefix)
  then show "xs \<in> keys t P" using keys_path [OF n] keys_prefix_closed by blast
next
  assume pre: "prefix xs toks" and key: "xs \<in> keys t P"
  show "length xs \<le> length (P n)"
  proof (rule ccontr)
    assume long: "\<not> length xs \<le> length (P n)"
    then have rest: "rest \<noteq> []" using pre assms(3) by (auto dest: prefix_length_le)
    have "prefix (P n @ [hd rest]) toks"
      using assms(3) rest by (metis append_Cons append_Nil append_assoc list.collapse prefixI)
    then have "prefix (P n @ [hd rest]) xs" using pre long by (auto intro: prefix_length_prefix)
    then show False using key keys_prefix_closed keys_stuck [OF wf n] assms(4) rest by blast
  qed
qed

section \<open>Insertion\<close>

definition touch_node :: "nat \<Rightarrow> radix_node \<Rightarrow> radix_node" where
  "touch_node now nd = nd\<lparr>last_access_tick := now, ref_count := ref_count nd + 1\<rparr>"

lemma tick_Suc_wf: "wf_tree t P \<Longrightarrow> wf_tree (t\<lparr>tick := Suc (tick t)\<rparr>) P"
  unfolding wf_tree_def
proof (elim conjE, intro conjI)
  assume "wf_shape t P" then show "wf_shape (t\<lparr>tick := Suc (tick t)\<rparr>) P"
    by (auto simp: wf_shape_def wf_root_def wf_up_def wf_down_def)
next
  assume "wf_data t P" then show "wf_data (t\<lparr>tick := Suc (tick t)\<rparr>) P"
    by (rule wf_data_cong) auto
qed

lemma insert_leaf_ok:
  assumes wf: "wf_tree t P" and n: "heap t n = Some nd" and toks: "P n @ rest = toks"
    and new: "rest \<noteq> [] \<longrightarrow> map_of (children nd) (hd rest) = None" and now: "now \<le> tick t"
  shows "\<exists>t' P' leaf lnd. (if rest \<noteq> [] then add_leaf t n rest now else Some (t, n)) = Some (t', leaf) \<and>
     wf_tree t' P' \<and> tree_grows t P t' P' \<and> tick t' = tick t \<and>
     keys t' P' = keys t P \<union> {xs. prefix xs toks} \<and> heap t' leaf = Some lnd \<and> P' leaf = toks \<and>
     P' n = P n \<and> (rest \<noteq> [] \<longrightarrow> heap t leaf = None)"
proof (cases "rest = []")
  case True
  then have "P n = toks" using toks by simp
  moreover from this have "keys t P = keys t P \<union> {xs. prefix xs toks}"
    using keys_path [OF n] keys_prefix_closed by blast
  ultimately show ?thesis using True wf n by auto
next
  case False
  have wfs: "wf_shape t P" and wfd: "wf_data t P" using wf by (auto simp: wf_tree_def)
  let ?t = "t\<lparr>heap := leaf_heap t n nd rest now, next_addr := Suc (next_addr t)\<rparr>"
  let ?P = "P(next_addr t := P n @ rest)"
  have s: "heap t (next_addr t) = None" by (rule wf_fresh [OF wfs])
  then have sn: "next_addr t \<noteq> n" using n by auto
  have grows: "tree_grows t P ?t ?P" by (rule leaf_grows [OF wfs n now])
  have "wf_tree ?t ?P"
    using add_leaf_wf [OF wfs n False] new False tree_grows_data [OF wfd grows]
    by (simp add: wf_tree_def)
  moreover have "keys ?t ?P = keys t P \<union> {xs. prefix xs toks}"
    using leaf_keys [OF wfs n, of rest now] toks by simp
  moreover have "add_leaf t n rest now = Some (?t, next_addr t)" by (rule add_leaf_eq [OF n False])
  moreover have "\<exists>lnd. heap ?t (next_addr t) = Some lnd" using sn by (simp add: leaf_heap_def)
  ultimately show ?thesis using grows toks s sn False
    by (intro exI [of _ ?t] exI [of _ ?P] exI [of _ "next_addr t"]) auto
qed

text \<open>
  What an operation promises about the nodes other requests hold: every node survives with
  its sequences, ready sequences and canonical length, on a prefix of its old path; its
  reference count changes by \<open>d\<close>; a new node holds no sequence.
\<close>

definition same_seqs :: "radix_node \<Rightarrow> radix_node \<Rightarrow> bool" where
  "same_seqs nd nd' \<longleftrightarrow> seq_ids nd' = seq_ids nd \<and> ready_seq_ids nd' = ready_seq_ids nd \<and>
     canonical_len nd' = canonical_len nd"

definition tree_frame ::
  "radix_tree \<Rightarrow> (addr \<Rightarrow> token list) \<Rightarrow> radix_tree \<Rightarrow> (addr \<Rightarrow> token list) \<Rightarrow> (addr \<Rightarrow> int) \<Rightarrow> bool"
where
  "tree_frame t P t' P' d \<longleftrightarrow>
     (\<forall>x xd. heap t x = Some xd \<longrightarrow>
        (\<exists>xd'. heap t' x = Some xd' \<and> same_seqs xd xd' \<and> prefix (P' x) (P x) \<and>
           ref_count xd' = ref_count xd + d x)) \<and>
     (\<forall>x xd'. heap t' x = Some xd' \<longrightarrow> heap t x = None \<longrightarrow>
        seq_ids xd' = {} \<and> ready_seq_ids xd' = {} \<and> canonical_len xd' = 0 \<and> ref_count xd' = d x)"

lemma grows_frame: "tree_grows t P t' P' \<Longrightarrow> tree_frame t P t' P' (\<lambda>_. 0)"
  unfolding tree_grows_def tree_frame_def same_data_def same_seqs_def blank_node_def by fastforce

lemma touch_frame:
  assumes "tree_grows t P t' P'" "heap t' n = Some nd"
  shows "tree_frame t P (set_node t' n (touch_node now nd)) P' (\<lambda>x. if x = n then 1 else 0)"
  using assms unfolding tree_grows_def tree_frame_def same_data_def same_seqs_def blank_node_def touch_node_def
  by (fastforce split: if_splits)

lemma touch_wf:
  assumes "wf_tree t P" "heap t n = Some nd"
  shows "wf_tree (set_node t n (touch_node (tick t) nd)) P"
  using assms wf_shape_set_node [of t P n nd "touch_node (tick t) nd"]
    wf_data_set_node [of t P n nd "touch_node (tick t) nd"] wf_dataD [of t P n nd]
  by (auto simp: wf_tree_def same_shape_def touch_node_def wf_node_def elim!: wf_rootD)

lemma keys_set_node: "heap t n = Some nd \<Longrightarrow> keys (set_node t n nd') P = keys t P"
  by (auto simp: keys_def)

lemma insert_prompt_ok:
  assumes wf: "wf_tree t P"
  shows "\<exists>t' P' leaf cn rest lnd cnd. insert_prompt t toks = Some (t', \<lparr>match_node = leaf, cache_node = cn,
        cache_seq_id = -1, matched_tokens = length (P' cn), remaining = rest\<rparr>) \<and>
     wf_tree t' P' \<and> keys t' P' = keys t P \<union> {xs. prefix xs toks} \<and>
     heap t' leaf = Some lnd \<and> P' leaf = toks \<and> heap t' cn = Some cnd \<and> P' cn @ rest = toks \<and>
     (\<forall>xs. prefix xs toks \<longrightarrow> (xs \<in> keys t P \<longleftrightarrow> length xs \<le> length (P' cn))) \<and>
     tree_frame t P t' P' (\<lambda>x. if x = leaf then 1 else 0)"
proof -
  let ?t = "t\<lparr>tick := Suc (tick t)\<rparr>"
  have wf0: "wf_tree ?t P" by (rule tick_Suc_wf [OF wf])
  obtain t1 P1 n nd rest where f: "find_prefix_locked ?t toks = Some (t1, \<lparr>match_node = n,
        cache_node = n, cache_seq_id = -1, matched_tokens = length (P1 n), remaining = rest\<rparr>)"
    and wf1: "wf_tree t1 P1" and g1: "tree_grows ?t P t1 P1" and k1: "keys t1 P1 = keys ?t P"
    and n: "heap t1 n = Some nd" "P1 n @ rest = toks"
    and stuck: "rest \<noteq> [] \<longrightarrow> map_of (children nd) (hd rest) = None"
    using find_prefix_locked_ok [OF wf0, of toks] by blast
  obtain t2 P2 leaf lnd where
    l: "(if rest \<noteq> [] then add_leaf t1 n rest (tick t1) else Some (t1, n)) = Some (t2, leaf)"
    and wf2: "wf_tree t2 P2" and g2: "tree_grows t1 P1 t2 P2"
    and k2: "keys t2 P2 = keys t1 P1 \<union> {xs. prefix xs toks}"
    and leaf: "heap t2 leaf = Some lnd" "P2 leaf = toks" "P2 n = P1 n"
    using insert_leaf_ok [OF wf1 n stuck order_refl] by blast
  let ?t' = "set_node t2 leaf (touch_node (tick t2) lnd)"
  have keys_t: "keys ?t P = keys t P" by (simp add: keys_def)
  have run: "insert_prompt t toks = Some (?t', \<lparr>match_node = leaf, cache_node = n,
        cache_seq_id = -1, matched_tokens = length (P2 n), remaining = rest\<rparr>)"
    using f l leaf by (simp add: insert_prompt_def touch_node_def split: if_splits)
  have "tree_grows t P ?t P" by (auto simp: tree_grows_def)
  then have "tree_grows t P t2 P2" using g1 g2 tree_grows_trans by blast
  then have frame: "tree_frame t P ?t' P2 (\<lambda>x. if x = leaf then 1 else 0)"
    using touch_frame leaf(1) by blast
  have wf': "wf_tree ?t' P2" by (rule touch_wf [OF wf2 leaf(1)])
  have cn: "\<exists>cnd. heap ?t' n = Some cnd" using g2 n(1) by (fastforce simp: tree_grows_def)
  have max: "\<forall>xs. prefix xs toks \<longrightarrow> (xs \<in> keys t P \<longleftrightarrow> length xs \<le> length (P2 n))"
    using longest_prefix [of t1 P1 n nd rest toks] n stuck wf1 k1 keys_t leaf(3)
    by (auto simp: wf_tree_def)
  have keys': "keys ?t' P2 = keys t P \<union> {xs. prefix xs toks}"
    using k1 k2 keys_t keys_set_node [OF leaf(1)] by simp
  have lnd': "heap ?t' leaf = Some (touch_node (tick t2) lnd)" by simp
  have Pn: "P2 n @ rest = toks" using n(2) leaf(3) by simp
  show ?thesis using run wf' keys' lnd' leaf(2) cn Pn max frame by blast
qed

end
