(* ===== verification/RF_RadixRelease.thy ===== *)
theory RF_RadixRelease
  imports RF_RadixSearch
begin

text \<open>
  Release, pruning, eviction and the registration of physical sequences: every operation
  keeps the tree well-formed, returns, and frees only nodes that no request references
  and that own no sequence.
\<close>

section \<open>Pruning\<close>

text \<open>What pruning does to the heap: nodes go only when nobody needs them.\<close>

definition prune_frame :: "radix_tree \<Rightarrow> radix_tree \<Rightarrow> bool" where
  "prune_frame t t' \<longleftrightarrow> tick t' = tick t \<and> next_addr t' = next_addr t \<and>
     (\<forall>x xd. heap t x = Some xd \<longrightarrow>
        (\<exists>xd'. heap t' x = Some xd' \<and> same_data xd xd' \<and> parent xd' = parent xd) \<or>
        (heap t' x = None \<and> x \<noteq> root_addr \<and> ref_count xd = 0 \<and> seq_ids xd = {})) \<and>
     (\<forall>x. heap t x = None \<longrightarrow> heap t' x = None)"

lemma prune_frame_refl [simp]: "prune_frame t t"
  by (auto simp: prune_frame_def)

lemma prune_frame_trans:
  assumes "prune_frame t t1" "prune_frame t1 t2"
  shows "prune_frame t t2"
proof -
  have "(\<exists>xd'. heap t2 x = Some xd' \<and> same_data xd xd' \<and> parent xd' = parent xd) \<or>
      (heap t2 x = None \<and> x \<noteq> root_addr \<and> ref_count xd = 0 \<and> seq_ids xd = {})"
    if x: "heap t x = Some xd" for x xd
  proof (cases "heap t1 x")
    case None
    then show ?thesis using assms x unfolding prune_frame_def by fastforce
  next
    case (Some x1)
    then have same: "same_data xd x1" "parent x1 = parent xd" using assms(1) x unfolding prune_frame_def by fastforce+
    have "(\<exists>xd'. heap t2 x = Some xd' \<and> same_data x1 xd' \<and> parent xd' = parent x1) \<or>
        (heap t2 x = None \<and> x \<noteq> root_addr \<and> ref_count x1 = 0 \<and> seq_ids x1 = {})"
      using assms(2) Some unfolding prune_frame_def by blast
    then show ?thesis
    proof
      assume "\<exists>xd'. heap t2 x = Some xd' \<and> same_data x1 xd' \<and> parent xd' = parent x1"
      then show ?thesis using same same_data_trans by metis
    next
      assume "heap t2 x = None \<and> x \<noteq> root_addr \<and> ref_count x1 = 0 \<and> seq_ids x1 = {}"
      then show ?thesis using same by (simp add: same_data_def)
    qed
  qed
  then show ?thesis using assms by (auto simp: prune_frame_def)
qed

lemma prune_frame_live:
  assumes "prune_frame t t'" "heap t x = Some xd" "0 < ref_count xd \<or> seq_ids xd \<noteq> {} \<or> x = root_addr"
  shows "\<exists>xd'. heap t' x = Some xd' \<and> same_data xd xd' \<and> parent xd' = parent xd"
  using assms unfolding prune_frame_def by (metis less_irrefl)

lemma prune_frame_data: "wf_data t P \<Longrightarrow> prune_frame t t' \<Longrightarrow> wf_data t' P"
  by (rule wf_data_cong [of t P t' P])
    (auto simp: prune_frame_def, metis not_Some_eq option.inject)

lemma prune_ok:
  assumes "wf_tree t P" "heap t n = Some nd"
  shows "\<exists>t'. prune_empty_leaves_locked t (Some n) = Some t' \<and> wf_tree t' P \<and> prune_frame t t'"
  using assms
proof (induction "length (P n)" arbitrary: n nd t rule: less_induct)
  case less
  note wf = less.prems(1) and n = less.prems(2)
  have wfs: "wf_shape t P" and wfd: "wf_data t P" using wf by (auto simp: wf_tree_def)
  show ?case
  proof (cases "n \<noteq> root_addr \<and> ref_count nd = 0 \<and> seq_ids nd = {} \<and> children nd = []")
    case False
    then show ?thesis using n wf by (subst prune_empty_leaves_locked.simps) auto
  next
    case True
    obtain p pn where p: "parent nd = Some p" "heap t p = Some pn" "tokens nd \<noteq> []"
      "map_of (children pn) (hd (tokens nd)) = Some n" "P n = P p @ tokens nd"
      using wf_upD [OF wfs n] True by metis
    let ?t = "t\<lparr>heap := erase_heap t n p pn (hd (tokens nd))\<rparr>"
    have erase: "erase_child t p (hd (tokens nd)) = Some ?t"
      using erase_child_eq [OF p(2,4) n] True by simp
    have shape: "wf_shape ?t P" using erase_child_wf [OF wfs n _ p(2,4)] True by simp
    have np: "n \<noteq> p" using p(3,5) by auto
    have frame: "prune_frame t ?t"
      using n p(2) True np by (auto simp: prune_frame_def erase_heap_def same_data_def)
    have wf': "wf_tree ?t P" using shape prune_frame_data [OF wfd frame] by (simp add: wf_tree_def)
    have "length (P p) < length (P n)" using p(3,5) by simp
    moreover have "\<exists>pd. heap ?t p = Some pd" using np by (simp add: erase_heap_def)
    ultimately obtain t' where "prune_empty_leaves_locked ?t (Some p) = Some t'" "wf_tree t' P"
      "prune_frame ?t t'"
      using less.hyps wf' by blast
    then show ?thesis
      using n True p erase frame prune_frame_trans
      by (subst prune_empty_leaves_locked.simps) (auto simp: first_of_nonempty)
  qed
qed

section \<open>Changing one node's data\<close>

lemma wf_tree_set_data:
  assumes wf: "wf_tree t P" and n: "heap t n = Some nd" and shape: "same_shape nd nd'"
    and root: "n = root_addr \<Longrightarrow> 1 \<le> ref_count nd'"
    and ok: "wf_node (tick t) (length (P n)) nd \<Longrightarrow> wf_node (tick t) (length (P n)) nd'"
    and own: "\<And>s m md. s \<in> seq_ids nd' \<Longrightarrow> s \<notin> seq_ids nd \<Longrightarrow> heap t m = Some md \<Longrightarrow> m \<noteq> n \<Longrightarrow> s \<notin> seq_ids md"
  shows "wf_tree (set_node t n nd') P"
  using wf wf_shape_set_node [OF _ n shape root] wf_data_set_node [OF _ n _ own] ok
    wf_dataD [OF _ n] by (auto simp: wf_tree_def)

lemma wf_nodeD:
  "wf_tree t P \<Longrightarrow> heap t n = Some nd \<Longrightarrow> wf_node (tick t) (length (P n)) nd"
  by (simp add: wf_tree_def wf_dataD)

lemma wf_root_node:
  assumes "wf_tree t P" "heap t root_addr = Some r"
  shows "1 \<le> ref_count r" "parent r = None"
  using assms by (auto simp: wf_tree_def elim: wf_rootD)

section \<open>Release of a reference\<close>

definition drop_ref :: "radix_node \<Rightarrow> radix_node" where
  "drop_ref nd = nd\<lparr>ref_count := ref_count nd - 1\<rparr>"

text \<open>
  The root keeps a reference of its own, so a release of the root needs a second one.
\<close>

lemma drop_ref_wf:
  assumes "wf_tree t P" "heap t n = Some nd" "0 < ref_count nd" "n = root_addr \<Longrightarrow> 2 \<le> ref_count nd"
  shows "wf_tree (set_node t n (drop_ref nd)) P"
  using assms(3,4)
  by (intro wf_tree_set_data [OF assms(1,2)]) (auto simp: same_shape_def drop_ref_def wf_node_def)

lemma release_ok:
  assumes wf: "wf_tree t P" and n: "heap t n = Some nd"
    and ref: "0 < ref_count nd" "n = root_addr \<Longrightarrow> 2 \<le> ref_count nd"
  shows "\<exists>t'. release t (Some n) = Some t' \<and> wf_tree t' P \<and>
    prune_frame (set_node t n (drop_ref nd)) t'"
  using prune_ok [OF drop_ref_wf [OF wf n ref], of n "drop_ref nd"] n ref(1)
  by (auto simp: release_def drop_ref_def)

section \<open>Eviction of a node\<close>

definition clear_seqs :: "radix_node \<Rightarrow> radix_node" where
  "clear_seqs nd = nd\<lparr>seq_ids := {}, ready_seq_ids := {}, canonical_len := 0\<rparr>"

lemma evict_refused:
  assumes "heap t n = Some nd" "parent nd = None \<or> ref_count nd \<noteq> 0 \<or> seq_ids nd = {}"
  shows "evict t (Some n) = Some (t, [])"
  using assms by (auto simp: evict_def)

lemma clear_seqs_wf:
  assumes "wf_tree t P" "heap t n = Some nd" "n \<noteq> root_addr"
  shows "wf_tree (set_node t n (clear_seqs nd)) P"
  using assms(3)
  by (intro wf_tree_set_data [OF assms(1,2)]) (auto simp: same_shape_def clear_seqs_def wf_node_def)

lemma evict_ok:
  assumes wf: "wf_tree t P" and n: "heap t n = Some nd"
    and ok: "parent nd \<noteq> None" "ref_count nd = 0" "seq_ids nd \<noteq> {}"
  shows "\<exists>t'. evict t (Some n) = Some (t', sorted_list_of_set (seq_ids nd)) \<and> wf_tree t' P \<and>
    prune_frame (set_node t n (clear_seqs nd)) t'"
proof -
  have "n \<noteq> root_addr" using ok(1) n wf_root_node [OF wf] by auto
  from prune_ok [OF clear_seqs_wf [OF wf n this], of n "clear_seqs nd"] show ?thesis
    using n ok by (auto simp: evict_def clear_seqs_def)
qed

section \<open>Registration\<close>

definition add_seq :: "seq_id \<Rightarrow> int \<Rightarrow> radix_node \<Rightarrow> radix_node" where
  "add_seq seq clen nd = nd\<lparr>seq_ids := insert seq (seq_ids nd),
     canonical_len := (if canonical_len nd = 0 then clen else canonical_len nd)\<rparr>"

lemma register_ok:
  assumes wf: "wf_tree t P" and n: "heap t n = Some nd"
    and clen: "int (length (P n)) \<le> clen"
    and fresh: "\<And>m md. heap t m = Some md \<Longrightarrow> seq \<notin> seq_ids md"
  shows "register_seq_id t n seq clen = Some (set_node t n (add_seq seq clen nd)) \<and>
    wf_tree (set_node t n (add_seq seq clen nd)) P"
proof
  show "register_seq_id t n seq clen = Some (set_node t n (add_seq seq clen nd))"
    using n by (simp add: register_seq_id_def add_seq_def)
  show "wf_tree (set_node t n (add_seq seq clen nd)) P"
  proof (rule wf_tree_set_data [OF wf n])
    show "same_shape nd (add_seq seq clen nd)" by (simp add: same_shape_def add_seq_def)
    show "1 \<le> ref_count (add_seq seq clen nd)" if "n = root_addr"
      using that n wf_root_node [OF wf] by (auto simp: add_seq_def)
    show "wf_node (tick t) (length (P n)) nd \<Longrightarrow> wf_node (tick t) (length (P n)) (add_seq seq clen nd)"
      using clen by (auto simp: wf_node_def add_seq_def split: if_splits)
    show "s \<notin> seq_ids md" if "s \<in> seq_ids (add_seq seq clen nd)" "s \<notin> seq_ids nd"
      "heap t m = Some md" "m \<noteq> n" for s m md
      using that fresh by (auto simp: add_seq_def)
  qed
qed

definition set_ready :: "seq_id \<Rightarrow> radix_node \<Rightarrow> radix_node" where
  "set_ready seq nd = nd\<lparr>ready_seq_ids := insert seq (ready_seq_ids nd)\<rparr>"

lemma mark_ready_ok:
  assumes wf: "wf_tree t P" and n: "heap t n = Some nd" and "seq \<in> seq_ids nd"
  shows "mark_seq_id_ready t (Some n) seq = Some (set_node t n (set_ready seq nd)) \<and>
    wf_tree (set_node t n (set_ready seq nd)) P"
proof
  show "mark_seq_id_ready t (Some n) seq = Some (set_node t n (set_ready seq nd))"
    using n assms(3) by (simp add: mark_seq_id_ready_def set_ready_def)
  show "wf_tree (set_node t n (set_ready seq nd)) P"
    using assms(3) wf by (intro wf_tree_set_data [OF wf n])
      (use n wf_root_node [OF wf] in \<open>auto simp: same_shape_def set_ready_def wf_node_def\<close>)
qed

lemma remove_seq_wf:
  assumes wf: "wf_tree t P" and n: "heap t n = Some nd"
  shows "wf_tree (set_node t n (remove_seq seq nd)) P"
  using wf by (intro wf_tree_set_data [OF wf n])
    (use n wf_root_node [OF wf] in
      \<open>auto simp: same_shape_def remove_seq_def wf_node_def split: if_splits\<close>)

text \<open>
  A sequence is kept exactly when it is ready, alone on its node, and retention is on;
  otherwise it leaves the tree and the caller must free it.
\<close>

lemma release_seq_ok:
  assumes wf: "wf_tree t P" and n: "heap t n = Some nd" and s: "seq \<in> seq_ids nd"
  shows "release_seq_id t (Some n) seq retain =
     (if retain \<and> seq \<in> ready_seq_ids nd \<and> seq_ids nd = {seq} then Some (t, False)
      else Some (set_node t n (remove_seq seq nd), True))"
proof -
  have "finite (seq_ids nd)" using wf_nodeD [OF wf n] by (simp add: wf_node_def)
  then have "card (seq_ids nd) \<le> 1 \<longleftrightarrow> seq_ids nd = {seq}"
    using s by (metis One_nat_def card_1_singleton_iff card_0_eq empty_iff le_Suc_eq le_zero_eq singletonD)
  then show ?thesis using n s by (simp add: release_seq_id_def)
qed

section \<open>Extension of a sequence to a longer path\<close>

text \<open>
  Moving \<open>seq\<close> to the node \<open>m\<close>: it leaves every other node, all other sequences and all
  references stay where they are.
\<close>

definition moved_seqs :: "seq_id \<Rightarrow> bool \<Rightarrow> radix_node \<Rightarrow> radix_node \<Rightarrow> bool" where
  "moved_seqs seq here nd nd' \<longleftrightarrow> ref_count nd' = ref_count nd \<and>
     seq_ids nd' = seq_ids nd - {seq} \<union> (if here then {seq} else {}) \<and>
     ready_seq_ids nd' = ready_seq_ids nd - {seq} \<union> (if here then {seq} else {})"

definition move_frame ::
  "seq_id \<Rightarrow> addr \<Rightarrow> radix_tree \<Rightarrow> (addr \<Rightarrow> token list) \<Rightarrow> radix_tree \<Rightarrow> (addr \<Rightarrow> token list) \<Rightarrow> bool" where
  "move_frame seq m t P t' P' \<longleftrightarrow>
     (\<forall>x xd. heap t x = Some xd \<longrightarrow> (\<exists>xd'. heap t' x = Some xd' \<and> prefix (P' x) (P x) \<and>
        moved_seqs seq (x = m) xd xd')) \<and>
     (\<forall>x xd'. heap t' x = Some xd' \<longrightarrow> heap t x = None \<longrightarrow> moved_seqs seq (x = m) empty_node xd')"

lemma moved_seqs_id: "seq \<in> ready_seq_ids nd \<longleftrightarrow> h \<Longrightarrow> seq \<in> seq_ids nd \<longleftrightarrow> h \<Longrightarrow>
  same_data nd nd' \<Longrightarrow> moved_seqs seq h nd nd'"
  by (auto simp: moved_seqs_def same_data_def)

lemma extend_refused:
  assumes "heap t n = Some nd" "toks = [] \<or> clen \<le> 0 \<or> clen > int (length toks) \<or>
     seq \<notin> seq_ids nd \<or> seq \<notin> ready_seq_ids nd"
  shows "extend_seq_id t (Some n) seq toks clen = Some (t, Some n)"
  using assms by (auto simp: extend_seq_id_def)

lemma attach_wf:
  assumes wf: "wf_tree t P" and m: "heap t m = Some md" and clen: "int (length (P m)) \<le> clen"
    and now: "now \<le> tick t" and free: "\<And>x xd. heap t x = Some xd \<Longrightarrow> seq \<notin> seq_ids xd"
  shows "wf_tree (set_node t m (attach_ready seq clen now md)) P"
  using clen now free wf_root_node [OF wf] m
  by (intro wf_tree_set_data [OF wf m])
    (auto simp: same_shape_def attach_ready_def wf_node_def split: if_splits)

lemma extend_ok:
  assumes wf: "wf_tree t P" and n: "heap t n = Some nd"
    and s: "seq \<in> ready_seq_ids nd" and toks: "toks \<noteq> []"
  shows "\<exists>t' P' m md. extend_seq_id t (Some n) seq toks (int (length toks)) = Some (t', Some m) \<and>
     wf_tree t' P' \<and> heap t' m = Some md \<and> P' m = toks \<and> move_frame seq m t P t' P'"
proof -
  have s': "seq \<in> seq_ids nd" using wf_nodeD [OF wf n] s by (auto simp: wf_node_def)
  obtain t1 P1 c cd rest where f: "find_prefix_locked t toks = Some (t1, \<lparr>match_node = c,
        cache_node = c, cache_seq_id = -1, matched_tokens = length (P1 c), remaining = rest\<rparr>)"
    and wf1: "wf_tree t1 P1" and g1: "tree_grows t P t1 P1"
    and c: "heap t1 c = Some cd" "P1 c @ rest = toks"
    and stuck: "rest \<noteq> [] \<longrightarrow> map_of (children cd) (hd rest) = None"
    using find_prefix_locked_ok [OF wf, of toks] by blast
  let ?t1 = "if rest \<noteq> [] then t1\<lparr>tick := Suc (tick t1)\<rparr> else t1"
  have wf1': "wf_tree ?t1 P1" using wf1 tick_Suc_wf by simp
  have c': "heap ?t1 c = Some cd" using c(1) by simp
  obtain t2 P2 m md where
    l: "(if rest \<noteq> [] then add_leaf ?t1 c rest (tick ?t1) else Some (?t1, c)) = Some (t2, m)"
    and wf2: "wf_tree t2 P2" and g2: "tree_grows ?t1 P1 t2 P2"
    and m: "heap t2 m = Some md" "P2 m = toks"
    using insert_leaf_ok [OF wf1' c' c(2) stuck order_refl] by blast
  have "tree_grows t1 P1 ?t1 P1" by (auto simp: tree_grows_def)
  then have g: "tree_grows t P t2 P2" using g1 g2 tree_grows_trans by blast
  have old: "\<exists>xd2. heap t2 x = Some xd2 \<and> same_data xd xd2 \<and> prefix (P2 x) (P x)"
    if "heap t x = Some xd" for x xd using g that by (auto simp: tree_grows_def)
  obtain nd2 where n2: "heap t2 n = Some nd2" and same: "same_data nd nd2"
    using old [OF n] by blast
  have owner: "x = n" if "heap t2 x = Some xd" "seq \<in> seq_ids xd" for x xd
    using that wf2 n2 same s' by (auto simp: same_data_def wf_tree_def intro: wf_owner)
  have owner0: "x = n" if "heap t x = Some xd" "seq \<in> seq_ids xd" for x xd
    using that wf n s' by (auto simp: wf_tree_def intro: wf_owner)
  have new: "blank_node (tick t2) xd2" if "heap t2 x = Some xd2" "heap t x = None" for x xd2
    using g that by (auto simp: tree_grows_def)
  have run: "extend_seq_id t (Some n) seq toks (int (length toks)) =
     (if m = n then Some (set_node t2 n (nd2\<lparr>canonical_len := int (length toks)\<rparr>), Some n)
      else Some (set_node (set_node (t2\<lparr>tick := Suc (tick t2)\<rparr>) n (remove_seq seq nd2))
                  m (attach_ready seq (int (length toks)) (Suc (tick t2)) md), Some m))"
    using n toks s s' f l n2 m(1) by (auto simp: extend_seq_id_def split: if_splits)
  show ?thesis
  proof (cases "m = n")
    case True
    let ?t' = "set_node t2 n (nd2\<lparr>canonical_len := int (length toks)\<rparr>)"
    have "wf_tree ?t' P2"
      using n2 m True s' same wf_root_node [OF wf2]
      by (intro wf_tree_set_data [OF wf2 n2])
        (auto simp: same_shape_def wf_node_def same_data_def)
    moreover have "move_frame seq n t P ?t' P2"
      unfolding move_frame_def
    proof (intro conjI allI impI)
      fix x xd assume x: "heap t x = Some xd"
      from old [OF x] obtain xd2 where "heap t2 x = Some xd2" "same_data xd xd2" "prefix (P2 x) (P x)"
        by blast
      then show "\<exists>xd'. heap ?t' x = Some xd' \<and> prefix (P2 x) (P x) \<and> moved_seqs seq (x = n) xd xd'"
        using n n2 x s s' owner0 [OF x] wf_nodeD [OF wf x]
        by (cases "x = n") (auto simp: moved_seqs_def same_data_def wf_node_def)
    next
      fix x xd' assume "heap ?t' x = Some xd'" "heap t x = None"
      then show "moved_seqs seq (x = n) empty_node xd'"
        using new [of x xd'] n by (auto simp: moved_seqs_def blank_node_def empty_node_def split: if_splits)
    qed
    ultimately show ?thesis using run True m by auto
  next
    case False
    let ?t3 = "set_node (t2\<lparr>tick := Suc (tick t2)\<rparr>) n (remove_seq seq nd2)"
    let ?t' = "set_node ?t3 m (attach_ready seq (int (length toks)) (Suc (tick t2)) md)"
    have "wf_tree ?t3 P2" using remove_seq_wf [OF tick_Suc_wf [OF wf2]] n2 by simp
    moreover have "seq \<notin> seq_ids xd" if "heap ?t3 x = Some xd" for x xd
      using that owner by (auto simp: remove_seq_def split: if_splits)
    ultimately have "wf_tree ?t' P2"
      using attach_wf [of ?t3 P2 m md "int (length toks)" "Suc (tick t2)" seq] m False by simp
    moreover have "move_frame seq m t P ?t' P2"
      unfolding move_frame_def
    proof (intro conjI allI impI)
      fix x xd assume x: "heap t x = Some xd"
      from old [OF x] obtain xd2 where "heap t2 x = Some xd2" "same_data xd xd2" "prefix (P2 x) (P x)"
        by blast
      then show "\<exists>xd'. heap ?t' x = Some xd' \<and> prefix (P2 x) (P x) \<and> moved_seqs seq (x = m) xd xd'"
        using n2 m False owner0 [OF x] wf_nodeD [OF wf x]
        by (cases "x = m"; cases "x = n")
          (auto simp: moved_seqs_def same_data_def attach_ready_def remove_seq_def wf_node_def)
    next
      fix x xd' assume "heap ?t' x = Some xd'" "heap t x = None"
      then show "moved_seqs seq (x = m) empty_node xd'"
        using new n m by (auto simp: moved_seqs_def blank_node_def empty_node_def attach_ready_def
            split: if_splits)
    qed
    ultimately show ?thesis using run False m by auto
  qed
qed

end
