(* ===== verification/RF_RadixLookup.thy ===== *)
theory RF_RadixLookup
  imports RF_RadixRelease
begin

text \<open>
  The read-only operations of the radix tree: the depth of a node, the search for a ready
  sequence that covers a node, and the explicit-stack traversals (counters and eviction
  candidates). They return on every well-formed tree, and visit each node once.
\<close>

section \<open>Depth and ready ancestors\<close>

lemma depth_ok:
  assumes "wf_shape t P" "heap t n = Some nd"
  shows "cumulative_token_depth t (Some n) = Some (int (length (P n)))"
  using assms(2)
proof (induction "length (P n)" arbitrary: n nd rule: less_induct)
  case less
  show ?case
  proof (cases "n = root_addr")
    case True
    obtain r where "heap t root_addr = Some r" "parent r = None" "tokens r = []"
      "1 \<le> ref_count r" "P root_addr = []" by (rule wf_rootD [OF assms(1)])
    then show ?thesis using True by (simp add: cumulative_token_depth.simps)
  next
    case False
    obtain p pn where p: "parent nd = Some p" "heap t p = Some pn" "tokens nd \<noteq> []"
      "map_of (children pn) (hd (tokens nd)) = Some n" "P n = P p @ tokens nd"
      by (rule wf_upD [OF assms(1) less.prems False])
    then have "cumulative_token_depth t (Some p) = Some (int (length (P p)))"
      using less.hyps by simp
    then show ?thesis using p less.prems by (subst cumulative_token_depth.simps) simp
  qed
qed

text \<open>The nodes that lie on the path from the root to a node, by their paths.\<close>

definition above :: "radix_tree \<Rightarrow> (addr \<Rightarrow> token list) \<Rightarrow> addr \<Rightarrow> addr set" where
  "above t P n = {m \<in> dom (heap t). prefix (P m) (P n)}"

definition below :: "radix_tree \<Rightarrow> (addr \<Rightarrow> token list) \<Rightarrow> addr \<Rightarrow> addr set" where
  "below t P n = {m \<in> dom (heap t). prefix (P n) (P m)}"

definition is_ready :: "radix_tree \<Rightarrow> addr \<Rightarrow> bool" where
  "is_ready t m \<longleftrightarrow> (\<exists>md. heap t m = Some md \<and> ready_seq_ids md \<noteq> {})"

text \<open>A search result: a ready sequence of a node in a set, with the depth of that node.\<close>

definition source_in :: "radix_tree \<Rightarrow> (addr \<Rightarrow> token list) \<Rightarrow> addr set \<Rightarrow> (seq_id \<times> int) option \<Rightarrow> bool" where
  "source_in t P A r \<longleftrightarrow> (case r of
     None \<Rightarrow> (\<forall>m \<in> A. \<not> is_ready t m)
   | Some (s, len) \<Rightarrow> (\<exists>m \<in> A. \<exists>md. heap t m = Some md \<and> s \<in> ready_seq_ids md \<and>
       len = int (length (P m))))"

lemma source_in_Some_mono: "source_in t P A (Some x) \<Longrightarrow> A \<subseteq> B \<Longrightarrow> source_in t P B (Some x)"
  by (cases x) (auto simp: source_in_def)

lemma source_in_None: "source_in t P A None \<longleftrightarrow> (\<forall>m \<in> A. \<not> is_ready t m)"
  by (simp add: source_in_def)

lemma above_self: "heap t n = Some nd \<Longrightarrow> n \<in> above t P n"
  by (auto simp: above_def)

lemma below_self: "heap t n = Some nd \<Longrightarrow> n \<in> below t P n"
  by (auto simp: below_def)

lemma above_parent:
  assumes "wf_shape t P" "heap t n = Some nd" "parent nd = Some p"
  shows "above t P n = insert n (above t P p)"
proof -
  obtain pn where p: "heap t p = Some pn" "map_of (children pn) (hd (tokens nd)) = Some n"
    using parent_path(3) [OF assms] by blast
  have long: "length (P p) < length (P n)" by (rule parent_path(2) [OF assms])
  have pre: "prefix (P p) (P n)" by (rule child_path_longer(2) [OF assms(1) p])
  have "m = n \<or> prefix (P m) (P p)" if m: "heap t m = Some md" "prefix (P m) (P n)" for m md
  proof (cases "length (P m) \<le> length (P p)")
    case True
    then show ?thesis using m(2) pre by (auto intro: prefix_length_prefix)
  next
    case False
    then have pm: "prefix (P p) (P m)" using m(2) pre by (auto intro: prefix_length_prefix)
    have "p \<noteq> m" using False by auto
    then obtain c where c: "map_of (children pn) (P m ! length (P p)) = Some c" "prefix (P c) (P m)"
      using path_toward [OF assms(1) p(1) m(1) pm] by blast
    have "P m ! length (P p) = P n ! length (P p)" using m(2) False by (auto intro: prefix_nth)
    then have "c = n" using c(1) p(2) child_path_longer(3) [OF assms(1) p] by simp
    then have "P m = P n" using c(2) m(2) by (simp add: prefix_order.antisym)
    then show ?thesis using path_inj [OF assms(1) m(1) assms(2)] by simp
  qed
  moreover have "prefix (P m) (P n)" if "prefix (P m) (P p)" for m
    using that pre by (rule prefix_order.trans)
  ultimately show ?thesis using assms(2) by (auto simp: above_def)
qed

lemma above_root:
  assumes "wf_shape t P"
  shows "above t P root_addr = {root_addr}"
proof -
  obtain r where "heap t root_addr = Some r" "P root_addr = []" using wf_rootD [OF assms] by metis
  moreover have "x = root_addr" if "heap t x = Some xd" "prefix (P x) (P root_addr)" for x xd
    using that path_nonempty [OF assms that(1)] \<open>P root_addr = []\<close> by simp
  ultimately show ?thesis by (auto simp: above_def)
qed

lemma ready_node_source:
  assumes wf: "wf_tree t P" and n: "heap t n = Some nd" and r: "ready_seq_ids nd \<noteq> {}"
  shows "min (canonical_len nd) (int (length (P n))) = int (length (P n))"
    "Min (ready_seq_ids nd) \<in> ready_seq_ids nd"
  using wf_nodeD [OF wf n] r
  by (auto simp: wf_node_def dest: finite_subset split: if_splits intro!: Min_in)

lemma ready_ancestor_ok:
  assumes wf: "wf_tree t P" and "heap t n = Some nd"
  shows "\<exists>r. ready_ancestor t (Some n) = Some r \<and> source_in t P (above t P n) r"
  using assms(2)
proof (induction "length (P n)" arbitrary: n nd rule: less_induct)
  case less
  note n = less.prems
  have wfs: "wf_shape t P" using wf by (simp add: wf_tree_def)
  show ?case
  proof (cases "ready_seq_ids nd = {}")
    case False
    then show ?thesis
      using n depth_ok [OF wfs n] ready_node_source [OF wf n False] above_self [OF n]
      by (subst ready_ancestor.simps) (auto simp: source_in_def)
  next
    case True
    show ?thesis
    proof (cases "parent nd")
      case None
      then have "n = root_addr" using n wf_upD [OF wfs n] by fastforce
      then show ?thesis using n True None above_root [OF wfs]
        by (subst ready_ancestor.simps) (auto simp: ready_ancestor.simps [of t None] source_in_def is_ready_def)
    next
      case (Some p)
      obtain pn where "heap t p = Some pn" using parent_path(3) [OF wfs n Some] by blast
      then obtain r where r: "ready_ancestor t (Some p) = Some r" "source_in t P (above t P p) r"
        using less.hyps [OF parent_path(2) [OF wfs n Some]] by blast
      have "source_in t P (above t P n) r"
        using r(2) True n above_parent [OF wfs n Some]
        by (auto simp: source_in_def is_ready_def split: option.splits)
      then show ?thesis using n True Some r(1) by (subst ready_ancestor.simps) auto
    qed
  qed
qed

section \<open>Subtrees\<close>

lemma below_finite: "wf_shape t P \<Longrightarrow> finite (below t P n)"
  unfolding below_def using wf_finite_heap by auto

lemma below_children:
  assumes wf: "wf_shape t P" and n: "heap t n = Some nd"
  shows "below t P n = insert n (\<Union>c \<in> snd ` set (children nd). below t P c)"
proof (intro equalityI subsetI)
  fix m assume "m \<in> below t P n"
  then obtain md where m: "heap t m = Some md" "prefix (P n) (P m)" by (auto simp: below_def)
  from path_toward [OF wf n m] show "m \<in> insert n (\<Union>c \<in> snd ` set (children nd). below t P c)"
    using m(1) by (force simp: below_def dest: map_of_SomeD)
next
  fix m assume m: "m \<in> insert n (\<Union>c \<in> snd ` set (children nd). below t P c)"
  then consider "m = n" | k c where "(k, c) \<in> set (children nd)" "m \<in> below t P c" by auto
  then show "m \<in> below t P n"
  proof cases
    case 1
    then show ?thesis using below_self [OF n] by simp
  next
    case (2 k c)
    have "prefix (P n) (P c)" by (rule child_path_longer(2) [OF wf n wf_child_in [OF wf n 2(1)]])
    then show ?thesis using 2(2) by (auto simp: below_def intro: prefix_order.trans)
  qed
qed

lemma below_child_smaller:
  assumes wf: "wf_shape t P" and n: "heap t n = Some nd" and c: "c \<in> snd ` set (children nd)"
  shows "card (below t P c) < card (below t P n)"
proof (rule psubset_card_mono [OF below_finite [OF wf]])
  obtain k where k: "map_of (children nd) k = Some c" using child_in_heap [OF wf n c] by blast
  have "n \<notin> below t P c"
    using child_path_longer(1) [OF wf n k] by (auto simp: below_def dest: prefix_length_le)
  then show "below t P c \<subset> below t P n" using below_children [OF wf n] c by blast
qed

lemma below_disjoint:
  assumes wf: "wf_shape t P" and n: "heap t n = Some nd"
    and c: "(k, c) \<in> set (children nd)" "(k', c') \<in> set (children nd)" "(k, c) \<noteq> (k', c')"
  shows "below t P c \<inter> below t P c' = {}"
proof -
  have k: "map_of (children nd) k = Some c" "map_of (children nd) k' = Some c'"
    using wf_child_in [OF wf n] c by auto
  then have "k \<noteq> k'" using c(3) by auto
  moreover have "k = k'" if "prefix (P c) (P m)" "prefix (P c') (P m)" for m
    using child_path_longer [OF wf n k(1)] child_path_longer [OF wf n k(2)] that
    by (metis prefix_nth)
  ultimately show ?thesis by (auto simp: below_def)
qed

section \<open>The covering sequence\<close>

lemma covering_ok:
  assumes wf: "wf_tree t P"
    and "\<forall>n \<in> set ns. heap t n \<noteq> None"
    and "\<forall>n \<in> set ns. card (below t P n) < k"
  shows "\<exists>r. covering_in_list t ns = Some r \<and>
    source_in t P (\<Union>n \<in> set ns. above t P n \<union> below t P n) r"
  using assms(2,3)
proof (induction k arbitrary: ns)
  case 0
  then have "ns = []" by (cases ns) auto
  then show ?case by (auto simp: covering_in_list.simps source_in_def)
next
  case (Suc k)
  have wfs: "wf_shape t P" using wf by (simp add: wf_tree_def)
  from Suc.prems show ?case
  proof (induction ns)
    case Nil
    then show ?case by (auto simp: covering_in_list.simps source_in_def)
  next
    case (Cons n rest)
    obtain nd where n: "heap t n = Some nd" using Cons.prems(1) by auto
    obtain a where a: "ready_ancestor t (Some n) = Some a" "source_in t P (above t P n) a"
      using ready_ancestor_ok [OF wf n] by blast
    let ?cs = "map snd (children nd)"
    have "\<forall>c \<in> set ?cs. heap t c \<noteq> None" using child_in_heap [OF wfs n] by fastforce
    moreover have "\<forall>c \<in> set ?cs. card (below t P c) < k"
    proof
      fix c assume "c \<in> set ?cs"
      then have "card (below t P c) < card (below t P n)"
        using below_child_smaller [OF wfs n] by simp
      then show "card (below t P c) < k" using Cons.prems(2) by auto
    qed
    ultimately obtain b where b: "covering_in_list t ?cs = Some b"
      "source_in t P (\<Union>c \<in> set ?cs. above t P c \<union> below t P c) b"
      using Suc.IH by blast
    have ab: "above t P c \<subseteq> above t P n \<union> below t P n" if cc: "c \<in> set ?cs" for c
    proof -
      obtain cn where "heap t c = Some cn" "parent cn = Some n"
        using child_in_heap [OF wfs n, of c] cc by auto
      then have "above t P c = insert c (above t P n)" by (rule above_parent [OF wfs])
      moreover have "c \<in> below t P c" using \<open>heap t c = Some cn\<close> by (rule below_self)
      ultimately show ?thesis using below_children [OF wfs n] cc by auto
    qed
    have sub: "(\<Union>c \<in> set ?cs. above t P c \<union> below t P c) \<subseteq> above t P n \<union> below t P n"
      using ab below_children [OF wfs n] by auto
    have cover: "above t P n \<union> below t P n \<subseteq>
        above t P n \<union> (\<Union>c \<in> set ?cs. above t P c \<union> below t P c)"
      using below_children [OF wfs n] above_self [OF n] by auto
    obtain d where d: "covering_in_list t rest = Some d"
      "source_in t P (\<Union>n \<in> set rest. above t P n \<union> below t P n) d"
      using Cons.IH Cons.prems by auto
    let ?r = "case a of Some x \<Rightarrow> a | None \<Rightarrow> (case b of Some x \<Rightarrow> b | None \<Rightarrow> d)"
    have "covering_in_list t (n # rest) = Some ?r"
      using a(1) b(1) d(1) n by (subst covering_in_list.simps) (auto split: option.splits)
    moreover have "source_in t P (\<Union>n \<in> set (n # rest). above t P n \<union> below t P n) ?r"
    proof (cases a)
      case (Some x)
      have "source_in t P (\<Union>n \<in> set (n # rest). above t P n \<union> below t P n) (Some x)"
        by (rule source_in_Some_mono [OF a(2) [unfolded Some]]) auto
      then show ?thesis by (simp only: Some option.case)
    next
      case a': None
      show ?thesis
      proof (cases b)
        case (Some x)
        have "source_in t P (\<Union>n \<in> set (n # rest). above t P n \<union> below t P n) (Some x)"
          by (rule source_in_Some_mono [OF b(2) [unfolded Some]]) (use sub in auto)
        then show ?thesis by (simp only: a' Some option.case)
      next
        case b': None
        have none: "\<forall>m \<in> above t P n \<union> below t P n. \<not> is_ready t m"
        proof
          fix m assume "m \<in> above t P n \<union> below t P n"
          then have "m \<in> above t P n \<union> (\<Union>c \<in> set ?cs. above t P c \<union> below t P c)"
            by (rule subsetD [OF cover])
          then show "\<not> is_ready t m"
          proof (rule UnE)
            assume "m \<in> above t P n"
            then show ?thesis by (rule bspec [OF a(2) [unfolded a' source_in_None]])
          next
            assume "m \<in> (\<Union>c \<in> set ?cs. above t P c \<union> below t P c)"
            then show ?thesis by (rule bspec [OF b(2) [unfolded b' source_in_None]])
          qed
        qed
        have "source_in t P (\<Union>n \<in> set (n # rest). above t P n \<union> below t P n) d"
        proof (cases d)
          case None
          then show ?thesis using d(2) none by (simp add: source_in_None ball_Un)
        next
          case (Some x)
          show ?thesis unfolding Some
            by (rule source_in_Some_mono [OF d(2) [unfolded Some]]) auto
        qed
        then show ?thesis by (simp only: a' b' option.case)
      qed
    qed
    ultimately show ?case by blast
  qed
qed

lemma find_covering_ok:
  assumes "wf_tree t P" "heap t n = Some nd"
  shows "\<exists>r. find_covering_seq_id t (Some n) = Some r \<and> source_in t P (above t P n \<union> below t P n) r"
  using covering_ok [OF assms(1), of "[n]" "Suc (card (below t P n))"] assms(2)
  by (auto simp: find_covering_seq_id_def)

lemma find_covering_ready:
  assumes wf: "wf_tree t P" and n: "heap t n = Some nd" and r: "ready_seq_ids nd \<noteq> {}"
  shows "find_covering_seq_id t (Some n) = Some (Some (Min (ready_seq_ids nd), int (length (P n))))"
proof -
  have "wf_shape t P" using wf by (simp add: wf_tree_def)
  then have "ready_ancestor t (Some n) = Some (Some (Min (ready_seq_ids nd), int (length (P n))))"
    using n r depth_ok [OF _ n] ready_node_source(1) [OF wf n r]
    by (subst ready_ancestor.simps) simp
  then show ?thesis by (simp add: find_covering_seq_id_def covering_in_list.simps)
qed

section \<open>Traversals\<close>

definition visit_all :: "(addr \<Rightarrow> radix_node \<Rightarrow> 'a \<Rightarrow> 'a) \<Rightarrow> radix_tree \<Rightarrow> addr list \<Rightarrow> 'a \<Rightarrow> 'a" where
  "visit_all f t ns acc = fold (\<lambda>n a. f n (the (heap t n)) a) ns acc"

lemma visit_stack_forest:
  assumes wf: "wf_shape t P"
    and "\<forall>c \<in> set cs. heap t c \<noteq> None" "\<forall>c \<in> set cs. card (below t P c) < k"
    and "distinct cs" "\<forall>c \<in> set cs. \<forall>c' \<in> set cs. c \<noteq> c' \<longrightarrow> below t P c \<inter> below t P c' = {}"
  shows "\<exists>ns. distinct ns \<and> set ns = (\<Union>c \<in> set cs. below t P c) \<and>
    (\<forall>rest acc. visit_stack f t (cs @ rest) acc = visit_stack f t rest (visit_all f t ns acc))"
  using assms(2-)
proof (induction k arbitrary: cs)
  case 0
  then have "cs = []" by (cases cs) auto
  then show ?case by (intro exI [of _ "[]"]) (simp add: visit_all_def)
next
  case (Suc k)
  note outer = Suc.IH
  from Suc.prems show ?case
  proof (induction cs)
    case Nil
    show ?case by (intro exI [of _ "[]"]) (simp add: visit_all_def)
  next
    case (Cons n cs)
    obtain nd where n: "heap t n = Some nd" using Cons.prems(1) by auto
    let ?cs = "rev (map snd (children nd))"
    have dist: "distinct (map fst (children nd))" by (rule wf_children_distinct [OF wf n])
    have disj: "below t P c \<inter> below t P c' = {}"
      if "c \<in> set ?cs" "c' \<in> set ?cs" "c \<noteq> c'" for c c'
      using that below_disjoint [OF wf n] by fastforce
    have inj: "k = k'" if "(k, c) \<in> set (children nd)" "(k', c) \<in> set (children nd)" for k k' c
      using wf_child_unique [OF wf n n] wf_child_in [OF wf n] that by blast
    have c1: "distinct ?cs"
      using dist inj by (auto simp: distinct_map inj_on_def)
    have c2: "\<forall>c \<in> set ?cs. heap t c \<noteq> None" using child_in_heap [OF wf n] by fastforce
    have c3: "\<forall>c \<in> set ?cs. card (below t P c) < k"
    proof
      fix c assume "c \<in> set ?cs"
      then have "card (below t P c) < card (below t P n)"
        using below_child_smaller [OF wf n] by simp
      then show "card (below t P c) < k" using Cons.prems(2) by auto
    qed
    have c4: "\<forall>c \<in> set ?cs. \<forall>c' \<in> set ?cs. c \<noteq> c' \<longrightarrow> below t P c \<inter> below t P c' = {}"
      using disj by (intro ballI impI)
    from outer [OF c2 c3 c1 c4] obtain ms where ms: "distinct ms" "set ms = (\<Union>c \<in> set ?cs. below t P c)"
      "\<forall>rest acc. visit_stack f t (?cs @ rest) acc = visit_stack f t rest (visit_all f t ms acc)"
      by (elim exE conjE)
    obtain ls where ls: "distinct ls" "set ls = (\<Union>c \<in> set cs. below t P c)"
      "\<forall>rest acc. visit_stack f t (cs @ rest) acc = visit_stack f t rest (visit_all f t ls acc)"
      using Cons.IH Cons.prems by auto
    have below_n: "below t P n = insert n (set ms)" using below_children [OF wf n] ms(2) by simp
    have "n \<notin> set ms"
    proof
      assume "n \<in> set ms"
      then obtain c where "c \<in> snd ` set (children nd)" "n \<in> below t P c" using ms(2) by auto
      then show False using child_in_heap [OF wf n] child_path_longer(1) [OF wf n]
        by (fastforce simp: below_def dest: prefix_length_le)
    qed
    moreover have "set ls \<inter> insert n (set ms) = {}"
      using Cons.prems(3,4) ls(2) below_n by auto
    ultimately have "distinct (n # ms @ ls)" using ms(1) ls(1) by auto
    moreover have "set (n # ms @ ls) = (\<Union>c \<in> set (n # cs). below t P c)" using below_n ls(2) by auto
    moreover have "visit_stack f t ((n # cs) @ rest) acc =
        visit_stack f t rest (visit_all f t (n # ms @ ls) acc)" for rest acc
    proof -
      have "visit_stack f t ((n # cs) @ rest) acc = visit_stack f t (?cs @ (cs @ rest)) (f n nd acc)"
        using n by (subst visit_stack.simps) simp
      also have "\<dots> = visit_stack f t rest (visit_all f t ls (visit_all f t ms (f n nd acc)))"
        using ms(3) ls(3) by simp
      finally show ?thesis using n by (simp add: visit_all_def)
    qed
    ultimately show ?case by blast
  qed
qed

lemma below_root:
  assumes "wf_shape t P"
  shows "below t P root_addr = dom (heap t)"
proof -
  have "P root_addr = []" using wf_rootD [OF assms] by metis
  then show ?thesis by (auto simp: below_def)
qed

text \<open>Every traversal from the root returns and visits each node of the tree exactly once.\<close>

lemma visit_stack_root:
  assumes wf: "wf_shape t P"
  shows "\<exists>ns. distinct ns \<and> set ns = dom (heap t) \<and>
    visit_stack f t [root_addr] acc = Some (visit_all f t ns acc)"
proof -
  obtain r where r: "heap t root_addr = Some r" using wf_rootD [OF wf] by metis
  from visit_stack_forest [OF wf, of "[root_addr]" "Suc (card (below t P root_addr))" f] r
  obtain ns where "distinct ns" "set ns = below t P root_addr"
    "visit_stack f t ([root_addr] @ []) acc = visit_stack f t [] (visit_all f t ns acc)" by auto
  then show ?thesis using below_root [OF wf] by (auto simp: visit_stack.simps [of f t "[]"])
qed

lemma fold_sum: "distinct ns \<Longrightarrow> fold (\<lambda>n a. a + g n) ns (c::int) = c + (\<Sum>n \<in> set ns. g n)"
  by (induction ns arbitrary: c) auto

lemma active_sequence_count_ok:
  assumes "wf_shape t P"
  shows "active_sequence_count t = Some (\<Sum>n \<in> dom (heap t). int (card (seq_ids (the (heap t n)))))"
  using visit_stack_root [OF assms, of "\<lambda>_ nd c. c + int (card (seq_ids nd))" 0]
  by (auto simp: active_sequence_count_def visit_all_def fold_sum)

lemma node_count_ok:
  assumes "wf_shape t P"
  shows "node_count t = Some (int (card (dom (heap t))))"
  using visit_stack_root [OF assms, of "\<lambda>_ _ c. c + 1" "0::int"]
  by (auto simp: node_count_def visit_all_def fold_sum [of _ "\<lambda>_. 1"])

lemma retained_sequence_count_ok:
  assumes "wf_shape t P"
  shows "retained_sequence_count t = Some (\<Sum>n \<in> dom (heap t).
    if ref_count (the (heap t n)) = 0 then int (card (ready_seq_ids (the (heap t n)))) else 0)"
proof -
  have eq: "(\<lambda>n a. if ref_count (the (heap t n)) = 0 then a + int (card (ready_seq_ids (the (heap t n)))) else a) =
    (\<lambda>n a. a + (if ref_count (the (heap t n)) = 0 then int (card (ready_seq_ids (the (heap t n)))) else 0))"
    by (auto simp: fun_eq_iff)
  show ?thesis
    using visit_stack_root [OF assms,
        of "\<lambda>_ nd c. if ref_count nd = 0 then c + int (card (ready_seq_ids nd)) else c" 0]
    by (auto simp: retained_sequence_count_def visit_all_def eq fold_sum)
qed

section \<open>Eviction candidates\<close>

definition evictable :: "radix_tree \<Rightarrow> addr \<Rightarrow> bool" where
  "evictable t n \<longleftrightarrow> n \<noteq> root_addr \<and>
     (\<exists>nd. heap t n = Some nd \<and> ref_count nd = 0 \<and> seq_ids nd \<noteq> {})"

abbreviation last_tick :: "radix_tree \<Rightarrow> addr \<Rightarrow> nat" where
  "last_tick t n \<equiv> last_access_tick (the (heap t n))"

lemma collect_all:
  "set ns \<subseteq> dom (heap t) \<Longrightarrow> visit_all collect_candidate t ns acc =
   acc @ map (\<lambda>n. (n, last_tick t n)) (filter (evictable t) ns)"
proof (induction ns arbitrary: acc)
  case (Cons n ns)
  then obtain nd where "heap t n = Some nd" by auto
  with Cons show ?case
    by (auto simp: visit_all_def collect_candidate_def evictable_def)
qed (simp add: visit_all_def)

text \<open>
  The candidates are the idle owners of sequences, least recently used first.
\<close>

lemma find_eviction_candidates_ok:
  assumes wf: "wf_shape t P"
  shows "\<exists>cs. find_eviction_candidates t limit = Some (take limit cs) \<and> distinct cs \<and>
    set cs = {n. evictable t n} \<and> sorted (map (last_tick t) cs)"
proof -
  obtain ns where ns: "distinct ns" "set ns = dom (heap t)"
    "visit_stack collect_candidate t [root_addr] [] = Some (visit_all collect_candidate t ns [])"
    using visit_stack_root [OF wf, of collect_candidate "[]"] by (elim exE conjE)
  define xs where "xs = map (\<lambda>n. (n, last_tick t n)) (filter (evictable t) ns)"
  define cs where "cs = map fst (sort_key snd xs)"
  have "visit_stack collect_candidate t [root_addr] [] = Some xs"
    using ns(2,3) collect_all [of ns t "[]"] by (simp add: xs_def)
  then have run: "find_eviction_candidates t limit = Some (take limit cs)"
    by (simp add: find_eviction_candidates_def cs_def)
  have xs_tick: "\<forall>p \<in> set (sort_key snd xs). snd p = last_tick t (fst p)" by (auto simp: xs_def)
  have set_cs: "set cs = {n. evictable t n}"
    using ns(2) by (auto simp: cs_def xs_def evictable_def image_image)
  have "mset cs = mset (map fst xs)" unfolding cs_def mset_map by simp
  then have "distinct cs"
  proof (rule mset_eq_imp_distinct_iff [THEN iffD2])
    show "distinct (map fst xs)" using ns(1) by (simp add: xs_def comp_def)
  qed
  moreover have "map (last_tick t) cs = map snd (sort_key snd xs)"
    unfolding cs_def map_map by (rule map_cong [OF refl]) (use xs_tick in auto)
  then have "sorted (map (last_tick t) cs)" by (metis sorted_sort_key)
  ultimately show ?thesis using run set_cs by blast
qed

lemma evict_candidate_one:
  assumes wf: "wf_shape t P"
  shows "(find_eviction_candidates t 1 = Some [] \<and> (\<forall>n. \<not> evictable t n)) \<or>
    (\<exists>n. find_eviction_candidates t 1 = Some [n] \<and> evictable t n \<and>
       (\<forall>m. evictable t m \<longrightarrow> last_tick t n \<le> last_tick t m))"
proof -
  obtain cs where cs: "find_eviction_candidates t 1 = Some (take 1 cs)" "distinct cs"
    "set cs = {n. evictable t n}" "sorted (map (last_tick t) cs)"
    using find_eviction_candidates_ok [OF wf] by blast
  show ?thesis
  proof (cases cs)
    case Nil
    then show ?thesis using cs by auto
  next
    case (Cons n ns)
    then have "evictable t n" using cs(3) by auto
    moreover have "last_tick t n \<le> last_tick t m" if "evictable t m" for m
    proof -
      have "m \<in> set (n # ns)" using that cs(3) Cons by auto
      then show ?thesis using cs(4) Cons by auto
    qed
    ultimately show ?thesis using cs(1) Cons by auto
  qed
qed

section \<open>Inspection\<close>

definition covered_by :: "radix_tree \<Rightarrow> (addr \<Rightarrow> token list) \<Rightarrow> token list \<Rightarrow> (radix_node \<Rightarrow> bool) \<Rightarrow> int \<Rightarrow> bool" where
  "covered_by t P toks ok k \<longleftrightarrow> 0 \<le> k \<and> (0 < k \<longrightarrow> (\<exists>m md. heap t m = Some md \<and> ok md \<and>
     k \<le> int (length (P m)) \<and> take (nat k) (P m) = take (nat k) toks))"

definition avail_sound :: "radix_tree \<Rightarrow> (addr \<Rightarrow> token list) \<Rightarrow> token list \<Rightarrow> prefix_availability \<Rightarrow> bool" where
  "avail_sound t P toks av \<longleftrightarrow>
     covered_by t P toks (\<lambda>md. ready_seq_ids md \<noteq> {}) (ready_tokens av) \<and>
     covered_by t P toks (\<lambda>md. seq_ids md - ready_seq_ids md \<noteq> {}) (pending_tokens av)"

lemma avail_sound_matched [simp]: "avail_sound t P toks (av\<lparr>avail_matched := k\<rparr>) = avail_sound t P toks av"
  by (simp add: avail_sound_def)

lemma covered_by_max: "covered_by t P toks ok a \<Longrightarrow> covered_by t P toks ok b \<Longrightarrow> covered_by t P toks ok (max a b)"
  by (auto simp: max_def)

lemma consider_sound:
  assumes wf: "wf_tree t P" and n: "heap t n = Some nd" and av: "avail_sound t P toks av"
    and k: "0 < k" "k \<le> length (P n)" "take k (P n) = take k toks"
  shows "avail_sound t P toks (consider_availability nd (int k) av)"
proof -
  have node: "finite (seq_ids nd)" "ready_seq_ids nd \<subseteq> seq_ids nd"
    "seq_ids nd \<noteq> {} \<longrightarrow> int (length (P n)) \<le> canonical_len nd"
    using wf_nodeD [OF wf n] by (auto simp: wf_node_def)
  have cov: "covered_by t P toks ok (min (int k) (canonical_len nd))"
    if "ok nd" "seq_ids nd \<noteq> {}" for ok
  proof -
    have "min (int k) (canonical_len nd) = int k" using node(3) that k(2) by simp
    then show ?thesis using n that k by (auto simp: covered_by_def)
  qed
  have pend: "seq_ids nd - ready_seq_ids nd \<noteq> {}" if "card (ready_seq_ids nd) < card (seq_ids nd)"
    using that node by (metis Diff_eq_empty_iff card_mono finite_subset leD)
  show ?thesis
  proof -
    let ?c = "min (int k) (canonical_len nd)"
    have "covered_by t P toks (\<lambda>md. ready_seq_ids md \<noteq> {}) ?c" if "ready_seq_ids nd \<noteq> {}"
      using cov [of "\<lambda>md. ready_seq_ids md \<noteq> {}"] that node(2) by auto
    moreover have "covered_by t P toks (\<lambda>md. seq_ids md - ready_seq_ids md \<noteq> {}) ?c"
      if "card (ready_seq_ids nd) < card (seq_ids nd)"
      using cov [of "\<lambda>md. seq_ids md - ready_seq_ids md \<noteq> {}"] pend [OF that] by blast
    ultimately show ?thesis using av
      by (simp add: avail_sound_def consider_availability_def Let_def covered_by_max)
  qed
qed

lemma inspect_loop_ok:
  assumes wf: "wf_tree t P" and "heap t cur = Some cd" "P cur @ rest = toks"
    and "m = int (length (P cur))" "avail_sound t P toks av"
  shows "\<exists>av'. inspect_prefix_loop t cur rest m av = Some av' \<and> avail_sound t P toks av' \<and>
    0 \<le> avail_matched av' \<and> avail_matched av' \<le> int (length toks) \<and>
    (\<forall>xs. prefix xs toks \<longrightarrow> (xs \<in> keys t P \<longleftrightarrow> int (length xs) \<le> avail_matched av'))"
  using assms(2-)
proof (induction "length rest" arbitrary: rest cur cd m av rule: less_induct)
  case less
  note cur = less.prems(1) and toks = less.prems(2) and m = less.prems(3) and av = less.prems(4)
  have wfs: "wf_shape t P" using wf by (simp add: wf_tree_def)
  have lenm: "m \<le> int (length toks)" using m toks by auto
  show ?case
  proof (cases rest)
    case Nil
    have "prefix xs toks \<longrightarrow> (xs \<in> keys t P \<longleftrightarrow> int (length xs) \<le> m)" for xs
      using longest_prefix [OF wfs cur toks] Nil m by auto
    then show ?thesis using Nil av m lenm by (subst inspect_prefix_loop.simps) simp
  next
    case (Cons x xs)
    show ?thesis
    proof (cases "map_of (children cd) x")
      case None
      have "prefix xs toks \<longrightarrow> (xs \<in> keys t P \<longleftrightarrow> int (length xs) \<le> m)" for xs
        using longest_prefix [OF wfs cur toks] None Cons m by auto
      then show ?thesis using None cur Cons av m lenm by (subst inspect_prefix_loop.simps) simp
    next
      case (Some c)
      obtain cn where c: "heap t c = Some cn" "parent cn = Some cur" "hd (tokens cn) = x"
        "c \<noteq> root_addr" "tokens cn \<noteq> []" "P c = P cur @ tokens cn"
        by (rule wf_downD [OF wfs cur Some])
      define k where "k = match_len (tokens cn) rest"
      have kx: "match_len (tokens cn) (x # xs) = k" using Cons by (simp add: k_def)
      have k0: "0 < k" using c Cons by (simp add: k_def match_len_pos)
      have kle: "k \<le> length (tokens cn)" "k \<le> length rest" by (simp_all add: k_def match_len_le)
      have ktake: "take k (tokens cn) = take k rest" by (simp add: k_def match_len_take)
      have cov: "take (length (P cur) + k) (P c) = take (length (P cur) + k) toks"
        using ktake c(6) toks by auto
      have mk: "m + int k = int (length (P cur) + k)" using m by simp
      have av': "avail_sound t P toks (consider_availability cn (m + int k) av)"
        unfolding mk using c(6) kle k0 by (intro consider_sound [OF wf c(1) av _ _ cov]) auto
      show ?thesis
      proof (cases "k < length (tokens cn)")
        case True
        have "prefix ys toks \<longrightarrow> (ys \<in> keys t P \<longleftrightarrow> int (length ys) \<le> m + int k)" for ys
        proof (intro impI iffI)
          assume pre: "prefix ys toks" and "int (length ys) \<le> m + int k"
          then have "length ys \<le> length (P cur) + k" using m by simp
          then have "prefix ys (take (length (P cur) + k) toks)"
            using pre by (metis append_take_drop_id length_take min.absorb2 min_def prefixI
                prefix_length_le prefix_length_prefix take_is_prefix)
          then have "prefix ys (P c)" unfolding cov [symmetric] using take_is_prefix prefix_order.trans by blast
          then show "ys \<in> keys t P" using keys_path [OF c(1)] keys_prefix_closed by blast
        next
          assume pre: "prefix ys toks" and "ys \<in> keys t P"
          then obtain z zd where z: "heap t z = Some zd" "prefix ys (P z)" by (auto simp: keys_def)
          show "int (length ys) \<le> m + int k"
          proof (rule ccontr)
            assume "\<not> int (length ys) \<le> m + int k"
            then have long: "length (P cur) + k < length ys" using m by simp
            have "prefix (P cur) ys" using pre toks long
              by (metis add_lessD1 order_less_imp_le prefixI prefix_length_prefix)
            then have "prefix (P cur) (P z)" using z(2) by (rule prefix_order.trans)
            moreover have "cur \<noteq> z" using long z(2) by (auto dest: prefix_length_le)
            moreover have "P z ! length (P cur) = x"
            proof -
              have "P z ! length (P cur) = toks ! length (P cur)"
                using z(2) pre long by (metis add_lessD1 prefix_nth)
              then show ?thesis using toks Cons by (metis nth_append_length)
            qed
            ultimately have "prefix (P c) (P z)" using path_toward [OF wfs cur z(1)] Some by auto
            have klen: "k < length rest" using long pre toks by (auto dest: prefix_length_le)
            have "tokens cn ! k = P z ! (length (P cur) + k)"
              using \<open>prefix (P c) (P z)\<close> c(6) True
              by (metis nat_add_left_cancel_less length_append nth_append_length_plus prefix_nth)
            also have "\<dots> = toks ! (length (P cur) + k)" using z(2) pre long by (metis prefix_nth)
            also have "\<dots> = rest ! k" using toks by (metis nth_append_length_plus)
            finally show False using match_len_diff True klen unfolding k_def by blast
          qed
        qed
        moreover have "inspect_prefix_loop t cur rest m av =
            Some ((consider_availability cn (m + int k) av)\<lparr>avail_matched := m + int k\<rparr>)"
          using Cons cur Some c(1) True k0
          by (subst inspect_prefix_loop.simps) (simp add: Let_def kx)
        moreover have "m + int k \<le> int (length toks)" using m toks kle(2) by auto
        ultimately show ?thesis using av' m by simp
      next
        case False
        then have kl: "k = length (tokens cn)" using kle(1) by simp
        have rest: "tokens cn @ drop k rest = rest"
          using ktake kl by (metis append_take_drop_id order_refl take_all)
        have step: "inspect_prefix_loop t cur rest m av =
            inspect_prefix_loop t c (drop k rest) (m + int k) (consider_availability cn (m + int k) av)"
          using Cons cur Some c(1) False k0
          by (subst inspect_prefix_loop.simps) (simp add: Let_def kx)
        show ?thesis unfolding step
        proof (rule less.hyps [OF _ c(1) _ _ av'])
          show "length (drop k rest) < length rest" using k0 Cons by simp
          show "P c @ drop k rest = toks" using c(6) rest toks by simp
          show "m + int k = int (length (P c))" using c(6) m kl by simp
        qed
      qed
    qed
  qed
qed

end
