(* ===== verification/RF_Json.thy ===== *)
theory RF_Json
  imports RF_Prelude "HOL-Library.Word" "HOL-Library.Log_Nat" "HOL-Library.Char_ord"
begin

unbundle bit_operations_syntax

text \<open>
  The JSON reader (include/radixforge/json_minimal.h): the value type and the recursive descent
  parser. The parser's state is the rest of the input after \<open>pos_\<close>; every \<open>throw\<close> is an \<open>Inl\<close>
  with the message, which the server sends to the client. Bytes are Isabelle's 8-bit characters.
\<close>

section \<open>Values\<close>

datatype json_type = TNull | TBool | TNumber | TString | TArray | TObject

text \<open>
  The type of numbers is a parameter, so that a document can also carry the literal of a
  number. Members of an object are in the order of their first occurrence.
\<close>

datatype 'n json_tree =
    JNull
  | JBool bool
  | JNumber 'n
  | JString string
  | JArray "'n json_tree list"
  | JObject "(string \<times> 'n json_tree) list"

type_synonym json = "rat json_tree"

fun json_type_of :: "'n json_tree \<Rightarrow> json_type" where
  "json_type_of JNull = TNull"
| "json_type_of (JBool _) = TBool"
| "json_type_of (JNumber _) = TNumber"
| "json_type_of (JString _) = TString"
| "json_type_of (JArray _) = TArray"
| "json_type_of (JObject _) = TObject"

fun as_bool :: "'n json_tree \<Rightarrow> bool" where
  "as_bool (JBool b) = b"
| "as_bool _ = False"

fun as_number :: "json \<Rightarrow> rat" where
  "as_number (JNumber x) = x"
| "as_number _ = 0"

fun as_string :: "'n json_tree \<Rightarrow> string" where
  "as_string (JString s) = s"
| "as_string _ = []"

fun as_array :: "'n json_tree \<Rightarrow> 'n json_tree list" where
  "as_array (JArray vs) = vs"
| "as_array _ = []"

fun as_object :: "'n json_tree \<Rightarrow> (string \<times> 'n json_tree) list" where
  "as_object (JObject ms) = ms"
| "as_object _ = []"

text \<open>\<open>operator[]\<close> with a key.\<close>

definition json_member :: "'n json_tree \<Rightarrow> string \<Rightarrow> 'n json_tree" where
  "json_member v key = (case map_of (as_object v) key of Some w \<Rightarrow> w | None \<Rightarrow> JNull)"

definition json_contains :: "'n json_tree \<Rightarrow> string \<Rightarrow> bool" where
  "json_contains v key \<longleftrightarrow> json_type_of v = TObject \<and> map_of (as_object v) key \<noteq> None"

definition json_length :: "'n json_tree \<Rightarrow> nat" where
  "json_length v = (if json_type_of v = TArray then length (as_array v)
                    else if json_type_of v = TObject then length (as_object v) else 0)"

text \<open>\<open>emplace\<close> keeps the member that is already there.\<close>

definition emplace :: "string \<Rightarrow> 'v \<Rightarrow> (string \<times> 'v) list \<Rightarrow> (string \<times> 'v) list" where
  "emplace key val ms = (if map_of ms key = None then ms @ [(key, val)] else ms)"

section \<open>Numbers\<close>

definition is_digit :: "char \<Rightarrow> bool" where
  "is_digit c \<longleftrightarrow> CHR ''0'' \<le> c \<and> c \<le> CHR ''9''"

definition digit_value :: "char \<Rightarrow> int" where
  "digit_value c = of_char c - 48"

definition digits_value :: "string \<Rightarrow> int" where
  "digits_value ds = foldl (\<lambda>n c. 10 * n + digit_value c) 0 ds"

text \<open>The parts of a literal: text and rest. \<open>scan_digits\<close> fails when there is no digit.\<close>

definition scan_digits :: "string \<Rightarrow> string \<Rightarrow> string + string \<times> string" where
  "scan_digits message s =
     (if takeWhile is_digit s = [] then Inl message else Inr (takeWhile is_digit s, dropWhile is_digit s))"

definition scan_integer :: "string \<Rightarrow> string + string \<times> string" where
  "scan_integer s =
     (case s of
        [] \<Rightarrow> Inl ''invalid JSON number''
      | c # r \<Rightarrow>
          if c = CHR ''0'' then
            (if r \<noteq> [] \<and> is_digit (hd r) then Inl ''leading zero in JSON number'' else Inr ([c], r))
          else if is_digit c then Inr (takeWhile is_digit s, dropWhile is_digit s)
          else Inl ''invalid JSON number'')"

definition scan_fraction :: "string \<Rightarrow> string + string \<times> string" where
  "scan_fraction s =
     (case s of
        CHR ''.'' # r \<Rightarrow>
          (case scan_digits ''invalid JSON number fraction'' r of
             Inl e \<Rightarrow> Inl e | Inr (ds, rest) \<Rightarrow> Inr (CHR ''.'' # ds, rest))
      | _ \<Rightarrow> Inr ([], s))"

definition scan_exponent :: "string \<Rightarrow> string + string \<times> string" where
  "scan_exponent s =
     (case s of
        [] \<Rightarrow> Inr ([], s)
      | c # r \<Rightarrow>
          if c = CHR ''e'' \<or> c = CHR ''E'' then
            (let sgn = (if r \<noteq> [] \<and> (hd r = CHR ''+'' \<or> hd r = CHR ''-'') then [hd r] else []) in
             case scan_digits ''invalid JSON number exponent'' (drop (length sgn) r) of
               Inl e \<Rightarrow> Inl e | Inr (ds, rest) \<Rightarrow> Inr (c # sgn @ ds, rest))
          else Inr ([], s))"

definition scan_number :: "string \<Rightarrow> string + string \<times> string" where
  "scan_number s =
     (let sgn = (if s \<noteq> [] \<and> hd s = CHR ''-'' then ''-'' else []) in
      case scan_integer (drop (length sgn) s) of
        Inl e \<Rightarrow> Inl e
      | Inr (ds, s1) \<Rightarrow>
          (case scan_fraction s1 of
             Inl e \<Rightarrow> Inl e
           | Inr (fs, s2) \<Rightarrow>
               (case scan_exponent s2 of
                  Inl e \<Rightarrow> Inl e
                | Inr (es, s3) \<Rightarrow> Inr (sgn @ ds @ fs @ es, s3))))"

text \<open>
  \<open>std::stod\<close>: the decimal value of a literal, rounded to the nearest double (ties to even).
  It throws when the result overflows, and when it underflows inexactly.
\<close>

definition pow2 :: "int \<Rightarrow> rat" where
  "pow2 e = (if 0 \<le> e then 2 ^ nat e else 1 / 2 ^ nat (- e))"

definition pow10 :: "int \<Rightarrow> rat" where
  "pow10 e = (if 0 \<le> e then 10 ^ nat e else 1 / 10 ^ nat (- e))"

definition decimal_value :: "string \<Rightarrow> rat" where
  "decimal_value text =
     (let neg = (text \<noteq> [] \<and> hd text = CHR ''-'');
          s = (if neg then tl text else text);
          ds = takeWhile is_digit s; s1 = dropWhile is_digit s;
          frac = (s1 \<noteq> [] \<and> hd s1 = CHR ''.'');
          fs = (if frac then takeWhile is_digit (tl s1) else []);
          s2 = (if frac then dropWhile is_digit (tl s1) else s1);
          expo = (if s2 = [] then 0
                  else let r = tl s2; eneg = (r \<noteq> [] \<and> hd r = CHR ''-'');
                           ed = (if r \<noteq> [] \<and> (hd r = CHR ''+'' \<or> hd r = CHR ''-'') then tl r else r) in
                       (if eneg then - digits_value ed else digits_value ed));
          m = of_int (digits_value (ds @ fs)) * pow10 (expo - int (length fs)) in
      if neg then - m else m)"

definition round_even :: "rat \<Rightarrow> int" where
  "round_even x = (let n = \<lfloor>x\<rfloor>; d = x - of_int n in
     if d < 1 / 2 then n else if d > 1 / 2 then n + 1 else if even n then n else n + 1)"

definition binary_exponent :: "rat \<Rightarrow> int" where
  "binary_exponent x = (let (p, q) = quotient_of x; e = bitlen p - bitlen q in
     if pow2 e \<le> x then e else e - 1)"

text \<open>
  Rounding of a positive value to \<open>p\<close> significant bits, with the smallest unit \<open>2 ^ emin\<close>.
\<close>

definition round_binary :: "int \<Rightarrow> int \<Rightarrow> rat \<Rightarrow> rat" where
  "round_binary p emin x = (let u = pow2 (max (binary_exponent x - (p - 1)) emin) in of_int (round_even (x / u)) * u)"

definition round_signed :: "int \<Rightarrow> int \<Rightarrow> rat \<Rightarrow> rat" where
  "round_signed p emin x = (if x = 0 then 0 else if x < 0 then - round_binary p emin (- x) else round_binary p emin x)"

definition stod :: "string \<Rightarrow> rat option" where
  "stod text = (let x = decimal_value text; y = round_signed 53 (-1074) x in
     if \<bar>y\<bar> \<ge> pow2 1024 then None
     else if \<bar>y\<bar> < pow2 (-1022) \<and> y \<noteq> x then None
     else Some y)"

section \<open>Strings\<close>

definition hex_value :: "char \<Rightarrow> int" where
  "hex_value c =
     (if is_digit c then of_char c - 48
      else if CHR ''a'' \<le> c \<and> c \<le> CHR ''f'' then of_char c - 97 + 10
      else if CHR ''A'' \<le> c \<and> c \<le> CHR ''F'' then of_char c - 65 + 10
      else -1)"

fun hex_digits :: "nat \<Rightarrow> 16 word \<Rightarrow> string \<Rightarrow> string + 16 word \<times> string" where
  "hex_digits 0 u s = Inr (u, s)"
| "hex_digits (Suc n) u [] = Inl ''truncated JSON Unicode escape''"
| "hex_digits (Suc n) u (c # s) =
     (if hex_value c < 0 then Inl ''invalid JSON Unicode escape''
      else hex_digits n (push_bit 4 u OR word_of_int (hex_value c)) s)"

definition parse_unicode_code_unit :: "string \<Rightarrow> string + 16 word \<times> string" where
  "parse_unicode_code_unit s =
     (if length s < 4 then Inl ''truncated JSON Unicode escape'' else hex_digits 4 0 s)"

definition byte :: "32 word \<Rightarrow> char" where
  "byte w = char_of (unat w)"

definition append_utf8 :: "string \<Rightarrow> 32 word \<Rightarrow> string" where
  "append_utf8 result cp =
     (if cp \<le> 0x7F then result @ [byte cp]
      else if cp \<le> 0x7FF then result @ [byte (0xC0 OR drop_bit 6 cp), byte (0x80 OR (cp AND 0x3F))]
      else if cp \<le> 0xFFFF then
        result @ [byte (0xE0 OR drop_bit 12 cp), byte (0x80 OR (drop_bit 6 cp AND 0x3F)),
                  byte (0x80 OR (cp AND 0x3F))]
      else
        result @ [byte (0xF0 OR drop_bit 18 cp), byte (0x80 OR (drop_bit 12 cp AND 0x3F)),
                  byte (0x80 OR (drop_bit 6 cp AND 0x3F)), byte (0x80 OR (cp AND 0x3F))])"

definition append_unicode_escape :: "string \<Rightarrow> string \<Rightarrow> string + string \<times> string" where
  "append_unicode_escape result s =
     (case parse_unicode_code_unit s of
        Inl e \<Rightarrow> Inl e
      | Inr (u, s1) \<Rightarrow>
          (let code_point = ucast u :: 32 word in
           if 0xD800 \<le> code_point \<and> code_point \<le> 0xDBFF then
             (if length s1 < 2 \<or> s1 ! 0 \<noteq> CHR 0x5C \<or> s1 ! 1 \<noteq> CHR ''u''
              then Inl ''unpaired high surrogate in JSON string''
              else
                case parse_unicode_code_unit (drop 2 s1) of
                  Inl e \<Rightarrow> Inl e
                | Inr (v, s2) \<Rightarrow>
                    (let low = ucast v :: 32 word in
                     if low < 0xDC00 \<or> low > 0xDFFF then Inl ''invalid low surrogate in JSON string''
                     else Inr (append_utf8 result
                            (0x10000 + push_bit 10 (code_point - 0xD800) + (low - 0xDC00)), s2)))
           else if 0xDC00 \<le> code_point \<and> code_point \<le> 0xDFFF
           then Inl ''unpaired low surrogate in JSON string''
           else Inr (append_utf8 result code_point, s1)))"

definition simple_escape :: "char \<Rightarrow> char option" where
  "simple_escape c =
     (if c = CHR 0x22 then Some (CHR 0x22)
      else if c = CHR 0x5C then Some (CHR 0x5C)
      else if c = CHR ''/'' then Some (CHR ''/'')
      else if c = CHR ''b'' then Some (CHR 0x08)
      else if c = CHR ''f'' then Some (CHR 0x0C)
      else if c = CHR ''n'' then Some (CHR 0x0A)
      else if c = CHR ''r'' then Some (CHR 0x0D)
      else if c = CHR ''t'' then Some (CHR 0x09)
      else None)"

lemma hex_digits_rest: "hex_digits n u s = Inr (v, r) \<Longrightarrow> length r + n = length s"
  by (induction n u s arbitrary: v r rule: hex_digits.induct) (auto split: if_splits)

lemma code_unit_rest: "parse_unicode_code_unit s = Inr (u, r) \<Longrightarrow> length r + 4 = length s"
  by (auto simp: parse_unicode_code_unit_def split: if_splits dest: hex_digits_rest)

lemma unicode_escape_rest: "append_unicode_escape acc s = Inr (acc', r) \<Longrightarrow> length r < length s"
  by (auto simp: append_unicode_escape_def Let_def split: sum.splits if_splits dest!: code_unit_rest)

function (sequential) string_body :: "string \<Rightarrow> string \<Rightarrow> string + string \<times> string" where
  "string_body result [] = Inl ''unterminated JSON string''"
| "string_body result (c # s) =
     (if c = CHR 0x22 then Inr (result, s)
      else if c < CHR 0x20 then Inl ''unescaped control character in JSON string''
      else if c \<noteq> CHR 0x5C then string_body (result @ [c]) s
      else
        case s of
          [] \<Rightarrow> Inl ''unterminated JSON escape sequence''
        | e # s1 \<Rightarrow>
            (case simple_escape e of
               Some x \<Rightarrow> string_body (result @ [x]) s1
             | None \<Rightarrow>
                 if e = CHR ''u'' then
                   (case append_unicode_escape result s1 of
                      Inl msg \<Rightarrow> Inl msg
                    | Inr (result', s2) \<Rightarrow> string_body result' s2)
                 else Inl ''invalid JSON escape sequence''))"
  by pat_completeness auto
termination
  by (relation "measure (\<lambda>(result, s). length s)") (auto dest: unicode_escape_rest)

definition is_ws :: "char \<Rightarrow> bool" where
  "is_ws c \<longleftrightarrow> c = CHR '' '' \<or> c = CHR 0x09 \<or> c = CHR 0x0A \<or> c = CHR 0x0D"

definition skip_ws :: "string \<Rightarrow> string" where
  "skip_ws s = dropWhile is_ws s"

definition expect :: "char \<Rightarrow> string \<Rightarrow> string + string" where
  "expect c s =
     (case skip_ws s of
        [] \<Rightarrow> Inl ''unexpected JSON token''
      | d # r \<Rightarrow> if d = c then Inr r else Inl ''unexpected JSON token'')"

definition parse_string :: "string \<Rightarrow> string + string \<times> string" where
  "parse_string s = (case expect (CHR 0x22) s of Inl e \<Rightarrow> Inl e | Inr r \<Rightarrow> string_body [] r)"

section \<open>The parser\<close>

type_synonym 'a result = "string + 'a \<times> string"

definition parse_string_value :: "string \<Rightarrow> json result" where
  "parse_string_value s = (case parse_string s of Inl e \<Rightarrow> Inl e | Inr (x, r) \<Rightarrow> Inr (JString x, r))"

definition parse_number :: "string \<Rightarrow> json result" where
  "parse_number s =
     (case scan_number s of
        Inl e \<Rightarrow> Inl e
      | Inr (text, r) \<Rightarrow>
          (case stod text of None \<Rightarrow> Inl ''stod'' | Some x \<Rightarrow> Inr (JNumber x, r)))"

definition parse_bool :: "string \<Rightarrow> json result" where
  "parse_bool s =
     (if take 4 s = ''true'' then Inr (JBool True, drop 4 s)
      else if take 5 s = ''false'' then Inr (JBool False, drop 5 s)
      else Inl ''invalid JSON literal'')"

definition parse_null :: "string \<Rightarrow> json result" where
  "parse_null s = (if take 4 s = ''null'' then Inr (JNull, drop 4 s) else Inl ''invalid JSON literal'')"

text \<open>
  The loops of \<open>parse_object\<close> and \<open>parse_array\<close>; \<open>p\<close> parses the values inside. They may only
  loop for ever when \<open>p\<close> does not consume its input, so the result is an option.
\<close>

partial_function (option) parse_members ::
  "(string \<Rightarrow> json result option) \<Rightarrow> (string \<times> json) list \<Rightarrow> string \<Rightarrow> json result option" where
  "parse_members p obj s =
     (if skip_ws s = [] \<or> hd (skip_ws s) \<noteq> CHR 0x22 then Some (Inl ''expected JSON object key'')
      else
        case parse_string (skip_ws s) of
          Inl e \<Rightarrow> Some (Inl e)
        | Inr (key, s1) \<Rightarrow>
            (case expect (CHR '':'') s1 of
               Inl e \<Rightarrow> Some (Inl e)
             | Inr s2 \<Rightarrow>
                 do { v \<leftarrow> p s2;
                      case v of
                        Inl e \<Rightarrow> Some (Inl e)
                      | Inr (val, s3) \<Rightarrow>
                          (case skip_ws s3 of
                             [] \<Rightarrow> Some (Inl ''unterminated JSON object'')
                           | c # r \<Rightarrow>
                               if c = CHR 0x7D then Some (Inr (JObject (emplace key val obj), r))
                               else if c = CHR '','' then parse_members p (emplace key val obj) r
                               else Some (Inl ''expected ',' or '}' in JSON object'')) }))"

partial_function (option) parse_elements ::
  "(string \<Rightarrow> json result option) \<Rightarrow> json list \<Rightarrow> string \<Rightarrow> json result option" where
  "parse_elements p arr s =
     do { v \<leftarrow> p s;
          case v of
            Inl e \<Rightarrow> Some (Inl e)
          | Inr (val, s1) \<Rightarrow>
              (case skip_ws s1 of
                 [] \<Rightarrow> Some (Inl ''unterminated JSON array'')
               | c # r \<Rightarrow>
                   if c = CHR '']'' then Some (Inr (JArray (arr @ [val]), r))
                   else if c = CHR '','' then parse_elements p (arr @ [val]) r
                   else Some (Inl ''expected ',' or ']' in JSON array'')) }"

definition parse_object :: "(string \<Rightarrow> json result option) \<Rightarrow> string \<Rightarrow> json result option" where
  "parse_object p s =
     (case expect (CHR 0x7B) s of
        Inl e \<Rightarrow> Some (Inl e)
      | Inr s1 \<Rightarrow>
          (if skip_ws s1 \<noteq> [] \<and> hd (skip_ws s1) = CHR 0x7D then Some (Inr (JObject [], tl (skip_ws s1)))
           else parse_members p [] (skip_ws s1)))"

definition parse_array :: "(string \<Rightarrow> json result option) \<Rightarrow> string \<Rightarrow> json result option" where
  "parse_array p s =
     (case expect (CHR ''['') s of
        Inl e \<Rightarrow> Some (Inl e)
      | Inr s1 \<Rightarrow>
          (if skip_ws s1 \<noteq> [] \<and> hd (skip_ws s1) = CHR '']'' then Some (Inr (JArray [], tl (skip_ws s1)))
           else parse_elements p [] (skip_ws s1)))"

definition kMaxDepth :: nat where
  "kMaxDepth = 64"

function parse_value :: "nat \<Rightarrow> string \<Rightarrow> json result option" where
  "parse_value depth = (\<lambda>s.
     if depth > kMaxDepth then Some (Inl ''JSON nesting limit exceeded'')
     else
       case skip_ws s of
         [] \<Rightarrow> Some (Inl ''unexpected end of JSON input'')
       | c # r \<Rightarrow>
           if c = CHR 0x22 then Some (parse_string_value (c # r))
           else if c = CHR 0x7B then parse_object (parse_value (depth + 1)) (c # r)
           else if c = CHR ''['' then parse_array (parse_value (depth + 1)) (c # r)
           else if c = CHR ''t'' \<or> c = CHR ''f'' then Some (parse_bool (c # r))
           else if c = CHR ''n'' then Some (parse_null (c # r))
           else if c = CHR ''-'' \<or> is_digit c then Some (parse_number (c # r))
           else Some (Inl ''invalid JSON value''))"
  by pat_completeness auto
termination
  by (relation "measure (\<lambda>depth. Suc kMaxDepth - depth)") (auto simp: kMaxDepth_def)

declare parse_value.simps [simp del]

lemma parse_value_code [code]:
  "parse_value depth s =
     (if depth > kMaxDepth then Some (Inl ''JSON nesting limit exceeded'')
      else
        case skip_ws s of
          [] \<Rightarrow> Some (Inl ''unexpected end of JSON input'')
        | c # r \<Rightarrow>
            if c = CHR 0x22 then Some (parse_string_value (c # r))
            else if c = CHR 0x7B then parse_object (parse_value (depth + 1)) (c # r)
            else if c = CHR ''['' then parse_array (parse_value (depth + 1)) (c # r)
            else if c = CHR ''t'' \<or> c = CHR ''f'' then Some (parse_bool (c # r))
            else if c = CHR ''n'' then Some (parse_null (c # r))
            else if c = CHR ''-'' \<or> is_digit c then Some (parse_number (c # r))
            else Some (Inl ''invalid JSON value''))"
  by (subst parse_value.simps) (rule refl)

declare parse_members.simps [code]
declare parse_elements.simps [code]

definition json_parse :: "string \<Rightarrow> (string + json) option" where
  "json_parse input =
     do { r \<leftarrow> parse_value 0 input;
          case r of
            Inl e \<Rightarrow> Some (Inl e)
          | Inr (v, s) \<Rightarrow> Some (if skip_ws s \<noteq> [] then Inl ''unexpected trailing JSON data'' else Inr v) }"

end
