(* ===== verification/RF_KVMapper.thy ===== *)
theory RF_KVMapper
  imports RF_Config RF_RadixLookup RF_Json
begin

text \<open>
  The mapping of radix-tree nodes to physical KV sequences (include/radixforge/kv_mapper.h,
  src/kv_mapper.cpp, src/llama_kv_ops.cpp): the pool of free sequence ids, the number of
  KV cells of each sequence, the retained sequences, the metrics, and every operation of
  \<open>KVMapper\<close>.

  The KV memory itself belongs to llama.cpp. It is a value of a type \<open>'kv\<close>, changed only
  through the two operations of the abstract class \<open>KvOps\<close>, which the definitions take as
  an argument. \<open>mutex_\<close> makes each public operation atomic. \<open>seq_cell_counts_\<close> is an
  association list with distinct keys.
\<close>

section \<open>State\<close>

record 'kv kv_ops =
  seq_cp :: "seq_id \<Rightarrow> seq_id \<Rightarrow> int \<Rightarrow> int \<Rightarrow> 'kv \<Rightarrow> 'kv"
  seq_rm :: "seq_id \<Rightarrow> int \<Rightarrow> int \<Rightarrow> 'kv \<Rightarrow> 'kv"

record cache_metrics =
  hits :: nat
  misses :: nat
  evictions :: nat
  total_requests :: nat
  cache_hit_tokens :: nat
  prompt_tokens :: nat

record 'kv kv_mapper =
  tree :: radix_tree
  mcfg :: config
  free_seq_ids :: "seq_id list"
  seq_cell_counts :: "(seq_id \<times> int) list"
  retained_seq_ids :: "seq_id set"
  metrics :: cache_metrics
  kv :: 'kv

record prepare_result =
  res_seq_id :: seq_id
  cached_pos :: int
  delta :: "token list"
  leaf_node :: addr

datatype mapper_error = SequenceCapacityExhausted

definition new_mapper :: "config \<Rightarrow> 'kv \<Rightarrow> 'kv kv_mapper" where
  "new_mapper cfg kv0 = \<lparr>tree = new_tree, mcfg = cfg, free_seq_ids = [1..max_sequences cfg - 1],
     seq_cell_counts = [], retained_seq_ids = {},
     metrics = \<lparr>hits = 0, misses = 0, evictions = 0, total_requests = 0, cache_hit_tokens = 0,
                prompt_tokens = 0\<rparr>, kv = kv0\<rparr>"

definition kv_cells_used :: "'kv kv_mapper \<Rightarrow> int" where
  "kv_cells_used m = sum_list (map snd (seq_cell_counts m))"

definition mapper_active_count :: "'kv kv_mapper \<Rightarrow> int" where
  "mapper_active_count m = int (length (seq_cell_counts m)) - int (card (retained_seq_ids m))"

definition mapper_retained_count :: "'kv kv_mapper \<Rightarrow> int" where
  "mapper_retained_count m = int (card (retained_seq_ids m))"

section \<open>Eviction\<close>

text \<open>Returning one sequence id to the pool, its cells removed from the KV memory.\<close>

definition free_seq :: "'kv kv_ops \<Rightarrow> seq_id \<Rightarrow> 'kv kv_mapper \<Rightarrow> 'kv kv_mapper" where
  "free_seq ops sid m =
     m\<lparr>kv := seq_rm ops sid 0 (-1) (kv m),
       free_seq_ids := free_seq_ids m @ [sid],
       seq_cell_counts := AList.delete sid (seq_cell_counts m),
       retained_seq_ids := retained_seq_ids m - {sid}\<rparr>"

partial_function (option) evict_one_locked ::
  "'kv kv_ops \<Rightarrow> 'kv kv_mapper \<Rightarrow> ('kv kv_mapper \<times> bool) option" where
  "evict_one_locked ops m =
     do { candidates \<leftarrow> find_eviction_candidates (tree m) 1;
          case candidates of
            [] \<Rightarrow> Some (m, False)
          | c # _ \<Rightarrow>
              do { (t', evicted) \<leftarrow> evict (tree m) (Some c);
                   if evicted = [] then evict_one_locked ops (m\<lparr>tree := t'\<rparr>)
                   else
                     (let m' = fold (free_seq ops) evicted (m\<lparr>tree := t'\<rparr>) in
                      Some (m'\<lparr>metrics := (metrics m')\<lparr>evictions :=
                              evictions (metrics m') + length evicted\<rparr>\<rparr>, True)) } }"

definition truncate_rat :: "rat \<Rightarrow> int" where
  "truncate_rat x = (if 0 \<le> x then \<lfloor>x\<rfloor> else \<lceil>x\<rceil>)"

text \<open>The product is one of doubles, rounded to 53 bits.\<close>

definition high_watermark :: "config \<Rightarrow> int" where
  "high_watermark cfg = truncate_rat (round_signed 53 (-1074) (of_int (n_ctx cfg) * kv_high_watermark cfg))"

partial_function (option) evict_kv_pressure_loop ::
  "'kv kv_ops \<Rightarrow> 'kv kv_mapper \<Rightarrow> bool \<Rightarrow> ('kv kv_mapper \<times> bool) option" where
  "evict_kv_pressure_loop ops m evicted =
     (if kv_cells_used m > high_watermark (mcfg m) then
        do { (m', ok) \<leftarrow> evict_one_locked ops m;
             if ok then evict_kv_pressure_loop ops m' True else Some (m', evicted) }
      else Some (m, evicted))"

definition evict_kv_pressure :: "'kv kv_ops \<Rightarrow> 'kv kv_mapper \<Rightarrow> 'kv kv_mapper option" where
  "evict_kv_pressure ops m = do { (m', _) \<leftarrow> evict_kv_pressure_loop ops m False; Some m' }"

definition evict_idle_sequence ::
  "'kv kv_ops \<Rightarrow> 'kv kv_mapper \<Rightarrow> ('kv kv_mapper \<times> bool) option" where
  "evict_idle_sequence ops m = evict_one_locked ops m"

definition gc_if_needed :: "'kv kv_ops \<Rightarrow> 'kv kv_mapper \<Rightarrow> 'kv kv_mapper option" where
  "gc_if_needed ops m =
     (if free_seq_ids m \<noteq> [] then Some m
      else do { (m', _) \<leftarrow> evict_one_locked ops m; Some m' })"

definition defrag :: "'kv kv_ops \<Rightarrow> 'kv kv_mapper \<Rightarrow> 'kv kv_mapper option" where
  "defrag ops m = gc_if_needed ops m"

section \<open>Preparation of a sequence\<close>

definition allocate_seq_id_locked ::
  "'kv kv_ops \<Rightarrow> 'kv kv_mapper \<Rightarrow> ('kv kv_mapper \<times> (mapper_error + seq_id)) option" where
  "allocate_seq_id_locked ops m =
     do { m1 \<leftarrow> (if free_seq_ids m = []
                  then do { (m', _) \<leftarrow> evict_one_locked ops m; Some m' }
                  else Some m);
          case free_seq_ids m1 of
            [] \<Rightarrow> Some (m1, Inl SequenceCapacityExhausted)
          | i # rest \<Rightarrow> Some (m1\<lparr>free_seq_ids := rest\<rparr>, Inr i) }"

definition find_source :: "'kv kv_mapper \<Rightarrow> prefix_match \<Rightarrow> (seq_id \<times> int) option option" where
  "find_source m match =
     (if prefix_cache_enabled (mcfg m) \<and> matched_tokens match > 0
      then find_covering_seq_id (tree m) (Some (cache_node match)) else Some None)"

text \<open>
  The number of prompt positions taken from the cache. A full hit backs off by one token,
  so that the last prompt token is decoded for its logits.
\<close>

definition cache_position :: "token list \<Rightarrow> nat \<Rightarrow> (seq_id \<times> int) option \<Rightarrow> int" where
  "cache_position prompt matched source =
     (let pos = (case source of None \<Rightarrow> 0 | Some (_, source_len) \<Rightarrow> min (int matched) source_len) in
      if prompt \<noteq> [] \<and> pos = int (length prompt) then pos - 1 else pos)"

definition attach_source ::
  "'kv kv_ops \<Rightarrow> 'kv kv_mapper \<Rightarrow> (seq_id \<times> int) option \<Rightarrow> seq_id \<Rightarrow> int \<Rightarrow> 'kv kv_mapper" where
  "attach_source ops m source new_seq pos =
     (if pos > 0 then
        m\<lparr>kv := (case source of None \<Rightarrow> kv m | Some (src, _) \<Rightarrow> seq_cp ops src new_seq 0 pos (kv m)),
          metrics := (metrics m)\<lparr>hits := hits (metrics m) + 1,
             cache_hit_tokens := cache_hit_tokens (metrics m) + nat pos\<rparr>\<rparr>
      else m\<lparr>metrics := (metrics m)\<lparr>misses := misses (metrics m) + 1\<rparr>\<rparr>)"

definition prepare_sequence ::
  "'kv kv_ops \<Rightarrow> 'kv kv_mapper \<Rightarrow> token list \<Rightarrow>
     ('kv kv_mapper \<times> (mapper_error + prepare_result)) option" where
  "prepare_sequence ops m prompt =
     do { m1 \<leftarrow> evict_kv_pressure ops (m\<lparr>metrics := (metrics m)
                   \<lparr>total_requests := total_requests (metrics m) + 1,
                    prompt_tokens := prompt_tokens (metrics m) + length prompt\<rparr>\<rparr>);
          (t2, match) \<leftarrow> insert_prompt (tree m1) prompt;
          (m3, allocated) \<leftarrow> allocate_seq_id_locked ops (m1\<lparr>tree := t2\<rparr>);
          case allocated of
            Inl e \<Rightarrow>
              do { t4 \<leftarrow> release (tree m3) (Some (match_node match));
                   Some (m3\<lparr>tree := t4\<rparr>, Inl e) }
          | Inr new_seq \<Rightarrow>
              do { source \<leftarrow> find_source m3 match;
                   let pos = cache_position prompt (matched_tokens match) source;
                   let m4 = attach_source ops m3 source new_seq pos;
                   t5 \<leftarrow> register_seq_id (tree m4) (match_node match) new_seq (int (length prompt));
                   Some (m4\<lparr>tree := t5,
                            seq_cell_counts := AList.update new_seq pos (seq_cell_counts m4),
                            retained_seq_ids := retained_seq_ids m4 - {new_seq}\<rparr>,
                         Inr \<lparr>res_seq_id = new_seq, cached_pos = pos,
                              delta = drop (nat pos) prompt, leaf_node = match_node match\<rparr>) } }"

section \<open>Life of a sequence\<close>

definition mark_sequence_ready ::
  "'kv kv_mapper \<Rightarrow> seq_id \<Rightarrow> ptr \<Rightarrow> 'kv kv_mapper option" where
  "mark_sequence_ready m seq node =
     do { t' \<leftarrow> mark_seq_id_ready (tree m) node seq;
          case node of
            None \<Rightarrow> Some (m\<lparr>tree := t'\<rparr>)
          | Some n \<Rightarrow>
              do { nd \<leftarrow> heap t' n;
                   Some (m\<lparr>tree := t',
                           seq_cell_counts := AList.update seq (canonical_len nd) (seq_cell_counts m)\<rparr>) } }"

definition set_sequence_cell_count ::
  "'kv kv_mapper \<Rightarrow> seq_id \<Rightarrow> int \<Rightarrow> 'kv kv_mapper" where
  "set_sequence_cell_count m seq cells =
     (if map_of (seq_cell_counts m) seq \<noteq> None
      then m\<lparr>seq_cell_counts := AList.update seq (max 0 cells) (seq_cell_counts m)\<rparr> else m)"

definition extend_sequence ::
  "'kv kv_mapper \<Rightarrow> seq_id \<Rightarrow> ptr \<Rightarrow> token list \<Rightarrow> ('kv kv_mapper \<times> ptr) option" where
  "extend_sequence m seq node toks =
     (if \<not> prefix_cache_enabled (mcfg m) then Some (m, node)
      else do { (t', extended) \<leftarrow> extend_seq_id (tree m) node seq toks (int (length toks));
                Some (m\<lparr>tree := t', seq_cell_counts :=
                          (if map_of (seq_cell_counts m) seq \<noteq> None
                           then AList.update seq (int (length toks)) (seq_cell_counts m)
                           else seq_cell_counts m)\<rparr>, extended) })"

definition mapper_inspect_prefix :: "'kv kv_mapper \<Rightarrow> token list \<Rightarrow> prefix_availability option" where
  "mapper_inspect_prefix m prompt = inspect_prefix (tree m) prompt"

definition release_sequence ::
  "'kv kv_ops \<Rightarrow> 'kv kv_mapper \<Rightarrow> seq_id \<Rightarrow> ptr \<Rightarrow> 'kv kv_mapper option" where
  "release_sequence ops m seq node =
     do { (t', should_free) \<leftarrow> release_seq_id (tree m) node seq (prefix_cache_enabled (mcfg m));
          if should_free then Some (free_seq ops seq (m\<lparr>tree := t'\<rparr>))
          else
            do { covering \<leftarrow> find_covering_seq_id t' node;
                 case covering of
                   None \<Rightarrow> Some (m\<lparr>tree := t'\<rparr>)
                 | Some (s, clen) \<Rightarrow>
                     if s = seq
                     then Some (m\<lparr>tree := t', kv := seq_rm ops seq clen (-1) (kv m),
                                  seq_cell_counts := AList.update seq clen (seq_cell_counts m),
                                  retained_seq_ids := insert seq (retained_seq_ids m)\<rparr>)
                     else Some (m\<lparr>tree := t'\<rparr>) } }"

text \<open>The request's own reference on its leaf is returned through \<open>RadixTree::release\<close>.\<close>

definition release_reference :: "'kv kv_mapper \<Rightarrow> ptr \<Rightarrow> 'kv kv_mapper option" where
  "release_reference m node = do { t' \<leftarrow> release (tree m) node; Some (m\<lparr>tree := t'\<rparr>) }"

text \<open>The equations of the loops are code equations, so that concrete runs can be evaluated.\<close>

declare evict_one_locked.simps [code]
declare evict_kv_pressure_loop.simps [code]

end
