(* ===== verification/RF_MapperInv.thy ===== *)
theory RF_MapperInv
  imports RF_KVMapper
begin

text \<open>
  The invariant of the KV mapper together with the requests that use it.

  A \<^emph>\<open>lease\<close> is the claim of one request on a physical sequence: the sequence, the node
  that owns it, the prompt, and the tokens whose KV cells the sequence holds. \<open>held\<close> is
  the multiset of node handles for which requests hold a reference. The invariant ties
  together the tree, the pool, the accounting, the KV memory and the requests.
\<close>

section \<open>The KV memory\<close>

text \<open>
  What the code relies on from llama.cpp, as documented in llama.h for a unified KV cache,
  about the token held at each position of each sequence (\<open>cells\<close>): copying a range to a
  sequence without cells gives it exactly these cells, and removing from a sequence, with an upper
  bound of \<open>-1\<close>, removes every cell from the lower bound on. (A negative sequence id would stand
  for all sequences; the code passes none.)
\<close>

type_synonym 'kv cell_view = "'kv \<Rightarrow> seq_id \<Rightarrow> nat \<Rightarrow> token option"

definition seq_cp_law :: "'kv kv_ops \<Rightarrow> 'kv cell_view \<Rightarrow> bool" where
  "seq_cp_law ops cells \<longleftrightarrow> (\<forall>kv src dst p1 s i. src \<noteq> dst \<longrightarrow> (\<forall>j. cells kv dst j = None) \<longrightarrow>
     cells (seq_cp ops src dst 0 p1 kv) s i =
       (if s = dst then (if int i < p1 then cells kv src i else None) else cells kv s i))"

definition seq_rm_law :: "'kv kv_ops \<Rightarrow> 'kv cell_view \<Rightarrow> bool" where
  "seq_rm_law ops cells \<longleftrightarrow> (\<forall>kv sid p0 s i. 0 \<le> sid \<longrightarrow> 0 \<le> p0 \<longrightarrow>
     cells (seq_rm ops sid p0 (-1) kv) s i =
       (if s = sid \<and> p0 \<le> int i then None else cells kv s i))"

definition kv_laws :: "'kv kv_ops \<Rightarrow> 'kv cell_view \<Rightarrow> bool" where
  "kv_laws ops cells \<longleftrightarrow> seq_cp_law ops cells \<and> seq_rm_law ops cells"

definition holds_prefix :: "(nat \<Rightarrow> token option) \<Rightarrow> token list \<Rightarrow> bool" where
  "holds_prefix c xs \<longleftrightarrow> (\<forall>i < length xs. c i = Some (xs ! i))"

definition holds_exactly :: "(nat \<Rightarrow> token option) \<Rightarrow> token list \<Rightarrow> bool" where
  "holds_exactly c xs \<longleftrightarrow> (\<forall>i. c i = (if i < length xs then Some (xs ! i) else None))"

lemma holds_prefix_mono: "holds_prefix c xs \<Longrightarrow> prefix ys xs \<Longrightarrow> holds_prefix c ys"
  unfolding holds_prefix_def by (metis order_less_le_trans prefix_length_le prefix_nth)

lemma holds_exactly_prefix: "holds_exactly c xs \<Longrightarrow> prefix ys xs \<Longrightarrow> holds_prefix c ys"
  by (rule holds_prefix_mono [of c xs]) (simp_all add: holds_exactly_def holds_prefix_def)

section \<open>Ownership\<close>

definition owned :: "radix_tree \<Rightarrow> seq_id set" where
  "owned t = {s. \<exists>n nd. heap t n = Some nd \<and> s \<in> seq_ids nd}"

lemma ownedI: "heap t n = Some nd \<Longrightarrow> s \<in> seq_ids nd \<Longrightarrow> s \<in> owned t"
  by (auto simp: owned_def)

lemma owned_prune: "prune_frame t t' \<Longrightarrow> owned t' = owned t"
proof (intro equalityI subsetI)
  fix s assume f: "prune_frame t t'" and "s \<in> owned t'"
  then obtain n nd' where n: "heap t' n = Some nd'" "s \<in> seq_ids nd'" by (auto simp: owned_def)
  then obtain nd where "heap t n = Some nd" using f by (auto simp: prune_frame_def) (metis not_Some_eq)
  then show "s \<in> owned t" using f n unfolding prune_frame_def owned_def same_data_def by fastforce
next
  fix s assume f: "prune_frame t t'" and "s \<in> owned t"
  then obtain n nd where n: "heap t n = Some nd" "s \<in> seq_ids nd" by (auto simp: owned_def)
  then show "s \<in> owned t'" using prune_frame_live [OF f n(1)] by (force simp: owned_def same_data_def)
qed

lemma owned_set_node:
  fixes nd :: radix_node
  assumes "wf_tree t P" "heap t n = Some nd"
  shows "owned (set_node t n nd') = owned t - seq_ids nd \<union> seq_ids nd'"
proof -
  have only: "\<forall>m (md::radix_node) s. heap t m = Some md \<longrightarrow> s \<in> seq_ids md \<longrightarrow> s \<in> seq_ids nd \<longrightarrow> m = n"
    using assms by (auto simp: wf_tree_def intro: wf_owner)
  have "s \<in> owned (set_node t n nd') \<longleftrightarrow>
      s \<in> seq_ids nd' \<or> (\<exists>m md. m \<noteq> n \<and> heap t m = Some md \<and> s \<in> seq_ids md)" for s
    by (auto simp: owned_def split: if_splits)
  moreover have "(\<exists>m md. m \<noteq> n \<and> heap t m = Some md \<and> s \<in> seq_ids md) \<longleftrightarrow>
      s \<in> owned t \<and> s \<notin> seq_ids nd" for s
  proof
    assume "\<exists>m md. m \<noteq> n \<and> heap t m = Some md \<and> s \<in> seq_ids md"
    then show "s \<in> owned t \<and> s \<notin> seq_ids nd" using only by (auto intro: ownedI)
  next
    assume s: "s \<in> owned t \<and> s \<notin> seq_ids nd"
    then obtain m md where m: "heap t m = Some md" "s \<in> seq_ids md" by (auto simp: owned_def)
    then have "m \<noteq> n" using s assms(2) by auto
    with m show "\<exists>m md. m \<noteq> n \<and> heap t m = Some md \<and> s \<in> seq_ids md" by blast
  qed
  ultimately show ?thesis by blast
qed

section \<open>Leases and the invariant\<close>

record lease =
  l_seq :: seq_id
  l_leaf :: addr
  l_prompt :: "token list"
  l_cells :: "token list"
  l_ready :: bool

definition lease_node :: "radix_tree \<Rightarrow> (addr \<Rightarrow> token list) \<Rightarrow> lease \<Rightarrow> bool" where
  "lease_node t P l \<longleftrightarrow> (\<exists>nd. heap t (l_leaf l) = Some nd \<and> l_seq l \<in> seq_ids nd \<and>
     (l_seq l \<in> ready_seq_ids nd \<longleftrightarrow> l_ready l)) \<and> prefix (P (l_leaf l)) (l_prompt l)"

definition lease_ok ::
  "radix_tree \<Rightarrow> (addr \<Rightarrow> token list) \<Rightarrow> (seq_id \<Rightarrow> nat \<Rightarrow> token option) \<Rightarrow> lease \<Rightarrow> bool" where
  "lease_ok t P c l \<longleftrightarrow> lease_node t P l \<and> holds_exactly (c (l_seq l)) (l_cells l) \<and>
     (if l_ready l then prefix (l_prompt l) (l_cells l) else prefix (l_cells l) (l_prompt l))"

text \<open>A ready sequence holds the whole path of the node that owns it.\<close>

definition content_ok :: "radix_tree \<Rightarrow> (addr \<Rightarrow> token list) \<Rightarrow> (seq_id \<Rightarrow> nat \<Rightarrow> token option) \<Rightarrow> bool" where
  "content_ok t P c \<longleftrightarrow> (\<forall>n nd s. heap t n = Some nd \<longrightarrow> s \<in> ready_seq_ids nd \<longrightarrow>
     holds_prefix (c s) (P n))"

definition refs_ok :: "radix_tree \<Rightarrow> addr multiset \<Rightarrow> bool" where
  "refs_ok t held \<longleftrightarrow> (\<forall>n \<in># held. heap t n \<noteq> None) \<and>
     (\<forall>n nd. heap t n = Some nd \<longrightarrow>
        ref_count nd = (if n = root_addr then 1 else 0) + int (count held n))"

text \<open>Only a leased sequence may be pending, and a node keeps at most one idle sequence.\<close>

definition idle_ready :: "radix_tree \<Rightarrow> lease list \<Rightarrow> bool" where
  "idle_ready t ls \<longleftrightarrow> (\<forall>n nd s. heap t n = Some nd \<longrightarrow> s \<in> seq_ids nd \<longrightarrow>
     s \<notin> l_seq ` set ls \<longrightarrow> s \<in> ready_seq_ids nd \<and> (\<forall>s' \<in> seq_ids nd. s' \<notin> l_seq ` set ls \<longrightarrow> s' = s))"

definition pool_ok :: "config \<Rightarrow> seq_id list \<Rightarrow> seq_id set \<Rightarrow> bool" where
  "pool_ok cfg free own \<longleftrightarrow> distinct free \<and> set free \<inter> own = {} \<and>
     set free \<union> own = {1..<max_sequences cfg}"

lemma pool_nonneg: "pool_ok cfg free own \<Longrightarrow> s \<in> own \<Longrightarrow> 0 \<le> s"
proof -
  assume "pool_ok cfg free own" "s \<in> own"
  then have "s \<in> {1..<max_sequences cfg}" by (auto simp: pool_ok_def)
  then show ?thesis by simp
qed

definition accounts_ok :: "(seq_id \<times> int) list \<Rightarrow> seq_id set \<Rightarrow> bool" where
  "accounts_ok counts own \<longleftrightarrow> distinct (map fst counts) \<and> fst ` set counts = own"

definition mapper_inv ::
  "'kv cell_view \<Rightarrow> 'kv kv_mapper \<Rightarrow> (addr \<Rightarrow> token list) \<Rightarrow> lease list \<Rightarrow> addr multiset \<Rightarrow> bool" where
  "mapper_inv cells m P ls held \<longleftrightarrow>
     wf_tree (tree m) P \<and> refs_ok (tree m) held \<and> idle_ready (tree m) ls \<and>
     content_ok (tree m) P (cells (kv m)) \<and>
     (\<forall>s \<in> set (free_seq_ids m). \<forall>i. cells (kv m) s i = None) \<and>
     pool_ok (mcfg m) (free_seq_ids m) (owned (tree m)) \<and>
     accounts_ok (seq_cell_counts m) (owned (tree m)) \<and>
     retained_seq_ids m = owned (tree m) - l_seq ` set ls \<and>
     distinct (map l_seq ls) \<and> (\<forall>l \<in> set ls. lease_ok (tree m) P (cells (kv m)) l)"

lemma lease_id_nonneg: "mapper_inv cells m P ls held \<Longrightarrow> heap (tree m) n = Some nd \<Longrightarrow> s \<in> seq_ids nd \<Longrightarrow> 0 \<le> s"
  by (auto simp: mapper_inv_def intro: pool_nonneg ownedI)

lemma mapper_inv_cong:
  assumes "mapper_inv cells m P ls held"
    and "tree m' = tree m" "mcfg m' = mcfg m" "free_seq_ids m' = free_seq_ids m"
    "seq_cell_counts m' = seq_cell_counts m" "retained_seq_ids m' = retained_seq_ids m" "kv m' = kv m"
  shows "mapper_inv cells m' P ls held"
  using assms by (simp add: mapper_inv_def)

lemma mapper_inv_perm:
  assumes "mapper_inv cells m P ls held" "set ls' = set ls" "distinct (map l_seq ls')"
  shows "mapper_inv cells m P ls' held"
  using assms by (simp add: mapper_inv_def idle_ready_def)

lemma lease_to_front:
  assumes "mapper_inv cells m P ls held" "l \<in> set ls"
  shows "mapper_inv cells m P (l # remove1 l ls) held"
proof (rule mapper_inv_perm [OF assms(1)])
  have d: "distinct (map l_seq ls)" using assms(1) by (simp add: mapper_inv_def)
  then have ls: "distinct ls" "inj_on l_seq (set ls)" by (simp_all add: distinct_map)
  show set: "set (l # remove1 l ls) = set ls" using assms(2) ls by auto
  have "distinct (l # remove1 l ls)" using ls by simp
  then show "distinct (map l_seq (l # remove1 l ls))"
    using ls(2) set by (simp only: distinct_map simp_thms)
qed

lemma wf_new_tree: "wf_tree new_tree (\<lambda>_. [])"
  unfolding wf_tree_def wf_data_def owners_disjoint_def wf_shape_def wf_root_def wf_up_def wf_down_def
  by (auto simp: new_tree_def empty_node_def wf_node_def root_addr_def)

lemma new_mapper_inv:
  assumes "\<And>s i. cells kv0 s i = None"
  shows "mapper_inv cells (new_mapper cfg kv0) (\<lambda>_. []) [] {#}"
  using wf_new_tree assms
  by (auto simp: mapper_inv_def new_mapper_def refs_ok_def idle_ready_def content_ok_def
      new_tree_def empty_node_def pool_ok_def accounts_ok_def owned_def root_addr_def)

end
