(* ===== verification/RF_MapperEvict.thy ===== *)
theory RF_MapperEvict
  imports RF_MapperInv
begin

text \<open>
  Eviction: \<open>evict_one_locked\<close> and the loops over it return, keep the invariant of the
  mapper for every request, and free the least recently used idle sequences only.
\<close>

section \<open>The invariant under pruning\<close>

lemma prune_frame_back:
  assumes f: "prune_frame t t'" and x: "heap t' x = Some xd'"
  obtains xd where "heap t x = Some xd" "same_data xd xd'" "parent xd' = parent xd"
proof -
  have "heap t x \<noteq> None" using f x by (auto simp: prune_frame_def)
  then obtain xd where xd: "heap t x = Some xd" by auto
  have "(\<exists>xd'. heap t' x = Some xd' \<and> same_data xd xd' \<and> parent xd' = parent xd) \<or>
      (heap t' x = None \<and> x \<noteq> root_addr \<and> ref_count xd = 0 \<and> seq_ids xd = {})"
    using f xd by (simp add: prune_frame_def)
  then show thesis using x xd that [of xd] by auto
qed

lemma refs_ok_prune:
  assumes refs: "refs_ok t held" and f: "prune_frame t t'"
  shows "refs_ok t' held"
  unfolding refs_ok_def
proof (intro conjI ballI allI impI)
  fix x assume x: "x \<in># held"
  then obtain xd where xd: "heap t x = Some xd" using refs by (auto simp: refs_ok_def)
  have "0 < ref_count xd" using refs x xd by (auto simp: refs_ok_def)
  then show "heap t' x \<noteq> None" using prune_frame_live [OF f xd] by auto
next
  fix x xd' assume x: "heap t' x = Some xd'"
  then obtain xd where xd: "heap t x = Some xd" "same_data xd xd'" by (rule prune_frame_back [OF f])
  then show "ref_count xd' = (if x = root_addr then 1 else 0) + int (count held x)"
    using refs xd by (auto simp: refs_ok_def same_data_def)
qed

lemma idle_ready_prune:
  assumes "idle_ready t ls" and f: "prune_frame t t'"
  shows "idle_ready t' ls"
  unfolding idle_ready_def
proof (intro allI impI)
  fix n nd' s assume n: "heap t' n = Some nd'" and s: "s \<in> seq_ids nd'" "s \<notin> l_seq ` set ls"
  obtain nd where "heap t n = Some nd" "same_data nd nd'" by (rule prune_frame_back [OF f n])
  then show "s \<in> ready_seq_ids nd' \<and> (\<forall>s' \<in> seq_ids nd'. s' \<notin> l_seq ` set ls \<longrightarrow> s' = s)"
    using assms(1) s unfolding idle_ready_def same_data_def by metis
qed

lemma content_ok_prune:
  assumes "content_ok t P c" and f: "prune_frame t t'"
  shows "content_ok t' P c"
  unfolding content_ok_def
proof (intro allI impI)
  fix n nd' s assume n: "heap t' n = Some nd'" and s: "s \<in> ready_seq_ids nd'"
  obtain nd where "heap t n = Some nd" "same_data nd nd'" by (rule prune_frame_back [OF f n])
  then show "holds_prefix (c s) (P n)" using assms(1) s by (auto simp: content_ok_def same_data_def)
qed

lemma lease_ok_prune:
  assumes "lease_ok t P c l" "prune_frame t t'"
  shows "lease_ok t' P c l"
proof -
  obtain nd where nd: "heap t (l_leaf l) = Some nd" "l_seq l \<in> seq_ids nd"
    "l_seq l \<in> ready_seq_ids nd \<longleftrightarrow> l_ready l"
    using assms(1) by (auto simp: lease_ok_def lease_node_def)
  then obtain nd' where "heap t' (l_leaf l) = Some nd'" "same_data nd nd'"
    using prune_frame_live [OF assms(2) nd(1)] by auto
  then show ?thesis using assms(1) nd by (auto simp: lease_ok_def lease_node_def same_data_def)
qed

lemma mapper_inv_prune:
  assumes inv: "mapper_inv cells m P ls held" and "wf_tree t' P" and f: "prune_frame (tree m) t'"
  shows "mapper_inv cells (m\<lparr>tree := t'\<rparr>) P ls held"
  using assms by (auto simp: mapper_inv_def owned_prune [OF f]
      intro: refs_ok_prune idle_ready_prune content_ok_prune lease_ok_prune)

text \<open>Nodes that survive keep their parent, so the ancestors of a survivor survive.\<close>

definition keeps_nodes :: "radix_tree \<Rightarrow> radix_tree \<Rightarrow> bool" where
  "keeps_nodes t t' \<longleftrightarrow> (\<forall>x xd'. heap t' x = Some xd' \<longrightarrow>
     (\<exists>xd. heap t x = Some xd \<and> parent xd = parent xd'))"

lemma keeps_nodes_refl [simp]: "keeps_nodes t t"
  by (simp add: keeps_nodes_def)

lemma keeps_nodes_trans: "keeps_nodes t t1 \<Longrightarrow> keeps_nodes t1 t2 \<Longrightarrow> keeps_nodes t t2"
  unfolding keeps_nodes_def by metis

lemma keeps_nodes_prune: "prune_frame t t' \<Longrightarrow> keeps_nodes t t'"
  unfolding keeps_nodes_def by (auto elim: prune_frame_back)

lemma keeps_above:
  assumes wf: "wf_shape t P" "wf_shape t' P" and k: "keeps_nodes t t'"
  shows "heap t' n \<noteq> None \<Longrightarrow> above t P n \<subseteq> dom (heap t')"
proof (induction "length (P n)" arbitrary: n rule: less_induct)
  case less
  then obtain nd' where nd': "heap t' n = Some nd'" by auto
  then obtain nd where nd: "heap t n = Some nd" "parent nd = parent nd'"
    using k by (auto simp: keeps_nodes_def)
  show ?case
  proof (cases "n = root_addr")
    case True then show ?thesis using above_root [OF wf(1)] nd' by auto
  next
    case False
    obtain p pn where p: "parent nd' = Some p" "heap t' p = Some pn" "tokens nd' \<noteq> []"
      "map_of (children pn) (hd (tokens nd')) = Some n" "P n = P p @ tokens nd'"
      by (rule wf_upD [OF wf(2) nd' False])
    then have "above t P p \<subseteq> dom (heap t')" by (intro less.hyps) auto
    then show ?thesis using above_parent [OF wf(1) nd(1)] nd(2) p(1) nd' by auto
  qed
qed

section \<open>Returning sequences to the pool\<close>

lemma fold_free_seq_fields:
  "fold (free_seq ops) ss m =
     m\<lparr>kv := fold (\<lambda>s. seq_rm ops s 0 (-1)) ss (kv m),
       free_seq_ids := free_seq_ids m @ ss,
       seq_cell_counts := [x \<leftarrow> seq_cell_counts m. fst x \<notin> set ss],
       retained_seq_ids := retained_seq_ids m - set ss\<rparr>"
proof (induction ss arbitrary: m)
  case Nil then show ?case by simp
next
  case (Cons s ss)
  have "[x \<leftarrow> AList.delete s al. fst x \<notin> set ss] = [x \<leftarrow> al. fst x \<notin> set (s # ss)]" for al :: "(seq_id \<times> int) list"
    by (induction al) (auto simp: AList.delete_eq)
  then show ?case by (simp only: fold_simps Cons) (simp add: free_seq_def Diff_insert2 [symmetric])
qed

lemma fold_seq_rm_cells:
  assumes "kv_laws ops cells" "\<forall>s \<in> set ss. 0 \<le> s"
  shows "cells (fold (\<lambda>s. seq_rm ops s 0 (-1)) ss k) s i = (if s \<in> set ss then None else cells k s i)"
  using assms by (induction ss arbitrary: k) (auto simp: kv_laws_def seq_rm_law_def)

lemma accounts_ok_filter:
  "accounts_ok counts own \<Longrightarrow> accounts_ok [x \<leftarrow> counts. fst x \<notin> S] (own - S)"
  by (auto simp: accounts_ok_def distinct_map_filter image_iff Bex_def)

lemma evictable_prune:
  assumes f: "prune_frame t t'" and e: "evictable t' n"
  shows "evictable t n"
proof -
  obtain nd' where nd': "heap t' n = Some nd'" using e by (auto simp: evictable_def)
  obtain nd where "heap t n = Some nd" "same_data nd nd'" by (rule prune_frame_back [OF f nd'])
  then show ?thesis using e nd' by (auto simp: evictable_def same_data_def)
qed

lemma held_not_free:
  assumes "refs_ok t held" "heap t n = Some nd" "x \<in># held" "ref_count nd = 0"
  shows "x \<noteq> n"
proof
  assume "x = n"
  then have "0 < count held n" using assms(3) by simp
  then show False using assms(1,2,4) by (auto simp: refs_ok_def count_eq_zero_iff split: if_splits)
qed

text \<open>The state between the removal of the sequences of a node and the pruning of the tree.\<close>

lemma clear_inv:
  assumes inv: "mapper_inv cells m P ls held" and laws: "kv_laws ops cells"
    and held: "\<forall>l \<in> set ls. l_leaf l \<in># held"
    and n: "heap (tree m) n = Some nd" and "n \<noteq> root_addr" and ref: "ref_count nd = 0"
    and wf: "wf_tree (set_node (tree m) n (clear_seqs nd)) P"
    and ss: "set ss = seq_ids nd" "distinct ss"
  shows "mapper_inv cells (fold (free_seq ops) ss (m\<lparr>tree := set_node (tree m) n (clear_seqs nd)\<rparr>)) P ls held"
proof -
  let ?t = "set_node (tree m) n (clear_seqs nd)"
  have wf0: "wf_tree (tree m) P" and refs: "refs_ok (tree m) held" using inv by (auto simp: mapper_inv_def)
  have other: "s \<notin> seq_ids nd" if "heap (tree m) x = Some xd" "s \<in> seq_ids xd" "x \<noteq> n" for x xd s
    using wf0 that n unfolding wf_tree_def by (metis wf_owner)
  have ready: "ready_seq_ids xd \<subseteq> seq_ids xd" if "heap (tree m) x = Some xd" for x xd
    using wf_nodeD [OF wf0 that] by (simp add: wf_node_def)
  have own: "owned ?t = owned (tree m) - seq_ids nd" using owned_set_node [OF wf0 n] by (simp add: clear_seqs_def)
  have sub: "seq_ids nd \<subseteq> owned (tree m)" using n by (auto intro: ownedI)
  have "\<forall>s \<in> set ss. 0 \<le> s" using inv sub ss(1) pool_nonneg by (fastforce simp: mapper_inv_def)
  note removed = fold_seq_rm_cells [OF laws this]
  have leaf: "l_leaf l \<noteq> n" if "l \<in> set ls" for l
    using held that held_not_free [OF refs n _ ref] by auto
  have lease: "lease_ok ?t P (cells (fold (\<lambda>s. seq_rm ops s 0 (-1)) ss (kv m))) l" if "l \<in> set ls" for l
  proof -
    have l: "lease_ok (tree m) P (cells (kv m)) l" using inv that by (simp add: mapper_inv_def)
    then have "l_seq l \<notin> set ss" using other leaf [OF that] ss(1) by (auto simp: lease_ok_def lease_node_def)
    then show ?thesis using l leaf [OF that] removed
      by (auto simp: lease_ok_def lease_node_def holds_exactly_def)
  qed
  have content: "content_ok ?t P (cells (fold (\<lambda>s. seq_rm ops s 0 (-1)) ss (kv m)))"
    using inv other ready removed ss(1)
    by (fastforce simp: mapper_inv_def content_ok_def holds_prefix_def clear_seqs_def)
  have refs': "refs_ok ?t held" using refs n by (auto simp: refs_ok_def clear_seqs_def)
  have idle: "idle_ready ?t ls" using inv by (auto simp: mapper_inv_def idle_ready_def clear_seqs_def)
  have pool: "pool_ok (mcfg m) (free_seq_ids m @ ss) (owned ?t)"
    using inv sub ss unfolding own by (auto simp: mapper_inv_def pool_ok_def)
  show ?thesis
    using inv wf refs' idle content pool accounts_ok_filter [of _ _ "seq_ids nd"] lease ss
    by (auto simp: mapper_inv_def fold_free_seq_fields own removed)
qed

section \<open>One eviction\<close>

definition evict_result ::
  "'kv cell_view \<Rightarrow> (addr \<Rightarrow> token list) \<Rightarrow> lease list \<Rightarrow> addr multiset \<Rightarrow>
     'kv kv_mapper \<Rightarrow> 'kv kv_mapper \<Rightarrow> bool" where
  "evict_result cells P ls held m m' \<longleftrightarrow> mapper_inv cells m' P ls held \<and> mcfg m' = mcfg m \<and>
     keeps_nodes (tree m) (tree m') \<and> {n. evictable (tree m') n} \<subseteq> {n. evictable (tree m) n}"

lemma evict_result_refl: "mapper_inv cells m P ls held \<Longrightarrow> evict_result cells P ls held m m"
  by (simp add: evict_result_def)

lemma evict_result_trans:
  "evict_result cells P ls held m m1 \<Longrightarrow> evict_result cells P ls held m1 m2 \<Longrightarrow>
   evict_result cells P ls held m m2"
  by (auto simp: evict_result_def intro: keeps_nodes_trans)

lemma evict_one_ok:
  assumes inv: "mapper_inv cells m P ls held" and laws: "kv_laws ops cells"
    and held: "\<forall>l \<in> set ls. l_leaf l \<in># held"
  shows "\<exists>m' ok. evict_one_locked ops m = Some (m', ok) \<and> evict_result cells P ls held m m' \<and>
    (if ok then free_seq_ids m' \<noteq> [] \<and> {n. evictable (tree m') n} \<subset> {n. evictable (tree m) n}
     else m' = m \<and> (\<forall>n. \<not> evictable (tree m) n))"
proof -
  have wf: "wf_tree (tree m) P" and shape: "wf_shape (tree m) P"
    using inv by (auto simp: mapper_inv_def wf_tree_def)
  from evict_candidate_one [OF shape] show ?thesis
  proof (elim disjE conjE exE)
    assume "find_eviction_candidates (tree m) 1 = Some []" "\<forall>n. \<not> evictable (tree m) n"
    then show ?thesis using inv
      by (auto simp: evict_one_locked.simps [of ops m] evict_result_refl)
  next
    fix n assume cand: "find_eviction_candidates (tree m) 1 = Some [n]" and "evictable (tree m) n"
    then obtain nd where n: "heap (tree m) n = Some nd" "n \<noteq> root_addr" "ref_count nd = 0" "seq_ids nd \<noteq> {}"
      by (auto simp: evictable_def)
    obtain p pn where p: "parent nd = Some p" "heap (tree m) p = Some pn" "tokens nd \<noteq> []"
      "map_of (children pn) (hd (tokens nd)) = Some n" "P n = P p @ tokens nd"
      by (rule wf_upD [OF shape n(1,2)])
    let ?ss = "sorted_list_of_set (seq_ids nd)" and ?t = "set_node (tree m) n (clear_seqs nd)"
    obtain t' where ev: "evict (tree m) (Some n) = Some (t', ?ss)" "wf_tree t' P" "prune_frame ?t t'"
      using evict_ok [OF wf n(1)] p(1) n(3,4) by auto
    have "finite (seq_ids nd)" using wf_nodeD [OF wf n(1)] by (simp add: wf_node_def)
    then have ss: "set ?ss = seq_ids nd" "distinct ?ss" "?ss \<noteq> []" using n(4) by auto
    have "wf_tree ?t P" by (rule clear_seqs_wf [OF wf n(1,2)])
    then have inv': "mapper_inv cells (fold (free_seq ops) ?ss (m\<lparr>tree := ?t\<rparr>)) P ls held"
      by (rule clear_inv [OF inv laws held n(1-3) _ ss(1,2)])
    let ?m = "fold (free_seq ops) ?ss (m\<lparr>tree := t'\<rparr>)"
    let ?m' = "?m\<lparr>metrics := (metrics ?m)\<lparr>evictions := evictions (metrics ?m) + length ?ss\<rparr>\<rparr>"
    have run: "evict_one_locked ops m = Some (?m', True)"
      using cand ev(1) ss(3) by (simp add: evict_one_locked.simps [of ops m] Let_def)
    have "mapper_inv cells ((fold (free_seq ops) ?ss (m\<lparr>tree := ?t\<rparr>))\<lparr>tree := t'\<rparr>) P ls held"
      using ev(3) by (intro mapper_inv_prune [OF inv' ev(2)]) (simp add: fold_free_seq_fields)
    then have "mapper_inv cells ?m' P ls held"
      by (rule mapper_inv_cong) (simp_all add: fold_free_seq_fields)
    moreover have "keeps_nodes (tree m) t'"
      using keeps_nodes_prune [OF ev(3)] n(1) by (auto simp: keeps_nodes_def clear_seqs_def split: if_splits)
    moreover have sub: "evictable (tree m) x \<and> x \<noteq> n" if "evictable t' x" for x
      using evictable_prune [OF ev(3) that] by (auto simp: evictable_def clear_seqs_def split: if_splits)
    moreover have "{n. evictable t' n} \<subset> {n. evictable (tree m) n}" using sub \<open>evictable (tree m) n\<close> by blast
    ultimately show ?thesis using run ss(3)
      by (auto simp: evict_result_def fold_free_seq_fields)
  qed
qed

end
