(* ===== verification/RF_MapperAlloc.thy ===== *)
theory RF_MapperAlloc
  imports RF_MapperEvict
begin

text \<open>
  The operations that reclaim KV memory by repeated eviction: the pressure loop, the
  garbage collection, and the allocation of a sequence id.

  The loop is treated once, for any step that either reports exhaustion or makes a
  measure smaller; the mapper's loop is an instance.
\<close>

section \<open>Reclaiming until a limit is met\<close>

locale reclaimer =
  fixes step :: "'s \<Rightarrow> ('s \<times> bool) option"
    and loop :: "'s \<Rightarrow> bool \<Rightarrow> ('s \<times> bool) option"
    and over :: "'s \<Rightarrow> bool"
    and space :: "'s \<Rightarrow> nat"
    and inv :: "'s \<Rightarrow> 's \<Rightarrow> bool"
  assumes loop_eq: "loop s b = (if over s then
        do { (s', ok) \<leftarrow> step s; if ok then loop s' True else Some (s', b) } else Some (s, b))"
    and step_ok: "inv s0 s \<Longrightarrow> \<exists>s' ok. step s = Some (s', ok) \<and> inv s0 s' \<and>
        (if ok then space s' < space s else s' = s \<and> space s = 0)"
begin

text \<open>The loop returns, below the limit or with nothing left to reclaim.\<close>

lemma loop_returns:
  assumes "inv s0 s"
  shows "\<exists>s' b'. loop s b = Some (s', b') \<and> inv s0 s' \<and> (over s' \<longrightarrow> space s' = 0)"
  using assms
proof (induction "space s" arbitrary: s b rule: less_induct)
  case less
  show ?case
  proof (cases "over s")
    case False then show ?thesis using less.prems by (simp add: loop_eq [of s b])
  next
    case True
    obtain s1 ok where st: "step s = Some (s1, ok)" "inv s0 s1"
      "if ok then space s1 < space s else s1 = s \<and> space s = 0"
      using step_ok [OF less.prems] by blast
    show ?thesis
    proof (cases ok)
      case False then show ?thesis using st True by (auto simp: loop_eq [of s b])
    next
      case ok: True
      then have "space s1 < space s" using st(3) by simp
      from less.hyps [OF this st(2), of True] show ?thesis using st(1) ok True by (simp add: loop_eq [of s b])
    qed
  qed
qed

lemma loop_idle: "\<not> over s \<Longrightarrow> loop s b = Some (s, b)"
  by (simp add: loop_eq [of s b])

end

section \<open>The pressure loop\<close>

definition over_watermark :: "'kv kv_mapper \<Rightarrow> bool" where
  "over_watermark m \<longleftrightarrow> kv_cells_used m > high_watermark (mcfg m)"

definition evictable_count :: "'kv kv_mapper \<Rightarrow> nat" where
  "evictable_count m = card {n. evictable (tree m) n}"

definition evict_ready ::
  "'kv kv_ops \<Rightarrow> 'kv cell_view \<Rightarrow> lease list \<Rightarrow> addr multiset \<Rightarrow> bool" where
  "evict_ready ops cells ls held \<longleftrightarrow> kv_laws ops cells \<and> (\<forall>l \<in> set ls. l_leaf l \<in># held)"

lemma finite_evictable: "mapper_inv cells m P ls held \<Longrightarrow> finite {n. evictable (tree m) n}"
  by (rule finite_subset [of _ "dom (heap (tree m))"])
    (auto simp: evictable_def mapper_inv_def wf_tree_def intro: wf_finite_heap)

lemma evict_one_count:
  assumes "evict_ready ops cells ls held" "evict_result cells P ls held m0 m"
  shows "\<exists>m' ok. evict_one_locked ops m = Some (m', ok) \<and> evict_result cells P ls held m0 m' \<and>
    (if ok then evictable_count m' < evictable_count m else m' = m \<and> evictable_count m = 0)"
proof -
  have inv: "mapper_inv cells m P ls held" using assms(2) by (simp add: evict_result_def)
  obtain m' ok where m': "evict_one_locked ops m = Some (m', ok)" "evict_result cells P ls held m m'"
    "if ok then free_seq_ids m' \<noteq> [] \<and> {n. evictable (tree m') n} \<subset> {n. evictable (tree m) n}
     else m' = m \<and> (\<forall>n. \<not> evictable (tree m) n)"
    using evict_one_ok [OF inv, of ops] assms(1) by (auto simp: evict_ready_def)
  then show ?thesis using evict_result_trans [OF assms(2) m'(2)] finite_evictable [OF inv]
    by (cases ok) (auto simp: evictable_count_def intro!: psubset_card_mono)
qed

interpretation pressure: reclaimer "evict_one_locked ops" "evict_kv_pressure_loop ops" over_watermark
  evictable_count "\<lambda>m0 m. evict_ready ops cells ls held \<and> evict_result cells P ls held m0 m"
  for ops :: "'kv kv_ops" and cells P ls held
proof
  show "evict_kv_pressure_loop ops s b = (if over_watermark s then
        do { (s', ok) \<leftarrow> evict_one_locked ops s;
             if ok then evict_kv_pressure_loop ops s' True else Some (s', b) } else Some (s, b))" for s b
    by (subst evict_kv_pressure_loop.simps) (simp add: over_watermark_def)
  show "\<exists>s' ok. evict_one_locked ops s = Some (s', ok) \<and>
        (evict_ready ops cells ls held \<and> evict_result cells P ls held s0 s') \<and>
        (if ok then evictable_count s' < evictable_count s else s' = s \<and> evictable_count s = 0)"
    if "evict_ready ops cells ls held \<and> evict_result cells P ls held s0 s" for s0 s
    using evict_one_count [of ops cells ls held P s0 s] that by auto
qed

lemma evict_kv_pressure_ok:
  assumes "mapper_inv cells m P ls held" "evict_ready ops cells ls held"
  shows "\<exists>m'. evict_kv_pressure ops m = Some m' \<and> evict_result cells P ls held m m' \<and>
    (over_watermark m' \<longrightarrow> (\<forall>n. \<not> evictable (tree m') n))"
proof -
  obtain m' b where "evict_kv_pressure_loop ops m False = Some (m', b)"
    "evict_result cells P ls held m m'" "over_watermark m' \<longrightarrow> evictable_count m' = 0"
    using pressure.loop_returns [of ops cells ls held P m m False] evict_result_refl assms by blast
  moreover have "finite {n. evictable (tree m') n}"
    using calculation(2) finite_evictable by (auto simp: evict_result_def)
  ultimately show ?thesis by (auto simp: evict_kv_pressure_def evictable_count_def)
qed

lemma gc_if_needed_ok:
  assumes inv: "mapper_inv cells m P ls held" and "evict_ready ops cells ls held"
  shows "\<exists>m'. gc_if_needed ops m = Some m' \<and> evict_result cells P ls held m m' \<and>
    (free_seq_ids m' = [] \<longrightarrow> m' = m \<and> (\<forall>n. \<not> evictable (tree m) n))"
proof -
  obtain m' ok where "evict_one_locked ops m = Some (m', ok)" "evict_result cells P ls held m m'"
    "if ok then free_seq_ids m' \<noteq> [] \<and> {n. evictable (tree m') n} \<subset> {n. evictable (tree m) n}
     else m' = m \<and> (\<forall>n. \<not> evictable (tree m) n)"
    using evict_one_ok [OF inv, of ops] assms(2) by (auto simp: evict_ready_def)
  then show ?thesis using evict_result_refl [OF inv] by (auto simp: gc_if_needed_def split: if_splits)
qed

lemma allocate_gc:
  "allocate_seq_id_locked ops m =
     do { m1 \<leftarrow> gc_if_needed ops m;
          case free_seq_ids m1 of
            [] \<Rightarrow> Some (m1, Inl SequenceCapacityExhausted)
          | i # rest \<Rightarrow> Some (m1\<lparr>free_seq_ids := rest\<rparr>, Inr i) }"
  by (auto simp: allocate_seq_id_locked_def gc_if_needed_def)

lemma allocate_ok:
  assumes inv: "mapper_inv cells m P ls held" and "evict_ready ops cells ls held"
  shows "(allocate_seq_id_locked ops m = Some (m, Inl SequenceCapacityExhausted) \<and>
      free_seq_ids m = [] \<and> (\<forall>n. \<not> evictable (tree m) n)) \<or>
    (\<exists>m1 i rest. allocate_seq_id_locked ops m = Some (m1\<lparr>free_seq_ids := rest\<rparr>, Inr i) \<and>
      evict_result cells P ls held m m1 \<and> free_seq_ids m1 = i # rest)"
proof -
  obtain m1 where m1: "gc_if_needed ops m = Some m1" "evict_result cells P ls held m m1"
    "free_seq_ids m1 = [] \<longrightarrow> m1 = m \<and> (\<forall>n. \<not> evictable (tree m) n)"
    using gc_if_needed_ok [OF assms] by auto
  then show ?thesis by (cases "free_seq_ids m1") (auto simp: allocate_gc)
qed

end
