(* ===== verification/RF_MapperPrepare.thy ===== *)
theory RF_MapperPrepare
  imports RF_MapperAlloc
begin

text \<open>
  \<open>prepare_sequence\<close>: the prompt is inserted into the tree, a sequence id is allocated, the
  longest cached prefix is copied, and the request gets a lease whose cells are exactly the
  cached part of its prompt.
\<close>

section \<open>Insertion of the prompt\<close>

lemma frame_old:
  assumes "tree_frame t P t' P' d" "heap t x = Some xd"
  obtains xd' where "heap t' x = Some xd'" "same_seqs xd xd'" "prefix (P' x) (P x)"
    "ref_count xd' = ref_count xd + d x"
  using assms unfolding tree_frame_def by blast

lemma frame_back:
  assumes f: "tree_frame t P t' P' d" and x: "heap t' x = Some xd'" and s: "s \<in> seq_ids xd'"
  obtains xd where "heap t x = Some xd" "same_seqs xd xd'" "prefix (P' x) (P x)"
proof (cases "heap t x")
  case None then show ?thesis using f x s unfolding tree_frame_def by blast
next
  case (Some xd)
  then obtain xd2 where "heap t' x = Some xd2" "same_seqs xd xd2" "prefix (P' x) (P x)" by (rule frame_old [OF f])
  then show thesis using that Some x by simp
qed

lemma owned_frame:
  assumes f: "tree_frame t P t' P' d"
  shows "owned t' = owned t"
proof (intro equalityI subsetI)
  fix s assume "s \<in> owned t'"
  then obtain x xd' where x: "heap t' x = Some xd'" "s \<in> seq_ids xd'" by (auto simp: owned_def)
  obtain xd where "heap t x = Some xd" "same_seqs xd xd'" by (rule frame_back [OF f x])
  then show "s \<in> owned t" using x(2) by (auto simp: same_seqs_def intro: ownedI)
next
  fix s assume "s \<in> owned t"
  then obtain x xd where x: "heap t x = Some xd" "s \<in> seq_ids xd" by (auto simp: owned_def)
  obtain xd' where "heap t' x = Some xd'" "same_seqs xd xd'" by (rule frame_old [OF f x(1)])
  then show "s \<in> owned t'" using x(2) by (auto simp: same_seqs_def intro: ownedI)
qed

lemma refs_ok_frame:
  assumes refs: "refs_ok t held" and f: "tree_frame t P t' P' (\<lambda>x. if x = leaf then 1 else 0)"
    and leaf: "heap t' leaf \<noteq> None" and root: "heap t root_addr \<noteq> None"
  shows "refs_ok t' (add_mset leaf held)"
  unfolding refs_ok_def
proof (intro conjI ballI allI impI)
  fix x assume x: "x \<in># add_mset leaf held"
  show "heap t' x \<noteq> None"
  proof (cases "x = leaf")
    case False
    then obtain xd where "heap t x = Some xd" using x refs by (auto simp: refs_ok_def)
    then show ?thesis by (rule frame_old [OF f]) simp
  qed (use leaf in simp)
next
  fix x xd' assume x: "heap t' x = Some xd'"
  show "ref_count xd' = (if x = root_addr then 1 else 0) + int (count (add_mset leaf held) x)"
  proof (cases "heap t x")
    case None
    then have "count held x = 0" using refs by (auto simp: refs_ok_def count_eq_zero_iff)
    moreover have "ref_count xd' = (if x = leaf then 1 else 0)" using f x None by (auto simp: tree_frame_def)
    ultimately show ?thesis using root None by auto
  next
    case (Some xd)
    then obtain xd2 where "heap t' x = Some xd2" "ref_count xd2 = ref_count xd + (if x = leaf then 1 else 0)"
      by (rule frame_old [OF f])
    then show ?thesis using refs Some x by (auto simp: refs_ok_def)
  qed
qed

lemma lease_ok_frame:
  assumes l: "lease_ok t P c l" and f: "tree_frame t P t' P' d"
  shows "lease_ok t' P' c l"
proof -
  obtain nd where nd: "heap t (l_leaf l) = Some nd" "l_seq l \<in> seq_ids nd"
    "l_seq l \<in> ready_seq_ids nd \<longleftrightarrow> l_ready l" "prefix (P (l_leaf l)) (l_prompt l)"
    using l by (auto simp: lease_ok_def lease_node_def)
  obtain nd' where "heap t' (l_leaf l) = Some nd'" "same_seqs nd nd'" "prefix (P' (l_leaf l)) (P (l_leaf l))"
    by (rule frame_old [OF f nd(1)])
  then show ?thesis using l nd by (auto simp: lease_ok_def lease_node_def same_seqs_def)
qed

lemma mapper_inv_frame:
  assumes inv: "mapper_inv cells m P ls held" and wf: "wf_tree t' P'"
    and f: "tree_frame (tree m) P t' P' (\<lambda>x. if x = leaf then 1 else 0)" and leaf: "heap t' leaf \<noteq> None"
  shows "mapper_inv cells (m\<lparr>tree := t'\<rparr>) P' ls (add_mset leaf held)"
proof -
  have wf0: "wf_tree (tree m) P" using inv by (simp add: mapper_inv_def)
  then have root: "heap (tree m) root_addr \<noteq> None" by (auto simp: wf_tree_def wf_shape_def wf_root_def)
  have idle: "idle_ready t' ls" unfolding idle_ready_def
  proof (intro allI impI)
    fix x xd' s assume x: "heap t' x = Some xd'" "s \<in> seq_ids xd'" "s \<notin> l_seq ` set ls"
    obtain xd where "heap (tree m) x = Some xd" "same_seqs xd xd'" by (rule frame_back [OF f x(1,2)])
    then show "s \<in> ready_seq_ids xd' \<and> (\<forall>s' \<in> seq_ids xd'. s' \<notin> l_seq ` set ls \<longrightarrow> s' = s)"
      using inv x unfolding mapper_inv_def idle_ready_def same_seqs_def by metis
  qed
  have content: "content_ok t' P' (cells (kv m))" unfolding content_ok_def
  proof (intro allI impI)
    fix x xd' s assume x: "heap t' x = Some xd'" "s \<in> ready_seq_ids xd'"
    then have "s \<in> seq_ids xd'" using wf_nodeD [OF wf x(1)] by (auto simp: wf_node_def)
    then obtain xd where "heap (tree m) x = Some xd" "same_seqs xd xd'" "prefix (P' x) (P x)"
      by (rule frame_back [OF f x(1)])
    moreover then have "holds_prefix (cells (kv m) s) (P x)" using inv x(2)
      by (auto simp: mapper_inv_def content_ok_def same_seqs_def)
    ultimately show "holds_prefix (cells (kv m) s) (P' x)" by (auto intro: holds_prefix_mono)
  qed
  show ?thesis
    using inv wf idle content refs_ok_frame [OF _ f leaf root] lease_ok_frame [OF _ f] owned_frame [OF f]
    by (simp add: mapper_inv_def)
qed

section \<open>The new lease\<close>

text \<open>The part of the prompt that a lookup result provides.\<close>

lemma cache_position_bounds:
  assumes "matched \<le> length prompt" and "case source of None \<Rightarrow> True | Some (_, len) \<Rightarrow> 0 \<le> len"
  shows "0 \<le> cache_position prompt matched source"
    "cache_position prompt matched source \<le> int matched"
    "prompt \<noteq> [] \<Longrightarrow> cache_position prompt matched source < int (length prompt)"
    "source = None \<Longrightarrow> cache_position prompt matched source = 0"
    "source = Some (s, len) \<Longrightarrow> cache_position prompt matched source \<le> len"
  using assms by (auto simp: cache_position_def Let_def split: option.splits)

lemma find_source_ok:
  assumes wf: "wf_tree (tree m) P" and cn: "heap (tree m) (cache_node match) \<noteq> None"
  shows "\<exists>src. find_source m match = Some src \<and> (case src of None \<Rightarrow> True | Some (s, len) \<Rightarrow>
     \<exists>x xd. heap (tree m) x = Some xd \<and> s \<in> ready_seq_ids xd \<and> len = int (length (P x)) \<and>
       (prefix (P x) (P (cache_node match)) \<or> prefix (P (cache_node match)) (P x)))"
proof -
  obtain cd where "heap (tree m) (cache_node match) = Some cd" using cn by auto
  then obtain r where "find_covering_seq_id (tree m) (Some (cache_node match)) = Some r"
    "source_in (tree m) P (above (tree m) P (cache_node match) \<union> below (tree m) P (cache_node match)) r"
    using find_covering_ok [OF wf] by blast
  then show ?thesis
    by (auto simp: find_source_def source_in_def above_def below_def split: option.splits prod.splits)
qed

lemma cached_content:
  assumes content: "content_ok t P c" and x: "heap t x = Some xd" "s \<in> ready_seq_ids xd"
    and path: "prefix (P x) (P cn) \<or> prefix (P cn) (P x)" and cn: "prefix (P cn) prompt"
    and k: "k \<le> length (P cn)" "k \<le> length (P x)"
  shows "holds_prefix (c s) (take k prompt)"
proof -
  have "take k prompt = take k (P cn)" using cn k(1) by (auto simp: prefix_def)
  also have "\<dots> = take k (P x)" using path k by (auto simp: prefix_def)
  finally show ?thesis using content x
    by (auto simp: content_ok_def intro: holds_prefix_mono take_is_prefix)
qed

definition pending_lease :: "seq_id \<Rightarrow> addr \<Rightarrow> token list \<Rightarrow> int \<Rightarrow> lease" where
  "pending_lease s leaf prompt pos = \<lparr>l_seq = s, l_leaf = leaf, l_prompt = prompt,
     l_cells = take (nat pos) prompt, l_ready = False\<rparr>"

lemma lease_owner:
  assumes "lease_ok t P c l"
  obtains nd where "heap t (l_leaf l) = Some nd" "l_seq l \<in> seq_ids nd"
  using assms unfolding lease_ok_def lease_node_def by blast

lemma attach_inv:
  assumes inv: "mapper_inv cells m P ls held" and free: "free_seq_ids m = i # rest"
    and leaf: "heap (tree m) leaf = Some nd" "P leaf = prompt"
    and wf: "wf_tree (set_node (tree m) leaf (add_seq i clen nd)) P"
    and kv': "\<And>s j. s \<noteq> i \<Longrightarrow> cells kv' s j = cells (kv m) s j"
      "holds_exactly (cells kv' i) (take (nat pos) prompt)"
  shows "mapper_inv cells (m\<lparr>free_seq_ids := rest, kv := kv',
       tree := set_node (tree m) leaf (add_seq i clen nd),
       seq_cell_counts := AList.update i pos (seq_cell_counts m),
       retained_seq_ids := retained_seq_ids m - {i}\<rparr>)
     P (pending_lease i leaf prompt pos # ls) held"
proof -
  let ?t = "set_node (tree m) leaf (add_seq i clen nd)"
  have wf0: "wf_tree (tree m) P" using inv by (simp add: mapper_inv_def)
  have pool: "pool_ok (mcfg m) (i # rest) (owned (tree m))" using inv free by (simp add: mapper_inv_def)
  then have i: "i \<notin> owned (tree m)" "i \<notin> set rest" by (auto simp: pool_ok_def)
  have fresh: "i \<notin> seq_ids xd" if "heap (tree m) x = Some xd" for x xd using i(1) that by (auto intro: ownedI)
  have own: "owned ?t = insert i (owned (tree m))"
    using owned_set_node [OF wf0 leaf(1)] ownedI [OF leaf(1)] by (auto simp: add_seq_def)
  have lseq: "l_seq l \<noteq> i" if "l \<in> set ls" for l
  proof -
    have "lease_ok (tree m) P (cells (kv m)) l" using inv that by (simp add: mapper_inv_def)
    then obtain xd where xd: "heap (tree m) (l_leaf l) = Some xd" "l_seq l \<in> seq_ids xd" by (rule lease_owner)
    show ?thesis using fresh [OF xd(1)] xd(2) by auto
  qed
  have ready: "ready_seq_ids xd \<subseteq> seq_ids xd" if "heap (tree m) x = Some xd" for x xd
    using wf_nodeD [OF wf0 that] by (simp add: wf_node_def)
  have ready_i: "i \<notin> ready_seq_ids xd" if "heap (tree m) x = Some xd" for x xd
    using ready [OF that] fresh [OF that] by auto
  have "content_ok (tree m) P (cells kv')"
  proof (unfold content_ok_def, intro allI impI)
    fix x xd s assume x: "heap (tree m) x = Some xd" "s \<in> ready_seq_ids xd"
    then have "s \<noteq> i" using ready_i by auto
    moreover have "holds_prefix (cells (kv m) s) (P x)" using inv x by (simp add: mapper_inv_def content_ok_def)
    ultimately show "holds_prefix (cells kv' s) (P x)" using kv'(1) by (simp add: holds_prefix_def)
  qed
  then have cont: "content_ok ?t P (cells kv')" using leaf(1) by (auto simp: content_ok_def add_seq_def)
  have idle: "idle_ready ?t (pending_lease i leaf prompt pos # ls)"
    using inv leaf(1) by (auto simp: mapper_inv_def idle_ready_def add_seq_def pending_lease_def)
  have new: "lease_ok ?t P (cells kv') (pending_lease i leaf prompt pos)"
    using kv'(2) leaf ready [OF leaf(1)] fresh [OF leaf(1)]
    by (auto simp: lease_ok_def lease_node_def pending_lease_def add_seq_def take_is_prefix)
  have old: "lease_ok ?t P (cells kv') l" if l: "l \<in> set ls" for l
  proof -
    have "lease_ok (tree m) P (cells (kv m)) l" using inv l by (simp add: mapper_inv_def)
    then show ?thesis using lseq [OF l] kv'(1) leaf(1)
      by (auto simp: lease_ok_def lease_node_def holds_exactly_def add_seq_def)
  qed
  have "refs_ok ?t held" using inv leaf(1) by (auto simp: mapper_inv_def refs_ok_def add_seq_def)
  moreover have "accounts_ok (AList.update i pos (seq_cell_counts m)) (owned ?t)"
    using inv own by (auto simp: mapper_inv_def accounts_ok_def distinct_update dom_update)
  moreover have "pool_ok (mcfg m) rest (owned ?t)" using pool i own by (auto simp: pool_ok_def)
  moreover have "\<forall>s \<in> set rest. \<forall>j. cells kv' s j = None"
  proof (intro ballI allI)
    fix s j assume s: "s \<in> set rest"
    then have "cells kv' s j = cells (kv m) s j" using i(2) by (intro kv'(1)) auto
    then show "cells kv' s j = None" using inv free s by (simp add: mapper_inv_def)
  qed
  moreover have "retained_seq_ids m - {i} = owned ?t - l_seq ` set (pending_lease i leaf prompt pos # ls)"
    using inv i(1) by (auto simp: mapper_inv_def own pending_lease_def)
  moreover have "distinct (map l_seq (pending_lease i leaf prompt pos # ls))"
    using inv lseq by (auto simp: mapper_inv_def pending_lease_def)
  ultimately show ?thesis using wf cont idle new old by (simp add: mapper_inv_def)
qed

section \<open>The operation\<close>

lemma attach_source_fields [simp]:
  "tree (attach_source ops m src i pos) = tree m" "mcfg (attach_source ops m src i pos) = mcfg m"
  "free_seq_ids (attach_source ops m src i pos) = free_seq_ids m"
  "seq_cell_counts (attach_source ops m src i pos) = seq_cell_counts m"
  "retained_seq_ids (attach_source ops m src i pos) = retained_seq_ids m"
  "kv (attach_source ops m src i pos) = (if pos > 0 then
     (case src of None \<Rightarrow> kv m | Some (s, _) \<Rightarrow> seq_cp ops s i 0 pos (kv m)) else kv m)"
  by (simp_all add: attach_source_def)

text \<open>What the request gets from the cache is exactly a prefix of its prompt.\<close>

lemma attach_cells:
  assumes inv: "mapper_inv cells m P ls held" and laws: "kv_laws ops cells"
    and i: "i \<in> set (free_seq_ids m)"
    and cn: "prefix (P cn) prompt"
    and src: "case src of None \<Rightarrow> True | Some (s, len) \<Rightarrow>
      \<exists>x xd. heap (tree m) x = Some xd \<and> s \<in> ready_seq_ids xd \<and> len = int (length (P x)) \<and>
        (prefix (P x) (P cn) \<or> prefix (P cn) (P x))"
    and pos: "pos = cache_position prompt (length (P cn)) src" and m': "kv m' = kv m"
  shows "(s \<noteq> i \<longrightarrow> cells (kv (attach_source ops m' src i pos)) s j = cells (kv m) s j) \<and>
    holds_exactly (cells (kv (attach_source ops m' src i pos)) i) (take (nat pos) prompt)"
proof (cases "pos > 0")
  case False
  then show ?thesis using inv i m' by (simp add: mapper_inv_def holds_exactly_def)
next
  case True
  have len: "length (P cn) \<le> length prompt" using cn by (rule prefix_length_le)
  have "case src of None \<Rightarrow> True | Some (_, len) \<Rightarrow> 0 \<le> len" using src by (auto split: option.splits)
  note bounds = cache_position_bounds [OF len this, folded pos]
  obtain sid slen where srcS: "src = Some (sid, slen)"
    using bounds(4) True pos by (cases src) auto
  then obtain x xd where x: "heap (tree m) x = Some xd" "sid \<in> ready_seq_ids xd" "slen = int (length (P x))"
    "prefix (P x) (P cn) \<or> prefix (P cn) (P x)" using src by auto
  have wf: "wf_tree (tree m) P" using inv by (simp add: mapper_inv_def)
  have "sid \<in> owned (tree m)" using x wf_nodeD [OF wf x(1)] by (auto simp: wf_node_def intro: ownedI)
  then have ne: "sid \<noteq> i" using inv i by (auto simp: mapper_inv_def pool_ok_def)
  have k: "nat pos \<le> length (P cn)" "nat pos \<le> length (P x)" using bounds(2) bounds(5) [OF srcS] x(3) by auto
  have "content_ok (tree m) P (cells (kv m))" using inv by (simp add: mapper_inv_def)
  then have "holds_prefix (cells (kv m) sid) (take (nat pos) prompt)"
    by (rule cached_content [OF _ x(1,2,4) cn k])
  moreover have "cells (kv m) i j' = None" for j' using inv i by (simp add: mapper_inv_def)
  ultimately show ?thesis using laws ne srcS m' True k(1) len
    by (auto simp: kv_laws_def seq_cp_law_def holds_exactly_def holds_prefix_def)
qed

definition prepared ::
  "'kv cell_view \<Rightarrow> lease list \<Rightarrow> addr multiset \<Rightarrow> token list \<Rightarrow> 'kv kv_mapper \<Rightarrow>
     (addr \<Rightarrow> token list) \<Rightarrow> prepare_result \<Rightarrow> bool" where
  "prepared cells ls held prompt m P r \<longleftrightarrow>
     mapper_inv cells m P (pending_lease (res_seq_id r) (leaf_node r) prompt (cached_pos r) # ls)
       (add_mset (leaf_node r) held) \<and>
     P (leaf_node r) = prompt \<and> 0 \<le> cached_pos r \<and> cached_pos r \<le> int (length prompt) \<and>
     (prompt \<noteq> [] \<longrightarrow> cached_pos r < int (length prompt)) \<and>
     delta r = drop (nat (cached_pos r)) prompt"

text \<open>The steps of \<open>prepare_sequence\<close> after the allocation.\<close>

definition use_allocated ::
  "'kv kv_ops \<Rightarrow> 'kv kv_mapper \<Rightarrow> prefix_match \<Rightarrow> token list \<Rightarrow> seq_id \<Rightarrow>
     ('kv kv_mapper \<times> prepare_result) option" where
  "use_allocated ops m mt prompt i =
     do { source \<leftarrow> find_source m mt;
          let pos = cache_position prompt (matched_tokens mt) source;
          let m4 = attach_source ops m source i pos;
          t5 \<leftarrow> register_seq_id (tree m4) (match_node mt) i (int (length prompt));
          Some (m4\<lparr>tree := t5,
                   seq_cell_counts := AList.update i pos (seq_cell_counts m4),
                   retained_seq_ids := retained_seq_ids m4 - {i}\<rparr>,
                \<lparr>res_seq_id = i, cached_pos = pos,
                 delta = drop (nat pos) prompt, leaf_node = match_node mt\<rparr>) }"

lemma prepare_sequence_steps:
  "prepare_sequence ops m prompt =
     do { m1 \<leftarrow> evict_kv_pressure ops (m\<lparr>metrics := (metrics m)
                   \<lparr>total_requests := total_requests (metrics m) + 1,
                    prompt_tokens := prompt_tokens (metrics m) + length prompt\<rparr>\<rparr>);
          (t2, mt) \<leftarrow> insert_prompt (tree m1) prompt;
          (m3, allocated) \<leftarrow> allocate_seq_id_locked ops (m1\<lparr>tree := t2\<rparr>);
          case allocated of
            Inl e \<Rightarrow> do { t4 \<leftarrow> release (tree m3) (Some (match_node mt)); Some (m3\<lparr>tree := t4\<rparr>, Inl e) }
          | Inr i \<Rightarrow> do { (m', r) \<leftarrow> use_allocated ops m3 mt prompt i; Some (m', Inr r) } }"
  unfolding prepare_sequence_def use_allocated_def Let_def
  by (intro Option.bind_cong refl) (auto split: sum.splits intro!: Option.bind_cong)

lemma prepare_allocated:
  assumes inv: "mapper_inv cells m P ls (add_mset leaf held)" and laws: "kv_laws ops cells"
    and free: "free_seq_ids m = i # rest" and leaf: "P leaf = prompt"
    and cn: "heap (tree m) cn \<noteq> None" "prefix (P cn) prompt"
    and match: "match_node mt = leaf" "cache_node mt = cn" "matched_tokens mt = length (P cn)"
  shows "\<exists>m' r. use_allocated ops (m\<lparr>free_seq_ids := rest\<rparr>) mt prompt i = Some (m', r) \<and>
     prepared cells ls held prompt m' P r \<and> mcfg m' = mcfg m"
proof -
  have wf: "wf_tree (tree m) P" using inv by (simp add: mapper_inv_def)
  have "heap (tree m) leaf \<noteq> None" using inv by (simp add: mapper_inv_def refs_ok_def)
  then obtain lnd where lnd: "heap (tree m) leaf = Some lnd" by auto
  obtain src where src: "find_source m mt = Some src" "case src of None \<Rightarrow> True | Some (s, len) \<Rightarrow>
      \<exists>x xd. heap (tree m) x = Some xd \<and> s \<in> ready_seq_ids xd \<and> len = int (length (P x)) \<and>
        (prefix (P x) (P cn) \<or> prefix (P cn) (P x))"
    using find_source_ok [OF wf, of mt] cn(1) match(2) by auto
  let ?pos = "cache_position prompt (length (P cn)) src"
  let ?m4 = "attach_source ops (m\<lparr>free_seq_ids := rest\<rparr>) src i ?pos"
  have len: "length (P cn) \<le> length prompt" using cn(2) by (rule prefix_length_le)
  have "case src of None \<Rightarrow> True | Some (_, len) \<Rightarrow> 0 \<le> len" using src(2) by (auto split: option.splits)
  note bounds = cache_position_bounds [OF len this]
  have "i \<notin> owned (tree m)" using inv free by (auto simp: mapper_inv_def pool_ok_def)
  then have reg: "register_seq_id (tree m) leaf i (int (length prompt)) =
      Some (set_node (tree m) leaf (add_seq i (int (length prompt)) lnd))"
    "wf_tree (set_node (tree m) leaf (add_seq i (int (length prompt)) lnd)) P"
    using register_ok [OF wf lnd, of "int (length prompt)" i] leaf by (auto intro: ownedI)
  have c: "(s \<noteq> i \<longrightarrow> cells (kv ?m4) s j = cells (kv m) s j) \<and> holds_exactly (cells (kv ?m4) i) (take (nat ?pos) prompt)" for s j
    by (rule attach_cells [OF inv laws _ cn(2) src(2) refl]) (simp_all add: free)
  have fs: "find_source (m\<lparr>free_seq_ids := rest\<rparr>) mt = Some src" using src(1) by (auto simp: find_source_def split: if_splits)
  let ?r = "\<lparr>res_seq_id = i, cached_pos = ?pos, delta = drop (nat ?pos) prompt, leaf_node = leaf\<rparr>"
  let ?m5 = "?m4\<lparr>tree := set_node (tree m) leaf (add_seq i (int (length prompt)) lnd),
                 seq_cell_counts := AList.update i ?pos (seq_cell_counts m),
                 retained_seq_ids := retained_seq_ids m - {i}\<rparr>"
  have "mapper_inv cells (m\<lparr>free_seq_ids := rest, kv := kv ?m4,
       tree := set_node (tree m) leaf (add_seq i (int (length prompt)) lnd),
       seq_cell_counts := AList.update i ?pos (seq_cell_counts m),
       retained_seq_ids := retained_seq_ids m - {i}\<rparr>)
     P (pending_lease i leaf prompt ?pos # ls) (add_mset leaf held)"
    using c by (intro attach_inv [OF inv free lnd leaf reg(2)]) auto
  then have "mapper_inv cells ?m5 P (pending_lease i leaf prompt ?pos # ls) (add_mset leaf held)"
    by (rule mapper_inv_cong) simp_all
  then have "prepared cells ls held prompt ?m5 P ?r" using bounds(1-3) leaf len by (auto simp: prepared_def)
  then show ?thesis using fs reg(1) match
    by (intro exI [of _ ?m5] exI [of _ ?r]) (simp add: use_allocated_def Let_def)
qed

section \<open>Returning a reference\<close>

lemma drop_ref_inv:
  assumes inv: "mapper_inv cells m P ls (add_mset n held)"
  obtains nd where "heap (tree m) n = Some nd" "0 < ref_count nd"
    "n = root_addr \<Longrightarrow> 2 \<le> ref_count nd"
    "mapper_inv cells (m\<lparr>tree := set_node (tree m) n (drop_ref nd)\<rparr>) P ls held"
proof -
  have refs: "refs_ok (tree m) (add_mset n held)" and wf: "wf_tree (tree m) P"
    using inv by (auto simp: mapper_inv_def)
  then obtain nd where nd: "heap (tree m) n = Some nd" by (auto simp: refs_ok_def)
  have ref: "ref_count nd = (if n = root_addr then 1 else 0) + int (Suc (count held n))"
    using refs nd by (auto simp: refs_ok_def)
  let ?t = "set_node (tree m) n (drop_ref nd)"
  have wf': "wf_tree ?t P" using ref by (intro drop_ref_wf [OF wf nd]) auto
  have own: "owned ?t = owned (tree m)"
    using owned_set_node [OF wf nd] ownedI [OF nd] by (auto simp: drop_ref_def)
  have refs': "refs_ok ?t held" using refs nd by (auto simp: refs_ok_def drop_ref_def)
  have lease: "lease_ok ?t P c l" if "lease_ok (tree m) P c l" for c l
    using that nd unfolding lease_ok_def lease_node_def by (auto simp: drop_ref_def)
  have "idle_ready ?t ls" "content_ok ?t P (cells (kv m))"
    using inv nd by (auto simp: mapper_inv_def idle_ready_def content_ok_def drop_ref_def)
  then have "mapper_inv cells (m\<lparr>tree := ?t\<rparr>) P ls held"
    using inv wf' own refs' lease by (simp add: mapper_inv_def)
  then show thesis using that [OF nd] ref by simp
qed

lemma release_inv:
  assumes inv: "mapper_inv cells m P ls (add_mset n held)"
  shows "\<exists>t'. release (tree m) (Some n) = Some t' \<and> mapper_inv cells (m\<lparr>tree := t'\<rparr>) P ls held \<and>
     keeps_nodes (tree m) t' \<and> (\<forall>x. evictable t' x \<longrightarrow> evictable (tree m) x \<or> x = n)"
proof -
  obtain nd where nd: "heap (tree m) n = Some nd" "0 < ref_count nd" "n = root_addr \<Longrightarrow> 2 \<le> ref_count nd"
    "mapper_inv cells (m\<lparr>tree := set_node (tree m) n (drop_ref nd)\<rparr>) P ls held"
    by (rule drop_ref_inv [OF inv]) blast
  have wf: "wf_tree (tree m) P" using inv by (simp add: mapper_inv_def)
  obtain t' where t': "release (tree m) (Some n) = Some t'" "wf_tree t' P"
    "prune_frame (set_node (tree m) n (drop_ref nd)) t'"
    using release_ok [OF wf nd(1,2)] nd(3) by auto
  have "mapper_inv cells (m\<lparr>tree := t'\<rparr>) P ls held" using mapper_inv_prune [OF nd(4) t'(2)] t'(3) by simp
  moreover have "keeps_nodes (tree m) t'"
    using keeps_nodes_prune [OF t'(3)] nd(1) by (auto simp: keeps_nodes_def drop_ref_def split: if_splits)
  moreover have "evictable (tree m) x \<or> x = n" if "evictable t' x" for x
    using evictable_prune [OF t'(3) that] by (auto simp: evictable_def split: if_splits)
  ultimately show ?thesis using t'(1) by blast
qed

lemma release_reference_ok:
  assumes "mapper_inv cells m P ls (add_mset n held)"
  shows "\<exists>m'. release_reference m (Some n) = Some m' \<and> mapper_inv cells m' P ls held \<and> mcfg m' = mcfg m"
  using release_inv [OF assms] by (auto simp: release_reference_def)

section \<open>Preparation as a whole\<close>

lemma insert_inv:
  assumes inv: "mapper_inv cells m P ls held"
  shows "\<exists>t' P' mt. insert_prompt (tree m) prompt = Some (t', mt) \<and>
    mapper_inv cells (m\<lparr>tree := t'\<rparr>) P' ls (add_mset (match_node mt) held) \<and>
    P' (match_node mt) = prompt \<and> cache_node mt \<in> above t' P' (match_node mt) \<and>
    matched_tokens mt = length (P' (cache_node mt))"
proof -
  have wf: "wf_tree (tree m) P" using inv by (simp add: mapper_inv_def)
  obtain t' P' leaf cn rest lnd cnd where ins: "insert_prompt (tree m) prompt = Some (t',
      \<lparr>match_node = leaf, cache_node = cn, cache_seq_id = -1, matched_tokens = length (P' cn), remaining = rest\<rparr>)"
    "wf_tree t' P'" "heap t' leaf = Some lnd" "P' leaf = prompt" "heap t' cn = Some cnd" "P' cn @ rest = prompt"
    "tree_frame (tree m) P t' P' (\<lambda>x. if x = leaf then 1 else 0)"
    using insert_prompt_ok [OF wf, of prompt] by blast
  have "mapper_inv cells (m\<lparr>tree := t'\<rparr>) P' ls (add_mset leaf held)"
    using ins(3) by (intro mapper_inv_frame [OF inv ins(2,7)]) simp
  moreover have "prefix (P' cn) prompt" using ins(6) by (metis prefixI)
  ultimately show ?thesis using ins by (intro exI [of _ t'] exI [of _ P'] exI) (auto simp: above_def)
qed

lemma prepare_sequence_ok:
  assumes inv: "mapper_inv cells m P ls held" and ready: "evict_ready ops cells ls held"
  shows "\<exists>m' res. prepare_sequence ops m prompt = Some (m', res) \<and> mcfg m' = mcfg m \<and>
    (case res of
       Inl e \<Rightarrow> \<exists>P'. mapper_inv cells m' P' ls held \<and> free_seq_ids m' = [] \<and>
         (\<forall>x. evictable (tree m') x \<longrightarrow> P' x = prompt)
     | Inr r \<Rightarrow> \<exists>P'. prepared cells ls held prompt m' P' r)"
proof -
  let ?m0 = "m\<lparr>metrics := (metrics m)\<lparr>total_requests := total_requests (metrics m) + 1,
                    prompt_tokens := prompt_tokens (metrics m) + length prompt\<rparr>\<rparr>"
  have "mapper_inv cells ?m0 P ls held" using inv by (rule mapper_inv_cong) simp_all
  then obtain m1 where m1: "evict_kv_pressure ops ?m0 = Some m1" "evict_result cells P ls held ?m0 m1"
    using evict_kv_pressure_ok [OF _ ready] by blast
  then have inv1: "mapper_inv cells m1 P ls held" and cfg1: "mcfg m1 = mcfg m" by (auto simp: evict_result_def)
  obtain t2 P' mt where ins: "insert_prompt (tree m1) prompt = Some (t2, mt)"
    "mapper_inv cells (m1\<lparr>tree := t2\<rparr>) P' ls (add_mset (match_node mt) held)" "P' (match_node mt) = prompt"
    "cache_node mt \<in> above t2 P' (match_node mt)" "matched_tokens mt = length (P' (cache_node mt))"
    using insert_inv [OF inv1] by blast
  have ready2: "evict_ready ops cells ls (add_mset (match_node mt) held)" using ready by (auto simp: evict_ready_def)
  have laws: "kv_laws ops cells" using ready by (simp add: evict_ready_def)
  have wf2: "wf_shape t2 P'" using ins(2) by (simp add: mapper_inv_def wf_tree_def)
  from allocate_ok [OF ins(2) ready2] show ?thesis
  proof (elim disjE conjE exE)
    assume al: "allocate_seq_id_locked ops (m1\<lparr>tree := t2\<rparr>) = Some (m1\<lparr>tree := t2\<rparr>, Inl SequenceCapacityExhausted)"
      "free_seq_ids (m1\<lparr>tree := t2\<rparr>) = []" "\<forall>n. \<not> evictable (tree (m1\<lparr>tree := t2\<rparr>)) n"
    obtain t4 where "release t2 (Some (match_node mt)) = Some t4" "mapper_inv cells (m1\<lparr>tree := t4\<rparr>) P' ls held"
      "\<forall>x. evictable t4 x \<longrightarrow> evictable t2 x \<or> x = match_node mt"
      using release_inv [OF ins(2)] by auto
    then show ?thesis using m1(1) ins(1,3) al cfg1
      by (intro exI [of _ "m1\<lparr>tree := t4\<rparr>"] exI [of _ "Inl SequenceCapacityExhausted"])
        (auto simp: prepare_sequence_steps)
  next
    fix m3 i rest
    assume al: "allocate_seq_id_locked ops (m1\<lparr>tree := t2\<rparr>) = Some (m3\<lparr>free_seq_ids := rest\<rparr>, Inr i)"
      and ev: "evict_result cells P' ls (add_mset (match_node mt) held) (m1\<lparr>tree := t2\<rparr>) m3"
      and free: "free_seq_ids m3 = i # rest"
    have inv3: "mapper_inv cells m3 P' ls (add_mset (match_node mt) held)" and cfg3: "mcfg m3 = mcfg m"
      and keep: "keeps_nodes t2 (tree m3)" using ev cfg1 by (auto simp: evict_result_def)
    then have "wf_shape (tree m3) P'" "heap (tree m3) (match_node mt) \<noteq> None"
      by (auto simp: mapper_inv_def wf_tree_def refs_ok_def)
    then have cn: "heap (tree m3) (cache_node mt) \<noteq> None"
      using keeps_above [OF wf2 _ keep] ins(4) by blast
    have "prefix (P' (cache_node mt)) prompt" using ins(3,4) by (auto simp: above_def)
    from prepare_allocated [OF inv3 laws free ins(3) cn this refl refl ins(5)] obtain m' r where
      "use_allocated ops (m3\<lparr>free_seq_ids := rest\<rparr>) mt prompt i = Some (m', r)"
      "prepared cells ls held prompt m' P' r" "mcfg m' = mcfg m3" by blast
    then show ?thesis using m1(1) ins(1) al cfg3
      by (intro exI [of _ m'] exI [of _ "Inr r"]) (auto simp: prepare_sequence_steps)
  qed
qed

end
