(* ===== verification/RF_MapperLife.thy ===== *)
theory RF_MapperLife
  imports RF_MapperPrepare
begin

text \<open>
  The life of a lease after its preparation: the decoder appends cells, the sequence is
  marked ready, it may be moved to the node of the longer text, and it is given back: kept
  as idle cache or returned to the pool.
\<close>

section \<open>One lease among the others\<close>

lemma lease_frontE:
  assumes inv: "mapper_inv cells m P (l # ls) held"
  obtains nd where "wf_tree (tree m) P" "heap (tree m) (l_leaf l) = Some nd" "l_seq l \<in> seq_ids nd"
    "l_seq l \<in> ready_seq_ids nd \<longleftrightarrow> l_ready l" "prefix (P (l_leaf l)) (l_prompt l)"
    "holds_exactly (cells (kv m) (l_seq l)) (l_cells l)"
    "\<forall>l' \<in> set ls. l_seq l' \<noteq> l_seq l \<and> lease_ok (tree m) P (cells (kv m)) l'"
    "\<forall>x xd. heap (tree m) x = Some xd \<longrightarrow> l_seq l \<in> seq_ids xd \<longrightarrow> x = l_leaf l"
proof -
  have wf: "wf_tree (tree m) P" and l: "lease_ok (tree m) P (cells (kv m)) l"
    using inv by (auto simp: mapper_inv_def)
  then obtain nd where nd: "heap (tree m) (l_leaf l) = Some nd" "l_seq l \<in> seq_ids nd"
    "l_seq l \<in> ready_seq_ids nd \<longleftrightarrow> l_ready l" "prefix (P (l_leaf l)) (l_prompt l)"
    "holds_exactly (cells (kv m) (l_seq l)) (l_cells l)"
    unfolding lease_ok_def lease_node_def by blast
  have owner: "x = l_leaf l" if "heap (tree m) x = Some xd" "l_seq l \<in> seq_ids xd" for x xd
    using wf that nd(1,2) unfolding wf_tree_def by (blast intro: wf_owner)
  have "l_seq l \<notin> l_seq ` set ls" "\<forall>l' \<in> set ls. lease_ok (tree m) P (cells (kv m)) l'"
    using inv by (auto simp: mapper_inv_def)
  then have "\<forall>l' \<in> set ls. l_seq l' \<noteq> l_seq l \<and> lease_ok (tree m) P (cells (kv m)) l'"
    by (metis image_eqI)
  with owner show thesis by (intro that [OF wf nd]) auto
qed

lemma content_ok_change:
  assumes "content_ok t P c" "\<And>n nd. heap t n = Some nd \<Longrightarrow> s \<in> ready_seq_ids nd \<Longrightarrow> holds_prefix (c' s) (P n)"
    "\<And>s'. s' \<noteq> s \<Longrightarrow> c' s' = c s'"
  shows "content_ok t P c'"
  using assms unfolding content_ok_def by metis

lemma lease_ok_kv: "lease_ok t P c l \<Longrightarrow> c' (l_seq l) = c (l_seq l) \<Longrightarrow> lease_ok t P c' l"
  by (simp add: lease_ok_def)

lemma refs_ok_set_node:
  assumes "refs_ok t held" "heap t n = Some nd" "ref_count nd' = ref_count nd"
  shows "refs_ok (set_node t n nd') held"
  using assms by (auto simp: refs_ok_def)

lemma lease_ok_set_node:
  assumes "lease_ok t P c l" "heap t n = Some nd"
    and "l_seq l \<in> seq_ids nd \<Longrightarrow> l_seq l \<in> seq_ids nd'"
    and "l_seq l \<in> ready_seq_ids nd' \<longleftrightarrow> l_seq l \<in> ready_seq_ids nd"
  shows "lease_ok (set_node t n nd') P c l"
  using assms unfolding lease_ok_def lease_node_def by auto

section \<open>Decoding\<close>

text \<open>
  A successful \<open>llama_decode\<close> writes the cells of the submitted tokens of a sequence after
  the cells it has, and no other sequence changes.
\<close>

definition decoded ::
  "'kv cell_view \<Rightarrow> seq_id \<Rightarrow> token list \<Rightarrow> 'kv \<Rightarrow> 'kv \<Rightarrow> bool" where
  "decoded cells s xs kv0 kv1 \<longleftrightarrow> holds_exactly (cells kv1 s) xs \<and> (\<forall>s'. s' \<noteq> s \<longrightarrow> cells kv1 s' = cells kv0 s')"

lemma decode_ok:
  assumes inv: "mapper_inv cells m P (l # ls) held"
    and dec: "decoded cells (l_seq l) (l_cells l @ xs) (kv m) kv'"
    and grow: "if l_ready l then True else prefix (l_cells l @ xs) (l_prompt l)"
  shows "mapper_inv cells (m\<lparr>kv := kv'\<rparr>) P (l\<lparr>l_cells := l_cells l @ xs\<rparr> # ls) held"
proof -
  obtain nd where wf: "wf_tree (tree m) P" and nd: "heap (tree m) (l_leaf l) = Some nd" "l_seq l \<in> seq_ids nd"
    "l_seq l \<in> ready_seq_ids nd \<longleftrightarrow> l_ready l" "prefix (P (l_leaf l)) (l_prompt l)"
    and "holds_exactly (cells (kv m) (l_seq l)) (l_cells l)"
    and others: "\<forall>l' \<in> set ls. l_seq l' \<noteq> l_seq l \<and> lease_ok (tree m) P (cells (kv m)) l'"
    and owner: "\<forall>x xd. heap (tree m) x = Some xd \<longrightarrow> l_seq l \<in> seq_ids xd \<longrightarrow> x = l_leaf l"
    by (rule lease_frontE [OF inv])
  have same: "cells kv' s = cells (kv m) s" if "s \<noteq> l_seq l" for s using dec that by (simp add: decoded_def)
  have l: "lease_ok (tree m) P (cells (kv m)) l" using inv by (simp add: mapper_inv_def)
  then have new: "lease_ok (tree m) P (cells kv') (l\<lparr>l_cells := l_cells l @ xs\<rparr>)"
    using dec grow by (auto simp: lease_ok_def lease_node_def decoded_def split: if_splits)
  have "content_ok (tree m) P (cells kv')"
  proof (rule content_ok_change [of _ _ "cells (kv m)" "l_seq l"])
    show "content_ok (tree m) P (cells (kv m))" using inv by (simp add: mapper_inv_def)
    show "cells kv' s' = cells (kv m) s'" if "s' \<noteq> l_seq l" for s' using same that by simp
    fix n xd assume n: "heap (tree m) n = Some xd" "l_seq l \<in> ready_seq_ids xd"
    then have "n = l_leaf l" using owner wf_nodeD [OF wf n(1)] by (auto simp: wf_node_def)
    moreover have "l_ready l" using n nd calculation by simp
    ultimately have "prefix (P n) (l_cells l @ xs)" using l nd(4)
      by (auto simp: lease_ok_def intro: prefix_order.trans prefix_prefix)
    then show "holds_prefix (cells kv' (l_seq l)) (P n)" using dec
      by (auto simp: decoded_def intro: holds_exactly_prefix)
  qed
  moreover have "\<forall>s \<in> set (free_seq_ids m). \<forall>i. cells kv' s i = None"
  proof (intro ballI allI)
    fix s i assume s: "s \<in> set (free_seq_ids m)"
    have "l_seq l \<in> owned (tree m)" using nd by (auto intro: ownedI)
    then have "s \<noteq> l_seq l" using inv s by (auto simp: mapper_inv_def pool_ok_def)
    then show "cells kv' s i = None" using same inv s by (simp add: mapper_inv_def)
  qed
  moreover have "\<forall>l' \<in> set ls. lease_ok (tree m) P (cells kv') l'"
    using others same lease_ok_kv by metis
  ultimately show ?thesis using inv new by (simp add: mapper_inv_def idle_ready_def)
qed

lemma accounts_update: "accounts_ok al own \<Longrightarrow> s \<in> own \<Longrightarrow> accounts_ok (AList.update s v al) own"
  by (auto simp: accounts_ok_def distinct_update dom_update)

lemma set_cells_ok:
  assumes "mapper_inv cells m P ls held"
  shows "mapper_inv cells (set_sequence_cell_count m s n) P ls held"
proof (cases "map_of (seq_cell_counts m) s")
  case None then show ?thesis using assms by (simp add: set_sequence_cell_count_def)
next
  case (Some v)
  then have "s \<in> fst ` set (seq_cell_counts m)" by (force dest: map_of_SomeD)
  then have "s \<in> owned (tree m)" using assms by (simp add: mapper_inv_def accounts_ok_def)
  then show ?thesis using assms Some
    by (auto simp: set_sequence_cell_count_def mapper_inv_def intro: accounts_update)
qed

lemma accounts_delete: "accounts_ok al own \<Longrightarrow> accounts_ok (AList.delete s al) (own - {s})"
proof -
  have "AList.delete s al = [x \<leftarrow> al. fst x \<notin> {s}]" by (induction al) (auto simp: AList.delete_eq)
  then show "accounts_ok al own \<Longrightarrow> ?thesis" by (simp add: accounts_ok_filter [of al own "{s}", simplified])
qed

text \<open>The prompt is complete in the KV memory: the sequence becomes a source for others.\<close>

lemma mark_sequence_ready_ok:
  assumes inv: "mapper_inv cells m P (l # ls) held" and full: "l_cells l = l_prompt l"
  shows "\<exists>m'. mark_sequence_ready m (l_seq l) (Some (l_leaf l)) = Some m' \<and>
    mapper_inv cells m' P (l\<lparr>l_ready := True\<rparr> # ls) held \<and> mcfg m' = mcfg m"
proof -
  obtain nd where wf: "wf_tree (tree m) P" and nd: "heap (tree m) (l_leaf l) = Some nd" "l_seq l \<in> seq_ids nd"
    "l_seq l \<in> ready_seq_ids nd \<longleftrightarrow> l_ready l" "prefix (P (l_leaf l)) (l_prompt l)"
    "holds_exactly (cells (kv m) (l_seq l)) (l_cells l)"
    and others: "\<forall>l' \<in> set ls. l_seq l' \<noteq> l_seq l \<and> lease_ok (tree m) P (cells (kv m)) l'"
    and "\<forall>x xd. heap (tree m) x = Some xd \<longrightarrow> l_seq l \<in> seq_ids xd \<longrightarrow> x = l_leaf l"
    by (rule lease_frontE [OF inv])
  let ?nd = "set_ready (l_seq l) nd"
  let ?t = "set_node (tree m) (l_leaf l) ?nd"
  have run: "mark_seq_id_ready (tree m) (Some (l_leaf l)) (l_seq l) = Some ?t" and wf': "wf_tree ?t P"
    using mark_ready_ok [OF wf nd(1,2)] by auto
  have own: "owned ?t = owned (tree m)"
    using owned_set_node [OF wf nd(1)] ownedI [OF nd(1)] by (auto simp: set_ready_def)
  have "holds_prefix (cells (kv m) (l_seq l)) (P (l_leaf l))"
    using nd(4,5) full by (auto intro: holds_exactly_prefix)
  then have "content_ok ?t P (cells (kv m))" using inv nd(1)
    by (auto simp: mapper_inv_def content_ok_def set_ready_def)
  moreover have "idle_ready ?t (l\<lparr>l_ready := True\<rparr> # ls)" using inv nd(1)
    by (auto simp: mapper_inv_def idle_ready_def set_ready_def)
  moreover have "lease_ok ?t P (cells (kv m)) (l\<lparr>l_ready := True\<rparr>)"
    using nd full by (auto simp: lease_ok_def lease_node_def set_ready_def)
  moreover have "lease_ok ?t P (cells (kv m)) l'" if "l' \<in> set ls" for l'
    using others that by (intro lease_ok_set_node [OF _ nd(1)]) (auto simp: set_ready_def)
  moreover have "refs_ok ?t held" using inv nd(1)
    by (intro refs_ok_set_node) (auto simp: mapper_inv_def set_ready_def)
  moreover have "accounts_ok (AList.update (l_seq l) v (seq_cell_counts m)) (owned (tree m))" for v
    using inv nd(1,2) by (auto simp: mapper_inv_def intro: accounts_update ownedI)
  ultimately show ?thesis using inv wf' own run
    by (auto simp: mark_sequence_ready_def mapper_inv_def)
qed

section \<open>Giving a sequence back\<close>

definition sole_ready :: "radix_tree \<Rightarrow> lease \<Rightarrow> bool" where
  "sole_ready t l \<longleftrightarrow> l_ready l \<and> (\<exists>nd. heap t (l_leaf l) = Some nd \<and> seq_ids nd = {l_seq l})"

lemma idle_ready_drop:
  assumes "idle_ready t (l # ls)"
    and "\<And>n nd. heap t n = Some nd \<Longrightarrow> l_seq l \<in> seq_ids nd \<Longrightarrow> l_seq l \<in> ready_seq_ids nd \<and> seq_ids nd = {l_seq l}"
  shows "idle_ready t ls"
  unfolding idle_ready_def
proof (intro allI impI)
  fix n nd s assume n: "heap t n = Some nd" "s \<in> seq_ids nd" "s \<notin> l_seq ` set ls"
  show "s \<in> ready_seq_ids nd \<and> (\<forall>s' \<in> seq_ids nd. s' \<notin> l_seq ` set ls \<longrightarrow> s' = s)"
  proof (cases "l_seq l \<in> seq_ids nd")
    case True then show ?thesis using assms(2) [OF n(1) True] n(2) by auto
  next
    case False
    then have "s \<noteq> l_seq l" using n(2) by auto
    then show ?thesis using assms(1) n False unfolding idle_ready_def by auto
  qed
qed

text \<open>Kept: the cells are cut to the path of the node, and the sequence is idle cache.\<close>

lemma release_sequence_keeps:
  assumes inv: "mapper_inv cells m P (l # ls) held" and laws: "kv_laws ops cells"
    and keep: "prefix_cache_enabled (mcfg m)" "sole_ready (tree m) l"
  shows "\<exists>m'. release_sequence ops m (l_seq l) (Some (l_leaf l)) = Some m' \<and>
    mapper_inv cells m' P ls held \<and> mcfg m' = mcfg m \<and> tree m' = tree m \<and>
    l_seq l \<in> retained_seq_ids m' \<and> map_of (seq_cell_counts m') (l_seq l) = Some (int (length (P (l_leaf l)))) \<and>
    holds_exactly (cells (kv m') (l_seq l)) (P (l_leaf l))"
proof -
  obtain nd where wf: "wf_tree (tree m) P" and nd: "heap (tree m) (l_leaf l) = Some nd" "l_seq l \<in> seq_ids nd"
    "l_seq l \<in> ready_seq_ids nd \<longleftrightarrow> l_ready l" "prefix (P (l_leaf l)) (l_prompt l)"
    and hold: "holds_exactly (cells (kv m) (l_seq l)) (l_cells l)"
    and others: "\<forall>l' \<in> set ls. l_seq l' \<noteq> l_seq l \<and> lease_ok (tree m) P (cells (kv m)) l'"
    and owner: "\<forall>x xd. heap (tree m) x = Some xd \<longrightarrow> l_seq l \<in> seq_ids xd \<longrightarrow> x = l_leaf l"
    by (rule lease_frontE [OF inv])
  have only: "seq_ids nd = {l_seq l}" "l_ready l" using keep(2) nd(1) by (auto simp: sole_ready_def)
  then have rdy: "ready_seq_ids nd = {l_seq l}" using nd(3) wf_nodeD [OF wf nd(1)] by (auto simp: wf_node_def)
  let ?d = "int (length (P (l_leaf l)))"
  let ?kv = "seq_rm ops (l_seq l) ?d (-1) (kv m)"
  have run: "release_seq_id (tree m) (Some (l_leaf l)) (l_seq l) True = Some (tree m, False)"
    using release_seq_ok [OF wf nd(1,2), of True] only rdy by simp
  have cov: "find_covering_seq_id (tree m) (Some (l_leaf l)) = Some (Some (l_seq l, ?d))"
    using find_covering_ready [OF wf nd(1)] rdy by simp
  have rm: "cells ?kv s i = (if s = l_seq l \<and> ?d \<le> int i then None else cells (kv m) s i)" for s i
    using laws lease_id_nonneg [OF inv nd(1,2)] by (simp add: kv_laws_def seq_rm_law_def)
  have same: "cells ?kv s = cells (kv m) s" if "s \<noteq> l_seq l" for s using that by (auto simp: rm)
  have "lease_ok (tree m) P (cells (kv m)) l" using inv by (simp add: mapper_inv_def)
  then have "prefix (P (l_leaf l)) (l_cells l)" using only nd(4)
    by (auto simp: lease_ok_def intro: prefix_order.trans)
  with hold have "holds_prefix (cells (kv m) (l_seq l)) (P (l_leaf l))" by (rule holds_exactly_prefix)
  then have cut: "holds_exactly (cells ?kv (l_seq l)) (P (l_leaf l))"
    by (simp add: holds_exactly_def holds_prefix_def rm)
  have "content_ok (tree m) P (cells ?kv)"
  proof (rule content_ok_change [of _ _ "cells (kv m)" "l_seq l"])
    show "content_ok (tree m) P (cells (kv m))" using inv by (simp add: mapper_inv_def)
    show "cells ?kv s' = cells (kv m) s'" if "s' \<noteq> l_seq l" for s' using same that by simp
    fix n xd assume n: "heap (tree m) n = Some xd" "l_seq l \<in> ready_seq_ids xd"
    then have "n = l_leaf l" using owner wf_nodeD [OF wf n(1)] by (auto simp: wf_node_def)
    then show "holds_prefix (cells ?kv (l_seq l)) (P n)" using cut by (auto intro: holds_exactly_prefix)
  qed
  moreover have "idle_ready (tree m) ls"
  proof (rule idle_ready_drop)
    show "idle_ready (tree m) (l # ls)" using inv by (simp add: mapper_inv_def)
    show "l_seq l \<in> ready_seq_ids xd \<and> seq_ids xd = {l_seq l}" if "heap (tree m) n = Some xd" "l_seq l \<in> seq_ids xd" for n xd
      using owner that nd(1) rdy only(1) by fastforce
  qed
  moreover have "\<forall>l' \<in> set ls. lease_ok (tree m) P (cells ?kv) l'"
  proof
    fix l' assume "l' \<in> set ls"
    then have l': "l_seq l' \<noteq> l_seq l" "lease_ok (tree m) P (cells (kv m)) l'" using others by auto
    show "lease_ok (tree m) P (cells ?kv) l'" by (rule lease_ok_kv [OF l'(2)]) (simp add: same l'(1))
  qed
  moreover have "\<forall>s \<in> set (free_seq_ids m). \<forall>i. cells ?kv s i = None"
    using inv rm by (auto simp: mapper_inv_def)
  moreover have mine: "l_seq l \<in> owned (tree m)" using nd by (auto intro: ownedI)
  moreover have "insert (l_seq l) (retained_seq_ids m) = owned (tree m) - l_seq ` set ls"
    using inv others mine by (auto simp: mapper_inv_def)
  moreover have "accounts_ok (AList.update (l_seq l) ?d (seq_cell_counts m)) (owned (tree m))"
    using inv mine by (intro accounts_update) (simp_all add: mapper_inv_def)
  ultimately have "mapper_inv cells (m\<lparr>tree := tree m, kv := ?kv,
      seq_cell_counts := AList.update (l_seq l) ?d (seq_cell_counts m),
      retained_seq_ids := insert (l_seq l) (retained_seq_ids m)\<rparr>) P ls held"
    using inv by (simp add: mapper_inv_def)
  moreover have "release_sequence ops m (l_seq l) (Some (l_leaf l)) = Some (m\<lparr>tree := tree m, kv := ?kv,
      seq_cell_counts := AList.update (l_seq l) ?d (seq_cell_counts m),
      retained_seq_ids := insert (l_seq l) (retained_seq_ids m)\<rparr>)"
    using run cov keep(1) by (simp add: release_sequence_def)
  ultimately show ?thesis using cut by simp
qed

text \<open>Freed: pending, shared, or the prefix cache is off.\<close>

lemma release_sequence_frees:
  assumes inv: "mapper_inv cells m P (l # ls) held" and laws: "kv_laws ops cells"
    and free: "\<not> (prefix_cache_enabled (mcfg m) \<and> sole_ready (tree m) l)"
  shows "\<exists>m'. release_sequence ops m (l_seq l) (Some (l_leaf l)) = Some m' \<and>
    mapper_inv cells m' P ls held \<and> mcfg m' = mcfg m \<and> free_seq_ids m' = free_seq_ids m @ [l_seq l]"
proof -
  obtain nd where wf: "wf_tree (tree m) P" and nd: "heap (tree m) (l_leaf l) = Some nd" "l_seq l \<in> seq_ids nd"
    "l_seq l \<in> ready_seq_ids nd \<longleftrightarrow> l_ready l" "prefix (P (l_leaf l)) (l_prompt l)"
    and hold: "holds_exactly (cells (kv m) (l_seq l)) (l_cells l)"
    and others: "\<forall>l' \<in> set ls. l_seq l' \<noteq> l_seq l \<and> lease_ok (tree m) P (cells (kv m)) l'"
    and owner: "\<forall>x xd. heap (tree m) x = Some xd \<longrightarrow> l_seq l \<in> seq_ids xd \<longrightarrow> x = l_leaf l"
    by (rule lease_frontE [OF inv])
  let ?nd = "remove_seq (l_seq l) nd"
  let ?t = "set_node (tree m) (l_leaf l) ?nd"
  let ?kv = "seq_rm ops (l_seq l) 0 (-1) (kv m)"
  have "\<not> (prefix_cache_enabled (mcfg m) \<and> l_seq l \<in> ready_seq_ids nd \<and> seq_ids nd = {l_seq l})"
    using free nd by (auto simp: sole_ready_def)
  then have run: "release_seq_id (tree m) (Some (l_leaf l)) (l_seq l) (prefix_cache_enabled (mcfg m)) = Some (?t, True)"
    using release_seq_ok [OF wf nd(1,2)] by auto
  have wf': "wf_tree ?t P" by (rule remove_seq_wf [OF wf nd(1)])
  have rm: "cells ?kv s i = (if s = l_seq l then None else cells (kv m) s i)" for s i
    using laws lease_id_nonneg [OF inv nd(1,2)] by (simp add: kv_laws_def seq_rm_law_def)
  have same: "cells ?kv s = cells (kv m) s" if "s \<noteq> l_seq l" for s using that by (auto simp: rm)
  have gone: "l_seq l \<notin> seq_ids xd" if "heap ?t n = Some xd" for n xd
    using that owner by (auto simp: remove_seq_def split: if_splits)
  have mine: "l_seq l \<in> owned (tree m)" using nd by (auto intro: ownedI)
  have own: "owned ?t = owned (tree m) - {l_seq l}"
    using owned_set_node [OF wf nd(1)] ownedI [OF nd(1)] nd(2) by (auto simp: remove_seq_def)
  have cont: "content_ok ?t P (cells (kv m))"
    using inv nd(1) by (auto simp: mapper_inv_def content_ok_def remove_seq_def)
  have "content_ok ?t P (cells ?kv)"
  proof (rule content_ok_change [OF cont, of "l_seq l"])
    show "cells ?kv s' = cells (kv m) s'" if "s' \<noteq> l_seq l" for s' using same that by simp
    show "holds_prefix (cells ?kv (l_seq l)) (P n)" if "heap ?t n = Some xd" "l_seq l \<in> ready_seq_ids xd" for n xd
      using gone [OF that(1)] wf_nodeD [OF wf' that(1)] that(2) by (auto simp: wf_node_def)
  qed
  moreover have "idle_ready ?t ls"
  proof (rule idle_ready_drop)
    show "idle_ready ?t (l # ls)" using inv nd(1) by (auto simp: mapper_inv_def idle_ready_def remove_seq_def)
    show "l_seq l \<in> ready_seq_ids xd \<and> seq_ids xd = {l_seq l}" if "heap ?t n = Some xd" "l_seq l \<in> seq_ids xd" for n xd
      using gone that by blast
  qed
  moreover have "lease_ok ?t P (cells ?kv) l'" if "l' \<in> set ls" for l'
  proof -
    have l': "l_seq l' \<noteq> l_seq l" "lease_ok (tree m) P (cells (kv m)) l'" using others that by auto
    then have "lease_ok ?t P (cells (kv m)) l'"
      by (intro lease_ok_set_node [OF _ nd(1)]) (auto simp: remove_seq_def)
    then show ?thesis by (rule lease_ok_kv) (simp add: same l'(1))
  qed
  moreover have "refs_ok ?t held" using inv nd(1)
    by (intro refs_ok_set_node) (auto simp: mapper_inv_def remove_seq_def)
  moreover have "\<forall>s \<in> set (free_seq_ids m @ [l_seq l]). \<forall>i. cells ?kv s i = None"
    using inv rm by (auto simp: mapper_inv_def)
  moreover have "pool_ok (mcfg m) (free_seq_ids m @ [l_seq l]) (owned ?t)"
    using inv mine unfolding own by (auto simp: mapper_inv_def pool_ok_def)
  moreover have "accounts_ok (AList.delete (l_seq l) (seq_cell_counts m)) (owned ?t)"
    using accounts_delete inv unfolding own by (simp add: mapper_inv_def)
  moreover have "A - {l_seq l} = owned ?t - l_seq ` set ls" if "A = owned (tree m) - l_seq ` set (l # ls)" for A
    unfolding own that by auto
  moreover have "owned ?t - l_seq ` set ls - {l_seq l} = owned ?t - l_seq ` set ls" unfolding own by auto
  ultimately have "mapper_inv cells (free_seq ops (l_seq l) (m\<lparr>tree := ?t\<rparr>)) P ls held"
    using inv wf' by (simp add: mapper_inv_def free_seq_def)
  then show ?thesis using run by (simp add: release_sequence_def free_seq_def)
qed

section \<open>Moving a lease to the longer text\<close>

lemma move_old:
  assumes "move_frame seq n t P t' P'" "heap t x = Some xd"
  obtains xd' where "heap t' x = Some xd'" "prefix (P' x) (P x)" "moved_seqs seq (x = n) xd xd'"
  using assms unfolding move_frame_def by blast

lemma move_new:
  "move_frame seq n t P t' P' \<Longrightarrow> heap t' x = Some xd' \<Longrightarrow> heap t x = None \<Longrightarrow>
   moved_seqs seq (x = n) empty_node xd'"
  unfolding move_frame_def by blast

lemma move_back:
  assumes f: "move_frame seq n t P t' P'" and x: "heap t' x = Some xd'" and s: "s \<in> seq_ids xd'" "s \<noteq> seq"
  obtains xd where "heap t x = Some xd" "prefix (P' x) (P x)" "moved_seqs seq (x = n) xd xd'"
proof (cases "heap t x")
  case None
  then have "moved_seqs seq (x = n) empty_node xd'" by (rule move_new [OF f x])
  then show ?thesis using s by (auto simp: moved_seqs_def empty_node_def split: if_splits)
next
  case (Some xd)
  then obtain xd2 where "heap t' x = Some xd2" "prefix (P' x) (P x)" "moved_seqs seq (x = n) xd xd2"
    by (rule move_old [OF f])
  then show thesis using that [OF Some] x by simp
qed

lemma lease_ok_move:
  assumes f: "move_frame seq n t P t' P'" and l: "lease_ok t P c l" "l_seq l \<noteq> seq"
  shows "lease_ok t' P' c l"
proof -
  obtain nd where nd: "heap t (l_leaf l) = Some nd" "l_seq l \<in> seq_ids nd"
    "l_seq l \<in> ready_seq_ids nd \<longleftrightarrow> l_ready l" "prefix (P (l_leaf l)) (l_prompt l)"
    using l(1) unfolding lease_ok_def lease_node_def by blast
  obtain nd' where "heap t' (l_leaf l) = Some nd'" "prefix (P' (l_leaf l)) (P (l_leaf l))"
    "moved_seqs seq (l_leaf l = n) nd nd'" by (rule move_old [OF f nd(1)])
  moreover then have "prefix (P' (l_leaf l)) (l_prompt l)" using nd(4) by (auto intro: prefix_order.trans)
  ultimately show ?thesis using l nd unfolding lease_ok_def lease_node_def
    by (auto simp: moved_seqs_def split: if_splits)
qed

lemma refs_ok_move:
  assumes refs: "refs_ok t held" and f: "move_frame seq n t P t' P'" and root: "heap t root_addr \<noteq> None"
  shows "refs_ok t' held"
  unfolding refs_ok_def
proof (intro conjI ballI allI impI)
  fix x assume "x \<in># held"
  then obtain xd where "heap t x = Some xd" using refs by (auto simp: refs_ok_def)
  then show "heap t' x \<noteq> None" by (rule move_old [OF f]) simp
next
  fix x xd' assume x: "heap t' x = Some xd'"
  show "ref_count xd' = (if x = root_addr then 1 else 0) + int (count held x)"
  proof (cases "heap t x")
    case None
    then have "x \<notin># held" using refs by (auto simp: refs_ok_def)
    then have "count held x = 0" by (simp add: not_in_iff)
    moreover have "moved_seqs seq (x = n) empty_node xd'" by (rule move_new [OF f x None])
    ultimately show ?thesis using root None by (auto simp: moved_seqs_def empty_node_def)
  next
    case (Some xd)
    then obtain xd2 where "heap t' x = Some xd2" "moved_seqs seq (x = n) xd xd2" by (rule move_old [OF f])
    then show ?thesis using refs Some x by (auto simp: refs_ok_def moved_seqs_def)
  qed
qed

lemma owned_move:
  assumes f: "move_frame seq n t P t' P'" and n: "heap t' n \<noteq> None" and seq: "seq \<in> owned t"
  shows "owned t' = owned t"
proof (intro equalityI subsetI)
  fix s assume "s \<in> owned t'"
  then obtain x xd' where x: "heap t' x = Some xd'" "s \<in> seq_ids xd'" by (auto simp: owned_def)
  show "s \<in> owned t"
  proof (cases "s = seq")
    case False
    obtain xd where "heap t x = Some xd" "moved_seqs seq (x = n) xd xd'" by (rule move_back [OF f x False])
    then show ?thesis using x(2) False by (auto simp: moved_seqs_def split: if_splits intro: ownedI)
  qed (use seq in simp)
next
  fix s assume "s \<in> owned t"
  then obtain x xd where x: "heap t x = Some xd" "s \<in> seq_ids xd" by (auto simp: owned_def)
  show "s \<in> owned t'"
  proof (cases "s = seq")
    case True
    obtain nd' where n': "heap t' n = Some nd'" using n by auto
    have "seq \<in> seq_ids nd'"
    proof (cases "heap t n")
      case None
      then have "moved_seqs seq True empty_node nd'" using move_new [OF f n'] by simp
      then show ?thesis by (simp add: moved_seqs_def)
    next
      case (Some nd)
      then obtain nd2 where "heap t' n = Some nd2" "moved_seqs seq (n = n) nd nd2" by (rule move_old [OF f])
      then show ?thesis using n' by (simp add: moved_seqs_def)
    qed
    then show ?thesis using n' True by (auto intro: ownedI)
  next
    case False
    obtain xd' where "heap t' x = Some xd'" "moved_seqs seq (x = n) xd xd'" by (rule move_old [OF f x(1)])
    then show ?thesis using x(2) False by (auto simp: moved_seqs_def intro: ownedI)
  qed
qed

definition move_lease :: "lease \<Rightarrow> addr \<Rightarrow> lease" where
  "move_lease l n = l\<lparr>l_leaf := n, l_prompt := l_cells l\<rparr>"

lemma moved_lease_ok:
  assumes inv: "mapper_inv cells m P (l # ls) held" and wf: "wf_tree t' P'"
    and f: "move_frame (l_seq l) n (tree m) P t' P'"
    and n: "heap t' n = Some nd'" "P' n = l_cells l" and ready: "l_ready l"
  shows "lease_ok t' P' (cells (kv m)) (move_lease l n)" "l_seq l \<in> ready_seq_ids nd'"
proof -
  have "l_seq l \<in> ready_seq_ids nd'"
  proof (cases "heap (tree m) n")
    case None
    then show ?thesis using move_new [OF f n(1)] by (simp add: moved_seqs_def)
  next
    case (Some nd)
    then obtain nd2 where "heap t' n = Some nd2" "moved_seqs (l_seq l) (n = n) nd nd2" by (rule move_old [OF f])
    then show ?thesis using n by (simp add: moved_seqs_def)
  qed
  moreover have "lease_ok (tree m) P (cells (kv m)) l" using inv by (simp add: mapper_inv_def)
  ultimately show "lease_ok t' P' (cells (kv m)) (move_lease l n)" "l_seq l \<in> ready_seq_ids nd'"
    using n ready wf_nodeD [OF wf n(1)]
    by (auto simp: lease_ok_def lease_node_def move_lease_def wf_node_def)
qed

lemma move_inv:
  assumes inv: "mapper_inv cells m P (l # ls) held" and wf: "wf_tree t' P'"
    and f: "move_frame (l_seq l) n (tree m) P t' P'"
    and n: "heap t' n = Some nd'" "P' n = l_cells l" and ready: "l_ready l"
  shows "mapper_inv cells (m\<lparr>tree := t'\<rparr>) P' (move_lease l n # ls) held"
proof -
  obtain nd where wf0: "wf_tree (tree m) P" and nd: "heap (tree m) (l_leaf l) = Some nd" "l_seq l \<in> seq_ids nd"
    "l_seq l \<in> ready_seq_ids nd \<longleftrightarrow> l_ready l" "prefix (P (l_leaf l)) (l_prompt l)"
    and hold: "holds_exactly (cells (kv m) (l_seq l)) (l_cells l)"
    and others: "\<forall>l' \<in> set ls. l_seq l' \<noteq> l_seq l \<and> lease_ok (tree m) P (cells (kv m)) l'"
    and owner: "\<forall>x xd. heap (tree m) x = Some xd \<longrightarrow> l_seq l \<in> seq_ids xd \<longrightarrow> x = l_leaf l"
    by (rule lease_frontE [OF inv])
  note new = moved_lease_ok [OF inv wf f n ready]
  have at_n: "x = n" if "heap t' x = Some xd" "l_seq l \<in> seq_ids xd" for x xd
    using wf that n new(2) wf_nodeD [OF wf n(1)]
    by (auto simp: wf_tree_def wf_node_def intro: wf_owner)
  have root: "heap (tree m) root_addr \<noteq> None" using wf0 by (auto simp: wf_tree_def wf_shape_def wf_root_def)
  have own: "owned t' = owned (tree m)" using n nd by (intro owned_move [OF f]) (auto intro: ownedI)
  have "idle_ready t' (move_lease l n # ls)" unfolding idle_ready_def
  proof (intro allI impI)
    fix x xd' s assume x: "heap t' x = Some xd'" "s \<in> seq_ids xd'" "s \<notin> l_seq ` set (move_lease l n # ls)"
    then have s: "s \<noteq> l_seq l" by (auto simp: move_lease_def)
    obtain xd where "heap (tree m) x = Some xd" "moved_seqs (l_seq l) (x = n) xd xd'"
      by (rule move_back [OF f x(1,2) s])
    then show "s \<in> ready_seq_ids xd' \<and> (\<forall>s' \<in> seq_ids xd'. s' \<notin> l_seq ` set (move_lease l n # ls) \<longrightarrow> s' = s)"
      using inv x s
      by (auto simp: mapper_inv_def idle_ready_def moved_seqs_def move_lease_def split: if_splits)
  qed
  moreover have "content_ok t' P' (cells (kv m))" unfolding content_ok_def
  proof (intro allI impI)
    fix x xd' s assume x: "heap t' x = Some xd'" "s \<in> ready_seq_ids xd'"
    then have sx: "s \<in> seq_ids xd'" using wf_nodeD [OF wf x(1)] by (auto simp: wf_node_def)
    show "holds_prefix (cells (kv m) s) (P' x)"
    proof (cases "s = l_seq l")
      case True
      then have "x = n" using at_n x(1) sx by simp
      then show ?thesis using hold n(2) True by (auto intro: holds_exactly_prefix)
    next
      case False
      obtain xd where xd: "heap (tree m) x = Some xd" "prefix (P' x) (P x)" "moved_seqs (l_seq l) (x = n) xd xd'"
        by (rule move_back [OF f x(1) sx False])
      then have "holds_prefix (cells (kv m) s) (P x)" using inv x(2) False
        by (auto simp: mapper_inv_def content_ok_def moved_seqs_def split: if_splits)
      then show ?thesis using xd(2) by (rule holds_prefix_mono)
    qed
  qed
  moreover have "refs_ok t' held" using inv by (intro refs_ok_move [OF _ f root]) (simp add: mapper_inv_def)
  moreover have "\<forall>l' \<in> set ls. lease_ok t' P' (cells (kv m)) l'" using others lease_ok_move [OF f] by blast
  moreover have "l_seq (move_lease l n) = l_seq l" by (simp add: move_lease_def)
  ultimately show ?thesis using inv wf own new(1) by (simp add: mapper_inv_def)
qed

text \<open>
  After a completed generation the sequence is owned by the node of the whole text. With
  the prefix cache off the call changes nothing.
\<close>

lemma extend_sequence_ok:
  assumes inv: "mapper_inv cells m P (l # ls) held" and ready: "l_ready l"
    and cells: "l_cells l \<noteq> []" and on: "prefix_cache_enabled (mcfg m)"
  shows "\<exists>m' P' n. extend_sequence m (l_seq l) (Some (l_leaf l)) (l_cells l) = Some (m', Some n) \<and>
    mapper_inv cells m' P' (move_lease l n # ls) held \<and> mcfg m' = mcfg m \<and> P' n = l_cells l"
proof -
  obtain nd where wf: "wf_tree (tree m) P" and nd: "heap (tree m) (l_leaf l) = Some nd" "l_seq l \<in> seq_ids nd"
    "l_seq l \<in> ready_seq_ids nd \<longleftrightarrow> l_ready l" "prefix (P (l_leaf l)) (l_prompt l)"
    and hold: "holds_exactly (cells (kv m) (l_seq l)) (l_cells l)"
    and others: "\<forall>l' \<in> set ls. l_seq l' \<noteq> l_seq l \<and> lease_ok (tree m) P (cells (kv m)) l'"
    and owner: "\<forall>x xd. heap (tree m) x = Some xd \<longrightarrow> l_seq l \<in> seq_ids xd \<longrightarrow> x = l_leaf l"
    by (rule lease_frontE [OF inv])
  have "l_seq l \<in> ready_seq_ids nd" using nd(3) ready by simp
  then obtain t' P' n nd' where t': "extend_seq_id (tree m) (Some (l_leaf l)) (l_seq l) (l_cells l)
       (int (length (l_cells l))) = Some (t', Some n)"
    "wf_tree t' P'" "heap t' n = Some nd'" "P' n = l_cells l" "move_frame (l_seq l) n (tree m) P t' P'"
    using extend_ok [OF wf nd(1) _ cells, of "l_seq l"] by blast
  let ?counts = "if map_of (seq_cell_counts m) (l_seq l) \<noteq> None
     then AList.update (l_seq l) (int (length (l_cells l))) (seq_cell_counts m) else seq_cell_counts m"
  have inv': "mapper_inv cells (m\<lparr>tree := t'\<rparr>) P' (move_lease l n # ls) held"
    by (rule move_inv [OF inv t'(2,5,3,4) ready])
  have "l_seq l \<in> owned t'" using inv' by (auto simp: mapper_inv_def move_lease_def elim!: lease_owner intro: ownedI)
  then have "accounts_ok ?counts (owned t')" using inv' by (auto simp: mapper_inv_def intro: accounts_update)
  then have "mapper_inv cells (m\<lparr>tree := t', seq_cell_counts := ?counts\<rparr>) P' (move_lease l n # ls) held"
    using inv' by (simp add: mapper_inv_def)
  then show ?thesis using t'(1,4) on by (auto simp: extend_sequence_def)
qed

end
