(* ===== verification/RF_Protocol.thy ===== *)
theory RF_Protocol
  imports RF_MapperLife
begin

text \<open>
  Requests against the mapper, as a step relation. A state is the mapper together with the
  leases of the requests being served; every step is one call, or one group of calls, that
  the worker makes for a request (src/worker.cpp), in any order and for any request. The
  steps of the relation that end a request are the bodies of \<open>retire\<close> and of the failure
  paths. The worker thread is the only caller, so a step is atomic.
\<close>

section \<open>Reachable states\<close>

locale transition_system =
  fixes init :: "'s \<Rightarrow> bool"
    and step :: "'s \<Rightarrow> 's \<Rightarrow> bool"
    and inv :: "'s \<Rightarrow> bool"
  assumes init_inv: "init s \<Longrightarrow> inv s"
    and step_inv: "step s s' \<Longrightarrow> inv s \<Longrightarrow> inv s'"
begin

lemma invariant_everywhere: "init s \<Longrightarrow> step\<^sup>*\<^sup>* s s' \<Longrightarrow> inv s'"
proof (rotate_tac 1, induction rule: rtranclp_induct)
  case base then show ?case by (rule init_inv)
next
  case (step y z) then show ?case using step_inv by blast
qed

end

section \<open>The steps\<close>

record 'kv serving =
  mapper :: "'kv kv_mapper"
  leases :: "lease list"

text \<open>The calls of \<open>retire\<close> when the client is notified, and those of every other ending.\<close>

definition finish_calls :: "'kv kv_ops \<Rightarrow> 'kv kv_mapper \<Rightarrow> lease \<Rightarrow> 'kv kv_mapper option" where
  "finish_calls ops m l =
     do { (m1, node) \<leftarrow> extend_sequence m (l_seq l) (Some (l_leaf l)) (l_cells l);
          m2 \<leftarrow> release_sequence ops m1 (l_seq l) node;
          release_reference m2 (Some (l_leaf l)) }"

definition abandon_calls :: "'kv kv_ops \<Rightarrow> 'kv kv_mapper \<Rightarrow> lease \<Rightarrow> 'kv kv_mapper option" where
  "abandon_calls ops m l =
     do { m1 \<leftarrow> release_sequence ops m (l_seq l) (Some (l_leaf l));
          release_reference m1 (Some (l_leaf l)) }"

text \<open>
  A successful \<open>llama_decode\<close> writes, for every sequence of the batch, the cells of the
  submitted tokens after the cells the sequence has; no other sequence changes.
\<close>

definition append_cells :: "(seq_id \<Rightarrow> token list) \<Rightarrow> lease \<Rightarrow> lease" where
  "append_cells xs l = l\<lparr>l_cells := l_cells l @ xs (l_seq l)\<rparr>"

definition batch_decoded ::
  "'kv cell_view \<Rightarrow> lease list \<Rightarrow> (seq_id \<Rightarrow> token list) \<Rightarrow> 'kv \<Rightarrow> 'kv \<Rightarrow> bool" where
  "batch_decoded cells ls xs kv0 kv1 \<longleftrightarrow>
     (\<forall>l \<in> set ls. holds_exactly (cells kv1 (l_seq l)) (l_cells l @ xs (l_seq l))) \<and>
     (\<forall>s. s \<notin> l_seq ` set ls \<longrightarrow> cells kv1 s = cells kv0 s)"

inductive serve :: "'kv kv_ops \<Rightarrow> 'kv cell_view \<Rightarrow> 'kv serving \<Rightarrow> 'kv serving \<Rightarrow> bool"
  for ops :: "'kv kv_ops" and cells :: "'kv cell_view" where
  admit: "prepare_sequence ops m prompt = Some (m', Inr r) \<Longrightarrow>
     serve ops cells \<lparr>mapper = m, leases = ls\<rparr>
       \<lparr>mapper = m', leases = pending_lease (res_seq_id r) (leaf_node r) prompt (cached_pos r) # ls\<rparr>"
| refuse: "prepare_sequence ops m prompt = Some (m', Inl e) \<Longrightarrow>
     serve ops cells \<lparr>mapper = m, leases = ls\<rparr> \<lparr>mapper = m', leases = ls\<rparr>"
| decode: "batch_decoded cells ls xs (kv m) kv' \<Longrightarrow>
     (\<forall>l \<in> set ls. l_ready l \<or> prefix (l_cells l @ xs (l_seq l)) (l_prompt l)) \<Longrightarrow>
     serve ops cells \<lparr>mapper = m, leases = ls\<rparr>
       \<lparr>mapper = m\<lparr>kv := kv'\<rparr>, leases = map (append_cells xs) ls\<rparr>"
| count: "serve ops cells \<lparr>mapper = m, leases = ls\<rparr>
     \<lparr>mapper = set_sequence_cell_count m s n, leases = ls\<rparr>"
| complete: "l \<in> set ls \<Longrightarrow> l_cells l = l_prompt l \<Longrightarrow>
     mark_sequence_ready m (l_seq l) (Some (l_leaf l)) = Some m' \<Longrightarrow>
     serve ops cells \<lparr>mapper = m, leases = ls\<rparr>
       \<lparr>mapper = m', leases = l\<lparr>l_ready := True\<rparr> # remove1 l ls\<rparr>"
| finish: "l \<in> set ls \<Longrightarrow> l_ready l \<Longrightarrow> l_cells l \<noteq> [] \<Longrightarrow> finish_calls ops m l = Some m' \<Longrightarrow>
     serve ops cells \<lparr>mapper = m, leases = ls\<rparr> \<lparr>mapper = m', leases = remove1 l ls\<rparr>"
| abandon: "l \<in> set ls \<Longrightarrow> abandon_calls ops m l = Some m' \<Longrightarrow>
     serve ops cells \<lparr>mapper = m, leases = ls\<rparr> \<lparr>mapper = m', leases = remove1 l ls\<rparr>"
| reclaim: "evict_idle_sequence ops m = Some (m', b) \<Longrightarrow>
     serve ops cells \<lparr>mapper = m, leases = ls\<rparr> \<lparr>mapper = m', leases = ls\<rparr>"
| compact: "defrag ops m = Some m' \<Longrightarrow>
     serve ops cells \<lparr>mapper = m, leases = ls\<rparr> \<lparr>mapper = m', leases = ls\<rparr>"

definition serving_init :: "'kv cell_view \<Rightarrow> 'kv serving \<Rightarrow> bool" where
  "serving_init cells s \<longleftrightarrow> (\<exists>cfg kv0. s = \<lparr>mapper = new_mapper cfg kv0, leases = []\<rparr> \<and>
     (\<forall>q i. cells kv0 q i = None))"

definition serving_inv :: "'kv cell_view \<Rightarrow> 'kv serving \<Rightarrow> bool" where
  "serving_inv cells s \<longleftrightarrow>
     (\<exists>P. mapper_inv cells (mapper s) P (leases s) (mset (map l_leaf (leases s))))"

section \<open>Every step keeps the invariant\<close>

lemma release_sequence_ok:
  assumes "mapper_inv cells m P (l # ls) held" "kv_laws ops cells"
  shows "\<exists>m'. release_sequence ops m (l_seq l) (Some (l_leaf l)) = Some m' \<and>
    mapper_inv cells m' P ls held \<and> mcfg m' = mcfg m"
proof (cases "prefix_cache_enabled (mcfg m) \<and> sole_ready (tree m) l")
  case True then show ?thesis using release_sequence_keeps [OF assms] by blast
next
  case False then show ?thesis using release_sequence_frees [OF assms False] by blast
qed

lemma move_lease_simps [simp]:
  "l_seq (move_lease l n) = l_seq l" "l_leaf (move_lease l n) = n" "l_ready (move_lease l n) = l_ready l"
  "l_cells (move_lease l n) = l_cells l" "l_prompt (move_lease l n) = l_cells l"
  by (simp_all add: move_lease_def)

lemma evict_ready_leases: "kv_laws ops cells \<Longrightarrow> evict_ready ops cells ls (mset (map l_leaf ls))"
  by (auto simp: evict_ready_def)

lemma pending_lease_leaf [simp]: "l_leaf (pending_lease s n p k) = n"
  by (simp add: pending_lease_def)

lemma append_cells_simps [simp]:
  "l_seq (append_cells xs l) = l_seq l" "l_leaf (append_cells xs l) = l_leaf l"
  "l_ready (append_cells xs l) = l_ready l" "l_prompt (append_cells xs l) = l_prompt l"
  "l_cells (append_cells xs l) = l_cells l @ xs (l_seq l)"
  by (simp_all add: append_cells_def)

lemma append_lease_ok:
  assumes "lease_ok t P c l" "holds_exactly (c' (l_seq l)) (l_cells l @ xs (l_seq l))"
    and "l_ready l \<or> prefix (l_cells l @ xs (l_seq l)) (l_prompt l)"
  shows "lease_ok t P c' (append_cells xs l)"
  using assms unfolding lease_ok_def lease_node_def by (auto split: if_splits)

lemma decode_inv:
  assumes inv: "mapper_inv cells m P ls held" and dec: "batch_decoded cells ls xs (kv m) kv'"
    and grow: "\<forall>l \<in> set ls. l_ready l \<or> prefix (l_cells l @ xs (l_seq l)) (l_prompt l)"
  shows "mapper_inv cells (m\<lparr>kv := kv'\<rparr>) P (map (append_cells xs) ls) held"
proof -
  have wf: "wf_tree (tree m) P" using inv by (simp add: mapper_inv_def)
  have idle: "cells kv' s = cells (kv m) s" if "s \<notin> l_seq ` set ls" for s
    using dec that by (simp add: batch_decoded_def)
  have lok: "lease_ok (tree m) P (cells (kv m)) l" if "l \<in> set ls" for l using inv that by (simp add: mapper_inv_def)
  have new: "lease_ok (tree m) P (cells kv') (append_cells xs l)" if "l \<in> set ls" for l
    using dec grow that by (intro append_lease_ok [OF lok [OF that]]) (auto simp: batch_decoded_def)
  have "content_ok (tree m) P (cells kv')" unfolding content_ok_def
  proof (intro allI impI)
    fix n nd s assume n: "heap (tree m) n = Some nd" "s \<in> ready_seq_ids nd"
    show "holds_prefix (cells kv' s) (P n)"
    proof (cases "s \<in> l_seq ` set ls")
      case False
      then show ?thesis using idle inv n by (simp add: mapper_inv_def content_ok_def)
    next
      case True
      then obtain l where l: "l \<in> set ls" "s = l_seq l" by auto
      obtain ld where ld: "heap (tree m) (l_leaf l) = Some ld" "l_seq l \<in> seq_ids ld"
        by (rule lease_owner [OF lok [OF l(1)]])
      have "n = l_leaf l" using wf n ld l(2) wf_nodeD [OF wf n(1)]
        by (auto simp: wf_tree_def wf_node_def intro: wf_owner)
      moreover have "l_ready l" "prefix (P (l_leaf l)) (l_cells l)"
        using lok [OF l(1)] n calculation l(2)
        by (auto simp: lease_ok_def lease_node_def intro: prefix_order.trans)
      ultimately have "prefix (P n) (l_cells l @ xs (l_seq l))" by (auto intro: prefix_prefix)
      then show ?thesis using dec l by (auto simp: batch_decoded_def intro: holds_exactly_prefix)
    qed
  qed
  moreover have "\<forall>s \<in> set (free_seq_ids m). \<forall>i. cells kv' s i = None"
  proof (intro ballI allI)
    fix s i assume s: "s \<in> set (free_seq_ids m)"
    have "s \<notin> l_seq ` set ls"
    proof
      assume "s \<in> l_seq ` set ls"
      then obtain l where l: "l \<in> set ls" "s = l_seq l" by auto
      then have "s \<in> owned (tree m)" by (metis lease_owner lok ownedI)
      then show False using inv s by (auto simp: mapper_inv_def pool_ok_def)
    qed
    then show "cells kv' s i = None" using idle inv s by (simp add: mapper_inv_def)
  qed
  moreover have "l_seq ` set (map (append_cells xs) ls) = l_seq ` set ls" by (simp add: image_image)
  moreover have "map l_seq (map (append_cells xs) ls) = map l_seq ls" by simp
  ultimately show ?thesis using inv new by (simp only: mapper_inv_def) (simp add: idle_ready_def)
qed

lemma abandon_ok:
  assumes inv: "mapper_inv cells m P (l # ls) (add_mset (l_leaf l) held)" and laws: "kv_laws ops cells"
  shows "\<exists>m'. abandon_calls ops m l = Some m' \<and> mapper_inv cells m' P ls held \<and> mcfg m' = mcfg m"
proof -
  obtain m1 where m1: "release_sequence ops m (l_seq l) (Some (l_leaf l)) = Some m1"
    "mapper_inv cells m1 P ls (add_mset (l_leaf l) held)" "mcfg m1 = mcfg m"
    using release_sequence_ok [OF inv laws] by blast
  obtain m2 where "release_reference m1 (Some (l_leaf l)) = Some m2" "mapper_inv cells m2 P ls held" "mcfg m2 = mcfg m1"
    using release_reference_ok [OF m1(2)] by auto
  then show ?thesis using m1 by (simp add: abandon_calls_def)
qed

lemma finish_ok:
  assumes inv: "mapper_inv cells m P (l # ls) (add_mset (l_leaf l) held)" and laws: "kv_laws ops cells"
    and l: "l_ready l" "l_cells l \<noteq> []"
  shows "\<exists>m' P'. finish_calls ops m l = Some m' \<and> mapper_inv cells m' P' ls held \<and> mcfg m' = mcfg m"
proof (cases "prefix_cache_enabled (mcfg m)")
  case False
  then have "finish_calls ops m l = abandon_calls ops m l"
    by (simp add: finish_calls_def abandon_calls_def extend_sequence_def)
  then show ?thesis using abandon_ok [OF inv laws] by auto
next
  case True
  obtain m1 P' n where m1: "extend_sequence m (l_seq l) (Some (l_leaf l)) (l_cells l) = Some (m1, Some n)"
    "mapper_inv cells m1 P' (move_lease l n # ls) (add_mset (l_leaf l) held)" "mcfg m1 = mcfg m"
    using extend_sequence_ok [OF inv l True] by auto
  obtain m2 where m2: "release_sequence ops m1 (l_seq l) (Some n) = Some m2"
    "mapper_inv cells m2 P' ls (add_mset (l_leaf l) held)" "mcfg m2 = mcfg m1"
    using release_sequence_ok [OF m1(2) laws] by auto
  obtain m3 where "release_reference m2 (Some (l_leaf l)) = Some m3" "mapper_inv cells m3 P' ls held" "mcfg m3 = mcfg m2"
    using release_reference_ok [OF m2(2)] by auto
  then show ?thesis using m1 m2 by (auto simp: finish_calls_def)
qed

section \<open>Reachable states of the service\<close>

lemma leases_front:
  assumes "mapper_inv cells m P ls (mset (map l_leaf ls))" "l \<in> set ls"
  shows "mapper_inv cells m P (l # remove1 l ls) (add_mset (l_leaf l) (mset (map l_leaf (remove1 l ls))))"
proof -
  have "mset (map l_leaf ls) = add_mset (l_leaf l) (mset (map l_leaf (remove1 l ls)))"
    using assms(2) by (simp add: image_mset_add_mset [symmetric] del: image_mset_add_mset)
  then show ?thesis using lease_to_front [OF assms] by simp
qed

lemma set_cells_cfg [simp]: "mcfg (set_sequence_cell_count m s n) = mcfg m"
  by (simp add: set_sequence_cell_count_def)

lemma serve_inv:
  assumes step: "serve ops cells s s'" and laws: "kv_laws ops cells" and inv: "serving_inv cells s"
  shows "serving_inv cells s' \<and> mcfg (mapper s') = mcfg (mapper s)"
  using step inv
proof (cases rule: serve.cases)
  case (admit m prompt m' r ls)
  then obtain P where "mapper_inv cells m P ls (mset (map l_leaf ls))" using inv by (auto simp: serving_inv_def)
  from prepare_sequence_ok [OF this evict_ready_leases [OF laws], of prompt] show ?thesis
    using admit by (auto simp: serving_inv_def prepared_def)
next
  case (refuse m prompt m' e ls)
  then obtain P where "mapper_inv cells m P ls (mset (map l_leaf ls))" using inv by (auto simp: serving_inv_def)
  from prepare_sequence_ok [OF this evict_ready_leases [OF laws], of prompt] show ?thesis
    using refuse by (auto simp: serving_inv_def)
next
  case (decode ls xs m kv')
  then obtain P where "mapper_inv cells m P ls (mset (map l_leaf ls))" using inv by (auto simp: serving_inv_def)
  from decode_inv [OF this decode(3,4)] show ?thesis
    using decode by (auto simp: serving_inv_def comp_def)
next
  case (count m ls q n)
  then obtain P where "mapper_inv cells m P ls (mset (map l_leaf ls))" using inv by (auto simp: serving_inv_def)
  from set_cells_ok [OF this, of q n] show ?thesis
    using count by (auto simp: serving_inv_def)
next
  case (complete l ls m m')
  then obtain P where "mapper_inv cells m P ls (mset (map l_leaf ls))" using inv by (auto simp: serving_inv_def)
  from mark_sequence_ready_ok [OF leases_front [OF this complete(3)] complete(4)] show ?thesis
    using complete by (auto simp: serving_inv_def)
next
  case (finish l ls m m')
  then obtain P where "mapper_inv cells m P ls (mset (map l_leaf ls))" using inv by (auto simp: serving_inv_def)
  from finish_ok [OF leases_front [OF this finish(3)] laws finish(4,5)] show ?thesis
    using finish by (auto simp: serving_inv_def)
next
  case (abandon l ls m m')
  then obtain P where "mapper_inv cells m P ls (mset (map l_leaf ls))" using inv by (auto simp: serving_inv_def)
  from abandon_ok [OF leases_front [OF this abandon(3)] laws] show ?thesis
    using abandon by (auto simp: serving_inv_def)
next
  case (reclaim m m' b ls)
  then obtain P where P: "mapper_inv cells m P ls (mset (map l_leaf ls))" using inv by (auto simp: serving_inv_def)
  have "\<forall>l \<in> set ls. l_leaf l \<in># mset (map l_leaf ls)" by auto
  from evict_one_ok [OF P laws this] show ?thesis
    using reclaim by (auto simp: serving_inv_def evict_idle_sequence_def evict_result_def)
next
  case (compact m m' ls)
  then obtain P where "mapper_inv cells m P ls (mset (map l_leaf ls))" using inv by (auto simp: serving_inv_def)
  from gc_if_needed_ok [OF this evict_ready_leases [OF laws]] show ?thesis
    using compact by (auto simp: serving_inv_def defrag_def evict_result_def)
qed

lemma serving_init_inv: "serving_init cells s \<Longrightarrow> serving_inv cells s"
  by (auto simp: serving_init_def serving_inv_def intro!: exI [of _ "\<lambda>_. []"] new_mapper_inv)

interpretation service: transition_system
  "\<lambda>s. kv_laws ops cells \<and> serving_init cells s" "serve ops cells"
  "\<lambda>s. kv_laws ops cells \<and> serving_inv cells s" for ops :: "'kv kv_ops" and cells
  by unfold_locales (auto intro: serving_init_inv dest: serve_inv)

definition reachable :: "'kv kv_ops \<Rightarrow> 'kv cell_view \<Rightarrow> 'kv serving \<Rightarrow> bool" where
  "reachable ops cells s \<longleftrightarrow> (\<exists>s0. serving_init cells s0 \<and> (serve ops cells)\<^sup>*\<^sup>* s0 s)"

lemma reachable_inv:
  assumes "kv_laws ops cells" "reachable ops cells s"
  obtains P where "mapper_inv cells (mapper s) P (leases s) (mset (map l_leaf (leases s)))"
proof -
  obtain s0 where "serving_init cells s0" "(serve ops cells)\<^sup>*\<^sup>* s0 s"
    using assms(2) by (auto simp: reachable_def)
  then have "serving_inv cells s" using service.invariant_everywhere [of ops cells s0 s] assms(1) by blast
  then show thesis using that by (auto simp: serving_inv_def)
qed

lemma reachable_step: "reachable ops cells s \<Longrightarrow> serve ops cells s s' \<Longrightarrow> reachable ops cells s'"
  unfolding reachable_def by (meson rtranclp.rtrancl_into_rtrancl)

lemma reachable_new:
  "(\<And>q i. cells kv0 q i = None) \<Longrightarrow> reachable ops cells \<lparr>mapper = new_mapper cfg kv0, leases = []\<rparr>"
  unfolding reachable_def serving_init_def by blast

section \<open>Facts about the sequences of a state\<close>

lemma lease_owned:
  assumes "mapper_inv cells m P ls held" "l \<in> set ls"
  shows "l_seq l \<in> owned (tree m)"
proof -
  have "lease_ok (tree m) P (cells (kv m)) l" using assms by (simp add: mapper_inv_def)
  then show ?thesis by (rule lease_owner) (rule ownedI)
qed

lemma owned_finite: "wf_tree t P \<Longrightarrow> finite (owned t)"
proof -
  assume wf: "wf_tree t P"
  have "owned t = (\<Union>n \<in> dom (heap t). seq_ids (the (heap t n)))" by (force simp: owned_def)
  moreover have "finite (dom (heap t))" using wf by (auto simp: wf_tree_def intro: wf_finite_heap)
  moreover have "finite (seq_ids (the (heap t n)))" if "n \<in> dom (heap t)" for n
    using wf_nodeD [OF wf] that by (auto simp: wf_node_def)
  ultimately show "finite (owned t)" by simp
qed

lemma pool_partition:
  assumes inv: "mapper_inv cells m P ls held"
  shows "set (free_seq_ids m) \<union> l_seq ` set ls \<union> retained_seq_ids m = {1..<max_sequences (mcfg m)}"
    "set (free_seq_ids m) \<inter> l_seq ` set ls = {}" "set (free_seq_ids m) \<inter> retained_seq_ids m = {}"
    "l_seq ` set ls \<inter> retained_seq_ids m = {}" "distinct (free_seq_ids m)" "distinct (map l_seq ls)"
  using inv lease_owned [OF inv] by (auto simp: mapper_inv_def pool_ok_def)

lemma card_owned:
  assumes inv: "mapper_inv cells m P ls held"
  shows "int (card (owned (tree m))) = mapper_retained_count m + int (length ls)"
proof -
  have wf: "wf_tree (tree m) P" and ret: "retained_seq_ids m = owned (tree m) - l_seq ` set ls"
    and d: "distinct (map l_seq ls)" using inv by (auto simp: mapper_inv_def)
  have ls: "card (l_seq ` set ls) = length ls" using d by (metis distinct_card length_map list.set_map)
  have sub: "l_seq ` set ls \<subseteq> owned (tree m)" using lease_owned [OF inv] by auto
  have "card (retained_seq_ids m) + length ls = card (owned (tree m))"
    using sub owned_finite [OF wf] by (simp add: ret card_Diff_subset finite_subset ls [symmetric] card_mono)
  then show ?thesis by (simp add: mapper_retained_count_def)
qed

lemma counts_of_inv:
  assumes inv: "mapper_inv cells m P ls held"
  shows "mapper_active_count m = int (length ls)"
    "mapper_retained_count m + int (length ls) + int (length (free_seq_ids m)) =
       int (card {1..<max_sequences (mcfg m)})"
proof -
  have acc: "accounts_ok (seq_cell_counts m) (owned (tree m))" and wf: "wf_tree (tree m) P"
    and pool: "pool_ok (mcfg m) (free_seq_ids m) (owned (tree m))" using inv by (auto simp: mapper_inv_def)
  have len: "length (seq_cell_counts m) = card (owned (tree m))"
    using acc by (metis accounts_ok_def distinct_card length_map list.set_map)
  show "mapper_active_count m = int (length ls)"
    using card_owned [OF inv] len by (simp add: mapper_active_count_def mapper_retained_count_def)
  have "card (set (free_seq_ids m) \<union> owned (tree m)) = length (free_seq_ids m) + card (owned (tree m))"
    using card_Un_disjoint [of "set (free_seq_ids m)" "owned (tree m)"] owned_finite [OF wf] pool
      distinct_card [of "free_seq_ids m"] by (auto simp: pool_ok_def)
  then show "mapper_retained_count m + int (length ls) + int (length (free_seq_ids m)) =
       int (card {1..<max_sequences (mcfg m)})"
    using card_owned [OF inv] pool by (simp add: pool_ok_def)
qed

end
