(* ===== verification/RF_TreeContract.thy ===== *)
theory RF_TreeContract
  imports RF_Protocol
begin

text \<open>
  The contract of the radix tree: what its public operations promise to the mapper and to
  the server, without the ghost paths of the proofs. A tree is valid when it satisfies the
  invariant for some assignment of paths; its content is the set of prefixes that it can
  match (\<open>logical_prefixes\<close>) and the ownership of sequences by nodes.
\<close>

section \<open>Valid trees\<close>

definition valid_tree :: "radix_tree \<Rightarrow> bool" where
  "valid_tree t \<longleftrightarrow> (\<exists>P. wf_tree t P)"

lemma valid_treeI: "wf_tree t P \<Longrightarrow> valid_tree t"
  by (auto simp: valid_tree_def)

lemma valid_new_tree: "valid_tree new_tree"
  using wf_new_tree by (rule valid_treeI)

lemma wf_path: "wf_tree t P \<Longrightarrow> heap t n = Some nd \<Longrightarrow> node_path t n = Some (P n)"
  by (auto simp: wf_tree_def intro: node_path_eq)

lemma wf_prefixes: "wf_tree t P \<Longrightarrow> logical_prefixes t = keys t P"
  by (simp add: wf_tree_def logical_prefixes_keys)

text \<open>A tree with one stored prompt and one ready sequence, for the concrete instances.\<close>

definition sample_leaf :: "int \<Rightarrow> radix_node" where
  "sample_leaf refs = empty_node\<lparr>tokens := [5, 7], ref_count := refs, seq_ids := {3},
     ready_seq_ids := {3}, canonical_len := 2, last_access_tick := 1, parent := Some 0\<rparr>"

definition sample_tree :: "int \<Rightarrow> radix_tree" where
  "sample_tree refs = \<lparr>heap = [0 \<mapsto> empty_node\<lparr>ref_count := 1, children := [(5, 1)]\<rparr>, 1 \<mapsto> sample_leaf refs],
     tick = 1, next_addr = 2\<rparr>"

lemma sample_valid: "0 \<le> refs \<Longrightarrow> valid_tree (sample_tree refs)"
  by (rule valid_treeI [of _ "\<lambda>n. if n = 1 then [5, 7] else []"])
    (auto simp: wf_tree_def wf_data_def owners_disjoint_def wf_shape_def wf_root_def wf_up_def wf_down_def
      sample_tree_def sample_leaf_def empty_node_def wf_node_def root_addr_def split: if_splits)

lemma sample_node: "heap (sample_tree refs) 1 = Some (sample_leaf refs)"
  by (simp add: sample_tree_def)

definition prefixes_of :: "token list \<Rightarrow> token list set" where
  "prefixes_of p = {xs. prefix xs p}"

section \<open>Insertion\<close>

definition insert_post :: "radix_tree \<Rightarrow> token list \<Rightarrow> radix_tree \<Rightarrow> prefix_match \<Rightarrow> bool" where
  "insert_post t p t' mt \<longleftrightarrow> valid_tree t' \<and>
     logical_prefixes t' = logical_prefixes t \<union> prefixes_of p \<and>
     node_path t' (match_node mt) = Some p \<and>
     node_path t' (cache_node mt) = Some (take (matched_tokens mt) p) \<and>
     matched_tokens mt \<le> length p \<and> remaining mt = drop (matched_tokens mt) p \<and>
     (\<forall>xs \<in> prefixes_of p. xs \<in> logical_prefixes t \<longleftrightarrow> length xs \<le> matched_tokens mt)"

text \<open>
  C4. \<open>RadixTree::insert\<close> returns on every valid tree and every prompt (no dangling pointer,
  no endless loop), keeps the tree valid, adds exactly the prefixes of the prompt, hands out
  the node of the whole prompt, and reports the longest prefix that was stored before.
\<close>

theorem insert_prompt_correct:
  assumes "valid_tree t"
  shows "\<exists>t' mt. insert_prompt t p = Some (t', mt) \<and> insert_post t p t' mt"
proof -
  obtain P where wf: "wf_tree t P" using assms by (auto simp: valid_tree_def)
  obtain t' P' leaf cn rest lnd cnd where ins: "insert_prompt t p = Some (t', \<lparr>match_node = leaf,
        cache_node = cn, cache_seq_id = -1, matched_tokens = length (P' cn), remaining = rest\<rparr>)"
    "wf_tree t' P'" "keys t' P' = keys t P \<union> {xs. prefix xs p}" "heap t' leaf = Some lnd" "P' leaf = p"
    "heap t' cn = Some cnd" "P' cn @ rest = p"
    "\<forall>xs. prefix xs p \<longrightarrow> (xs \<in> keys t P \<longleftrightarrow> length xs \<le> length (P' cn))"
    using insert_prompt_ok [OF wf, of p] by blast
  have "take (length (P' cn)) p = P' cn" "drop (length (P' cn)) p = rest" "length (P' cn) \<le> length p"
    by (simp_all add: ins(7) [symmetric])
  then show ?thesis using ins wf_prefixes [OF wf] wf_prefixes [OF ins(2)] wf_path [OF ins(2)]
    by (intro exI [of _ t'] exI) (auto simp: insert_post_def prefixes_of_def intro: valid_treeI)
qed

theorem insert_prompt_correct_witness:
  "\<exists>t' mt. insert_prompt (sample_tree 0) [5, 8, 9] = Some (t', mt) \<and> insert_post (sample_tree 0) [5, 8, 9] t' mt"
  by (rule insert_prompt_correct [OF sample_valid]) simp

text \<open>
  The search part of an insertion may split a node, but it changes neither the set of
  stored prefixes nor the sequences, references and validity of any node, and it finds the
  longest stored prefix of the tokens.
\<close>

theorem find_prefix_transparent:
  assumes "valid_tree t"
  shows "\<exists>t' mt. find_prefix_locked t p = Some (t', mt) \<and> valid_tree t' \<and>
    logical_prefixes t' = logical_prefixes t \<and>
    node_path t' (match_node mt) = Some (take (matched_tokens mt) p) \<and>
    (\<forall>n nd. heap t n = Some nd \<longrightarrow>
       (\<exists>nd'. heap t' n = Some nd' \<and> same_seqs nd nd' \<and> ref_count nd' = ref_count nd)) \<and>
    owned t' = owned t"
proof -
  obtain P where wf: "wf_tree t P" using assms by (auto simp: valid_tree_def)
  obtain t' P' n nd rest where f: "find_prefix_locked t p = Some (t', \<lparr>match_node = n, cache_node = n,
        cache_seq_id = -1, matched_tokens = length (P' n), remaining = rest\<rparr>)"
    "wf_tree t' P'" "tree_grows t P t' P'" "keys t' P' = keys t P" "heap t' n = Some nd" "P' n @ rest = p"
    using find_prefix_locked_ok [OF wf, of p] by blast
  have g: "tree_frame t P t' P' (\<lambda>_. 0)" using f(3) by (rule grows_frame)
  have "take (length (P' n)) p = P' n" by (simp add: f(6) [symmetric])
  moreover have "\<exists>xd'. heap t' x = Some xd' \<and> same_seqs xd xd' \<and> ref_count xd' = ref_count xd"
    if "heap t x = Some xd" for x xd using frame_old [OF g that] by (metis add.right_neutral)
  ultimately show ?thesis
    using f wf_prefixes [OF wf] wf_prefixes [OF f(2)] wf_path [OF f(2)] owned_frame [OF g]
    by (intro exI [of _ t'] exI) (auto intro: valid_treeI)
qed

theorem find_prefix_transparent_witness:
  "\<exists>t' mt. find_prefix_locked (sample_tree 0) [5] = Some (t', mt) \<and> valid_tree t' \<and>
    logical_prefixes t' = logical_prefixes (sample_tree 0) \<and>
    node_path t' (match_node mt) = Some (take (matched_tokens mt) [5]) \<and>
    (\<forall>n nd. heap (sample_tree 0) n = Some nd \<longrightarrow>
       (\<exists>nd'. heap t' n = Some nd' \<and> same_seqs nd nd' \<and> ref_count nd' = ref_count nd)) \<and>
    owned t' = owned (sample_tree 0)"
  by (rule find_prefix_transparent [OF sample_valid]) simp

section \<open>A store of prefixes\<close>

text \<open>
  What a client sees that only inserts: a store whose content grows by the prefixes of each
  inserted text.
\<close>

locale prefix_store =
  fixes empty :: 's
    and ins :: "'s \<Rightarrow> token list \<Rightarrow> 's option"
    and content :: "'s \<Rightarrow> token list set"
    and valid :: "'s \<Rightarrow> bool"
  assumes valid_empty: "valid empty"
    and content_empty: "content empty = {[]}"
    and ins_ok: "valid s \<Longrightarrow> \<exists>s'. ins s p = Some s' \<and> valid s' \<and> content s' = content s \<union> prefixes_of p"
begin

fun ins_all :: "'s \<Rightarrow> token list list \<Rightarrow> 's option" where
  "ins_all s [] = Some s"
| "ins_all s (p # ps) = Option.bind (ins s p) (\<lambda>s'. ins_all s' ps)"

lemma ins_all_from:
  "valid s \<Longrightarrow> \<exists>s'. ins_all s ps = Some s' \<and> valid s' \<and> content s' = content s \<union> (\<Union>p \<in> set ps. prefixes_of p)"
proof (induction ps arbitrary: s)
  case Nil then show ?case by simp
next
  case (Cons p ps)
  obtain s1 where s1: "ins s p = Some s1" "valid s1" "content s1 = content s \<union> prefixes_of p"
    using ins_ok [OF Cons.prems] by blast
  then show ?case using Cons.IH [OF s1(2)] by auto
qed

lemma ins_all_content:
  "\<exists>s'. ins_all empty ps = Some s' \<and> valid s' \<and> content s' = insert [] (\<Union>p \<in> set ps. prefixes_of p)"
  using ins_all_from [OF valid_empty, of ps] content_empty by simp

end

definition insert_tree :: "radix_tree \<Rightarrow> token list \<Rightarrow> radix_tree option" where
  "insert_tree t p = map_option fst (insert_prompt t p)"

fun insert_all :: "radix_tree \<Rightarrow> token list list \<Rightarrow> radix_tree option" where
  "insert_all t [] = Some t"
| "insert_all t (p # ps) = do { t' \<leftarrow> insert_tree t p; insert_all t' ps }"

lemma new_tree_prefixes: "logical_prefixes new_tree = {[]}"
  by (simp add: wf_prefixes [OF wf_new_tree] keys_def) (auto simp: new_tree_def)

interpretation tree_store: prefix_store new_tree insert_tree logical_prefixes valid_tree
proof
  show "valid_tree new_tree" by (rule valid_new_tree)
  show "logical_prefixes new_tree = {[]}" by (rule new_tree_prefixes)
  show "\<exists>t'. insert_tree t p = Some t' \<and> valid_tree t' \<and>
      logical_prefixes t' = logical_prefixes t \<union> prefixes_of p" if valid: "valid_tree t" for t p
  proof -
    obtain P where wf: "wf_tree t P" using valid by (auto simp: valid_tree_def)
    obtain t' P' mt where "insert_prompt t p = Some (t', mt)" "wf_tree t' P'" "keys t' P' = keys t P \<union> prefixes_of p"
      using insert_prompt_ok [OF wf, of p] unfolding prefixes_of_def by blast
    then show ?thesis using wf_prefixes [OF wf] wf_prefixes [of t' P']
      by (auto simp: insert_tree_def intro: valid_treeI)
  qed
qed

lemma insert_all_eq: "tree_store.ins_all t ps = insert_all t ps"
  by (induction ps arbitrary: t) simp_all

text \<open>
  C10. After any sequence of insertions into the empty tree, the stored prefixes are exactly
  the prefixes of the inserted prompts: splitting loses nothing and invents nothing.
\<close>

theorem insert_all_prefixes:
  "\<exists>t. insert_all new_tree ps = Some t \<and> valid_tree t \<and>
     logical_prefixes t = insert [] (\<Union>p \<in> set ps. prefixes_of p)"
  using tree_store.ins_all_content [of ps] by (simp add: insert_all_eq)

section \<open>Inspection\<close>

text \<open>
  Some node on the stored path of \<open>k\<close> leading tokens carries a sequence of the kind asked for.
\<close>

definition covers :: "radix_tree \<Rightarrow> (radix_node \<Rightarrow> bool) \<Rightarrow> token list \<Rightarrow> int \<Rightarrow> bool" where
  "covers t ok p k \<longleftrightarrow> 0 \<le> k \<and> (0 < k \<longrightarrow> (\<exists>n nd path. heap t n = Some nd \<and> ok nd \<and>
     node_path t n = Some path \<and> k \<le> int (length path) \<and> take (nat k) path = take (nat k) p))"

lemma covers_by: "wf_tree t P \<Longrightarrow> covered_by t P p ok k \<Longrightarrow> covers t ok p k"
  unfolding covered_by_def covers_def by (metis wf_path)

lemma inspect_prefix_ok:
  assumes wf: "wf_tree t P"
  shows "\<exists>av. inspect_prefix t p = Some av \<and> avail_sound t P p av \<and> 0 \<le> avail_matched av \<and>
    avail_matched av \<le> int (length p) \<and>
    (\<forall>xs. prefix xs p \<longrightarrow> (xs \<in> keys t P \<longleftrightarrow> int (length xs) \<le> avail_matched av))"
proof -
  obtain r where r: "heap t root_addr = Some r" "P root_addr = []"
    using wf by (auto simp: wf_tree_def elim: wf_rootD)
  have av0: "avail_sound t P p \<lparr>avail_matched = 0, ready_tokens = 0, pending_tokens = 0\<rparr>"
    by (simp add: avail_sound_def covered_by_def)
  have start: "P root_addr @ p = p" "0 = int (length (P root_addr))" using r(2) by simp_all
  show ?thesis using inspect_loop_ok [OF wf r(1) start av0] unfolding inspect_prefix_def by blast
qed

text \<open>
  C12. \<open>inspect_prefix\<close> returns; the length it reports is that of the longest stored prefix,
  and the ready (pending) length it reports is backed by a node with a ready (pending)
  sequence whose path starts with that many tokens of the prompt.
\<close>

theorem inspect_prefix_sound:
  assumes "valid_tree t"
  shows "\<exists>av. inspect_prefix t p = Some av \<and> 0 \<le> avail_matched av \<and> avail_matched av \<le> int (length p) \<and>
    (\<forall>xs \<in> prefixes_of p. xs \<in> logical_prefixes t \<longleftrightarrow> int (length xs) \<le> avail_matched av) \<and>
    covers t (\<lambda>nd. ready_seq_ids nd \<noteq> {}) p (ready_tokens av) \<and>
    covers t (\<lambda>nd. seq_ids nd - ready_seq_ids nd \<noteq> {}) p (pending_tokens av)"
proof -
  obtain P where wf: "wf_tree t P" using assms by (auto simp: valid_tree_def)
  obtain av where "inspect_prefix t p = Some av" "avail_sound t P p av" "0 \<le> avail_matched av"
    "avail_matched av \<le> int (length p)"
    "\<forall>xs. prefix xs p \<longrightarrow> (xs \<in> keys t P \<longleftrightarrow> int (length xs) \<le> avail_matched av)"
    using inspect_prefix_ok [OF wf] by blast
  then show ?thesis using covers_by [OF wf] wf_prefixes [OF wf]
    by (intro exI [of _ av]) (auto simp: avail_sound_def prefixes_of_def)
qed

theorem inspect_prefix_sound_witness:
  "\<exists>av. inspect_prefix (sample_tree 0) [5, 9] = Some av \<and> 0 \<le> avail_matched av \<and> avail_matched av \<le> int (length [5, 9::int]) \<and>
    (\<forall>xs \<in> prefixes_of [5, 9]. xs \<in> logical_prefixes (sample_tree 0) \<longleftrightarrow> int (length xs) \<le> avail_matched av) \<and>
    covers (sample_tree 0) (\<lambda>nd. ready_seq_ids nd \<noteq> {}) [5, 9] (ready_tokens av) \<and>
    covers (sample_tree 0) (\<lambda>nd. seq_ids nd - ready_seq_ids nd \<noteq> {}) [5, 9] (pending_tokens av)"
  by (rule inspect_prefix_sound [OF sample_valid]) simp

section \<open>Lookup of a source\<close>

definition comparable :: "radix_tree \<Rightarrow> addr \<Rightarrow> addr \<Rightarrow> bool" where
  "comparable t n m \<longleftrightarrow> (\<exists>p q. node_path t n = Some p \<and> node_path t m = Some q \<and> (prefix p q \<or> prefix q p))"

text \<open>
  C11. \<open>find_covering_seq_id\<close> returns for every node of the tree. It answers with a ready
  sequence of an ancestor or a descendant (or the node itself) and the length of that node's
  path, and it answers \<open>-1\<close> only when no ancestor and no descendant has a ready sequence.
\<close>

theorem find_covering_correct:
  assumes "valid_tree t" "heap t n = Some nd"
  shows "\<exists>r. find_covering_seq_id t (Some n) = Some r \<and>
    (case r of
       None \<Rightarrow> \<forall>m md. heap t m = Some md \<longrightarrow> comparable t n m \<longrightarrow> ready_seq_ids md = {}
     | Some (s, len) \<Rightarrow> \<exists>m md q. heap t m = Some md \<and> comparable t n m \<and> s \<in> ready_seq_ids md \<and>
         node_path t m = Some q \<and> len = int (length q))"
proof -
  obtain P where wf: "wf_tree t P" using assms by (auto simp: valid_tree_def)
  obtain r where r: "find_covering_seq_id t (Some n) = Some r" "source_in t P (above t P n \<union> below t P n) r"
    using find_covering_ok [OF wf assms(2)] by blast
  have cmp: "comparable t n m \<longleftrightarrow> m \<in> above t P n \<union> below t P n" if "heap t m = Some md" for m md
    using wf_path [OF wf assms(2)] wf_path [OF wf that] that by (auto simp: comparable_def above_def below_def)
  show ?thesis
  proof (cases r)
    case None
    then have "\<forall>m \<in> above t P n \<union> below t P n. \<not> is_ready t m" using r(2) by (simp only: source_in_None)
    then have "\<forall>m md. heap t m = Some md \<longrightarrow> comparable t n m \<longrightarrow> ready_seq_ids md = {}"
      using cmp by (auto simp: is_ready_def)
    then show ?thesis using r(1) None by simp
  next
    case (Some x)
    obtain s len where x: "x = (s, len)" by (cases x)
    then obtain m md where m: "m \<in> above t P n \<union> below t P n" "heap t m = Some md" "s \<in> ready_seq_ids md"
      "len = int (length (P m))" using r(2) Some by (auto simp: source_in_def)
    then show ?thesis using r(1) Some x cmp [OF m(2)] wf_path [OF wf m(2)] by auto
  qed
qed

theorem find_covering_correct_witness:
  "\<exists>r. find_covering_seq_id (sample_tree 0) (Some 1) = Some r \<and>
    (case r of
       None \<Rightarrow> \<forall>m md. heap (sample_tree 0) m = Some md \<longrightarrow> comparable (sample_tree 0) 1 m \<longrightarrow> ready_seq_ids md = {}
     | Some (s, len) \<Rightarrow> \<exists>m md q. heap (sample_tree 0) m = Some md \<and> comparable (sample_tree 0) 1 m \<and>
         s \<in> ready_seq_ids md \<and> node_path (sample_tree 0) m = Some q \<and> len = int (length q))"
  by (rule find_covering_correct [OF sample_valid sample_node]) simp

section \<open>Eviction and release\<close>

text \<open>
  \<open>find_eviction_candidates\<close> returns the \<open>limit\<close> least recently used of all nodes that may
  be evicted (unreferenced, with a sequence, not the root), in the order of their last use.
\<close>

theorem eviction_candidates_lru:
  assumes "valid_tree t"
  shows "\<exists>cs. find_eviction_candidates t limit = Some (take limit cs) \<and> distinct cs \<and>
    set cs = {n. evictable t n} \<and> sorted (map (last_tick t) cs)"
  using assms by (auto simp: valid_tree_def wf_tree_def intro: find_eviction_candidates_ok)

theorem eviction_candidates_lru_witness:
  "\<exists>cs. find_eviction_candidates (sample_tree 0) 2 = Some (take 2 cs) \<and> distinct cs \<and>
    set cs = {n. evictable (sample_tree 0) n} \<and> sorted (map (last_tick (sample_tree 0)) cs)"
  by (rule eviction_candidates_lru [OF sample_valid]) simp

text \<open>The nodes that must survive a cleanup: referenced, with a sequence, or the root.\<close>

definition in_use :: "radix_tree \<Rightarrow> addr \<Rightarrow> bool" where
  "in_use t n \<longleftrightarrow> (\<exists>nd. heap t n = Some nd \<and> (0 < ref_count nd \<or> seq_ids nd \<noteq> {} \<or> n = root_addr))"

lemma prune_in_use:
  assumes f: "prune_frame t t'" and "in_use t n"
  shows "heap t' n \<noteq> None"
proof -
  obtain nd where "heap t n = Some nd" "0 < ref_count nd \<or> seq_ids nd \<noteq> {} \<or> n = root_addr"
    using assms(2) by (auto simp: in_use_def)
  then show ?thesis using prune_frame_live [OF f] by fastforce
qed

lemma evict_tree:
  assumes "valid_tree t" "heap t n = Some nd"
  shows "if evictable t n
    then \<exists>t'. evict t (Some n) = Some (t', sorted_list_of_set (seq_ids nd)) \<and> valid_tree t' \<and>
      owned t' = owned t - seq_ids nd \<and> (\<forall>m. m \<noteq> n \<longrightarrow> in_use t m \<longrightarrow> heap t' m \<noteq> None)
    else evict t (Some n) = Some (t, [])"
proof -
  obtain P where wf: "wf_tree t P" using assms by (auto simp: valid_tree_def)
  show ?thesis
  proof (cases "evictable t n")
    case True
    then have n: "n \<noteq> root_addr" "ref_count nd = 0" "seq_ids nd \<noteq> {}" using assms(2) by (auto simp: evictable_def)
    have "parent nd \<noteq> None" using wf assms(2) n(1) by (auto simp: wf_tree_def elim: wf_upD)
    then obtain t' where t': "evict t (Some n) = Some (t', sorted_list_of_set (seq_ids nd))" "wf_tree t' P"
      "prune_frame (set_node t n (clear_seqs nd)) t'" using evict_ok [OF wf assms(2)] n by blast
    have "owned t' = owned t - seq_ids nd"
      using owned_prune [OF t'(3)] owned_set_node [OF wf assms(2)] by (simp add: clear_seqs_def)
    moreover have "heap t' m \<noteq> None" if "m \<noteq> n" "in_use t m" for m
      using that by (intro prune_in_use [OF t'(3)]) (auto simp: in_use_def)
    ultimately show ?thesis using True t' by (auto intro: valid_treeI)
  next
    case False
    then have "parent nd = None \<or> ref_count nd \<noteq> 0 \<or> seq_ids nd = {}"
      using assms(2) wf_root_node [OF wf] by (auto simp: evictable_def)
    then show ?thesis using False evict_refused [OF assms(2)] by simp
  qed
qed

text \<open>
  \<open>evict\<close> refuses the root, a referenced node and a node without sequences: it changes
  nothing and returns no sequence. Otherwise it returns all sequences of the node, keeps the
  tree valid, and no other node that is in use disappears.
\<close>

theorem evict_correct:
  assumes "valid_tree t" "heap t n = Some nd"
  shows "if evictable t n
    then \<exists>t'. evict t (Some n) = Some (t', sorted_list_of_set (seq_ids nd)) \<and> valid_tree t' \<and>
      owned t' = owned t - seq_ids nd \<and> (\<forall>m. m \<noteq> n \<longrightarrow> in_use t m \<longrightarrow> heap t' m \<noteq> None)
    else evict t (Some n) = Some (t, [])"
  using assms by (rule evict_tree)

theorem evict_correct_witness:
  "if evictable (sample_tree 0) 1
    then \<exists>t'. evict (sample_tree 0) (Some 1) = Some (t', sorted_list_of_set (seq_ids (sample_leaf 0))) \<and>
      valid_tree t' \<and> owned t' = owned (sample_tree 0) - seq_ids (sample_leaf 0) \<and>
      (\<forall>m. m \<noteq> 1 \<longrightarrow> in_use (sample_tree 0) m \<longrightarrow> heap t' m \<noteq> None)
    else evict (sample_tree 0) (Some 1) = Some (sample_tree 0, [])"
  by (rule evict_correct [OF sample_valid sample_node]) simp

text \<open>
  \<open>release\<close> gives one reference back: the tree stays valid, no sequence is lost, and every
  other node that is in use survives, as does the node itself while it is still in use.
\<close>

theorem release_correct:
  assumes "valid_tree t" "heap t n = Some nd" "0 < ref_count nd" "n = root_addr \<longrightarrow> 2 \<le> ref_count nd"
  shows "\<exists>t'. release t (Some n) = Some t' \<and> valid_tree t' \<and> owned t' = owned t \<and>
    (\<forall>m. in_use t m \<longrightarrow> (m = n \<longrightarrow> 1 < ref_count nd \<or> seq_ids nd \<noteq> {}) \<longrightarrow> heap t' m \<noteq> None)"
proof -
  obtain P where wf: "wf_tree t P" using assms by (auto simp: valid_tree_def)
  obtain t' where t': "release t (Some n) = Some t'" "wf_tree t' P" "prune_frame (set_node t n (drop_ref nd)) t'"
    using release_ok [OF wf assms(2,3)] assms(4) by auto
  have "owned t' = owned t" using owned_prune [OF t'(3)] owned_set_node [OF wf assms(2)] ownedI [OF assms(2)]
    by (auto simp: drop_ref_def)
  moreover have "heap t' m \<noteq> None" if "in_use t m" "m = n \<longrightarrow> 1 < ref_count nd \<or> seq_ids nd \<noteq> {}" for m
    using that assms(2) by (intro prune_in_use [OF t'(3)]) (auto simp: in_use_def drop_ref_def)
  ultimately show ?thesis using t' by (auto intro: valid_treeI)
qed

theorem release_correct_witness:
  "\<exists>t'. release (sample_tree 1) (Some 1) = Some t' \<and> valid_tree t' \<and> owned t' = owned (sample_tree 1) \<and>
    (\<forall>m. in_use (sample_tree 1) m \<longrightarrow> (m = 1 \<longrightarrow> 1 < ref_count (sample_leaf 1) \<or> seq_ids (sample_leaf 1) \<noteq> {}) \<longrightarrow>
       heap t' m \<noteq> None)"
  by (rule release_correct [OF sample_valid sample_node]) (simp_all add: sample_leaf_def root_addr_def)

text \<open>
  Two requests whose prompts share one token, one after the other. The second splits the
  node of the first; the new node of the remaining tokens of the first has no reference and
  no sequence, and no later release reaches it.
\<close>

definition split_leaf_run :: "radix_tree option" where
  "split_leaf_run = do { (t1, a) \<leftarrow> insert_prompt new_tree [1, 2]; (t2, b) \<leftarrow> insert_prompt t1 [1, 3];
     t3 \<leftarrow> release t2 (Some (match_node a)); release t3 (Some (match_node b)) }"

text \<open>
  Pruning is incomplete: after all references are given back, an unreferenced leaf
  without sequences, made by a split, stays in the tree together with its parent. The README
  says that empty leaf branches are pruned.
\<close>

theorem split_leaf_stays:
  "Option.bind split_leaf_run node_count = Some 3 \<and>
   Option.bind split_leaf_run (\<lambda>t. map_option (\<lambda>nd. (tokens nd, ref_count nd, seq_ids nd, children nd)) (heap t 2)) =
     Some ([2], 0, {}, [])"
proof
  show "Option.bind split_leaf_run node_count = Some 3" by code_simp
  show "Option.bind split_leaf_run (\<lambda>t. map_option (\<lambda>nd. (tokens nd, ref_count nd, seq_ids nd, children nd)) (heap t 2)) =
     Some ([2], 0, {}, [])" by code_simp
qed

section \<open>Counters\<close>

lemma active_count_owned:
  assumes wf: "wf_tree t P"
  shows "active_sequence_count t = Some (int (card (owned t)))"
proof -
  have shape: "wf_shape t P" using wf by (simp add: wf_tree_def)
  have own: "owned t = (\<Union>n \<in> dom (heap t). seq_ids (the (heap t n)))" by (force simp: owned_def)
  have "card (\<Union>n \<in> dom (heap t). seq_ids (the (heap t n))) = (\<Sum>n \<in> dom (heap t). card (seq_ids (the (heap t n))))"
  proof (rule card_UN_disjoint)
    show "finite (dom (heap t))" using shape by (rule wf_finite_heap)
    show "\<forall>n \<in> dom (heap t). finite (seq_ids (the (heap t n)))"
      using wf_nodeD [OF wf] by (auto simp: wf_node_def)
    show "\<forall>n \<in> dom (heap t). \<forall>m \<in> dom (heap t). n \<noteq> m \<longrightarrow> seq_ids (the (heap t n)) \<inter> seq_ids (the (heap t m)) = {}"
      using wf by (auto simp: wf_tree_def dest: wf_owner)
  qed
  then show ?thesis using active_sequence_count_ok [OF shape] own by simp
qed

text \<open>
  The counters of the server's gauges are exact: the traversals return the number of nodes
  and the number of sequences owned by the tree.
\<close>

theorem counters_exact:
  assumes "valid_tree t"
  shows "node_count t = Some (int (card (dom (heap t)))) \<and>
    active_sequence_count t = Some (int (card (owned t)))"
  using assms active_count_owned node_count_ok by (auto simp: valid_tree_def wf_tree_def)

theorem counters_exact_witness:
  "node_count (sample_tree 0) = Some (int (card (dom (heap (sample_tree 0))))) \<and>
    active_sequence_count (sample_tree 0) = Some (int (card (owned (sample_tree 0))))"
  by (rule counters_exact [OF sample_valid]) simp

end
