(* ===== verification/RF_Service.thy ===== *)
theory RF_Service
  imports RF_TreeContract
begin

text \<open>
  What the mapper and the tree together guarantee to the requests they serve, in every state
  that any order of calls can reach, and the exact results of the mapper's operations there.
\<close>

section \<open>A concrete KV memory\<close>

text \<open>
  A table from sequences and positions to tokens satisfies the laws assumed of llama.cpp. It
  is used for the concrete instances below.
\<close>

type_synonym kv_table = "seq_id \<Rightarrow> nat \<Rightarrow> token option"

definition table_ops :: "kv_table kv_ops" where
  "table_ops = \<lparr>seq_cp = (\<lambda>src dst p0 p1 kv. kv(dst := (\<lambda>i. if p0 \<le> int i \<and> int i < p1 then kv src i else kv dst i))),
     seq_rm = (\<lambda>s p0 p1 kv. kv(s := (\<lambda>i. if p0 \<le> int i \<and> (p1 < 0 \<or> int i < p1) then None else kv s i)))\<rparr>"

definition table_cells :: "kv_table cell_view" where
  "table_cells k = k"

definition empty_table :: kv_table where
  "empty_table = (\<lambda>_ _. None)"

lemma table_laws: "kv_laws table_ops table_cells"
  unfolding kv_laws_def seq_cp_law_def seq_rm_law_def table_ops_def table_cells_def
  by (intro conjI allI impI) (simp_all add: fun_eq_iff)

definition sample_config :: "int \<Rightarrow> config" where
  "sample_config n = \<lparr>model_path = ''m'', n_gpu_layers = 0, n_ctx = 64, n_batch = 8,
     max_sequences = n, gc_watermark = 28, kv_high_watermark = 1 / 2,
     prefix_cache_enabled = True, host = ''h'', port = 1, admit_window_ms = 0,
     request_timeout_seconds = 1, shutdown_timeout_seconds = 1, max_body_bytes = 0,
     cfg_max_tokens = 4, cfg_temperature = 0, cfg_top_p = 1, admin_token = [], log_level = [],
     debug_metrics = False\<rparr>"

definition sample_mapper :: "int \<Rightarrow> kv_table kv_mapper" where
  "sample_mapper n = new_mapper (sample_config n) empty_table"

definition start_request :: "kv_table kv_mapper \<Rightarrow> token list \<Rightarrow> (kv_table kv_mapper \<times> lease) option" where
  "start_request m p = do { (m', r) \<leftarrow> prepare_sequence table_ops m p;
     case r of Inl _ \<Rightarrow> None
     | Inr r \<Rightarrow> Some (m', pending_lease (res_seq_id r) (leaf_node r) p (cached_pos r)) }"

definition prefill_request :: "kv_table kv_mapper \<Rightarrow> lease \<Rightarrow> (kv_table kv_mapper \<times> lease) option" where
  "prefill_request m l =
     do { m' \<leftarrow> mark_sequence_ready (m\<lparr>kv := (kv m)(l_seq l := (\<lambda>i. if i < length (l_prompt l)
                    then Some (l_prompt l ! i) else None))\<rparr>) (l_seq l) (Some (l_leaf l));
          Some (m', l\<lparr>l_cells := l_prompt l, l_ready := True\<rparr>) }"

definition serve_alone :: "kv_table kv_mapper \<Rightarrow> token list \<Rightarrow> kv_table kv_mapper option" where
  "serve_alone m p = do { (m1, l) \<leftarrow> start_request m p; (m2, l') \<leftarrow> prefill_request m1 l; abandon_calls table_ops m2 l' }"

lemma sample_reachable: "reachable table_ops table_cells \<lparr>mapper = sample_mapper n, leases = []\<rparr>"
  unfolding sample_mapper_def by (rule reachable_new) (simp add: empty_table_def table_cells_def)

lemma start_reachable:
  assumes "reachable table_ops table_cells \<lparr>mapper = m, leases = ls\<rparr>" "start_request m p = Some (m', l)"
  shows "reachable table_ops table_cells \<lparr>mapper = m', leases = l # ls\<rparr>"
proof -
  obtain r where "prepare_sequence table_ops m p = Some (m', Inr r)"
    "l = pending_lease (res_seq_id r) (leaf_node r) p (cached_pos r)"
    using assms(2) by (auto simp: start_request_def split: sum.splits)
  then show ?thesis using reachable_step [OF assms(1) serve.admit] by simp
qed

lemma prefill_reachable:
  assumes r: "reachable table_ops table_cells \<lparr>mapper = m, leases = [l]\<rparr>" and run: "prefill_request m l = Some (m', l')"
    and l: "\<not> l_ready l"
  shows "reachable table_ops table_cells \<lparr>mapper = m', leases = [l']\<rparr>"
proof -
  let ?kv = "(kv m)(l_seq l := (\<lambda>i. if i < length (l_prompt l) then Some (l_prompt l ! i) else None))"
  let ?xs = "\<lambda>_. drop (length (l_cells l)) (l_prompt l)"
  obtain P where "mapper_inv table_cells m P [l] (mset (map l_leaf [l]))"
    using reachable_inv [OF table_laws r] by auto
  then have "prefix (l_cells l) (l_prompt l)" using l by (auto simp: mapper_inv_def lease_ok_def)
  then have all: "l_cells l @ ?xs (l_seq l) = l_prompt l" by (auto simp: prefix_def)
  have "serve table_ops table_cells \<lparr>mapper = m, leases = [l]\<rparr>
      \<lparr>mapper = m\<lparr>kv := ?kv\<rparr>, leases = map (append_cells ?xs) [l]\<rparr>"
    by (rule serve.decode) (auto simp: batch_decoded_def all holds_exactly_def table_cells_def)
  then have r2: "reachable table_ops table_cells \<lparr>mapper = m\<lparr>kv := ?kv\<rparr>, leases = [append_cells ?xs l]\<rparr>"
    using r reachable_step by fastforce
  obtain m2 where m2: "mark_sequence_ready (m\<lparr>kv := ?kv\<rparr>) (l_seq l) (Some (l_leaf l)) = Some m2" "m' = m2"
    "l' = l\<lparr>l_cells := l_prompt l, l_ready := True\<rparr>" using run by (auto simp: prefill_request_def)
  have "serve table_ops table_cells \<lparr>mapper = m\<lparr>kv := ?kv\<rparr>, leases = [append_cells ?xs l]\<rparr>
      \<lparr>mapper = m2, leases = (append_cells ?xs l)\<lparr>l_ready := True\<rparr> # remove1 (append_cells ?xs l) [append_cells ?xs l]\<rparr>"
    by (rule serve.complete) (use m2(1) all in auto)
  moreover have "(append_cells ?xs l)\<lparr>l_ready := True\<rparr> = l'" using m2(3) all by (simp add: append_cells_def)
  ultimately show ?thesis using r2 m2(2) reachable_step by fastforce
qed

lemma alone_reachable:
  assumes "reachable table_ops table_cells \<lparr>mapper = m, leases = []\<rparr>" "serve_alone m p = Some m'"
  shows "reachable table_ops table_cells \<lparr>mapper = m', leases = []\<rparr>"
proof -
  obtain m1 l m2 l' where run: "start_request m p = Some (m1, l)" "prefill_request m1 l = Some (m2, l')"
    "abandon_calls table_ops m2 l' = Some m'" using assms(2) by (auto simp: serve_alone_def)
  have "\<not> l_ready l" using run(1) by (auto simp: start_request_def pending_lease_def split: sum.splits)
  then have "reachable table_ops table_cells \<lparr>mapper = m2, leases = [l']\<rparr>"
    by (intro prefill_reachable [OF start_reachable [OF assms(1) run(1)] run(2)])
  moreover have "serve table_ops table_cells \<lparr>mapper = m2, leases = [l']\<rparr> \<lparr>mapper = m', leases = remove1 l' [l']\<rparr>"
    by (rule serve.abandon) (use run(3) in auto)
  ultimately show ?thesis using reachable_step by fastforce
qed

text \<open>One request whose prompt is decoded, after another one with the same first token.\<close>

definition sample_state :: "kv_table serving" where
  "sample_state = (case (do { m0 \<leftarrow> serve_alone (sample_mapper 4) [7, 8]; (m1, l) \<leftarrow> start_request m0 [7, 9];
       prefill_request m1 l }) of
     Some (m, l) \<Rightarrow> \<lparr>mapper = m, leases = [l]\<rparr> | None \<Rightarrow> \<lparr>mapper = sample_mapper 4, leases = []\<rparr>)"

lemma sample_state_reachable: "reachable table_ops table_cells sample_state"
proof (cases "do { m0 \<leftarrow> serve_alone (sample_mapper 4) [7, 8]; (m1, l) \<leftarrow> start_request m0 [7, 9];
       prefill_request m1 l }")
  case None then show ?thesis using sample_reachable by (simp add: sample_state_def)
next
  case (Some x)
  then obtain m0 m1 l m l' where run: "serve_alone (sample_mapper 4) [7, 8] = Some m0"
    "start_request m0 [7, 9] = Some (m1, l)" "prefill_request m1 l = Some (m, l')" "x = (m, l')"
    by (cases x) auto
  have "\<not> l_ready l" using run(2) by (auto simp: start_request_def pending_lease_def split: sum.splits)
  moreover have "reachable table_ops table_cells \<lparr>mapper = m1, leases = [l]\<rparr>"
    by (rule start_reachable [OF alone_reachable [OF sample_reachable run(1)] run(2)])
  ultimately have "reachable table_ops table_cells \<lparr>mapper = m, leases = [l']\<rparr>"
    using prefill_reachable run(3) by blast
  then show ?thesis using Some run(4) by (simp add: sample_state_def)
qed

lemma sample_state_leases: "leases sample_state =
    [\<lparr>l_seq = 2, l_leaf = 3, l_prompt = [7, 9], l_cells = [7, 9], l_ready = True\<rparr>]"
  by code_simp

section \<open>Safety of the requests being served\<close>

lemma served_requests_in:
  assumes "kv_laws ops cells" "reachable ops cells s" "l \<in> set (leases s)"
  shows "\<exists>nd path. heap (tree (mapper s)) (l_leaf l) = Some nd \<and> 0 < ref_count nd \<and> l_seq l \<in> seq_ids nd \<and>
    node_path (tree (mapper s)) (l_leaf l) = Some path \<and> prefix path (l_prompt l) \<and>
    (\<forall>i. cells (kv (mapper s)) (l_seq l) i = (if i < length (l_cells l) then Some (l_cells l ! i) else None)) \<and>
    (if l_ready l then prefix (l_prompt l) (l_cells l) else prefix (l_cells l) (l_prompt l)) \<and>
    l_seq l \<notin> set (free_seq_ids (mapper s))"
proof -
  obtain P where inv: "mapper_inv cells (mapper s) P (leases s) (mset (map l_leaf (leases s)))"
    by (rule reachable_inv [OF assms(1,2)])
  have wf: "wf_tree (tree (mapper s)) P" and refs: "refs_ok (tree (mapper s)) (mset (map l_leaf (leases s)))"
    and lok: "lease_ok (tree (mapper s)) P (cells (kv (mapper s))) l" using inv assms(3) by (auto simp: mapper_inv_def)
  obtain nd where nd: "heap (tree (mapper s)) (l_leaf l) = Some nd" "l_seq l \<in> seq_ids nd" by (rule lease_owner [OF lok])
  have held: "l_leaf l \<in># mset (map l_leaf (leases s))" using assms(3) by simp
  have "ref_count nd \<noteq> 0" using held_not_free [OF refs nd(1) held] by blast
  then have "0 < ref_count nd" using wf_nodeD [OF wf nd(1)] by (simp add: wf_node_def)
  moreover have "l_seq l \<notin> set (free_seq_ids (mapper s))" using pool_partition(2) [OF inv] assms(3) by auto
  ultimately show ?thesis using nd lok wf_path [OF wf nd(1)]
    unfolding lease_ok_def lease_node_def holds_exactly_def by blast
qed

text \<open>
  C1. In every reachable state a request's sequence is intact: its leaf is a node of the tree,
  is referenced and owns the sequence; the KV memory holds exactly the cells the request
  decoded or copied, which agree with its prompt; and its id is not in the free pool. So no
  eviction, split, pruning or other request ever takes anything from a running request.
\<close>

theorem served_requests_intact:
  assumes "kv_laws ops cells" "reachable ops cells s" "l \<in> set (leases s)"
  shows "\<exists>nd path. heap (tree (mapper s)) (l_leaf l) = Some nd \<and> 0 < ref_count nd \<and> l_seq l \<in> seq_ids nd \<and>
    node_path (tree (mapper s)) (l_leaf l) = Some path \<and> prefix path (l_prompt l) \<and>
    (\<forall>i. cells (kv (mapper s)) (l_seq l) i = (if i < length (l_cells l) then Some (l_cells l ! i) else None)) \<and>
    (if l_ready l then prefix (l_prompt l) (l_cells l) else prefix (l_cells l) (l_prompt l)) \<and>
    l_seq l \<notin> set (free_seq_ids (mapper s))"
  using assms by (rule served_requests_in)

theorem served_requests_intact_witness:
  "\<exists>l. l \<in> set (leases sample_state) \<and> (\<exists>nd path. heap (tree (mapper sample_state)) (l_leaf l) = Some nd \<and>
    0 < ref_count nd \<and> l_seq l \<in> seq_ids nd \<and>
    node_path (tree (mapper sample_state)) (l_leaf l) = Some path \<and> prefix path (l_prompt l) \<and>
    (\<forall>i. table_cells (kv (mapper sample_state)) (l_seq l) i = (if i < length (l_cells l) then Some (l_cells l ! i) else None)) \<and>
    (if l_ready l then prefix (l_prompt l) (l_cells l) else prefix (l_cells l) (l_prompt l)) \<and>
    l_seq l \<notin> set (free_seq_ids (mapper sample_state)))"
  by (intro exI [of _ "\<lparr>l_seq = 2, l_leaf = 3, l_prompt = [7, 9], l_cells = [7, 9], l_ready = True\<rparr>"] conjI
      served_requests_intact [OF table_laws sample_state_reachable]) (simp_all add: sample_state_leases)

text \<open>
  C2. The cache never holds wrong tokens: in every reachable state, a sequence that the tree
  offers as a source (ready at a node) has in the KV memory, at every position of the node's
  path, the token of that path.
\<close>

theorem ready_sequences_hold_path:
  assumes "kv_laws ops cells" "reachable ops cells s"
    and "heap (tree (mapper s)) n = Some nd" "q \<in> ready_seq_ids nd"
  shows "\<exists>path. node_path (tree (mapper s)) n = Some path \<and>
    (\<forall>i < length path. cells (kv (mapper s)) q i = Some (path ! i))"
proof -
  obtain P where inv: "mapper_inv cells (mapper s) P (leases s) (mset (map l_leaf (leases s)))"
    by (rule reachable_inv [OF assms(1,2)])
  then have wf: "wf_tree (tree (mapper s)) P" and c: "content_ok (tree (mapper s)) P (cells (kv (mapper s)))"
    by (auto simp: mapper_inv_def)
  have "holds_prefix (cells (kv (mapper s)) q) (P n)" using c assms(3,4) by (simp add: content_ok_def)
  then show ?thesis using wf_path [OF wf assms(3)] by (simp add: holds_prefix_def)
qed

lemma sample_state_node: "map_option (\<lambda>nd. ready_seq_ids nd) (heap (tree (mapper sample_state)) 3) = Some {2}"
  by code_simp

theorem ready_sequences_hold_path_witness:
  "\<exists>path. node_path (tree (mapper sample_state)) 3 = Some path \<and>
    (\<forall>i < length path. table_cells (kv (mapper sample_state)) 2 i = Some (path ! i))"
proof -
  obtain nd where "heap (tree (mapper sample_state)) 3 = Some nd" "2 \<in> ready_seq_ids nd"
    using sample_state_node by auto
  then show ?thesis by (rule ready_sequences_hold_path [OF table_laws sample_state_reachable])
qed

text \<open>
  C5. No sequence id is lost or used twice: in every reachable state each id of the pool is
  either free, or leased to exactly one request, or retained as idle cache.
\<close>

theorem sequence_pool_partition:
  assumes "kv_laws ops cells" "reachable ops cells s"
  shows "set (free_seq_ids (mapper s)) \<union> l_seq ` set (leases s) \<union> retained_seq_ids (mapper s) =
      {1..<max_sequences (mcfg (mapper s))} \<and>
    set (free_seq_ids (mapper s)) \<inter> l_seq ` set (leases s) = {} \<and>
    set (free_seq_ids (mapper s)) \<inter> retained_seq_ids (mapper s) = {} \<and>
    l_seq ` set (leases s) \<inter> retained_seq_ids (mapper s) = {} \<and>
    distinct (free_seq_ids (mapper s)) \<and> distinct (map l_seq (leases s))"
proof -
  obtain P where "mapper_inv cells (mapper s) P (leases s) (mset (map l_leaf (leases s)))"
    by (rule reachable_inv [OF assms])
  from pool_partition [OF this] show ?thesis by simp
qed

theorem sequence_pool_partition_witness:
  "set (free_seq_ids (mapper sample_state)) \<union> l_seq ` set (leases sample_state) \<union> retained_seq_ids (mapper sample_state) =
      {1..<max_sequences (mcfg (mapper sample_state))} \<and>
    set (free_seq_ids (mapper sample_state)) \<inter> l_seq ` set (leases sample_state) = {} \<and>
    set (free_seq_ids (mapper sample_state)) \<inter> retained_seq_ids (mapper sample_state) = {} \<and>
    l_seq ` set (leases sample_state) \<inter> retained_seq_ids (mapper sample_state) = {} \<and>
    distinct (free_seq_ids (mapper sample_state)) \<and> distinct (map l_seq (leases sample_state))"
  by (rule sequence_pool_partition [OF table_laws sample_state_reachable])

text \<open>
  The gauges count what they claim to: the number of active sequences is the number of
  requests being served, and active, retained and free sequences add up to the pool.
\<close>

theorem gauges_exact:
  assumes "kv_laws ops cells" "reachable ops cells s"
  shows "mapper_active_count (mapper s) = int (length (leases s)) \<and>
    mapper_retained_count (mapper s) + mapper_active_count (mapper s) + int (length (free_seq_ids (mapper s))) =
      int (card {1..<max_sequences (mcfg (mapper s))}) \<and>
    active_sequence_count (tree (mapper s)) =
      Some (mapper_retained_count (mapper s) + mapper_active_count (mapper s))"
proof -
  obtain P where inv: "mapper_inv cells (mapper s) P (leases s) (mset (map l_leaf (leases s)))"
    by (rule reachable_inv [OF assms])
  then have wf: "wf_tree (tree (mapper s)) P" by (simp add: mapper_inv_def)
  have "mapper_retained_count (mapper s) + int (length (leases s)) = int (card (owned (tree (mapper s))))"
    using card_owned [OF inv] by simp
  then show ?thesis using counts_of_inv [OF inv] active_count_owned [OF wf] by simp
qed

theorem gauges_exact_witness:
  "mapper_active_count (mapper sample_state) = int (length (leases sample_state)) \<and>
    mapper_retained_count (mapper sample_state) + mapper_active_count (mapper sample_state) +
      int (length (free_seq_ids (mapper sample_state))) =
      int (card {1..<max_sequences (mcfg (mapper sample_state))}) \<and>
    active_sequence_count (tree (mapper sample_state)) =
      Some (mapper_retained_count (mapper sample_state) + mapper_active_count (mapper sample_state))"
  by (rule gauges_exact [OF table_laws sample_state_reachable])

text \<open>
  When no request is being served, the tree holds no reference but the root's own, every
  owned sequence is ready and counted as retained, and so everything but the root's node can
  be reclaimed.
\<close>

theorem quiescent_state:
  assumes "kv_laws ops cells" "reachable ops cells s" "leases s = []"
    and "heap (tree (mapper s)) n = Some nd"
  shows "ref_count nd = (if n = root_addr then 1 else 0) \<and> ready_seq_ids nd = seq_ids nd \<and>
    seq_ids nd \<subseteq> retained_seq_ids (mapper s)"
proof -
  obtain P where inv: "mapper_inv cells (mapper s) P (leases s) (mset (map l_leaf (leases s)))"
    by (rule reachable_inv [OF assms(1,2)])
  then have "wf_node (tick (tree (mapper s))) (length (P n)) nd"
    using assms(4) by (auto simp: mapper_inv_def intro: wf_nodeD)
  then have "ready_seq_ids nd \<subseteq> seq_ids nd" by (simp add: wf_node_def)
  then show ?thesis using inv assms(3,4)
    by (auto simp: mapper_inv_def refs_ok_def idle_ready_def intro: ownedI)
qed

theorem quiescent_state_witness:
  "ref_count (empty_node\<lparr>ref_count := 1\<rparr>) = (if root_addr = root_addr then 1 else 0) \<and>
    ready_seq_ids (empty_node\<lparr>ref_count := 1\<rparr>) = seq_ids (empty_node\<lparr>ref_count := 1\<rparr>) \<and>
    seq_ids (empty_node\<lparr>ref_count := 1\<rparr>) \<subseteq> retained_seq_ids (sample_mapper 4)"
  using quiescent_state [OF table_laws sample_reachable [of 4], of root_addr "empty_node\<lparr>ref_count := 1\<rparr>"]
  by (simp add: sample_mapper_def new_mapper_def new_tree_def)

section \<open>Preparation\<close>

text \<open>What the worker may rely on after a successful \<open>prepare_sequence\<close>.\<close>

definition prepare_post ::
  "'kv cell_view \<Rightarrow> 'kv serving \<Rightarrow> token list \<Rightarrow> 'kv kv_mapper \<Rightarrow> prepare_result \<Rightarrow> bool" where
  "prepare_post cells s prompt m' r \<longleftrightarrow>
     0 \<le> cached_pos r \<and> cached_pos r \<le> int (length prompt) \<and>
     (prompt \<noteq> [] \<longrightarrow> delta r \<noteq> []) \<and> take (nat (cached_pos r)) prompt @ delta r = prompt \<and>
     (\<forall>i. cells (kv m') (res_seq_id r) i = (if i < nat (cached_pos r) then Some (prompt ! i) else None)) \<and>
     res_seq_id r \<notin> l_seq ` set (leases s) \<and>
     node_path (tree m') (leaf_node r) = Some prompt \<and> prompt \<in> logical_prefixes (tree m') \<and>
     (\<exists>nd. heap (tree m') (leaf_node r) = Some nd \<and> res_seq_id r \<in> seq_ids nd - ready_seq_ids nd \<and> 0 < ref_count nd)"

text \<open>
  C3. \<open>prepare_sequence\<close> returns in every reachable state for every prompt. On success the new
  sequence is not in use, its KV cells are exactly the cached prefix of the prompt, the delta
  is the rest of the prompt and is not empty, so that the logits of the last prompt token are
  computed. It fails only when no id is free and no idle sequence can be evicted, save one
  that belongs to the node of the prompt itself.
\<close>

theorem prepare_sequence_correct:
  assumes laws: "kv_laws ops cells" and r: "reachable ops cells s"
  shows "\<exists>m' res. prepare_sequence ops (mapper s) prompt = Some (m', res) \<and>
    (case res of
       Inr r \<Rightarrow> prepare_post cells s prompt m' r
     | Inl e \<Rightarrow> free_seq_ids m' = [] \<and>
         (\<forall>n. evictable (tree m') n \<longrightarrow> node_path (tree m') n = Some prompt))"
proof -
  obtain P where inv: "mapper_inv cells (mapper s) P (leases s) (mset (map l_leaf (leases s)))"
    by (rule reachable_inv [OF laws r])
  obtain m' res where run: "prepare_sequence ops (mapper s) prompt = Some (m', res)"
    and res: "case res of
       Inl e \<Rightarrow> \<exists>P'. mapper_inv cells m' P' (leases s) (mset (map l_leaf (leases s))) \<and> free_seq_ids m' = [] \<and>
         (\<forall>x. evictable (tree m') x \<longrightarrow> P' x = prompt)
     | Inr r \<Rightarrow> \<exists>P'. prepared cells (leases s) (mset (map l_leaf (leases s))) prompt m' P' r"
    using prepare_sequence_ok [OF inv evict_ready_leases [OF laws]] by blast
  show ?thesis
  proof (cases res)
    case (Inl e)
    then obtain P' where P': "wf_tree (tree m') P'" "free_seq_ids m' = []" "\<forall>x. evictable (tree m') x \<longrightarrow> P' x = prompt"
      using res by (auto simp: mapper_inv_def)
    then show ?thesis using run Inl wf_path [OF P'(1)] by (auto simp: evictable_def)
  next
    case (Inr q)
    then obtain P' where p: "prepared cells (leases s) (mset (map l_leaf (leases s))) prompt m' P' q" using res by auto
    let ?l = "pending_lease (res_seq_id q) (leaf_node q) prompt (cached_pos q)"
    let ?s = "\<lparr>mapper = m', leases = ?l # leases s\<rparr>"
    have inv': "mapper_inv cells m' P' (?l # leases s) (add_mset (leaf_node q) (mset (map l_leaf (leases s))))"
      and path: "P' (leaf_node q) = prompt" using p by (simp_all add: prepared_def)
    have wf: "wf_tree (tree m') P'" using inv' by (simp add: mapper_inv_def)
    have "serve ops cells \<lparr>mapper = mapper s, leases = leases s\<rparr> ?s" using run Inr by (intro serve.admit) simp
    moreover have "\<lparr>mapper = mapper s, leases = leases s\<rparr> = s" by (cases s) simp
    ultimately have "reachable ops cells ?s" by (metis reachable_step [OF r])
    then obtain nd where nd: "heap (tree m') (leaf_node q) = Some nd" "0 < ref_count nd" "res_seq_id q \<in> seq_ids nd"
      using served_requests_in [OF laws, of ?s ?l] by (auto simp: pending_lease_def)
    have lok: "lease_ok (tree m') P' (cells (kv m')) ?l" using inv' by (simp add: mapper_inv_def)
    then have "holds_exactly (cells (kv m') (res_seq_id q)) (take (nat (cached_pos q)) prompt)"
      by (simp add: lease_ok_def pending_lease_def)
    then have cell: "\<forall>i. cells (kv m') (res_seq_id q) i = (if i < nat (cached_pos q) then Some (prompt ! i) else None)"
      using p by (auto simp: holds_exactly_def prepared_def)
    from lok
    have pend: "res_seq_id q \<notin> ready_seq_ids nd" using nd by (auto simp: lease_ok_def lease_node_def pending_lease_def)
    have "res_seq_id q \<notin> l_seq ` set (leases s)" using inv' by (simp add: mapper_inv_def pending_lease_def)
    moreover have "prompt \<in> logical_prefixes (tree m')"
      using wf_prefixes [OF wf] path nd(1) by (auto simp: keys_def)
    ultimately have "prepare_post cells s prompt m' q"
      using p cell nd pend wf_path [OF wf nd(1)] path
      by (auto simp: prepare_post_def prepared_def)
    then show ?thesis using run Inr by simp
  qed
qed

theorem prepare_sequence_correct_witness:
  "\<exists>m' res. prepare_sequence table_ops (mapper sample_state) [7, 9, 4] = Some (m', res) \<and>
    (case res of
       Inr r \<Rightarrow> prepare_post table_cells sample_state [7, 9, 4] m' r
     | Inl e \<Rightarrow> free_seq_ids m' = [] \<and>
         (\<forall>n. evictable (tree m') n \<longrightarrow> node_path (tree m') n = Some [7, 9, 4]))"
  by (rule prepare_sequence_correct [OF table_laws sample_state_reachable])

text \<open>
  The prefix cache is used: the second of two requests whose prompts share a prefix gets
  the shared tokens from the KV cells of the first, and only the rest is to be decoded.
\<close>

theorem second_request_reuses_prefix:
  "map_option (\<lambda>(m, l). (l_seq l, l_cells l))
     (Option.bind (serve_alone (sample_mapper 4) [7, 8, 5]) (\<lambda>m. start_request m [7, 8, 6])) =
   Some (2, [7, 8])"
  by code_simp











text \<open>
  The cell accounting can exceed the cells: after a split, the shorter node keeps the
  canonical length of the longer prompt, and \<open>mark_sequence_ready\<close> charges a request for the
  shorter prompt with it. Here a sequence of one cell is charged with two.
\<close>

theorem cells_overcounted_after_split:
  "Option.bind (serve_alone (sample_mapper 4) [7, 8]) (\<lambda>m0. Option.bind (serve_alone m0 [7, 9])
     (\<lambda>m1. Option.bind (start_request m1 [7]) (\<lambda>(m2, l). map_option (\<lambda>(m3, l').
        (l_cells l', table_cells (kv m3) (l_seq l') 1, map_of (seq_cell_counts m3) (l_seq l'))) (prefill_request m2 l)))) =
   Some ([7], None, Some 2)"
  by code_simp

section \<open>The end of a request\<close>

text \<open>
  C6. No operation that the worker performs for a request it serves can fail: in every
  reachable state the request can be abandoned, marked ready once its prompt is complete, and
  finished once it is ready, and each of the calls returns. So the node handles that requests
  keep never dangle.
\<close>

theorem operations_never_stuck:
  assumes laws: "kv_laws ops cells" and r: "reachable ops cells s"
  shows "(\<forall>l \<in> set (leases s). abandon_calls ops (mapper s) l \<noteq> None \<and>
      (l_cells l = l_prompt l \<longrightarrow> mark_sequence_ready (mapper s) (l_seq l) (Some (l_leaf l)) \<noteq> None) \<and>
      (l_ready l \<and> l_cells l \<noteq> [] \<longrightarrow> finish_calls ops (mapper s) l \<noteq> None)) \<and>
    evict_idle_sequence ops (mapper s) \<noteq> None \<and> defrag ops (mapper s) \<noteq> None"
proof -
  obtain P where inv: "mapper_inv cells (mapper s) P (leases s) (mset (map l_leaf (leases s)))"
    by (rule reachable_inv [OF laws r])
  note front = leases_front [OF inv]
  have "abandon_calls ops (mapper s) l \<noteq> None" if "l \<in> set (leases s)" for l
    using abandon_ok [OF front [OF that] laws] by auto
  moreover have "mark_sequence_ready (mapper s) (l_seq l) (Some (l_leaf l)) \<noteq> None"
    if "l \<in> set (leases s)" "l_cells l = l_prompt l" for l
    using mark_sequence_ready_ok [OF front [OF that(1)] that(2)] by auto
  moreover have "finish_calls ops (mapper s) l \<noteq> None"
    if "l \<in> set (leases s)" "l_ready l" "l_cells l \<noteq> []" for l
    using finish_ok [OF front [OF that(1)] laws that(2,3)] by auto
  moreover have "defrag ops (mapper s) \<noteq> None"
    using gc_if_needed_ok [OF inv evict_ready_leases [OF laws]] by (auto simp: defrag_def)
  moreover have "evict_idle_sequence ops (mapper s) \<noteq> None"
    using evict_one_ok [OF inv laws] by (auto simp: evict_idle_sequence_def)
  ultimately show ?thesis by blast
qed

theorem operations_never_stuck_witness:
  "abandon_calls table_ops (mapper sample_state)
      \<lparr>l_seq = 2, l_leaf = 3, l_prompt = [7, 9], l_cells = [7, 9], l_ready = True\<rparr> \<noteq> None \<and>
    mark_sequence_ready (mapper sample_state) 2 (Some 3) \<noteq> None \<and>
    finish_calls table_ops (mapper sample_state)
      \<lparr>l_seq = 2, l_leaf = 3, l_prompt = [7, 9], l_cells = [7, 9], l_ready = True\<rparr> \<noteq> None \<and>
    evict_idle_sequence table_ops (mapper sample_state) \<noteq> None \<and> defrag table_ops (mapper sample_state) \<noteq> None"
  using operations_never_stuck [OF table_laws sample_state_reachable] by (simp add: sample_state_leases)

text \<open>The sequence of a request stays as idle cache when it may serve as a source.\<close>

definition keeps_sequence :: "'kv kv_mapper \<Rightarrow> lease \<Rightarrow> bool" where
  "keeps_sequence m l \<longleftrightarrow> prefix_cache_enabled (mcfg m) \<and> sole_ready (tree m) l"

text \<open>
  C7. \<open>release_sequence\<close> keeps a sequence exactly when the prefix cache is on and the sequence
  is ready and the only one of its node. A kept sequence becomes retained, its cells are cut
  to the path of its node, and it is charged with exactly these cells. Otherwise the id returns
  to the pool, without any cell.
\<close>

theorem release_sequence_correct:
  assumes laws: "kv_laws ops cells" and r: "reachable ops cells s" and l: "l \<in> set (leases s)"
  shows "\<exists>m'. release_sequence ops (mapper s) (l_seq l) (Some (l_leaf l)) = Some m' \<and>
    (if keeps_sequence (mapper s) l
     then l_seq l \<in> retained_seq_ids m' \<and> tree m' = tree (mapper s) \<and>
       (\<exists>path. node_path (tree m') (l_leaf l) = Some path \<and>
         map_of (seq_cell_counts m') (l_seq l) = Some (int (length path)) \<and>
         (\<forall>i. cells (kv m') (l_seq l) i = (if i < length path then Some (path ! i) else None)))
     else free_seq_ids m' = free_seq_ids (mapper s) @ [l_seq l] \<and> l_seq l \<notin> owned (tree m') \<and>
       map_of (seq_cell_counts m') (l_seq l) = None \<and> (\<forall>i. cells (kv m') (l_seq l) i = None))"
proof -
  obtain P where "mapper_inv cells (mapper s) P (leases s) (mset (map l_leaf (leases s)))"
    by (rule reachable_inv [OF laws r])
  from leases_front [OF this l]
  obtain held where inv: "mapper_inv cells (mapper s) P (l # remove1 l (leases s)) held" by blast
  have wf: "wf_tree (tree (mapper s)) P" using inv by (simp add: mapper_inv_def)
  show ?thesis
  proof (cases "keeps_sequence (mapper s) l")
    case True
    then have k: "prefix_cache_enabled (mcfg (mapper s))" "sole_ready (tree (mapper s)) l" by (auto simp: keeps_sequence_def)
    obtain nd where "heap (tree (mapper s)) (l_leaf l) = Some nd" using k(2) by (auto simp: sole_ready_def)
    then have "node_path (tree (mapper s)) (l_leaf l) = Some (P (l_leaf l))" by (rule wf_path [OF wf])
    then show ?thesis using release_sequence_keeps [OF inv laws k] True by (auto simp: holds_exactly_def)
  next
    case False
    then obtain m' where m': "release_sequence ops (mapper s) (l_seq l) (Some (l_leaf l)) = Some m'"
      "mapper_inv cells m' P (remove1 l (leases s)) held" "free_seq_ids m' = free_seq_ids (mapper s) @ [l_seq l]"
      using release_sequence_frees [OF inv laws] by (auto simp: keeps_sequence_def)
    then have gone: "l_seq l \<notin> owned (tree m')" "\<forall>i. cells (kv m') (l_seq l) i = None"
      by (auto simp: mapper_inv_def pool_ok_def)
    moreover have "map_of (seq_cell_counts m') (l_seq l) = None"
      using gone(1) m'(2) by (simp add: map_of_eq_None_iff mapper_inv_def accounts_ok_def)
    ultimately show ?thesis using m' False by auto
  qed
qed

theorem release_sequence_correct_witness:
  "\<exists>l m'. release_sequence table_ops (mapper sample_state) (l_seq l) (Some (l_leaf l)) = Some m' \<and>
    (if keeps_sequence (mapper sample_state) l
     then l_seq l \<in> retained_seq_ids m' \<and> tree m' = tree (mapper sample_state) \<and>
       (\<exists>path. node_path (tree m') (l_leaf l) = Some path \<and>
         map_of (seq_cell_counts m') (l_seq l) = Some (int (length path)) \<and>
         (\<forall>i. table_cells (kv m') (l_seq l) i = (if i < length path then Some (path ! i) else None)))
     else free_seq_ids m' = free_seq_ids (mapper sample_state) @ [l_seq l] \<and> l_seq l \<notin> owned (tree m') \<and>
       map_of (seq_cell_counts m') (l_seq l) = None \<and> (\<forall>i. table_cells (kv m') (l_seq l) i = None))"
  by (rule exI [of _ "\<lparr>l_seq = 2, l_leaf = 3, l_prompt = [7, 9], l_cells = [7, 9], l_ready = True\<rparr>"],
      rule release_sequence_correct [OF table_laws sample_state_reachable]) (simp add: sample_state_leases)

section \<open>Reclaiming memory\<close>

text \<open>
  C8. \<open>evict_one_locked\<close> returns in every reachable state. It reports \<open>False\<close>, changing
  nothing, exactly when no node can be evicted; otherwise it frees all sequences of a least
  recently used one of the nodes that can be, keeps every other sequence, and counts them.
\<close>

theorem evict_one_lru:
  assumes laws: "kv_laws ops cells" and r: "reachable ops cells s"
  shows "(evict_one_locked ops (mapper s) = Some (mapper s, False) \<and> (\<forall>n. \<not> evictable (tree (mapper s)) n)) \<or>
    (\<exists>m' n nd. evict_one_locked ops (mapper s) = Some (m', True) \<and> evictable (tree (mapper s)) n \<and>
      heap (tree (mapper s)) n = Some nd \<and>
      (\<forall>k. evictable (tree (mapper s)) k \<longrightarrow> last_tick (tree (mapper s)) n \<le> last_tick (tree (mapper s)) k) \<and>
      free_seq_ids m' = free_seq_ids (mapper s) @ sorted_list_of_set (seq_ids nd) \<and>
      owned (tree m') = owned (tree (mapper s)) - seq_ids nd \<and>
      evictions (metrics m') = evictions (metrics (mapper s)) + card (seq_ids nd))"
proof -
  obtain P where inv: "mapper_inv cells (mapper s) P (leases s) (mset (map l_leaf (leases s)))"
    by (rule reachable_inv [OF laws r])
  have wf: "wf_tree (tree (mapper s)) P" using inv by (simp add: mapper_inv_def)
  then have shape: "wf_shape (tree (mapper s)) P" by (simp add: wf_tree_def)
  from evict_candidate_one [OF shape] show ?thesis
  proof (elim disjE conjE exE)
    assume "find_eviction_candidates (tree (mapper s)) 1 = Some []" "\<forall>n. \<not> evictable (tree (mapper s)) n"
    then show ?thesis by (simp add: evict_one_locked.simps [of ops "mapper s"])
  next
    fix n assume cand: "find_eviction_candidates (tree (mapper s)) 1 = Some [n]" and e: "evictable (tree (mapper s)) n"
      and lru: "\<forall>k. evictable (tree (mapper s)) k \<longrightarrow> last_tick (tree (mapper s)) n \<le> last_tick (tree (mapper s)) k"
    obtain nd where n: "heap (tree (mapper s)) n = Some nd" "seq_ids nd \<noteq> {}" using e by (auto simp: evictable_def)
    have fin: "finite (seq_ids nd)" using wf_nodeD [OF wf n(1)] by (simp add: wf_node_def)
    obtain t' where t': "evict (tree (mapper s)) (Some n) = Some (t', sorted_list_of_set (seq_ids nd))"
      "owned t' = owned (tree (mapper s)) - seq_ids nd"
      using evict_tree [OF valid_treeI [OF wf] n(1)] e by auto
    have "sorted_list_of_set (seq_ids nd) \<noteq> []" using fin n(2) by simp
    then have "evict_one_locked ops (mapper s) =
      (let m' = fold (free_seq ops) (sorted_list_of_set (seq_ids nd)) ((mapper s)\<lparr>tree := t'\<rparr>) in
        Some (m'\<lparr>metrics := (metrics m')\<lparr>evictions := evictions (metrics m') +
            length (sorted_list_of_set (seq_ids nd))\<rparr>\<rparr>, True))"
      using cand t'(1) by (simp add: evict_one_locked.simps [of ops "mapper s"])
    then show ?thesis using e n(1) lru t'(2)
      by (intro disjI2 exI [of _ n] exI [of _ nd] exI) (auto simp: Let_def fold_free_seq_fields)
  qed
qed

theorem evict_one_lru_witness:
  "(evict_one_locked table_ops (mapper sample_state) = Some (mapper sample_state, False) \<and>
      (\<forall>n. \<not> evictable (tree (mapper sample_state)) n)) \<or>
    (\<exists>m' n nd. evict_one_locked table_ops (mapper sample_state) = Some (m', True) \<and>
      evictable (tree (mapper sample_state)) n \<and> heap (tree (mapper sample_state)) n = Some nd \<and>
      (\<forall>k. evictable (tree (mapper sample_state)) k \<longrightarrow>
         last_tick (tree (mapper sample_state)) n \<le> last_tick (tree (mapper sample_state)) k) \<and>
      free_seq_ids m' = free_seq_ids (mapper sample_state) @ sorted_list_of_set (seq_ids nd) \<and>
      owned (tree m') = owned (tree (mapper sample_state)) - seq_ids nd \<and>
      evictions (metrics m') = evictions (metrics (mapper sample_state)) + card (seq_ids nd))"
  by (rule evict_one_lru [OF table_laws sample_state_reachable])

text \<open>
  C9. The pressure loop returns in every reachable state. Afterwards the charged cells are at
  or below the high watermark, or nothing that could be evicted is left; the requests being
  served keep their sequences in any case.
\<close>

theorem pressure_loop_correct:
  assumes laws: "kv_laws ops cells" and r: "reachable ops cells s"
  shows "\<exists>m'. evict_kv_pressure ops (mapper s) = Some m' \<and>
    (kv_cells_used m' \<le> high_watermark (mcfg (mapper s)) \<or> (\<forall>n. \<not> evictable (tree m') n)) \<and>
    l_seq ` set (leases s) \<subseteq> owned (tree m') \<and>
    (kv_cells_used (mapper s) \<le> high_watermark (mcfg (mapper s)) \<longrightarrow> m' = mapper s)"
proof -
  obtain P where inv: "mapper_inv cells (mapper s) P (leases s) (mset (map l_leaf (leases s)))"
    by (rule reachable_inv [OF laws r])
  obtain m' where m': "evict_kv_pressure ops (mapper s) = Some m'"
    "evict_result cells P (leases s) (mset (map l_leaf (leases s))) (mapper s) m'"
    "over_watermark m' \<longrightarrow> (\<forall>n. \<not> evictable (tree m') n)"
    using evict_kv_pressure_ok [OF inv evict_ready_leases [OF laws]] by blast
  have inv': "mapper_inv cells m' P (leases s) (mset (map l_leaf (leases s)))" and cfg: "mcfg m' = mcfg (mapper s)"
    using m'(2) by (auto simp: evict_result_def)
  have "m' = mapper s" if "\<not> over_watermark (mapper s)"
    using m'(1) pressure.loop_idle [OF that, of ops False] by (simp add: evict_kv_pressure_def)
  then show ?thesis using m'(1,3) lease_owned [OF inv'] cfg by (auto simp: over_watermark_def)
qed

theorem pressure_loop_correct_witness:
  "\<exists>m'. evict_kv_pressure table_ops (mapper sample_state) = Some m' \<and>
    (kv_cells_used m' \<le> high_watermark (mcfg (mapper sample_state)) \<or> (\<forall>n. \<not> evictable (tree m') n)) \<and>
    l_seq ` set (leases sample_state) \<subseteq> owned (tree m') \<and>
    (kv_cells_used (mapper sample_state) \<le> high_watermark (mcfg (mapper sample_state)) \<longrightarrow> m' = mapper sample_state)"
  by (rule pressure_loop_correct [OF table_laws sample_state_reachable])

end
