(* ===== verification/RF_Worker.thy ===== *)
theory RF_Worker
  imports RF_KVMapper
begin

text \<open>
  The inference worker (src/worker.cpp, include/radixforge/server.h): admission of requests,
  the fused decode step with chunked prefill and continuous batching, and the endings of
  requests.

  The worker is the only thread that changes the tree, the mapper and its own vectors, so its
  functions are functions on values. What it calls outside the repository is a parameter: the
  decoder, tokenizer and sampler of llama.cpp, and the callbacks of a request, which the
  server sets (all four). They act on a value of a type \<open>'w\<close>, the rest of the world. Clock
  readings, the timing metrics and log lines are left out.
\<close>

section \<open>Requests\<close>

record chat_message =
  msg_role :: string
  msg_content :: string

record inference_stats =
  prompt_n :: int
  cache_n :: int
  stat_prompt_tokens :: int
  predicted_n :: int

text \<open>
  The callbacks of a request are reached through its number \<open>rq_id\<close>; \<open>rq_cancel_armed\<close> tells
  whether \<open>on_cancel\<close> is still set.
\<close>

record inference_request =
  rq_id :: nat
  rq_prompt :: string
  rq_messages :: "chat_message list"
  rq_max_tokens :: int
  rq_temperature :: rat
  rq_top_p :: rat
  rq_stream :: bool
  rq_cancel_armed :: bool

record prefill_ctx =
  pc_req :: inference_request
  pc_prep :: prepare_result
  pc_tokens :: "token list"
  delta_start :: int
  pc_stats :: inference_stats

record active_seq =
  as_req :: inference_request
  as_seq_id :: seq_id
  as_leaf :: addr
  as_pos :: int
  next_token :: token
  as_remaining :: int
  as_sampler :: nat
  as_done :: bool
  notify_on_retire :: bool
  as_stats :: inference_stats
  cached_tokens :: "token list"

record batch_entry =
  b_token :: token
  b_pos :: int
  b_seq :: seq_id
  b_logits :: bool

record prompt_submission =
  ctx_index :: nat
  sub_tokens :: int
  logit_index :: int

record ('kv, 'w) worker_env =
  env_ops :: "'kv kv_ops"
  env_n_ctx :: int
  env_n_batch :: int
  env_n_seq_max :: int
  tokenize :: "string \<Rightarrow> token list"
  apply_chat_template :: "(string \<times> string) list \<Rightarrow> string"
  llama_decode :: "batch_entry list \<Rightarrow> 'kv \<Rightarrow> 'w \<Rightarrow> int \<times> 'kv \<times> 'w"
  create_sampler :: "rat \<Rightarrow> rat \<Rightarrow> 'w \<Rightarrow> nat \<times> 'w"
  free_sampler :: "nat \<Rightarrow> 'w \<Rightarrow> 'w"
  sample :: "nat \<Rightarrow> int \<Rightarrow> 'w \<Rightarrow> token \<times> 'w"
  is_eog :: "token \<Rightarrow> bool"
  token_piece :: "token \<Rightarrow> string"
  poll_cancelled :: "nat \<Rightarrow> 'w \<Rightarrow> bool \<times> 'w"
  on_cancel :: "nat \<Rightarrow> 'w \<Rightarrow> 'w"
  on_token :: "nat \<Rightarrow> string \<Rightarrow> bool \<Rightarrow> inference_stats option \<Rightarrow> 'w \<Rightarrow> 'w"
  on_error :: "nat \<Rightarrow> string \<Rightarrow> int \<Rightarrow> 'w \<Rightarrow> 'w"

text \<open>What the worker's functions change besides their own vectors.\<close>

record ('kv, 'w) core =
  cm :: "'kv kv_mapper"
  cw :: 'w
  decode_steps :: nat
  prefill_tokens :: int
  prefill_calls :: nat

definition is_cancelled ::
  "('kv, 'w) worker_env \<Rightarrow> inference_request \<Rightarrow> ('kv, 'w) core \<Rightarrow> bool \<times> inference_request \<times> ('kv, 'w) core" where
  "is_cancelled env req c =
     (let (hit, w) = poll_cancelled env (rq_id req) (cw c) in
      if \<not> hit then (False, req, c\<lparr>cw := w\<rparr>)
      else if rq_cancel_armed req
      then (True, req\<lparr>rq_cancel_armed := False\<rparr>, c\<lparr>cw := on_cancel env (rq_id req) w\<rparr>)
      else (True, req, c\<lparr>cw := w\<rparr>))"

definition report_error ::
  "('kv, 'w) worker_env \<Rightarrow> inference_request \<Rightarrow> string \<Rightarrow> int \<Rightarrow> ('kv, 'w) core \<Rightarrow> ('kv, 'w) core" where
  "report_error env req message status c = c\<lparr>cw := on_error env (rq_id req) message status (cw c)\<rparr>"

section \<open>Admission\<close>

definition prompt_text :: "('kv, 'w) worker_env \<Rightarrow> inference_request \<Rightarrow> string" where
  "prompt_text env req =
     (if rq_prompt req = [] \<and> rq_messages req \<noteq> []
      then apply_chat_template env (map (\<lambda>msg. (msg_role msg, msg_content msg)) (rq_messages req))
      else rq_prompt req)"

text \<open>Tokens left for the completion, with a margin of four.\<close>

definition available_tokens :: "('kv, 'w) worker_env \<Rightarrow> token list \<Rightarrow> int" where
  "available_tokens env toks = env_n_ctx env - int (length toks) - 4"

definition clamp_max_tokens :: "int \<Rightarrow> inference_request \<Rightarrow> inference_request" where
  "clamp_max_tokens available req =
     (if rq_max_tokens req > available then req\<lparr>rq_max_tokens := available\<rparr> else req)"

definition new_prefill :: "inference_request \<Rightarrow> token list \<Rightarrow> prepare_result \<Rightarrow> prefill_ctx" where
  "new_prefill req toks prep = \<lparr>pc_req = req, pc_prep = prep, pc_tokens = toks, delta_start = 0,
     pc_stats = \<lparr>prompt_n = int (length (delta prep)), cache_n = cached_pos prep,
                 stat_prompt_tokens = int (length toks), predicted_n = 0\<rparr>\<rparr>"

text \<open>After a capacity error, the requests not yet looked at are queued, cancelled ones dropped.\<close>

fun queue_rest ::
  "('kv, 'w) worker_env \<Rightarrow> inference_request list \<Rightarrow> ('kv, 'w) core \<Rightarrow> inference_request list \<times> ('kv, 'w) core" where
  "queue_rest env [] c = ([], c)"
| "queue_rest env (req # reqs) c =
     (let (hit, req', c1) = is_cancelled env req c; (rest, c2) = queue_rest env reqs c1 in
      (if hit then rest else req' # rest, c2))"

text \<open>
  The result: prefill contexts, deferred requests, queued requests. The only exception that the code
  called from here throws is \<open>SequenceCapacityExhausted\<close>; the second clause of the code, for every
  other \<open>std::exception\<close>, and the ones around the loop of \<open>run\<close> are left to failures of the standard
  library (no memory), which the model does not have.
\<close>

fun prepare_all ::
  "('kv, 'w) worker_env \<Rightarrow> inference_request list \<Rightarrow> ('kv, 'w) core \<Rightarrow>
     (prefill_ctx list \<times> inference_request list \<times> inference_request list \<times> ('kv, 'w) core) option" where
  "prepare_all env [] c = Some ([], [], [], c)"
| "prepare_all env (req # reqs) c =
     (let (hit, req1, c1) = is_cancelled env req c in
      if hit then prepare_all env reqs c1
      else
        let toks = tokenize env (prompt_text env req1); available = available_tokens env toks in
        if available \<le> 0
        then prepare_all env reqs (report_error env req1 ''prompt exceeds context window'' 400 c1)
        else
          let req2 = clamp_max_tokens available req1 in
          do { av \<leftarrow> mapper_inspect_prefix (cm c1) toks;
               if pending_tokens av - ready_tokens av > 0 then
                 do { (ctxs, deferred, queued, c2) \<leftarrow> prepare_all env reqs c1;
                      Some (ctxs, req2 # deferred, queued, c2) }
               else
                 do { (m, prepared) \<leftarrow> prepare_sequence (env_ops env) (cm c1) toks;
                      case prepared of
                        Inl _ \<Rightarrow>
                          (let (rest, c2) = queue_rest env reqs (c1\<lparr>cm := m\<rparr>) in
                           Some ([], [], req2 # rest, c2))
                      | Inr prep \<Rightarrow>
                          if delta prep = [] then
                            do { m1 \<leftarrow> release_sequence (env_ops env) m (res_seq_id prep) (Some (leaf_node prep));
                                 m2 \<leftarrow> release_reference m1 (Some (leaf_node prep));
                                 prepare_all env reqs (report_error env req2
                                   ''internal cache preparation error'' 500 (c1\<lparr>cm := m2\<rparr>)) }
                          else
                            do { (ctxs, deferred, queued, c2) \<leftarrow> prepare_all env reqs (c1\<lparr>cm := m\<rparr>);
                                 Some (new_prefill req2 toks prep # ctxs, deferred, queued, c2) } } })"

section \<open>Endings\<close>

definition retire ::
  "('kv, 'w) worker_env \<Rightarrow> active_seq \<Rightarrow> bool \<Rightarrow> ('kv, 'w) core \<Rightarrow> ('kv, 'w) core option" where
  "retire env sq notify c =
     do { (node, req1, c1) \<leftarrow>
            (if notify then
               (let (hit, req1, c1) = is_cancelled env (as_req sq) c in
                if hit then Some (Some (as_leaf sq), req1, c1)
                else do { (m, node) \<leftarrow> extend_sequence (cm c1) (as_seq_id sq) (Some (as_leaf sq)) (cached_tokens sq);
                          Some (node, req1, c1\<lparr>cm := m\<rparr>) })
             else Some (Some (as_leaf sq), as_req sq, c));
          let c2 = (if notify then
               (let (hit, _, c2) = is_cancelled env req1 c1 in
                if hit then c2
                else c2\<lparr>cw := on_token env (rq_id req1) [] True (Some (as_stats sq)) (cw c2)\<rparr>)
             else c1);
          let w = free_sampler env (as_sampler sq) (cw c2);
          m1 \<leftarrow> release_sequence (env_ops env) (cm c2) (as_seq_id sq) node;
          m2 \<leftarrow> release_reference m1 (Some (as_leaf sq));
          Some (c2\<lparr>cm := m2, cw := w\<rparr>) }"

definition drop_prefill ::
  "('kv, 'w) worker_env \<Rightarrow> prefill_ctx \<Rightarrow> ('kv, 'w) core \<Rightarrow> ('kv, 'w) core option" where
  "drop_prefill env ctx c =
     do { m1 \<leftarrow> release_sequence (env_ops env) (cm c) (res_seq_id (pc_prep ctx)) (Some (leaf_node (pc_prep ctx)));
          m2 \<leftarrow> release_reference m1 (Some (leaf_node (pc_prep ctx)));
          Some (c\<lparr>cm := m2\<rparr>) }"

definition fail_active ::
  "('kv, 'w) worker_env \<Rightarrow> string \<Rightarrow> int \<Rightarrow> active_seq \<Rightarrow> ('kv, 'w) core \<Rightarrow> ('kv, 'w) core option" where
  "fail_active env message status sq c =
     (let (hit, req, c1) = is_cancelled env (as_req sq) c;
          c2 = (if hit then c1 else report_error env req message status c1);
          w = free_sampler env (as_sampler sq) (cw c2) in
      do { m1 \<leftarrow> release_sequence (env_ops env) (cm c2) (as_seq_id sq) (Some (as_leaf sq));
           m2 \<leftarrow> release_reference m1 (Some (as_leaf sq));
           Some (c2\<lparr>cm := m2, cw := w\<rparr>) })"

definition fail_prefill ::
  "('kv, 'w) worker_env \<Rightarrow> string \<Rightarrow> int \<Rightarrow> prefill_ctx \<Rightarrow> ('kv, 'w) core \<Rightarrow> ('kv, 'w) core option" where
  "fail_prefill env message status ctx c =
     (let (hit, req, c1) = is_cancelled env (pc_req ctx) c;
          c2 = (if hit then c1 else report_error env req message status c1) in
      drop_prefill env ctx c2)"

fun each :: "('a \<Rightarrow> 'c \<Rightarrow> 'c option) \<Rightarrow> 'a list \<Rightarrow> 'c \<Rightarrow> 'c option" where
  "each f [] c = Some c"
| "each f (x # xs) c = do { c' \<leftarrow> f x c; each f xs c' }"

section \<open>The fused decode step\<close>

subsection \<open>Cancelled requests leave\<close>

fun poll_active ::
  "('kv, 'w) worker_env \<Rightarrow> active_seq list \<Rightarrow> ('kv, 'w) core \<Rightarrow> active_seq list \<times> ('kv, 'w) core" where
  "poll_active env [] c = ([], c)"
| "poll_active env (sq # seqs) c =
     (let (hit, req, c1) = is_cancelled env (as_req sq) c; (rest, c2) = poll_active env seqs c1 in
      (sq\<lparr>as_req := req, as_done := as_done sq \<or> hit\<rparr> # rest, c2))"

fun retire_done ::
  "('kv, 'w) worker_env \<Rightarrow> active_seq list \<Rightarrow> ('kv, 'w) core \<Rightarrow> (active_seq list \<times> ('kv, 'w) core) option" where
  "retire_done env [] c = Some ([], c)"
| "retire_done env (sq # seqs) c =
     (if as_done sq
      then do { c1 \<leftarrow> retire env sq False c; retire_done env seqs c1 }
      else do { (rest, c1) \<leftarrow> retire_done env seqs c; Some (sq # rest, c1) })"

fun drop_cancelled ::
  "('kv, 'w) worker_env \<Rightarrow> prefill_ctx list \<Rightarrow> ('kv, 'w) core \<Rightarrow> (prefill_ctx list \<times> ('kv, 'w) core) option" where
  "drop_cancelled env [] c = Some ([], c)"
| "drop_cancelled env (ctx # ctxs) c =
     (let (hit, req, c1) = is_cancelled env (pc_req ctx) c in
      if hit then do { c2 \<leftarrow> drop_prefill env ctx c1; drop_cancelled env ctxs c2 }
      else do { (rest, c2) \<leftarrow> drop_cancelled env ctxs c1; Some (ctx\<lparr>pc_req := req\<rparr> # rest, c2) })"

subsection \<open>The batch\<close>

definition decode_entry :: "active_seq \<Rightarrow> batch_entry" where
  "decode_entry sq = \<lparr>b_token = next_token sq, b_pos = as_pos sq, b_seq = as_seq_id sq, b_logits = True\<rparr>"

text \<open>The entries of \<open>n\<close> delta tokens of a prompt, from the \<open>start\<close>-th on.\<close>

definition prompt_entries :: "prefill_ctx \<Rightarrow> nat \<Rightarrow> nat \<Rightarrow> bool \<Rightarrow> batch_entry list" where
  "prompt_entries ctx start n completes =
     map (\<lambda>k. \<lparr>b_token = delta (pc_prep ctx) ! (start + k), b_pos = cached_pos (pc_prep ctx) + int (start + k),
               b_seq = res_seq_id (pc_prep ctx), b_logits = completes \<and> k = n - 1\<rparr>) [0..<n]"

text \<open>
  The prompts in order, as long as capacity is left: \<open>used\<close> prompt tokens and \<open>idx\<close> batch
  entries are already taken, \<open>i\<close> is the index of the first context of the list.
\<close>

fun submit_prompts ::
  "int \<Rightarrow> nat \<Rightarrow> prefill_ctx list \<Rightarrow> int \<Rightarrow> int \<Rightarrow> batch_entry list \<times> prompt_submission list \<times> int" where
  "submit_prompts capacity i [] used idx = ([], [], used)"
| "submit_prompts capacity i (ctx # ctxs) used idx =
     (if used < capacity then
        (let remaining_now = int (length (delta (pc_prep ctx))) - delta_start ctx in
         if remaining_now \<le> 0 then submit_prompts capacity (Suc i) ctxs used idx
         else
           let n = min remaining_now (capacity - used);
               completes = (n = remaining_now);
               (entries, subs, total) = submit_prompts capacity (Suc i) ctxs (used + n) (idx + n) in
           (prompt_entries ctx (nat (delta_start ctx)) (nat n) completes @ entries,
            \<lparr>ctx_index = i, sub_tokens = n, logit_index = (if completes then idx + n - 1 else -1)\<rparr> # subs,
            total))
      else ([], [], used))"

definition build_batch ::
  "int \<Rightarrow> active_seq list \<Rightarrow> prefill_ctx list \<Rightarrow> batch_entry list \<times> prompt_submission list \<times> int" where
  "build_batch capacity seqs ctxs =
     (let (entries, subs, total) = submit_prompts capacity 0 ctxs 0 (int (length seqs)) in
      (map decode_entry seqs @ entries, subs, total))"

text \<open>\<open>llama_decode\<close>, tried again after an eviction when the KV memory is full.\<close>

definition decode_with_retry ::
  "('kv, 'w) worker_env \<Rightarrow> batch_entry list \<Rightarrow> ('kv, 'w) core \<Rightarrow> (int \<times> ('kv, 'w) core) option" where
  "decode_with_retry env batch c =
     (let (status, kv1, w1) = llama_decode env batch (kv (cm c)) (cw c);
          c1 = c\<lparr>cm := (cm c)\<lparr>kv := kv1\<rparr>, cw := w1\<rparr> in
      if status = 1 then
        do { (m, evicted) \<leftarrow> evict_idle_sequence (env_ops env) (cm c1);
             if evicted then
               (let (status2, kv2, w2) = llama_decode env batch (kv m) (cw c1) in
                Some (status2, c1\<lparr>cm := m\<lparr>kv := kv2\<rparr>, cw := w2\<rparr>))
             else Some (status, c1\<lparr>cm := m\<rparr>) }
      else Some (status, c1))"

subsection \<open>After the decode\<close>

text \<open>The chunks that were submitted; the second result holds the logit index of each context.\<close>

fun finish_chunks ::
  "prompt_submission list \<Rightarrow> prefill_ctx list \<Rightarrow> int list \<Rightarrow> ('kv, 'w) core \<Rightarrow>
     (prefill_ctx list \<times> int list \<times> ('kv, 'w) core) option" where
  "finish_chunks [] ctxs logits c = Some (ctxs, logits, c)"
| "finish_chunks (sub # subs) ctxs logits c =
     (if ctx_index sub < length ctxs then
        (let ctx = ctxs ! ctx_index sub;
             ctx' = ctx\<lparr>delta_start := delta_start ctx + sub_tokens sub\<rparr>;
             ctxs' = ctxs[ctx_index sub := ctx'] in
         if delta_start ctx' = int (length (delta (pc_prep ctx'))) then
           do { m \<leftarrow> mark_sequence_ready (cm c) (res_seq_id (pc_prep ctx')) (Some (leaf_node (pc_prep ctx')));
                finish_chunks subs ctxs' (logits[ctx_index sub := logit_index sub]) (c\<lparr>cm := m\<rparr>) }
         else finish_chunks subs ctxs' logits c)
      else None)"

definition count_predicted :: "inference_stats \<Rightarrow> inference_stats" where
  "count_predicted st = st\<lparr>predicted_n := predicted_n st + 1\<rparr>"

text \<open>One generated token of the \<open>i\<close>-th sequence of the batch.\<close>

definition generate_one ::
  "('kv, 'w) worker_env \<Rightarrow> nat \<Rightarrow> active_seq \<Rightarrow> ('kv, 'w) core \<Rightarrow> active_seq \<times> ('kv, 'w) core" where
  "generate_one env i sq c =
     (let sq1 = sq\<lparr>cached_tokens := cached_tokens sq @ [next_token sq]\<rparr>;
          m = set_sequence_cell_count (cm c) (as_seq_id sq) (as_pos sq + 1);
          (new_tok, w) = sample env (as_sampler sq) (int i) (cw c);
          c1 = c\<lparr>cm := m, cw := w\<rparr> in
      if is_eog env new_tok then (sq1\<lparr>as_done := True, notify_on_retire := True\<rparr>, c1)
      else
        let sq2 = sq1\<lparr>as_stats := count_predicted (as_stats sq1), as_remaining := as_remaining sq1 - 1\<rparr>;
            last_one = (as_remaining sq2 = 0);
            (hit, req, c2) = is_cancelled env (as_req sq2) c1;
            sq3 = sq2\<lparr>as_req := req\<rparr>;
            c3 = (if hit then c2 else
                  c2\<lparr>cw := on_token env (rq_id req) (token_piece env new_tok) last_one
                            (if last_one then Some (as_stats sq3) else None) (cw c2)\<rparr>) in
        if last_one then (sq3\<lparr>as_done := True\<rparr>, c3)
        else
          let (hit2, req2, c4) = is_cancelled env req c3; sq4 = sq3\<lparr>as_req := req2\<rparr> in
          if hit2 then (sq4\<lparr>as_done := True\<rparr>, c4)
          else (sq4\<lparr>next_token := new_tok, as_pos := as_pos sq4 + 1\<rparr>, c4))"

fun generate_all ::
  "('kv, 'w) worker_env \<Rightarrow> nat \<Rightarrow> active_seq list \<Rightarrow> ('kv, 'w) core \<Rightarrow> active_seq list \<times> ('kv, 'w) core" where
  "generate_all env i [] c = ([], c)"
| "generate_all env i (sq # seqs) c =
     (let (sq', c1) = generate_one env i sq c; (rest, c2) = generate_all env (Suc i) seqs c1 in
      (sq' # rest, c2))"

fun retire_completed ::
  "('kv, 'w) worker_env \<Rightarrow> active_seq list \<Rightarrow> ('kv, 'w) core \<Rightarrow> (active_seq list \<times> ('kv, 'w) core) option" where
  "retire_completed env [] c = Some ([], c)"
| "retire_completed env (sq # seqs) c =
     (if as_done sq then
        (let (_, req, c1) = is_cancelled env (as_req sq) c in
         do { c2 \<leftarrow> retire env (sq\<lparr>as_req := req\<rparr>) (notify_on_retire sq) c1; retire_completed env seqs c2 })
      else do { (rest, c1) \<leftarrow> retire_completed env seqs c; Some (sq # rest, c1) })"

definition new_active :: "prefill_ctx \<Rightarrow> inference_request \<Rightarrow> inference_stats \<Rightarrow> nat \<Rightarrow> token \<Rightarrow> active_seq" where
  "new_active ctx req st smpl tok =
     \<lparr>as_req = req, as_seq_id = res_seq_id (pc_prep ctx), as_leaf = leaf_node (pc_prep ctx),
      as_pos = cached_pos (pc_prep ctx) + int (length (delta (pc_prep ctx))), next_token = tok,
      as_remaining = rq_max_tokens req - 1, as_sampler = smpl, as_done = False,
      notify_on_retire = False, as_stats = st, cached_tokens = pc_tokens ctx\<rparr>"

text \<open>
  A completed prompt: its first token is sampled and sent. The result is the new active
  sequence, if the request goes on.
\<close>

definition start_generation ::
  "('kv, 'w) worker_env \<Rightarrow> prefill_ctx \<Rightarrow> int \<Rightarrow> ('kv, 'w) core \<Rightarrow> (active_seq option \<times> ('kv, 'w) core) option" where
  "start_generation env ctx logit c =
     (let (hit, req, c1) = is_cancelled env (pc_req ctx) c in
      if hit then do { c2 \<leftarrow> drop_prefill env ctx c1; Some (None, c2) }
      else
        let (smpl, w1) = create_sampler env (rq_temperature req) (rq_top_p req) (cw c1);
            (first_tok, w2) = sample env smpl logit w1 in
        if is_eog env first_tok then
          (let w3 = on_token env (rq_id req) [] True (Some (pc_stats ctx)) w2;
               w4 = free_sampler env smpl w3 in
           do { c2 \<leftarrow> drop_prefill env ctx (c1\<lparr>cw := w4\<rparr>); Some (None, c2) })
        else
          let st = (pc_stats ctx)\<lparr>predicted_n := 1\<rparr>;
              first_is_last = (rq_max_tokens req \<le> 1);
              w3 = on_token env (rq_id req) (token_piece env first_tok) first_is_last
                     (if first_is_last then Some st else None) w2 in
          if first_is_last then
            (let w4 = free_sampler env smpl w3 in
             do { c2 \<leftarrow> drop_prefill env ctx (c1\<lparr>cw := w4\<rparr>); Some (None, c2) })
          else Some (Some (new_active ctx req st smpl first_tok), c1\<lparr>cw := w3\<rparr>))"

text \<open>The contexts that remain, and the new active sequences.\<close>

fun start_all ::
  "('kv, 'w) worker_env \<Rightarrow> (prefill_ctx \<times> int) list \<Rightarrow> ('kv, 'w) core \<Rightarrow>
     (prefill_ctx list \<times> active_seq list \<times> ('kv, 'w) core) option" where
  "start_all env [] c = Some ([], [], c)"
| "start_all env ((ctx, logit) # rest) c =
     (if logit < 0 then do { (keep, new, c1) \<leftarrow> start_all env rest c; Some (ctx # keep, new, c1) }
      else do { (started, c1) \<leftarrow> start_generation env ctx logit c;
                (keep, new, c2) \<leftarrow> start_all env rest c1;
                Some (keep, (case started of None \<Rightarrow> new | Some sq \<Rightarrow> sq # new), c2) })"

subsection \<open>The step\<close>

text \<open>The counters of the worker after a successful decode of \<open>prompt_total\<close> prompt tokens.\<close>

definition count_step :: "int \<Rightarrow> ('kv, 'w) core \<Rightarrow> ('kv, 'w) core" where
  "count_step prompt_total c =
     (let c1 = c\<lparr>decode_steps := decode_steps c + 1\<rparr> in
      if prompt_total > 0
      then c1\<lparr>prefill_tokens := prefill_tokens c + prompt_total, prefill_calls := prefill_calls c + 1\<rparr>
      else c1)"

text \<open>What follows a decode with the given status.\<close>

definition after_decode ::
  "('kv, 'w) worker_env \<Rightarrow> int \<Rightarrow> int \<Rightarrow> prompt_submission list \<Rightarrow> active_seq list \<Rightarrow> prefill_ctx list \<Rightarrow>
     ('kv, 'w) core \<Rightarrow> (active_seq list \<times> prefill_ctx list \<times> ('kv, 'w) core) option" where
  "after_decode env status prompt_total subs seqs ctxs c =
     (if status = 1 then
        (if seqs \<noteq> [] then
           do { c1 \<leftarrow> fail_active env ''KV cache is full'' 503 (last seqs) c; Some (butlast seqs, ctxs, c1) }
         else if ctxs \<noteq> [] then
           do { c1 \<leftarrow> fail_prefill env ''KV cache is full'' 503 (last ctxs) c; Some (seqs, butlast ctxs, c1) }
         else Some (seqs, ctxs, c))
      else if status \<noteq> 0 then
        do { c1 \<leftarrow> each (fail_active env ''inference decode failed'' 500) seqs c;
             c2 \<leftarrow> each (fail_prefill env ''inference prefill failed'' 500) ctxs c1;
             Some ([], [], c2) }
      else
        do { (ctxs1, logits, c1) \<leftarrow> finish_chunks subs ctxs (replicate (length ctxs) (-1)) (count_step prompt_total c);
             let (seqs1, c2) = generate_all env 0 seqs c1;
             (seqs2, c3) \<leftarrow> retire_completed env seqs1 c2;
             (ctxs2, new, c4) \<leftarrow> start_all env (zip ctxs1 logits) c3;
             Some (seqs2 @ new, ctxs2, c4) })"

definition fused_step ::
  "('kv, 'w) worker_env \<Rightarrow> active_seq list \<Rightarrow> prefill_ctx list \<Rightarrow> ('kv, 'w) core \<Rightarrow>
     (active_seq list \<times> prefill_ctx list \<times> ('kv, 'w) core) option" where
  "fused_step env seqs0 ctxs0 c0 =
     (let (polled, c1) = poll_active env seqs0 c0 in
      do { (seqs, c2) \<leftarrow> retire_done env polled c1;
           (ctxs, c3) \<leftarrow> drop_cancelled env ctxs0 c2;
           let decoding = int (length seqs);
           let capacity = env_n_batch env - decoding;
           if decoding = 0 \<and> (ctxs = [] \<or> capacity \<le> 0) then Some (seqs, ctxs, c3)
           else
             (let (batch, subs, prompt_total) = build_batch capacity seqs ctxs in
              if batch = [] then Some (seqs, ctxs, c3)
              else do { (status, c4) \<leftarrow> decode_with_retry env batch c3;
                        after_decode env status prompt_total subs seqs ctxs c4 }) })"

section \<open>The loop\<close>

record ('kv, 'w) worker_state =
  queue :: "inference_request list"
  active :: "active_seq list"
  prefilling :: "prefill_ctx list"
  generating :: nat
  wcore :: "('kv, 'w) core"

definition enqueue :: "inference_request \<Rightarrow> ('kv, 'w) worker_state \<Rightarrow> ('kv, 'w) worker_state" where
  "enqueue req s = s\<lparr>queue := queue s @ [req]\<rparr>"

definition defer_to_front :: "inference_request list \<Rightarrow> inference_request list \<Rightarrow> inference_request list" where
  "defer_to_front deferred q = fold (#) (rev deferred) q"

text \<open>The requests taken from the queue, at most as many as there are free sequence slots.\<close>

definition admit_count :: "('kv, 'w) worker_env \<Rightarrow> ('kv, 'w) worker_state \<Rightarrow> nat" where
  "admit_count env s =
     min (length (queue s)) (nat (env_n_seq_max env - 1 - int (length (active s) + length (prefilling s))))"

definition run_iteration ::
  "('kv, 'w) worker_env \<Rightarrow> ('kv, 'w) worker_state \<Rightarrow> ('kv, 'w) worker_state option" where
  "run_iteration env s =
     (let n = admit_count env s; admitted = take n (queue s); q = drop n (queue s) in
      do { (ctxs, deferred, queued, c1) \<leftarrow> prepare_all env admitted (wcore s);
           (seqs, pre, c2) \<leftarrow> fused_step env (active s) (prefilling s @ ctxs) c1;
           Some \<lparr>queue = defer_to_front (queued @ deferred) q, active = seqs, prefilling = pre,
                 generating = length seqs, wcore = c2\<rparr> })"

text \<open>When the server stops, whatever is still being served is given back.\<close>

definition shutdown ::
  "('kv, 'w) worker_env \<Rightarrow> ('kv, 'w) worker_state \<Rightarrow> ('kv, 'w) worker_state option" where
  "shutdown env s =
     do { c1 \<leftarrow> each (\<lambda>sq. retire env sq False) (active s) (wcore s);
          c2 \<leftarrow> each (drop_prefill env) (prefilling s) c1;
          Some (s\<lparr>active := [], prefilling := [], generating := 0, wcore := c2\<rparr>) }"

end
