(* ===== verification/RF_WorkerEnd.thy ===== *)
theory RF_WorkerEnd
  imports RF_Service RF_Worker
begin

text \<open>
  The worker against the contract of the mapper. The locale \<open>sequence_service\<close> states what
  the worker relies on: \<open>serving m L\<close> says that the mapper \<open>m\<close> serves exactly the leases \<open>L\<close>,
  and each operation of the mapper turns it into \<open>serving\<close> of the leases after the operation.
  Inside the locale the worker's functions are shown to return and to keep their vectors in
  step with the leases. The interpretation instantiates the contract with the reachable
  states of the protocol.
\<close>

section \<open>The contract\<close>

locale sequence_service =
  fixes ops :: "'kv kv_ops" and cells :: "'kv cell_view"
    and serving :: "'kv kv_mapper \<Rightarrow> lease multiset \<Rightarrow> bool"
  assumes prepare: "serving m L \<Longrightarrow> \<exists>m' res. prepare_sequence ops m prompt = Some (m', res) \<and>
      (case res of
         Inl _ \<Rightarrow> serving m' L
       | Inr r \<Rightarrow> serving m' (add_mset (pending_lease (res_seq_id r) (leaf_node r) prompt (cached_pos r)) L) \<and>
           0 \<le> cached_pos r \<and> cached_pos r \<le> int (length prompt) \<and> delta r = drop (nat (cached_pos r)) prompt)"
    and inspect: "serving m L \<Longrightarrow> \<exists>av. mapper_inspect_prefix m prompt = Some av"
    and give_back: "serving m (add_mset l L) \<Longrightarrow>
      \<exists>m1 m2. release_sequence ops m (l_seq l) (Some (l_leaf l)) = Some m1 \<and>
        release_reference m1 (Some (l_leaf l)) = Some m2 \<and> serving m2 L"
    and finish: "serving m (add_mset l L) \<Longrightarrow> l_ready l \<Longrightarrow> l_cells l \<noteq> [] \<Longrightarrow>
      \<exists>m0 node m1 m2. extend_sequence m (l_seq l) (Some (l_leaf l)) (l_cells l) = Some (m0, node) \<and>
        release_sequence ops m0 (l_seq l) node = Some m1 \<and>
        release_reference m1 (Some (l_leaf l)) = Some m2 \<and> serving m2 L"
    and make_ready: "serving m (add_mset l L) \<Longrightarrow> l_cells l = l_prompt l \<Longrightarrow>
      \<exists>m'. mark_sequence_ready m (l_seq l) (Some (l_leaf l)) = Some m' \<and>
        serving m' (add_mset (l\<lparr>l_ready := True\<rparr>) L)"
    and count_cells: "serving m L \<Longrightarrow> serving (set_sequence_cell_count m s n) L"
    and evict_idle: "serving m L \<Longrightarrow> \<exists>m' b. evict_idle_sequence ops m = Some (m', b) \<and> serving m' L"
    and decoded: "serving m L \<Longrightarrow>
      (\<And>l. l \<in># L \<Longrightarrow> holds_exactly (cells kv' (l_seq l)) (l_cells l @ xs (l_seq l)) \<and>
         (l_ready l \<or> prefix (l_cells l @ xs (l_seq l)) (l_prompt l))) \<Longrightarrow>
      (\<And>s. s \<notin> l_seq ` set_mset L \<Longrightarrow> cells kv' s = cells (kv m) s) \<Longrightarrow>
      serving (m\<lparr>kv := kv'\<rparr>) (image_mset (append_cells xs) L)"
    and lease_cells: "serving m L \<Longrightarrow> l \<in># L \<Longrightarrow> holds_exactly (cells (kv m) (l_seq l)) (l_cells l) \<and>
      (\<not> l_ready l \<longrightarrow> prefix (l_cells l) (l_prompt l))"
    and lease_distinct: "serving m (mset ls) \<Longrightarrow> distinct (map l_seq ls)"
begin

end

section \<open>Vectors and leases\<close>

text \<open>An active sequence and its lease; \<open>fresh\<close> when its position is that of the next cell.\<close>

definition match_active :: "active_seq \<Rightarrow> lease \<Rightarrow> bool" where
  "match_active sq l \<longleftrightarrow> l_seq l = as_seq_id sq \<and> l_leaf l = as_leaf sq \<and> l_cells l = cached_tokens sq \<and>
     l_ready l \<and> cached_tokens sq \<noteq> [] \<and> (\<not> as_done sq \<longrightarrow> as_pos sq = int (length (cached_tokens sq)))"

definition ctx_ok :: "prefill_ctx \<Rightarrow> bool" where
  "ctx_ok ctx \<longleftrightarrow> 0 \<le> cached_pos (pc_prep ctx) \<and> cached_pos (pc_prep ctx) \<le> int (length (pc_tokens ctx)) \<and>
     delta (pc_prep ctx) = drop (nat (cached_pos (pc_prep ctx))) (pc_tokens ctx) \<and> delta (pc_prep ctx) \<noteq> [] \<and>
     0 \<le> delta_start ctx \<and> delta_start ctx \<le> int (length (delta (pc_prep ctx)))"

definition match_prefill :: "prefill_ctx \<Rightarrow> lease \<Rightarrow> bool" where
  "match_prefill ctx l \<longleftrightarrow> ctx_ok ctx \<and> l_seq l = res_seq_id (pc_prep ctx) \<and> l_leaf l = leaf_node (pc_prep ctx) \<and>
     l_prompt l = pc_tokens ctx \<and> l_cells l = take (nat (cached_pos (pc_prep ctx) + delta_start ctx)) (pc_tokens ctx) \<and>
     (l_ready l \<longleftrightarrow> delta_start ctx = int (length (delta (pc_prep ctx))))"

definition pending_ctx :: "prefill_ctx \<Rightarrow> lease \<Rightarrow> bool" where
  "pending_ctx ctx l \<longleftrightarrow> match_prefill ctx l \<and> \<not> l_ready l"

lemma pending_ctx_req [simp]: "pending_ctx (ctx\<lparr>pc_req := req\<rparr>) l = pending_ctx ctx l"
  by (simp add: pending_ctx_def match_prefill_def ctx_ok_def)

lemma is_cancelled_core [simp]: "cm (snd (snd (is_cancelled env req c))) = cm c"
  by (simp add: is_cancelled_def Let_def split: prod.splits)

lemma is_cancelled_cm: "is_cancelled env req c = (hit, req', c') \<Longrightarrow> cm c' = cm c"
  using is_cancelled_core [of env req c] by simp

lemma report_error_cm [simp]: "cm (report_error env req msg st c) = cm c"
  by (simp add: report_error_def)

section \<open>Endings\<close>

context sequence_service
begin

lemma drop_prefill_ok:
  assumes "env_ops env = ops" "serving (cm c) (add_mset l R)"
    and "l_seq l = res_seq_id (pc_prep ctx)" "l_leaf l = leaf_node (pc_prep ctx)"
  shows "\<exists>c'. drop_prefill env ctx c = Some c' \<and> serving (cm c') R"
  using give_back [OF assms(2)] assms by (auto simp: drop_prefill_def)

lemma retire_ok:
  assumes "env_ops env = ops" "serving (cm c) (add_mset l R)"
    and "l_seq l = as_seq_id sq" "l_leaf l = as_leaf sq" "l_cells l = cached_tokens sq" "l_ready l" "l_cells l \<noteq> []"
  shows "\<exists>c'. retire env sq notify c = Some c' \<and> serving (cm c') R"
proof -
  obtain hit req c1 where p: "is_cancelled env (as_req sq) c = (hit, req, c1)" by (cases "is_cancelled env (as_req sq) c")
  then have cm1: "cm c1 = cm c" by (rule is_cancelled_cm)
  show ?thesis
  proof (cases "notify \<and> \<not> hit")
    case True
    obtain m0 node m1 m2 where f: "extend_sequence (cm c) (as_seq_id sq) (Some (as_leaf sq)) (cached_tokens sq) = Some (m0, node)"
      "release_sequence ops m0 (as_seq_id sq) node = Some m1" "release_reference m1 (Some (as_leaf sq)) = Some m2" "serving m2 R"
      using finish [OF assms(2,6,7)] assms(3-5) by auto
    then show ?thesis using True p cm1 assms(1)
      by (auto simp: retire_def Let_def is_cancelled_cm split: prod.splits if_splits dest!: is_cancelled_cm)
  next
    case False
    obtain m1 m2 where g: "release_sequence ops (cm c) (as_seq_id sq) (Some (as_leaf sq)) = Some m1"
      "release_reference m1 (Some (as_leaf sq)) = Some m2" "serving m2 R"
      using give_back [OF assms(2)] assms(3,4) by auto
    then show ?thesis using False p cm1 assms(1)
      by (auto simp: retire_def Let_def split: prod.splits if_splits dest!: is_cancelled_cm)
  qed
qed

end

context sequence_service
begin

lemma match_activeD:
  "match_active sq l \<Longrightarrow> l_seq l = as_seq_id sq" "match_active sq l \<Longrightarrow> l_leaf l = as_leaf sq"
  "match_active sq l \<Longrightarrow> l_cells l = cached_tokens sq" "match_active sq l \<Longrightarrow> l_ready l"
  "match_active sq l \<Longrightarrow> l_cells l \<noteq> []"
  by (simp_all add: match_active_def)

lemma fail_active_ok:
  assumes "env_ops env = ops" "serving (cm c) (add_mset l R)"
    and "l_seq l = as_seq_id sq" "l_leaf l = as_leaf sq"
  shows "\<exists>c'. fail_active env msg st sq c = Some c' \<and> serving (cm c') R"
  using give_back [OF assms(2)] assms
  by (auto simp: fail_active_def Let_def split: prod.splits dest!: is_cancelled_cm)

lemma fail_prefill_ok:
  assumes "env_ops env = ops" "serving (cm c) (add_mset l R)"
    and "l_seq l = res_seq_id (pc_prep ctx)" "l_leaf l = leaf_node (pc_prep ctx)"
  shows "\<exists>c'. fail_prefill env msg st ctx c = Some c' \<and> serving (cm c') R"
proof -
  obtain hit req c1 where p: "is_cancelled env (pc_req ctx) c = (hit, req, c1)" by (cases "is_cancelled env (pc_req ctx) c")
  then have "serving (cm (if hit then c1 else report_error env req msg st c1)) (add_mset l R)"
    using assms(2) by (simp add: is_cancelled_cm)
  from drop_prefill_ok [OF assms(1) this assms(3,4)] show ?thesis using p by (simp add: fail_prefill_def)
qed

text \<open>Giving back everything a vector holds.\<close>

lemma each_ok:
  assumes step: "\<And>x l c R. Q x l \<Longrightarrow> serving (cm c) (add_mset l R) \<Longrightarrow> \<exists>c'. f x c = Some c' \<and> serving (cm c') R"
  shows "list_all2 Q xs ls \<Longrightarrow> serving (cm c) (mset ls + R) \<Longrightarrow> \<exists>c'. each f xs c = Some c' \<and> serving (cm c') R"
proof (induction xs ls arbitrary: c rule: list_all2_induct)
  case Nil then show ?case by simp
next
  case (Cons x xs l ls)
  then obtain c1 where "f x c = Some c1" "serving (cm c1) (mset ls + R)"
    using step [of x l c "mset ls + R"] by auto
  then show ?case using Cons.IH by auto
qed

section \<open>Cancelled and completed requests leave\<close>

lemma poll_active_ok:
  "list_all2 match_active seqs las \<Longrightarrow> poll_active env seqs c = (seqs', c') \<Longrightarrow>
   list_all2 match_active seqs' las \<and> cm c' = cm c"
proof (induction seqs arbitrary: las c seqs' c')
  case Nil then show ?case by simp
next
  case (Cons sq seqs)
  obtain hit req c1 where p: "is_cancelled env (as_req sq) c = (hit, req, c1)" by (cases "is_cancelled env (as_req sq) c")
  obtain rest c2 where r: "poll_active env seqs c1 = (rest, c2)" by (cases "poll_active env seqs c1")
  obtain l ls where las: "las = l # ls" "match_active sq l" "list_all2 match_active seqs ls"
    using Cons.prems(1) by (auto simp: list_all2_Cons1)
  from Cons.IH [OF las(3) r] show ?case
    using Cons.prems(2) p r las by (auto simp: match_active_def is_cancelled_cm)
qed

lemma retire_done_ok:
  "env_ops env = ops \<Longrightarrow> list_all2 match_active seqs las \<Longrightarrow> serving (cm c) (mset las + R) \<Longrightarrow>
   \<exists>seqs' las' c'. retire_done env seqs c = Some (seqs', c') \<and> list_all2 match_active seqs' las' \<and>
     serving (cm c') (mset las' + R) \<and> (\<forall>sq \<in> set seqs'. \<not> as_done sq) \<and> length seqs' \<le> length seqs"
proof (induction seqs arbitrary: las c R)
  case Nil then show ?case by auto
next
  case (Cons sq seqs)
  obtain l ls where las: "las = l # ls" "match_active sq l" "list_all2 match_active seqs ls"
    using Cons.prems(2) by (auto simp: list_all2_Cons1)
  show ?case
  proof (cases "as_done sq")
    case True
    have "serving (cm c) (add_mset l (mset ls + R))" using Cons.prems(3) las(1) by simp
    from retire_ok [OF Cons.prems(1) this] obtain c1 where
      c1: "retire env sq False c = Some c1" "serving (cm c1) (mset ls + R)"
      using match_activeD [OF las(2)] by metis
    from Cons.IH [OF Cons.prems(1) las(3) c1(2)] show ?thesis using c1(1) True by fastforce
  next
    case False
    have "serving (cm c) (mset ls + add_mset l R)" using Cons.prems(3) las(1) by simp
    from Cons.IH [OF Cons.prems(1) las(3) this] obtain seqs' las' c' where
      r: "retire_done env seqs c = Some (seqs', c')" "list_all2 match_active seqs' las'"
      "serving (cm c') (mset las' + add_mset l R)" "\<forall>sq \<in> set seqs'. \<not> as_done sq" "length seqs' \<le> length seqs"
      by blast
    then show ?thesis using False las(2)
      by (intro exI [of _ "sq # seqs'"] exI [of _ "l # las'"] exI [of _ c']) auto
  qed
qed

lemma retire_completed_ok:
  "env_ops env = ops \<Longrightarrow> list_all2 match_active seqs las \<Longrightarrow> serving (cm c) (mset las + R) \<Longrightarrow>
   \<exists>seqs' las' c'. retire_completed env seqs c = Some (seqs', c') \<and> list_all2 match_active seqs' las' \<and>
     serving (cm c') (mset las' + R) \<and> (\<forall>sq \<in> set seqs'. \<not> as_done sq) \<and> length seqs' \<le> length seqs"
proof (induction seqs arbitrary: las c R)
  case Nil then show ?case by auto
next
  case (Cons sq seqs)
  obtain l ls where las: "las = l # ls" "match_active sq l" "list_all2 match_active seqs ls"
    using Cons.prems(2) by (auto simp: list_all2_Cons1)
  show ?case
  proof (cases "as_done sq")
    case True
    obtain hit req c0 where p: "is_cancelled env (as_req sq) c = (hit, req, c0)" by (cases "is_cancelled env (as_req sq) c")
    have "serving (cm c0) (add_mset l (mset ls + R))" using Cons.prems(3) las(1) is_cancelled_cm [OF p] by simp
    from retire_ok [OF Cons.prems(1) this, of "sq\<lparr>as_req := req\<rparr>" "notify_on_retire sq"] obtain c1 where
      c1: "retire env (sq\<lparr>as_req := req\<rparr>) (notify_on_retire sq) c0 = Some c1" "serving (cm c1) (mset ls + R)"
      using match_activeD [OF las(2)] by auto
    from Cons.IH [OF Cons.prems(1) las(3) c1(2)] show ?thesis using c1(1) True p by fastforce
  next
    case False
    have "serving (cm c) (mset ls + add_mset l R)" using Cons.prems(3) las(1) by simp
    from Cons.IH [OF Cons.prems(1) las(3) this] obtain seqs' las' c' where
      r: "retire_completed env seqs c = Some (seqs', c')" "list_all2 match_active seqs' las'"
      "serving (cm c') (mset las' + add_mset l R)" "\<forall>sq \<in> set seqs'. \<not> as_done sq" "length seqs' \<le> length seqs"
      by blast
    then show ?thesis using False las(2)
      by (intro exI [of _ "sq # seqs'"] exI [of _ "l # las'"] exI [of _ c']) auto
  qed
qed

lemma pending_ctxD:
  "pending_ctx ctx l \<Longrightarrow> l_seq l = res_seq_id (pc_prep ctx)" "pending_ctx ctx l \<Longrightarrow> l_leaf l = leaf_node (pc_prep ctx)"
  by (simp_all add: pending_ctx_def match_prefill_def)

lemma drop_cancelled_ok:
  "env_ops env = ops \<Longrightarrow> list_all2 pending_ctx ctxs lps \<Longrightarrow> serving (cm c) (mset lps + R) \<Longrightarrow>
   \<exists>ctxs' lps' c'. drop_cancelled env ctxs c = Some (ctxs', c') \<and> list_all2 pending_ctx ctxs' lps' \<and>
     serving (cm c') (mset lps' + R) \<and> length ctxs' \<le> length ctxs"
proof (induction ctxs arbitrary: lps c R)
  case Nil then show ?case by auto
next
  case (Cons ctx ctxs)
  obtain l ls where lps: "lps = l # ls" "pending_ctx ctx l" "list_all2 pending_ctx ctxs ls"
    using Cons.prems(2) by (auto simp: list_all2_Cons1)
  obtain hit req c0 where p: "is_cancelled env (pc_req ctx) c = (hit, req, c0)" by (cases "is_cancelled env (pc_req ctx) c")
  have c0: "serving (cm c0) (add_mset l (mset ls + R))" using Cons.prems(3) lps(1) is_cancelled_cm [OF p] by simp
  show ?case
  proof (cases hit)
    case True
    obtain c1 where c1: "drop_prefill env ctx c0 = Some c1" "serving (cm c1) (mset ls + R)"
      using drop_prefill_ok [OF Cons.prems(1) c0 pending_ctxD [OF lps(2)]] by blast
    from Cons.IH [OF Cons.prems(1) lps(3) c1(2)] show ?thesis using c1(1) True p by fastforce
  next
    case False
    have "serving (cm c0) (mset ls + add_mset l R)" using c0 by simp
    from Cons.IH [OF Cons.prems(1) lps(3) this] obtain ctxs' lps' c' where
      r: "drop_cancelled env ctxs c0 = Some (ctxs', c')" "list_all2 pending_ctx ctxs' lps'"
      "serving (cm c') (mset lps' + add_mset l R)" "length ctxs' \<le> length ctxs" by blast
    moreover have "pending_ctx (ctx\<lparr>pc_req := req\<rparr>) l" using lps(2) by simp
    ultimately show ?thesis using False p
      by (intro exI [of _ "ctx\<lparr>pc_req := req\<rparr> # ctxs'"] exI [of _ "l # lps'"] exI [of _ c']) auto
  qed
qed

end

end
