(* ===== verification/RF_WorkerBatch.thy ===== *)
theory RF_WorkerBatch
  imports RF_WorkerEnd
begin

text \<open>
  The batch of the fused step: what the decode does to the leases, and which entries the
  worker puts into the batch for the active sequences and for the chunks of the prompts.
\<close>

section \<open>The decode\<close>

definition of_seq :: "seq_id \<Rightarrow> batch_entry list \<Rightarrow> batch_entry list" where
  "of_seq s batch = filter (\<lambda>e. b_seq e = s) batch"

text \<open>
  What the code relies on from \<open>llama_decode\<close>, as documented in llama.h: for every sequence
  whose entries continue at its next free position, the cells of some of the leading entries
  are written, all of them when the status is 0 and none when it is 1 (no KV slot; the state
  is restored). Sequences without entries keep their cells.
\<close>

definition decode_law :: "('kv, 'w) worker_env \<Rightarrow> 'kv cell_view \<Rightarrow> bool" where
  "decode_law env cells \<longleftrightarrow> (\<forall>batch kv0 w st kv1 w1. llama_decode env batch kv0 w = (st, kv1, w1) \<longrightarrow>
     (\<exists>k. (\<forall>s. of_seq s batch = [] \<longrightarrow> cells kv1 s = cells kv0 s) \<and>
        (\<forall>s xs. holds_exactly (cells kv0 s) xs \<longrightarrow>
           map b_pos (of_seq s batch) = map int [length xs..<length xs + length (of_seq s batch)] \<longrightarrow>
           holds_exactly (cells kv1 s) (xs @ take (k s) (map b_token (of_seq s batch)))) \<and>
        (\<forall>s. (st = 0 \<longrightarrow> length (of_seq s batch) \<le> k s) \<and> (st = 1 \<longrightarrow> k s = 0))))"

text \<open>The entries of one lease in a batch.\<close>

definition entry_fits :: "lease \<Rightarrow> batch_entry list \<Rightarrow> bool" where
  "entry_fits l E \<longleftrightarrow> (\<forall>e \<in> set E. b_seq e = l_seq l) \<and>
     map b_pos E = map int [length (l_cells l)..<length (l_cells l) + length E] \<and>
     (l_ready l \<or> prefix (l_cells l @ map b_token E) (l_prompt l))"

definition taken :: "(seq_id \<Rightarrow> nat) \<Rightarrow> lease \<Rightarrow> batch_entry list \<Rightarrow> lease" where
  "taken k l E = l\<lparr>l_cells := l_cells l @ take (k (l_seq l)) (map b_token E)\<rparr>"

lemma prefix_append_take: "prefix (xs @ ys) p \<Longrightarrow> prefix (xs @ take k ys) p"
  by (rule prefix_order.trans [of _ "xs @ ys"]) (simp_all add: take_is_prefix)

lemma of_seq_none: "\<forall>e \<in> set E. b_seq e = q \<Longrightarrow> q \<noteq> s \<Longrightarrow> of_seq s E = []"
  by (auto simp: of_seq_def filter_empty_conv)

lemma of_seq_append [simp]: "of_seq s (xs @ ys) = of_seq s xs @ of_seq s ys"
  by (simp add: of_seq_def)

lemma of_seq_foreign:
  "list_all2 entry_fits ls Es \<Longrightarrow> s \<notin> l_seq ` set ls \<Longrightarrow> of_seq s (concat Es) = []"
proof (induction ls Es rule: list_all2_induct)
  case Nil then show ?case by (simp add: of_seq_def)
next
  case (Cons l ls E Es)
  then have "of_seq s E = []" by (intro of_seq_none [of E "l_seq l"]) (auto simp: entry_fits_def)
  then show ?case using Cons by simp
qed

lemma of_seq_own:
  "list_all2 entry_fits ls Es \<Longrightarrow> distinct (map l_seq ls) \<Longrightarrow> (l, E) \<in> set (zip ls Es) \<Longrightarrow>
   of_seq (l_seq l) (concat Es) = E"
proof (induction ls Es rule: list_all2_induct)
  case Nil then show ?case by simp
next
  case (Cons l0 ls E0 Es)
  show ?case
  proof (cases "(l, E) = (l0, E0)")
    case True
    have "of_seq (l_seq l0) E0 = E0" using Cons.hyps(1) by (auto simp: of_seq_def entry_fits_def filter_id_conv)
    moreover have "of_seq (l_seq l0) (concat Es) = []"
      using Cons.prems(1) by (intro of_seq_foreign [OF Cons.hyps(2)]) simp
    ultimately show ?thesis using True by simp
  next
    case False
    then have zip: "(l, E) \<in> set (zip ls Es)" using Cons.prems(2) by auto
    then have "l \<in> set ls" by (rule set_zip_leftD)
    then have "l_seq l0 \<noteq> l_seq l" using Cons.prems(1) by auto
    then have "of_seq (l_seq l) E0 = []"
      using Cons.hyps(1) by (intro of_seq_none [of E0 "l_seq l0"]) (auto simp: entry_fits_def)
    then show ?thesis using Cons.IH [OF _ zip] Cons.prems(1) by simp
  qed
qed

lemma map2_eqI:
  "list_all2 Q xs ys \<Longrightarrow> (\<And>x y. (x, y) \<in> set (zip xs ys) \<Longrightarrow> f x = g x y) \<Longrightarrow> map f xs = map2 g xs ys"
  by (induction xs ys rule: list_all2_induct) auto

lemma list_all2_zip: "list_all2 Q xs ys \<Longrightarrow> (x, y) \<in> set (zip xs ys) \<Longrightarrow> Q x y"
  by (induction xs ys rule: list_all2_induct) auto

lemma list_all2_partner: "list_all2 Q xs ys \<Longrightarrow> x \<in> set xs \<Longrightarrow> \<exists>y. (x, y) \<in> set (zip xs ys)"
  by (induction xs ys rule: list_all2_induct) auto

context sequence_service
begin

lemma batch_decode:
  assumes inv: "serving m (mset ls)" and fits: "list_all2 entry_fits ls Es" and law: "decode_law env cells"
    and dec: "llama_decode env (concat Es) (kv m) w = (st, kv', w')"
  shows "\<exists>k. serving (m\<lparr>kv := kv'\<rparr>) (mset (map2 (taken k) ls Es)) \<and>
    (st = 0 \<longrightarrow> (\<forall>(l, E) \<in> set (zip ls Es). length E \<le> k (l_seq l))) \<and> (st = 1 \<longrightarrow> (\<forall>s. k s = 0))"
proof -
  obtain k where k: "\<forall>s. of_seq s (concat Es) = [] \<longrightarrow> cells kv' s = cells (kv m) s"
    "\<forall>s xs. holds_exactly (cells (kv m) s) xs \<longrightarrow>
       map b_pos (of_seq s (concat Es)) = map int [length xs..<length xs + length (of_seq s (concat Es))] \<longrightarrow>
       holds_exactly (cells kv' s) (xs @ take (k s) (map b_token (of_seq s (concat Es))))"
    "\<forall>s. (st = 0 \<longrightarrow> length (of_seq s (concat Es)) \<le> k s) \<and> (st = 1 \<longrightarrow> k s = 0)"
    using law [unfolded decode_law_def, rule_format, OF dec] by (elim exE conjE)
  let ?xs = "\<lambda>s. take (k s) (map b_token (of_seq s (concat Es)))"
  note own = of_seq_own [OF fits lease_distinct [OF inv]]
  have "serving (m\<lparr>kv := kv'\<rparr>) (image_mset (append_cells ?xs) (mset ls))"
  proof (rule decoded [OF inv])
    fix l assume l: "l \<in># mset ls"
    then obtain E where E: "(l, E) \<in> set (zip ls Es)" using list_all2_partner [OF fits] by auto
    have fit: "entry_fits l E" by (rule list_all2_zip [OF fits E])
    have "holds_exactly (cells (kv m) (l_seq l)) (l_cells l)" using lease_cells [OF inv l] by simp
    then have "holds_exactly (cells kv' (l_seq l)) (l_cells l @ ?xs (l_seq l))"
      using k(2) [rule_format, of "l_seq l" "l_cells l"] own [OF E] fit by (simp add: entry_fits_def)
    moreover have "l_ready l \<or> prefix (l_cells l @ ?xs (l_seq l)) (l_prompt l)"
      using fit own [OF E] prefix_append_take by (auto simp: entry_fits_def)
    ultimately show "holds_exactly (cells kv' (l_seq l)) (l_cells l @ ?xs (l_seq l)) \<and>
        (l_ready l \<or> prefix (l_cells l @ ?xs (l_seq l)) (l_prompt l))" by simp
  next
    fix s assume "s \<notin> l_seq ` set_mset (mset ls)"
    then show "cells kv' s = cells (kv m) s" using k(1) of_seq_foreign [OF fits] by simp
  qed
  moreover have "map (append_cells ?xs) ls = map2 (taken k) ls Es"
    using own by (intro map2_eqI [OF fits]) (auto simp: append_cells_def taken_def)
  moreover have "\<forall>(l, E) \<in> set (zip ls Es). length E \<le> k (l_seq l)" if "st = 0"
  proof clarify
    fix l E assume E: "(l, E) \<in> set (zip ls Es)"
    show "length E \<le> k (l_seq l)" using k(3) that own [OF E] by metis
  qed
  ultimately show ?thesis using k(3) by (intro exI [of _ k]) (auto simp flip: mset_map)
qed

lemma taken_none: "(\<And>s. k s = 0) \<Longrightarrow> list_all2 Q ls Es \<Longrightarrow> map2 (taken k) ls Es = ls"
proof -
  assume k: "\<And>s. k s = 0" and q: "list_all2 Q ls Es"
  have "map id ls = map2 (taken k) ls Es" by (rule map2_eqI [OF q]) (simp add: taken_def k)
  then show ?thesis by simp
qed

lemma decode_with_retry_ok:
  assumes env: "env_ops env = ops" "decode_law env cells" and inv: "serving (cm c) (mset ls)"
    and fits: "list_all2 entry_fits ls Es"
  shows "\<exists>st c' k. decode_with_retry env (concat Es) c = Some (st, c') \<and>
    serving (cm c') (mset (map2 (taken k) ls Es)) \<and>
    (st = 0 \<longrightarrow> (\<forall>(l, E) \<in> set (zip ls Es). length E \<le> k (l_seq l))) \<and> (st = 1 \<longrightarrow> (\<forall>s. k s = 0))"
proof -
  obtain st kv1 w1 where d: "llama_decode env (concat Es) (kv (cm c)) (cw c) = (st, kv1, w1)"
    by (cases "llama_decode env (concat Es) (kv (cm c)) (cw c)") auto
  from batch_decode [OF inv fits env(2) d] obtain k where
    k: "serving ((cm c)\<lparr>kv := kv1\<rparr>) (mset (map2 (taken k) ls Es))"
    "st = 0 \<longrightarrow> (\<forall>(l, E) \<in> set (zip ls Es). length E \<le> k (l_seq l))" "st = 1 \<longrightarrow> (\<forall>s. k s = 0)" by blast
  show ?thesis
  proof (cases "st = 1")
    case False then show ?thesis using d k by (auto simp: decode_with_retry_def)
  next
    case True
    then have same: "serving ((cm c)\<lparr>kv := kv1\<rparr>) (mset ls)" using k(1,3) taken_none [OF _ fits] by simp
    obtain m b where m: "evict_idle_sequence ops ((cm c)\<lparr>kv := kv1\<rparr>) = Some (m, b)" "serving m (mset ls)"
      using evict_idle [OF same] by auto
    show ?thesis
    proof (cases b)
      case False
      then show ?thesis using True d m env(1) taken_none [OF _ fits, of "\<lambda>_. 0"]
        by (intro exI [of _ 1] exI exI [of _ "\<lambda>_. 0"]) (auto simp: decode_with_retry_def)
    next
      case b: True
      obtain st2 kv2 w2 where d2: "llama_decode env (concat Es) (kv m) w1 = (st2, kv2, w2)"
        by (cases "llama_decode env (concat Es) (kv m) w1") auto
      from batch_decode [OF m(2) fits env(2) d2] show ?thesis
        using True d m(1) b d2 env(1) by (auto simp: decode_with_retry_def)
    qed
  qed
qed

end

section \<open>The batch that is built\<close>

definition remaining_delta :: "prefill_ctx \<Rightarrow> int" where
  "remaining_delta ctx = int (length (delta (pc_prep ctx))) - delta_start ctx"

text \<open>How many tokens of each prompt are submitted, when \<open>used\<close> are taken already.\<close>

fun chunk_sizes :: "int \<Rightarrow> prefill_ctx list \<Rightarrow> int \<Rightarrow> int list" where
  "chunk_sizes capacity [] used = []"
| "chunk_sizes capacity (ctx # ctxs) used =
     (if used < capacity
      then (let n = max 0 (min (remaining_delta ctx) (capacity - used)) in
            n # chunk_sizes capacity ctxs (used + n))
      else 0 # chunk_sizes capacity ctxs used)"

definition chunk_entries :: "prefill_ctx \<Rightarrow> int \<Rightarrow> batch_entry list" where
  "chunk_entries ctx n = prompt_entries ctx (nat (delta_start ctx)) (nat n) (n = remaining_delta ctx)"

lemma prompt_entries_none [simp]: "prompt_entries ctx start 0 b = []"
  by (simp add: prompt_entries_def)

lemma chunk_entries_none [simp]: "chunk_entries ctx 0 = []"
  by (simp add: chunk_entries_def)

lemma length_chunk_sizes [simp]: "length (chunk_sizes capacity ctxs used) = length ctxs"
  by (induction capacity ctxs used rule: chunk_sizes.induct) (simp_all add: Let_def)

lemma chunks_full: "\<not> used < capacity \<Longrightarrow> concat (map2 chunk_entries ctxs (chunk_sizes capacity ctxs used)) = []"
  by (induction ctxs) simp_all

text \<open>The case of the loop in which a chunk is submitted.\<close>

definition chunk_submission :: "nat \<Rightarrow> prefill_ctx \<Rightarrow> int \<Rightarrow> int \<Rightarrow> prompt_submission" where
  "chunk_submission i ctx n idx = \<lparr>ctx_index = i, sub_tokens = n,
     logit_index = (if n = remaining_delta ctx then idx + n - 1 else -1)\<rparr>"

lemma submit_prompts_chunk:
  assumes "used < capacity" "0 < remaining_delta ctx" and n: "n = min (remaining_delta ctx) (capacity - used)"
    and "submit_prompts capacity (Suc i) ctxs (used + n) (idx + n) = (es, ss, t)"
  shows "submit_prompts capacity i (ctx # ctxs) used idx =
    (chunk_entries ctx n @ es, chunk_submission i ctx n idx # ss, t)"
  using assms(1,2,4) unfolding n
  by (simp add: Let_def remaining_delta_def chunk_entries_def chunk_submission_def del: min_less_iff_conj)

lemma submit_entries:
  "fst (submit_prompts capacity i ctxs used idx) = concat (map2 chunk_entries ctxs (chunk_sizes capacity ctxs used))"
proof (induction capacity i ctxs used idx rule: submit_prompts.induct)
  case 1 then show ?case by simp
next
  case (2 capacity i ctx ctxs used idx)
  consider "\<not> used < capacity" | "used < capacity" "remaining_delta ctx \<le> 0" | "used < capacity" "0 < remaining_delta ctx"
    by linarith
  then show ?case
  proof cases
    case 1 then show ?thesis using chunks_full [of used capacity "ctx # ctxs"] by simp
  next
    case 2 then show ?thesis using "2.IH"(1) by (simp add: Let_def remaining_delta_def)
  next
    case 3
    let ?n = "min (remaining_delta ctx) (capacity - used)"
    obtain es ss t where r: "submit_prompts capacity (Suc i) ctxs (used + ?n) (idx + ?n) = (es, ss, t)"
      by (metis prod_cases3)
    have "es = concat (map2 chunk_entries ctxs (chunk_sizes capacity ctxs (used + ?n)))"
      using "2.IH"(2) [OF 3(1) refl _ refl refl] 3(2) r by (simp add: remaining_delta_def)
    moreover have "max 0 ?n = ?n" using 3 by simp
    ultimately show ?thesis using 3(1) submit_prompts_chunk [OF 3 refl r] by (simp add: Let_def)
  qed
qed

text \<open>The sizes never exceed what the prompts need nor what the batch has room for.\<close>

lemma chunk_sizes_bounds:
  "n \<in> set (chunk_sizes capacity ctxs used) \<Longrightarrow> 0 \<le> n"
  by (induction capacity ctxs used rule: chunk_sizes.induct) (auto simp: Let_def split: if_splits)

lemma chunk_sizes_sum:
  "used \<le> max used capacity \<Longrightarrow> used + sum_list (chunk_sizes capacity ctxs used) \<le> max used capacity"
proof (induction capacity ctxs used rule: chunk_sizes.induct)
  case 1 then show ?case by simp
next
  case (2 capacity ctx ctxs used)
  show ?case
  proof (cases "used < capacity")
    case True
    let ?n = "max 0 (min (remaining_delta ctx) (capacity - used))"
    have "used + ?n + sum_list (chunk_sizes capacity ctxs (used + ?n)) \<le> max (used + ?n) capacity"
      using "2.IH"(1) [OF True refl] by simp
    then show ?thesis using True by (simp add: Let_def)
  next
    case False
    then show ?thesis using "2.IH"(2) by simp
  qed
qed

lemma chunk_size_remaining:
  "(ctx, n) \<in> set (zip ctxs (chunk_sizes capacity ctxs used)) \<Longrightarrow> 0 \<le> remaining_delta ctx \<Longrightarrow> n \<le> remaining_delta ctx"
  by (induction capacity ctxs used rule: chunk_sizes.induct) (auto simp: Let_def split: if_splits)

definition match_chunk :: "prefill_ctx \<Rightarrow> int \<Rightarrow> lease \<Rightarrow> bool" where
  "match_chunk ctx n l \<longleftrightarrow> ctx_ok ctx \<and> 0 < remaining_delta ctx \<and> 0 \<le> n \<and> n \<le> remaining_delta ctx \<and>
     l_seq l = res_seq_id (pc_prep ctx) \<and> l_leaf l = leaf_node (pc_prep ctx) \<and> l_prompt l = pc_tokens ctx \<and>
     l_cells l = take (nat (cached_pos (pc_prep ctx) + delta_start ctx + n)) (pc_tokens ctx) \<and> \<not> l_ready l"

lemma pending_remaining: "pending_ctx ctx l \<Longrightarrow> 0 < remaining_delta ctx"
  by (auto simp: pending_ctx_def match_prefill_def ctx_ok_def remaining_delta_def)

lemma chunk_tokens:
  assumes "ctx_ok ctx" "0 \<le> n" "n \<le> remaining_delta ctx"
  shows "take (nat (cached_pos (pc_prep ctx) + delta_start ctx)) (pc_tokens ctx) @ map b_token (chunk_entries ctx n) =
    take (nat (cached_pos (pc_prep ctx) + delta_start ctx + n)) (pc_tokens ctx)"
proof -
  let ?p = "nat (cached_pos (pc_prep ctx))" and ?d = "nat (delta_start ctx)" and ?n = "nat n"
  have len: "?p + ?d + ?n \<le> length (pc_tokens ctx)"
    using assms by (simp add: ctx_ok_def remaining_delta_def) linarith
  have "map b_token (chunk_entries ctx n) = map (\<lambda>k. pc_tokens ctx ! (?p + ?d + k)) [0..<?n]"
    using assms len by (simp add: chunk_entries_def prompt_entries_def ctx_ok_def add.assoc)
  also have "\<dots> = take ?n (drop (?p + ?d) (pc_tokens ctx))"
    using len by (intro nth_equalityI) simp_all
  finally have "take (?p + ?d) (pc_tokens ctx) @ map b_token (chunk_entries ctx n) = take (?p + ?d + ?n) (pc_tokens ctx)"
    by (simp add: take_add)
  moreover have "nat (cached_pos (pc_prep ctx) + delta_start ctx) = ?p + ?d"
    "nat (cached_pos (pc_prep ctx) + delta_start ctx + n) = ?p + ?d + ?n"
    using assms by (simp_all add: ctx_ok_def nat_add_distrib)
  ultimately show ?thesis by simp
qed

lemma length_chunk_entries [simp]: "length (chunk_entries ctx n) = nat n"
  by (simp add: chunk_entries_def prompt_entries_def)

lemma chunk_fits:
  assumes p: "pending_ctx ctx l" and n: "0 \<le> n" "n \<le> remaining_delta ctx"
  shows "entry_fits l (chunk_entries ctx n)"
proof -
  have ok: "ctx_ok ctx" using p by (simp add: pending_ctx_def match_prefill_def)
  have cells: "l_cells l = take (nat (cached_pos (pc_prep ctx) + delta_start ctx)) (pc_tokens ctx)"
    "l_prompt l = pc_tokens ctx" "l_seq l = res_seq_id (pc_prep ctx)"
    using p by (auto simp: pending_ctx_def match_prefill_def)
  have len: "int (length (l_cells l)) = cached_pos (pc_prep ctx) + delta_start ctx"
    using ok cells by (auto simp: ctx_ok_def)
  have "map b_pos (chunk_entries ctx n) = map int [length (l_cells l)..<length (l_cells l) + nat n]"
  proof (rule nth_equalityI)
    show "length (map b_pos (chunk_entries ctx n)) = length (map int [length (l_cells l)..<length (l_cells l) + nat n])"
      by simp
    fix k assume "k < length (map b_pos (chunk_entries ctx n))"
    then have "k < nat n" by simp
    then show "map b_pos (chunk_entries ctx n) ! k = map int [length (l_cells l)..<length (l_cells l) + nat n] ! k"
      using len ok by (simp add: chunk_entries_def prompt_entries_def ctx_ok_def)
  qed
  moreover have "prefix (l_cells l @ map b_token (chunk_entries ctx n)) (l_prompt l)"
    using chunk_tokens [OF ok n] cells by (simp add: take_is_prefix)
  moreover have "\<forall>e \<in> set (chunk_entries ctx n). b_seq e = l_seq l"
    using cells(3) by (auto simp: chunk_entries_def prompt_entries_def)
  ultimately show ?thesis by (simp add: entry_fits_def)
qed

lemma decode_fits: "match_active sq l \<Longrightarrow> \<not> as_done sq \<Longrightarrow> entry_fits l [decode_entry sq]"
  by (simp add: entry_fits_def decode_entry_def match_active_def)

lemma active_fits:
  "list_all2 match_active seqs las \<Longrightarrow> \<forall>sq \<in> set seqs. \<not> as_done sq \<Longrightarrow>
   list_all2 entry_fits las (map (\<lambda>sq. [decode_entry sq]) seqs)"
  by (induction seqs las rule: list_all2_induct) (auto intro: decode_fits)

lemma prefill_fits:
  "list_all2 pending_ctx ctxs lps \<Longrightarrow> list_all2 entry_fits lps (map2 chunk_entries ctxs (chunk_sizes capacity ctxs used))"
proof (induction ctxs lps arbitrary: used rule: list_all2_induct)
  case Nil then show ?case by simp
next
  case (Cons ctx ctxs l lps)
  then show ?case using pending_remaining [OF Cons.hyps(1)] chunk_fits [OF Cons.hyps(1), of 0]
    by (auto simp: Let_def intro!: chunk_fits)
qed

end
