(* ===== verification/RF_WorkerStep.thy ===== *)
theory RF_WorkerStep
  imports RF_WorkerBatch
begin

text \<open>
  What the fused step does after a decode, the whole step, the admission of requests and the
  iteration of the loop, against the contract of the mapper.
\<close>

section \<open>After a successful decode\<close>

text \<open>A context with the logit index it got, and its lease.\<close>

definition match_finished :: "prefill_ctx \<times> int \<Rightarrow> lease \<Rightarrow> bool" where
  "match_finished = (\<lambda>(ctx, logit) l. match_prefill ctx l \<and> (l_ready l \<longleftrightarrow> 0 \<le> logit))"

lemma advance_unfinished:
  assumes "match_chunk ctx n l" "n < remaining_delta ctx"
  shows "match_finished (ctx\<lparr>delta_start := delta_start ctx + n\<rparr>, -1) l"
  using assms
  by (auto simp: match_finished_def match_chunk_def match_prefill_def ctx_ok_def remaining_delta_def add.assoc)

lemma advance_finished:
  assumes "match_chunk ctx n l" "n = remaining_delta ctx" "0 \<le> lg"
  shows "match_finished (ctx\<lparr>delta_start := delta_start ctx + n\<rparr>, lg) (l\<lparr>l_ready := True\<rparr>)"
  using assms
  by (auto simp: match_finished_def match_chunk_def match_prefill_def ctx_ok_def remaining_delta_def add.assoc)

lemma finished_cells:
  assumes "match_chunk ctx n l" "n = remaining_delta ctx"
  shows "l_cells l = l_prompt l"
proof -
  have ok: "ctx_ok ctx" using assms(1) by (simp add: match_chunk_def)
  have "cached_pos (pc_prep ctx) + delta_start ctx + n = int (length (pc_tokens ctx))"
    using ok assms(2) by (auto simp: ctx_ok_def remaining_delta_def)
  then show ?thesis using assms(1) by (simp add: match_chunk_def)
qed

text \<open>An active sequence whose next token is in the KV memory already.\<close>

definition match_decoded :: "active_seq \<Rightarrow> lease \<Rightarrow> bool" where
  "match_decoded sq l \<longleftrightarrow> l_seq l = as_seq_id sq \<and> l_leaf l = as_leaf sq \<and> l_ready l \<and>
     l_cells l = cached_tokens sq @ [next_token sq] \<and> as_pos sq = int (length (cached_tokens sq))"

context sequence_service
begin

lemma finish_chunks_ok:
  "submit_prompts capacity (length pre) ctxs used idx = (es, subs, t) \<Longrightarrow> 0 \<le> idx \<Longrightarrow> length prel = length pre \<Longrightarrow>
   list_all2 (\<lambda>(ctx, n) l. match_chunk ctx n l) (zip ctxs (chunk_sizes capacity ctxs used)) lps \<Longrightarrow>
   serving (cm c) (mset lps + R) \<Longrightarrow>
   \<exists>ctxs' logits lps' c'. finish_chunks subs (pre @ ctxs) (prel @ replicate (length ctxs) (-1)) c =
       Some (pre @ ctxs', prel @ logits, c') \<and> length ctxs' = length ctxs \<and> length logits = length ctxs \<and>
     list_all2 match_finished (zip ctxs' logits) lps' \<and> serving (cm c') (mset lps' + R)"
proof (induction ctxs arbitrary: pre prel used idx es subs t lps c R)
  case Nil then show ?case by auto
next
  case (Cons ctx ctxs)
  obtain n ns l ls where sizes: "chunk_sizes capacity (ctx # ctxs) used = n # ns" and lps: "lps = l # ls"
    and l: "match_chunk ctx n l" and ls: "list_all2 (\<lambda>(ctx, n) l. match_chunk ctx n l) (zip ctxs ns) ls"
    using Cons.prems(4) length_chunk_sizes [of capacity "ctx # ctxs" used]
    by (cases "chunk_sizes capacity (ctx # ctxs) used")
      (auto simp: list_all2_Cons1 simp del: chunk_sizes.simps length_chunk_sizes)
  have rem: "0 < remaining_delta ctx" using l by (simp add: match_chunk_def)
  have S: "serving (cm c) (mset ls + add_mset l R)" using Cons.prems(5) lps by simp
  show ?case
  proof (cases "used < capacity")
    case False
    then have n0: "n = 0" "ns = chunk_sizes capacity ctxs used" using sizes by auto
    have subs: "subs = []" "submit_prompts capacity (length (pre @ [ctx])) ctxs used idx = ([], [], used)"
      using Cons.prems(1) False by (cases ctxs; simp)+
    have "length (prel @ [-1]) = length (pre @ [ctx])" using Cons.prems(3) by simp
    from Cons.IH [OF subs(2) Cons.prems(2) this ls [unfolded n0(2)] S] obtain ctxs' logits lps' c' where
      r: "finish_chunks [] ((pre @ [ctx]) @ ctxs) ((prel @ [-1]) @ replicate (length ctxs) (-1)) c =
        Some ((pre @ [ctx]) @ ctxs', (prel @ [-1]) @ logits, c')" "length ctxs' = length ctxs" "length logits = length ctxs"
      "list_all2 match_finished (zip ctxs' logits) lps'" "serving (cm c') (mset lps' + add_mset l R)"
      by (elim exE conjE)
    have "match_finished (ctx, -1) l" using advance_unfinished [OF l] n0(1) rem by simp
    then show ?thesis using r subs(1)
      by (intro exI [of _ "ctx # ctxs'"] exI [of _ "-1 # logits"] exI [of _ "l # lps'"] exI [of _ c']) auto
  next
    case True
    let ?n = "min (remaining_delta ctx) (capacity - used)"
    have n: "n = ?n" "ns = chunk_sizes capacity ctxs (used + n)"
      using sizes True rem by (auto simp: Let_def)
    have pos: "0 < n" using n(1) rem True by simp
    obtain es' ss t' where r0: "submit_prompts capacity (Suc (length pre)) ctxs (used + n) (idx + n) = (es', ss, t')"
      by (metis prod_cases3)
    have subs: "subs = chunk_submission (length pre) ctx n idx # ss"
      using submit_prompts_chunk [OF True rem n(1) r0] Cons.prems(1) by simp
    let ?ctx = "ctx\<lparr>delta_start := delta_start ctx + n\<rparr>"
    have r1: "submit_prompts capacity (length (pre @ [?ctx])) ctxs (used + n) (idx + n) = (es', ss, t')" using r0 by simp
    show ?thesis
    proof (cases "n = remaining_delta ctx")
      case fin: True
      have "serving (cm c) (add_mset l (mset ls + R))" using Cons.prems(5) lps by simp
      from make_ready [OF this finished_cells [OF l fin]] obtain m where
        m: "mark_sequence_ready (cm c) (l_seq l) (Some (l_leaf l)) = Some m"
        "serving m (add_mset (l\<lparr>l_ready := True\<rparr>) (mset ls + R))" by blast
      have S': "serving (cm (c\<lparr>cm := m\<rparr>)) (mset ls + add_mset (l\<lparr>l_ready := True\<rparr>) R)" using m(2) by simp
      from Cons.IH [OF r1 _ _ _ S', of "prel @ [idx + n - 1]"] obtain ctxs' logits lps' c' where
        r: "finish_chunks ss ((pre @ [?ctx]) @ ctxs) ((prel @ [idx + n - 1]) @ replicate (length ctxs) (-1)) (c\<lparr>cm := m\<rparr>) =
          Some ((pre @ [?ctx]) @ ctxs', (prel @ [idx + n - 1]) @ logits, c')" "length ctxs' = length ctxs"
        "length logits = length ctxs" "list_all2 match_finished (zip ctxs' logits) lps'"
        "serving (cm c') (mset lps' + add_mset (l\<lparr>l_ready := True\<rparr>) R)"
        using Cons.prems(2,3) pos ls n(2) by auto
      have "match_finished (?ctx, idx + n - 1) (l\<lparr>l_ready := True\<rparr>)"
        using advance_finished [OF l fin] Cons.prems(2) pos by simp
      moreover have "finish_chunks subs (pre @ ctx # ctxs) (prel @ -1 # replicate (length ctxs) (-1)) c =
          finish_chunks ss ((pre @ [?ctx]) @ ctxs) ((prel @ [idx + n - 1]) @ replicate (length ctxs) (-1)) (c\<lparr>cm := m\<rparr>)"
        using subs m(1) fin l Cons.prems(3)
        by (simp add: chunk_submission_def Let_def list_update_append nth_append match_chunk_def remaining_delta_def)
      ultimately show ?thesis using r
        by (intro exI [of _ "?ctx # ctxs'"] exI [of _ "(idx + n - 1) # logits"]
            exI [of _ "l\<lparr>l_ready := True\<rparr> # lps'"] exI [of _ c']) auto
    next
      case unfin: False
      then have lt: "n < remaining_delta ctx" using l by (simp add: match_chunk_def)
      from Cons.IH [OF r1 _ _ _ S, of "prel @ [-1]"] obtain ctxs' logits lps' c' where
        r: "finish_chunks ss ((pre @ [?ctx]) @ ctxs) ((prel @ [-1]) @ replicate (length ctxs) (-1)) c =
          Some ((pre @ [?ctx]) @ ctxs', (prel @ [-1]) @ logits, c')" "length ctxs' = length ctxs"
        "length logits = length ctxs" "list_all2 match_finished (zip ctxs' logits) lps'"
        "serving (cm c') (mset lps' + add_mset l R)"
        using Cons.prems(2,3) pos ls n(2) by auto
      moreover have "finish_chunks subs (pre @ ctx # ctxs) (prel @ -1 # replicate (length ctxs) (-1)) c =
          finish_chunks ss ((pre @ [?ctx]) @ ctxs) ((prel @ [-1]) @ replicate (length ctxs) (-1)) c"
        using subs lt
        by (simp add: chunk_submission_def Let_def list_update_append nth_append remaining_delta_def)
      ultimately show ?thesis using advance_unfinished [OF l lt]
        by (intro exI [of _ "?ctx # ctxs'"] exI [of _ "-1 # logits"] exI [of _ "l # lps'"] exI [of _ c']) auto
    qed
  qed
qed

text \<open>The active sequences: each gets its next token.\<close>

lemma generate_one_ok:
  assumes "match_decoded sq l" "generate_one env i sq c = (sq', c')"
  shows "match_active sq' l \<and> cm c' = set_sequence_cell_count (cm c) (as_seq_id sq) (as_pos sq + 1)"
  using assms by (auto simp: generate_one_def match_decoded_def match_active_def Let_def is_cancelled_cm
      dest!: is_cancelled_cm split: prod.splits if_splits)

lemma generate_all_ok:
  "list_all2 match_decoded seqs las \<Longrightarrow> generate_all env i seqs c = (seqs', c') \<Longrightarrow> serving (cm c) L \<Longrightarrow>
   list_all2 match_active seqs' las \<and> serving (cm c') L"
proof (induction seqs arbitrary: i las c seqs' c')
  case Nil then show ?case by simp
next
  case (Cons sq seqs)
  obtain sq1 c1 where g: "generate_one env i sq c = (sq1, c1)" by (cases "generate_one env i sq c")
  obtain rest c2 where r: "generate_all env (Suc i) seqs c1 = (rest, c2)" by (cases "generate_all env (Suc i) seqs c1")
  obtain l ls where las: "las = l # ls" "match_decoded sq l" "list_all2 match_decoded seqs ls"
    using Cons.prems(1) by (auto simp: list_all2_Cons1)
  have "serving (cm c1) L" using generate_one_ok [OF las(2) g] count_cells [OF Cons.prems(3)] by simp
  from Cons.IH [OF las(3) r this] show ?case
    using Cons.prems(2) g r las generate_one_ok [OF las(2) g] by auto
qed

text \<open>The completed prompts: generation starts.\<close>

lemma start_generation_ok:
  assumes env: "env_ops env = ops" and S: "serving (cm c) (add_mset l R)" and l: "match_prefill ctx l" "l_ready l"
  shows "\<exists>started c'. start_generation env ctx logit c = Some (started, c') \<and>
    (case started of None \<Rightarrow> serving (cm c') R
     | Some sq \<Rightarrow> match_active sq l \<and> \<not> as_done sq \<and> serving (cm c') (add_mset l R))"
proof -
  obtain hit req c1 where p: "is_cancelled env (pc_req ctx) c = (hit, req, c1)" by (cases "is_cancelled env (pc_req ctx) c")
  have S1: "serving (cm (c1\<lparr>cw := w\<rparr>)) (add_mset l R)" for w using S is_cancelled_cm [OF p] by simp
  have ids: "l_seq l = res_seq_id (pc_prep ctx)" "l_leaf l = leaf_node (pc_prep ctx)"
    using l(1) by (auto simp: match_prefill_def)
  have drop: "\<exists>c'. drop_prefill env ctx (c1\<lparr>cw := w\<rparr>) = Some c' \<and> serving (cm c') R" for w
    by (rule drop_prefill_ok [OF env S1 ids])
  have drop1: "\<exists>c'. drop_prefill env ctx c1 = Some c' \<and> serving (cm c') R"
    using drop [of "cw c1"] by simp
  have new: "match_active (new_active ctx req' st smpl tok) l" "\<not> as_done (new_active ctx req' st smpl tok)" for req' st smpl tok
    using l by (auto simp: match_active_def new_active_def match_prefill_def ctx_ok_def)
  obtain smpl w1 where cs: "create_sampler env (rq_temperature req) (rq_top_p req) (cw c1) = (smpl, w1)"
    by (cases "create_sampler env (rq_temperature req) (rq_top_p req) (cw c1)")
  obtain tok w2 where st: "sample env smpl logit w1 = (tok, w2)" by (cases "sample env smpl logit w1")
  consider "hit" | "\<not> hit" "is_eog env tok" | "\<not> hit" "\<not> is_eog env tok" "rq_max_tokens req \<le> 1"
    | "\<not> hit" "\<not> is_eog env tok" "\<not> rq_max_tokens req \<le> 1" by blast
  then show ?thesis
  proof cases
    case 1 then show ?thesis using p drop1 by (auto simp: start_generation_def)
  next
    case 2
    obtain c' where "drop_prefill env ctx (c1\<lparr>cw := free_sampler env smpl (on_token env (rq_id req) [] True (Some (pc_stats ctx)) w2)\<rparr>) = Some c'"
      "serving (cm c') R" using drop by blast
    then show ?thesis using 2 p cs st by (simp add: start_generation_def)
  next
    case 3
    obtain c' where "drop_prefill env ctx (c1\<lparr>cw := free_sampler env smpl (on_token env (rq_id req) (token_piece env tok) True
        (Some ((pc_stats ctx)\<lparr>predicted_n := 1\<rparr>)) w2)\<rparr>) = Some c'" "serving (cm c') R" using drop by blast
    then show ?thesis using 3 p cs st by (simp add: start_generation_def)
  next
    case 4 then show ?thesis using p cs st S1 new by (simp add: start_generation_def)
  qed
qed

lemma start_all_ok:
  "env_ops env = ops \<Longrightarrow> list_all2 match_finished ps lps \<Longrightarrow> serving (cm c) (mset lps + R) \<Longrightarrow>
   \<exists>keep new lks lns c'. start_all env ps c = Some (keep, new, c') \<and> list_all2 pending_ctx keep lks \<and>
     list_all2 match_active new lns \<and> (\<forall>sq \<in> set new. \<not> as_done sq) \<and>
     serving (cm c') (mset lks + mset lns + R) \<and> length new \<le> length (filter (\<lambda>p. 0 \<le> snd p) ps)"
proof (induction ps arbitrary: lps c R)
  case Nil then show ?case by auto
next
  case (Cons p ps)
  obtain ctx lg where p: "p = (ctx, lg)" by (cases p)
  obtain l ls where lps: "lps = l # ls" "match_finished (ctx, lg) l" "list_all2 match_finished ps ls"
    using Cons.prems(2) p by (auto simp: list_all2_Cons1)
  have S: "serving (cm c) (mset ls + add_mset l R)" using Cons.prems(3) lps by simp
  show ?case
  proof (cases "lg < 0")
    case True
    then have "pending_ctx ctx l" using lps(2) by (auto simp: match_finished_def pending_ctx_def)
    moreover from Cons.IH [OF Cons.prems(1) lps(3) S] obtain keep new lks lns c' where
      "start_all env ps c = Some (keep, new, c')" "list_all2 pending_ctx keep lks" "list_all2 match_active new lns"
      "\<forall>sq \<in> set new. \<not> as_done sq" "serving (cm c') (mset lks + mset lns + add_mset l R)"
      "length new \<le> length (filter (\<lambda>p. 0 \<le> snd p) ps)" by blast
    ultimately show ?thesis using True p
      by (intro exI [of _ "ctx # keep"] exI [of _ new] exI [of _ "l # lks"] exI [of _ lns] exI [of _ c']) auto
  next
    case False
    then have l: "match_prefill ctx l" "l_ready l" using lps(2) by (auto simp: match_finished_def)
    have "serving (cm c) (add_mset l (mset ls + R))" using S by simp
    from start_generation_ok [OF Cons.prems(1) this l, of lg] obtain started c1 where
      st: "start_generation env ctx lg c = Some (started, c1)" and
      cas: "case started of None \<Rightarrow> serving (cm c1) (mset ls + R)
       | Some sq \<Rightarrow> match_active sq l \<and> \<not> as_done sq \<and> serving (cm c1) (add_mset l (mset ls + R))" by blast
    show ?thesis
    proof (cases started)
      case None
      then have "serving (cm c1) (mset ls + R)" using cas by simp
      from Cons.IH [OF Cons.prems(1) lps(3) this] show ?thesis using st None False p by fastforce
    next
      case (Some sq)
      then have S1: "serving (cm c1) (mset ls + add_mset l R)" and sq: "match_active sq l" "\<not> as_done sq" using cas by auto
      from Cons.IH [OF Cons.prems(1) lps(3) S1] obtain keep new lks lns c' where
        "start_all env ps c1 = Some (keep, new, c')" "list_all2 pending_ctx keep lks" "list_all2 match_active new lns"
        "\<forall>sq \<in> set new. \<not> as_done sq" "serving (cm c') (mset lks + mset lns + add_mset l R)"
        "length new \<le> length (filter (\<lambda>p. 0 \<le> snd p) ps)" by blast
      then show ?thesis using st Some sq False p
        by (intro exI [of _ keep] exI [of _ "sq # new"] exI [of _ lks] exI [of _ "l # lns"] exI [of _ c']) auto
    qed
  qed
qed

end

text \<open>What a successful decode makes of the leases.\<close>

lemma taken_active:
  assumes "match_active sq l" "\<not> as_done sq" "length [decode_entry sq] \<le> k (l_seq l)"
  shows "match_decoded sq (taken k l [decode_entry sq])"
proof -
  have "take (k (l_seq l)) [next_token sq] = [next_token sq]" using assms(3) by simp
  then show ?thesis using assms by (simp add: match_decoded_def match_active_def taken_def decode_entry_def)
qed

lemma taken_chunk:
  assumes p: "pending_ctx ctx l" and n: "0 \<le> n" "n \<le> remaining_delta ctx" and k: "length (chunk_entries ctx n) \<le> k (l_seq l)"
  shows "match_chunk ctx n (taken k l (chunk_entries ctx n))"
proof -
  have ok: "ctx_ok ctx" using p by (simp add: pending_ctx_def match_prefill_def)
  have "take (k (l_seq l)) (map b_token (chunk_entries ctx n)) = map b_token (chunk_entries ctx n)" using k by simp
  then show ?thesis using p n ok chunk_tokens [OF ok n] pending_remaining [OF p]
    by (auto simp: match_chunk_def taken_def pending_ctx_def match_prefill_def)
qed

lemma taken_all_active:
  "list_all2 match_active seqs las \<Longrightarrow> \<forall>sq \<in> set seqs. \<not> as_done sq \<Longrightarrow>
   \<forall>(l, E) \<in> set (zip las (map (\<lambda>sq. [decode_entry sq]) seqs)). length E \<le> k (l_seq l) \<Longrightarrow>
   list_all2 match_decoded seqs (map2 (taken k) las (map (\<lambda>sq. [decode_entry sq]) seqs))"
  by (induction seqs las rule: list_all2_induct) (auto intro: taken_active)

lemma taken_all_chunks:
  "list_all2 pending_ctx ctxs lps \<Longrightarrow> length ns = length ctxs \<Longrightarrow>
   \<forall>(ctx, n) \<in> set (zip ctxs ns). 0 \<le> n \<and> n \<le> remaining_delta ctx \<Longrightarrow>
   \<forall>(l, E) \<in> set (zip lps (map2 chunk_entries ctxs ns)). length E \<le> k (l_seq l) \<Longrightarrow>
   list_all2 (\<lambda>(ctx, n) l. match_chunk ctx n l) (zip ctxs ns) (map2 (taken k) lps (map2 chunk_entries ctxs ns))"
proof (induction ctxs lps arbitrary: ns rule: list_all2_induct)
  case Nil then show ?case by simp
next
  case (Cons ctx ctxs l lps)
  obtain n ns' where ns: "ns = n # ns'" using Cons.prems(1) by (cases ns) auto
  have "match_chunk ctx n (taken k l (chunk_entries ctx n))"
    using Cons.prems(2,3) ns by (intro taken_chunk [OF Cons.hyps(1)]) auto
  moreover have "list_all2 (\<lambda>(ctx, n) l. match_chunk ctx n l) (zip ctxs ns') (map2 (taken k) lps (map2 chunk_entries ctxs ns'))"
    using Cons.prems ns by (intro Cons.IH) auto
  ultimately show ?case using ns by simp
qed

lemma chunk_sizes_fit:
  "list_all2 pending_ctx ctxs lps \<Longrightarrow>
   \<forall>(ctx, n) \<in> set (zip ctxs (chunk_sizes capacity ctxs used)). 0 \<le> n \<and> n \<le> remaining_delta ctx"
proof clarify
  fix ctx n assume q: "list_all2 pending_ctx ctxs lps" "(ctx, n) \<in> set (zip ctxs (chunk_sizes capacity ctxs used))"
  have "ctx \<in> set ctxs" by (rule set_zip_leftD [OF q(2)])
  then obtain l where "pending_ctx ctx l" using list_all2_partner [OF q(1)] list_all2_zip [OF q(1)] by blast
  then have "0 \<le> remaining_delta ctx" using pending_remaining [of ctx l] by simp
  from chunk_size_remaining [OF q(2) this] show "0 \<le> n \<and> n \<le> remaining_delta ctx"
    using chunk_sizes_bounds set_zip_rightD [OF q(2)] by blast
qed

text \<open>A lease keeps its sequence and its leaf, whatever the decode did.\<close>

lemma taken_owner: "l_seq (taken k l E) = l_seq l" "l_leaf (taken k l E) = l_leaf l"
  by (simp_all add: taken_def)

definition owned_active :: "active_seq \<Rightarrow> lease \<Rightarrow> bool" where
  "owned_active sq l \<longleftrightarrow> l_seq l = as_seq_id sq \<and> l_leaf l = as_leaf sq"

definition owned_prefill :: "prefill_ctx \<Rightarrow> lease \<Rightarrow> bool" where
  "owned_prefill ctx l \<longleftrightarrow> l_seq l = res_seq_id (pc_prep ctx) \<and> l_leaf l = leaf_node (pc_prep ctx)"

lemma owned_active_taken:
  "list_all2 match_active seqs las \<Longrightarrow> length Es = length las \<Longrightarrow> list_all2 owned_active seqs (map2 (taken k) las Es)"
proof (induction seqs las arbitrary: Es rule: list_all2_induct)
  case (Cons sq seqs l las) then show ?case by (cases Es) (auto simp: owned_active_def taken_def match_active_def)
qed simp

lemma owned_prefill_taken:
  "list_all2 pending_ctx ctxs lps \<Longrightarrow> length Es = length lps \<Longrightarrow> list_all2 owned_prefill ctxs (map2 (taken k) lps Es)"
proof (induction ctxs lps arbitrary: Es rule: list_all2_induct)
  case (Cons sq seqs l las)
  then show ?case by (cases Es) (auto simp: owned_prefill_def taken_def pending_ctx_def match_prefill_def)
qed simp

text \<open>The vectors of the worker and the leases they hold.\<close>

definition matched :: "active_seq list \<Rightarrow> prefill_ctx list \<Rightarrow> lease list \<Rightarrow> lease list \<Rightarrow> bool" where
  "matched seqs ctxs las lps \<longleftrightarrow> list_all2 match_active seqs las \<and> (\<forall>sq \<in> set seqs. \<not> as_done sq) \<and>
     list_all2 pending_ctx ctxs lps"

lemma list_all2_snoc:
  assumes "list_all2 Q xs ys" "xs \<noteq> []"
  obtains "list_all2 Q (butlast xs) (butlast ys)" "Q (last xs) (last ys)" "ys = butlast ys @ [last ys]"
proof -
  have ne: "ys \<noteq> []" using assms by auto
  have "list_all2 Q (butlast xs @ [last xs]) (butlast ys @ [last ys])" using assms ne by simp
  then have "list_all2 Q (butlast xs) (butlast ys) \<and> Q (last xs) (last ys)"
    using assms by (subst (asm) list_all2_append) (auto simp: list_all2_lengthD)
  then show ?thesis using that ne by simp
qed

lemma count_step_cm [simp]: "cm (count_step n c) = cm c"
  by (simp add: count_step_def Let_def)

definition worker_inv :: "('kv kv_mapper \<Rightarrow> lease multiset \<Rightarrow> bool) \<Rightarrow> ('kv, 'w) worker_state \<Rightarrow> bool" where
  "worker_inv S s \<longleftrightarrow> (\<exists>las lps. matched (active s) (prefilling s) las lps \<and> S (cm (wcore s)) (mset las + mset lps))"

context sequence_service
begin

lemma fail_newest_ok:
  assumes env: "env_ops env = ops" and m: "matched seqs ctxs las lps" and S: "serving (cm c) (mset las + mset lps)"
  shows "\<exists>seqs' ctxs' las' lps' c'. after_decode env 1 pt subs seqs ctxs c = Some (seqs', ctxs', c') \<and>
    matched seqs' ctxs' las' lps' \<and> serving (cm c') (mset las' + mset lps')"
proof (cases "seqs = []")
  case False
  have q: "list_all2 match_active seqs las" using m by (simp add: matched_def)
  obtain b: "list_all2 match_active (butlast seqs) (butlast las)" "match_active (last seqs) (last las)"
    "las = butlast las @ [last las]" by (rule list_all2_snoc [OF q False])
  have "mset las = add_mset (last las) (mset (butlast las))" by (subst b(3)) simp
  then have "serving (cm c) (add_mset (last las) (mset (butlast las) + mset lps))" using S by simp
  from fail_active_ok [OF env this match_activeD(1,2) [OF b(2)]] obtain c' where
    "fail_active env ''KV cache is full'' 503 (last seqs) c = Some c'" "serving (cm c') (mset (butlast las) + mset lps)" by blast
  then show ?thesis using False b(1) m
    by (intro exI [of _ "butlast seqs"] exI [of _ ctxs] exI [of _ "butlast las"] exI [of _ lps] exI [of _ c'])
      (auto simp: after_decode_def matched_def dest: in_set_butlastD)
next
  case seqs: True
  show ?thesis
  proof (cases "ctxs = []")
    case True
    then show ?thesis using seqs m S
      by (intro exI [of _ "[]"] exI [of _ las] exI [of _ lps] exI [of _ c]) (auto simp: after_decode_def)
  next
    case False
    have q: "list_all2 pending_ctx ctxs lps" using m by (simp add: matched_def)
    obtain b: "list_all2 pending_ctx (butlast ctxs) (butlast lps)" "pending_ctx (last ctxs) (last lps)"
      "lps = butlast lps @ [last lps]" by (rule list_all2_snoc [OF q False])
    have "mset lps = add_mset (last lps) (mset (butlast lps))" by (subst b(3)) simp
    then have "serving (cm c) (add_mset (last lps) (mset las + mset (butlast lps)))" using S by simp
    from fail_prefill_ok [OF env this pending_ctxD [OF b(2)]] obtain c' where
      "fail_prefill env ''KV cache is full'' 503 (last ctxs) c = Some c'" "serving (cm c') (mset las + mset (butlast lps))" by blast
    then show ?thesis using False b(1) m seqs
      by (intro exI [of _ "[]"] exI [of _ "butlast ctxs"] exI [of _ las] exI [of _ "butlast lps"] exI [of _ c'])
        (auto simp: after_decode_def matched_def)
  qed
qed

lemma fail_all_ok:
  assumes env: "env_ops env = ops" and st: "status \<noteq> 0" "status \<noteq> 1"
    and o: "list_all2 owned_active seqs las" "list_all2 owned_prefill ctxs lps" and S: "serving (cm c) (mset las + mset lps)"
  shows "\<exists>c'. after_decode env status pt subs seqs ctxs c = Some ([], [], c') \<and> serving (cm c') {#}"
proof -
  have "\<exists>c1. each (fail_active env ''inference decode failed'' 500) seqs c = Some c1 \<and> serving (cm c1) (mset lps)"
    by (rule each_ok [OF _ o(1) S]) (auto simp: owned_active_def intro: fail_active_ok [OF env])
  then obtain c1 where c1: "each (fail_active env ''inference decode failed'' 500) seqs c = Some c1"
    "serving (cm c1) (mset lps + {#})" by auto
  have "\<exists>c2. each (fail_prefill env ''inference prefill failed'' 500) ctxs c1 = Some c2 \<and> serving (cm c2) {#}"
    by (rule each_ok [OF _ o(2) c1(2)]) (auto simp: owned_prefill_def intro: fail_prefill_ok [OF env])
  then show ?thesis using st c1(1) by (auto simp: after_decode_def)
qed

lemma advance_all_ok:
  assumes env: "env_ops env = ops" and sub: "submit_prompts capacity 0 ctxs 0 idx = (es, subs, t)" "0 \<le> idx"
    and a: "list_all2 match_decoded seqs las"
    and p: "list_all2 (\<lambda>(ctx, n) l. match_chunk ctx n l) (zip ctxs (chunk_sizes capacity ctxs 0)) lps"
    and S: "serving (cm c) (mset las + mset lps)"
  shows "\<exists>seqs' ctxs' las' lps' c'. after_decode env 0 pt subs seqs ctxs c = Some (seqs', ctxs', c') \<and>
    matched seqs' ctxs' las' lps' \<and> serving (cm c') (mset las' + mset lps')"
proof -
  let ?c = "count_step pt c"
  have S0: "serving (cm ?c) (mset lps + mset las)" using S by (simp add: add.commute)
  have "submit_prompts capacity (length []) ctxs 0 idx = (es, subs, t)" using sub(1) by simp
  from finish_chunks_ok [OF this sub(2) _ p S0, of "[]"] obtain ctxs1 logits lps1 c1 where
    f: "finish_chunks subs ctxs (replicate (length ctxs) (-1)) ?c = Some (ctxs1, logits, c1)"
    "list_all2 match_finished (zip ctxs1 logits) lps1" "serving (cm c1) (mset lps1 + mset las)" by auto
  obtain seqs1 c2 where g: "generate_all env 0 seqs c1 = (seqs1, c2)" by (cases "generate_all env 0 seqs c1")
  have ga: "list_all2 match_active seqs1 las" "serving (cm c2) (mset las + mset lps1)"
    using generate_all_ok [OF a g f(3)] by (simp_all add: add.commute)
  from retire_completed_ok [OF env ga] obtain seqs2 las2 c3 where
    r: "retire_completed env seqs1 c2 = Some (seqs2, c3)" "list_all2 match_active seqs2 las2"
    "serving (cm c3) (mset las2 + mset lps1)" "\<forall>sq \<in> set seqs2. \<not> as_done sq" by blast
  have "serving (cm c3) (mset lps1 + mset las2)" using r(3) by (simp add: add.commute)
  from start_all_ok [OF env f(2) this] obtain keep new lks lns c4 where
    s: "start_all env (zip ctxs1 logits) c3 = Some (keep, new, c4)" "list_all2 pending_ctx keep lks"
    "list_all2 match_active new lns" "\<forall>sq \<in> set new. \<not> as_done sq"
    "serving (cm c4) (mset lks + mset lns + mset las2)" by blast
  have "serving (cm c4) (mset (las2 @ lns) + mset lks)" using s(5) by (simp add: ac_simps)
  moreover have "matched (seqs2 @ new) keep (las2 @ lns) lks"
    using r(2,4) s(2-4) by (auto simp: matched_def intro: list_all2_appendI)
  moreover have "after_decode env 0 pt subs seqs ctxs c = Some (seqs2 @ new, keep, c4)"
    using f(1) g r(1) s(1) by (simp add: after_decode_def)
  ultimately show ?thesis by blast
qed

section \<open>The fused step\<close>

lemma after_decode_ok:
  assumes env: "env_ops env = ops" and m: "matched seqs ctxs las lps"
    and b: "submit_prompts capacity 0 ctxs 0 idx = (es, subs, t)" "0 \<le> idx"
    and Es: "Es = map (\<lambda>sq. [decode_entry sq]) seqs @ map2 chunk_entries ctxs (chunk_sizes capacity ctxs 0)"
    and S: "serving (cm c) (mset (map2 (taken k) (las @ lps) Es))"
    and k0: "status = 0 \<Longrightarrow> \<forall>(l, E) \<in> set (zip (las @ lps) Es). length E \<le> k (l_seq l)"
    and k1: "status = 1 \<Longrightarrow> \<forall>s. k s = 0"
  shows "\<exists>seqs' ctxs' las' lps' c'. after_decode env status pt subs seqs ctxs c = Some (seqs', ctxs', c') \<and>
    matched seqs' ctxs' las' lps' \<and> serving (cm c') (mset las' + mset lps')"
proof -
  let ?A = "map (\<lambda>sq. [decode_entry sq]) seqs" and ?P = "map2 chunk_entries ctxs (chunk_sizes capacity ctxs 0)"
  have a: "list_all2 match_active seqs las" "\<forall>sq \<in> set seqs. \<not> as_done sq" and p: "list_all2 pending_ctx ctxs lps"
    using m by (auto simp: matched_def)
  have len: "length ?A = length las" "length ?P = length lps"
    using a(1) p by (auto simp: list_all2_lengthD)
  have split: "map2 (taken k) (las @ lps) Es = map2 (taken k) las ?A @ map2 (taken k) lps ?P"
    "zip (las @ lps) Es = zip las ?A @ zip lps ?P"
    using len by (simp_all add: Es)
  have S': "serving (cm c) (mset (map2 (taken k) las ?A) + mset (map2 (taken k) lps ?P))"
    using S by (simp only: split(1) mset_append)
  consider (ok) "status = 0" | (full) "status = 1" | (failed) "status \<noteq> 0" "status \<noteq> 1" by blast
  then show ?thesis
  proof cases
    case ok
    have ka: "\<forall>(l, E) \<in> set (zip las ?A). length E \<le> k (l_seq l)" and kp: "\<forall>(l, E) \<in> set (zip lps ?P). length E \<le> k (l_seq l)"
      using k0 [OF ok] unfolding split by auto
    from advance_all_ok [OF env b taken_all_active [OF a ka] taken_all_chunks [OF p _ chunk_sizes_fit [OF p] kp] S']
    show ?thesis using ok by simp
  next
    case full
    have "list_all2 (\<lambda>_ _. True) las ?A" "list_all2 (\<lambda>_ _. True) lps ?P" using len by (simp_all add: list_all2_conv_all_nth)
    then have "map2 (taken k) las ?A = las" "map2 (taken k) lps ?P = lps"
      using taken_none k1 [OF full] by blast+
    then have "serving (cm c) (mset las + mset lps)" using S' by metis
    from fail_newest_ok [OF env m this] show ?thesis using full by blast
  next
    case failed
    from fail_all_ok [OF env failed owned_active_taken [OF a(1) len(1)] owned_prefill_taken [OF p len(2)] S']
    obtain c' where "after_decode env status pt subs seqs ctxs c = Some ([], [], c')" "serving (cm c') {#}" by blast
    then show ?thesis
      by (intro exI [of _ "[]"] exI [of _ c']) (simp add: matched_def)
  qed
qed

lemma fused_step_ok:
  assumes env: "env_ops env = ops" "decode_law env cells" and m: "matched seqs ctxs las lps"
    and S: "serving (cm c) (mset las + mset lps)"
  shows "\<exists>seqs' ctxs' las' lps' c'. fused_step env seqs ctxs c = Some (seqs', ctxs', c') \<and>
    matched seqs' ctxs' las' lps' \<and> serving (cm c') (mset las' + mset lps')"
proof -
  obtain polled c1 where po: "poll_active env seqs c = (polled, c1)" by (cases "poll_active env seqs c")
  have po': "list_all2 match_active polled las" "serving (cm c1) (mset las + mset lps)"
    using poll_active_ok [OF _ po] m S by (auto simp: matched_def)
  from retire_done_ok [OF env(1) po'] obtain seqs1 las1 c2 where
    r: "retire_done env polled c1 = Some (seqs1, c2)" "list_all2 match_active seqs1 las1"
    "serving (cm c2) (mset las1 + mset lps)" "\<forall>sq \<in> set seqs1. \<not> as_done sq" by blast
  have p: "list_all2 pending_ctx ctxs lps" using m by (simp add: matched_def)
  have "serving (cm c2) (mset lps + mset las1)" using r(3) by (simp add: add.commute)
  from drop_cancelled_ok [OF env(1) p this] obtain ctxs1 lps1 c3 where
    d: "drop_cancelled env ctxs c2 = Some (ctxs1, c3)" "list_all2 pending_ctx ctxs1 lps1"
    "serving (cm c3) (mset lps1 + mset las1)" by blast
  have m1: "matched seqs1 ctxs1 las1 lps1" using r(2,4) d(2) by (simp add: matched_def)
  have S3: "serving (cm c3) (mset (las1 @ lps1))" using d(3) by (simp add: add.commute)
  let ?cap = "env_n_batch env - int (length seqs1)"
  obtain es subs t where sub: "submit_prompts ?cap 0 ctxs1 0 (int (length seqs1)) = (es, subs, t)" by (metis prod_cases3)
  let ?Es = "map (\<lambda>sq. [decode_entry sq]) seqs1 @ map2 chunk_entries ctxs1 (chunk_sizes ?cap ctxs1 0)"
  have "es = concat (map2 chunk_entries ctxs1 (chunk_sizes ?cap ctxs1 0))" using submit_entries [of ?cap 0 ctxs1 0] sub by (metis fst_conv)
  then have batch: "build_batch ?cap seqs1 ctxs1 = (concat ?Es, subs, t)"
    using sub by (simp add: build_batch_def)
  have fits: "list_all2 entry_fits (las1 @ lps1) ?Es"
    using active_fits [OF r(2,4)] prefill_fits [OF d(2), of ?cap 0] by (rule list_all2_appendI)
  show ?thesis
  proof (cases "seqs1 = [] \<and> (ctxs1 = [] \<or> ?cap \<le> 0) \<or> concat ?Es = []")
    case True
    then have "fused_step env seqs ctxs c = Some (seqs1, ctxs1, c3)"
      using po r(1) d(1) batch by (auto simp: fused_step_def Let_def)
    then show ?thesis using m1 S3 by auto
  next
    case False
    from decode_with_retry_ok [OF env S3 fits] obtain st c4 k where
      dec: "decode_with_retry env (concat ?Es) c3 = Some (st, c4)" "serving (cm c4) (mset (map2 (taken k) (las1 @ lps1) ?Es))"
      "st = 0 \<longrightarrow> (\<forall>(l, E) \<in> set (zip (las1 @ lps1) ?Es). length E \<le> k (l_seq l))" "st = 1 \<longrightarrow> (\<forall>s. k s = 0)" by blast
    have "fused_step env seqs ctxs c = after_decode env st t subs seqs1 ctxs1 c4"
      using False po r(1) d(1) batch dec(1) by (auto simp: fused_step_def Let_def)
    moreover have "\<exists>seqs' ctxs' las' lps' c'. after_decode env st t subs seqs1 ctxs1 c4 = Some (seqs', ctxs', c') \<and>
      matched seqs' ctxs' las' lps' \<and> serving (cm c') (mset las' + mset lps')"
      using dec(3,4) by (intro after_decode_ok [OF env(1) m1 sub _ refl dec(2)]) simp_all
    ultimately show ?thesis by simp
  qed
qed

end

section \<open>Admission\<close>

lemma queue_rest_cm: "queue_rest env reqs c = (rest, c') \<Longrightarrow> cm c' = cm c"
  by (induction env reqs c arbitrary: rest c' rule: queue_rest.induct)
    (auto split: prod.splits if_splits simp: is_cancelled_cm)

lemma new_prefill_pending:
  assumes "0 \<le> cached_pos prep" "cached_pos prep \<le> int (length toks)" "delta prep = drop (nat (cached_pos prep)) toks"
    and "delta prep \<noteq> []"
  shows "pending_ctx (new_prefill req toks prep) (pending_lease (res_seq_id prep) (leaf_node prep) toks (cached_pos prep))"
  using assms by (simp add: pending_ctx_def match_prefill_def ctx_ok_def new_prefill_def pending_lease_def)

context sequence_service
begin

lemma prepare_all_ok:
  "env_ops env = ops \<Longrightarrow> serving (cm c) R \<Longrightarrow>
   \<exists>ctxs deferred queued c' lps. prepare_all env reqs c = Some (ctxs, deferred, queued, c') \<and>
     list_all2 pending_ctx ctxs lps \<and> serving (cm c') (mset lps + R)"
proof (induction reqs arbitrary: c R)
  case Nil then show ?case by (intro exI [of _ "[]"] exI [of _ c]) simp
next
  case (Cons req reqs)
  note env = Cons.prems(1)
  obtain hit req1 c1 where p: "is_cancelled env req c = (hit, req1, c1)" by (cases "is_cancelled env req c")
  have S1: "serving (cm c1) R" using Cons.prems(2) is_cancelled_cm [OF p] by simp
  let ?toks = "tokenize env (prompt_text env req1)"
  let ?av = "available_tokens env ?toks" and ?req = "clamp_max_tokens (available_tokens env (tokenize env (prompt_text env req1))) req1"
  have skip: ?case if c': "serving (cm c') R" "prepare_all env (req # reqs) c = prepare_all env reqs c'" for c'
    using Cons.IH [OF env c'(1)] c'(2) by simp
  show ?case
  proof (cases "hit \<or> ?av \<le> 0")
    case True
    then consider "hit" | "\<not> hit" "?av \<le> 0" by blast
    then show ?thesis
    proof cases
      case 1 then show ?thesis using p by (intro skip [OF S1]) simp
    next
      case 2
      have "serving (cm (report_error env req1 ''prompt exceeds context window'' 400 c1)) R" using S1 by simp
      then show ?thesis using 2 p by (intro skip) (simp_all add: Let_def)
    qed
  next
    case False
    then have go: "\<not> hit" "\<not> ?av \<le> 0" by simp_all
    obtain av where av: "mapper_inspect_prefix (cm c1) ?toks = Some av" using inspect [OF S1] by blast
    show ?thesis
    proof (cases "pending_tokens av - ready_tokens av > 0")
      case True
      obtain ctxs deferred queued c' lps where "prepare_all env reqs c1 = Some (ctxs, deferred, queued, c')"
        "list_all2 pending_ctx ctxs lps" "serving (cm c') (mset lps + R)" using Cons.IH [OF env S1] by blast
      then show ?thesis using go p av True
        by (intro exI [of _ ctxs] exI [of _ "?req # deferred"] exI [of _ queued] exI [of _ c'] exI [of _ lps])
          (simp add: Let_def)
    next
      case nopend: False
      obtain m res where pr: "prepare_sequence ops (cm c1) ?toks = Some (m, res)" and
        cas: "case res of Inl _ \<Rightarrow> serving m R
         | Inr r \<Rightarrow> serving m (add_mset (pending_lease (res_seq_id r) (leaf_node r) ?toks (cached_pos r)) R) \<and>
             0 \<le> cached_pos r \<and> cached_pos r \<le> int (length ?toks) \<and> delta r = drop (nat (cached_pos r)) ?toks"
        using prepare [OF S1, of ?toks] by blast
      show ?thesis
      proof (cases res)
        case (Inl e)
        obtain rest c2 where q: "queue_rest env reqs (c1\<lparr>cm := m\<rparr>) = (rest, c2)" by (cases "queue_rest env reqs (c1\<lparr>cm := m\<rparr>)")
        have "prepare_all env (req # reqs) c = Some ([], [], ?req # rest, c2)"
          using go p av nopend pr Inl q env by (simp add: Let_def)
        moreover have "serving (cm c2) R" using cas Inl queue_rest_cm [OF q] by simp
        ultimately show ?thesis
          by (intro exI [of _ "[]"] exI [of _ "?req # rest"] exI [of _ c2]) simp
      next
        case (Inr prep)
        let ?l = "pending_lease (res_seq_id prep) (leaf_node prep) ?toks (cached_pos prep)"
        have S2: "serving m (add_mset ?l R)" and ok: "0 \<le> cached_pos prep" "cached_pos prep \<le> int (length ?toks)"
          "delta prep = drop (nat (cached_pos prep)) ?toks" using cas Inr by auto
        show ?thesis
        proof (cases "delta prep = []")
          case True
          obtain m1 m2 where "release_sequence ops m (res_seq_id prep) (Some (leaf_node prep)) = Some m1"
            "release_reference m1 (Some (leaf_node prep)) = Some m2" "serving m2 R"
            using give_back [OF S2] by (auto simp: pending_lease_def)
          then show ?thesis using go p av nopend pr Inr True env
            by (intro skip [of "report_error env ?req ''internal cache preparation error'' 500 (c1\<lparr>cm := m2\<rparr>)"])
              (simp_all add: Let_def)
        next
          case False
          have "serving (cm (c1\<lparr>cm := m\<rparr>)) (add_mset ?l R)" using S2 by simp
          from Cons.IH [OF env this] obtain ctxs deferred queued c' lps where
            "prepare_all env reqs (c1\<lparr>cm := m\<rparr>) = Some (ctxs, deferred, queued, c')"
            "list_all2 pending_ctx ctxs lps" "serving (cm c') (mset lps + add_mset ?l R)" by blast
          then show ?thesis using go p av nopend pr Inr False env new_prefill_pending [OF ok False]
            by (intro exI [of _ "new_prefill ?req ?toks prep # ctxs"] exI [of _ deferred] exI [of _ queued]
                exI [of _ c'] exI [of _ "?l # lps"]) (simp add: Let_def)
        qed
      qed
    qed
  qed
qed

section \<open>The loop\<close>

lemma run_iteration_ok:
  assumes env: "env_ops env = ops" "decode_law env cells" and inv: "worker_inv serving s"
  shows "\<exists>s'. run_iteration env s = Some s' \<and> worker_inv serving s'"
proof -
  obtain las lps where m: "matched (active s) (prefilling s) las lps" and S: "serving (cm (wcore s)) (mset las + mset lps)"
    using inv by (auto simp: worker_inv_def)
  obtain ctxs deferred queued c1 new where
    p: "prepare_all env (take (admit_count env s) (queue s)) (wcore s) = Some (ctxs, deferred, queued, c1)"
    "list_all2 pending_ctx ctxs new" "serving (cm c1) (mset new + (mset las + mset lps))"
    using prepare_all_ok [OF env(1) S] by blast
  have "serving (cm c1) (mset las + mset (lps @ new))" using p(3) by (simp add: ac_simps)
  moreover have "matched (active s) (prefilling s @ ctxs) las (lps @ new)"
    using m p(2) by (auto simp: matched_def intro: list_all2_appendI)
  ultimately obtain seqs pre las' lps' c2 where
    "fused_step env (active s) (prefilling s @ ctxs) c1 = Some (seqs, pre, c2)"
    "matched seqs pre las' lps'" "serving (cm c2) (mset las' + mset lps')"
    using fused_step_ok [OF env] by blast
  then show ?thesis using p(1) by (auto simp: run_iteration_def worker_inv_def Let_def)
qed

lemma enqueue_ok: "worker_inv serving s \<Longrightarrow> worker_inv serving (enqueue req s)"
  by (simp add: worker_inv_def enqueue_def)

lemma shutdown_ok:
  assumes env: "env_ops env = ops" and inv: "worker_inv serving s"
  shows "\<exists>s'. shutdown env s = Some s' \<and> active s' = [] \<and> prefilling s' = [] \<and> serving (cm (wcore s')) {#}"
proof -
  obtain las lps where m: "list_all2 match_active (active s) las" "list_all2 pending_ctx (prefilling s) lps"
    and S: "serving (cm (wcore s)) (mset las + mset lps)"
    using inv by (auto simp: worker_inv_def matched_def)
  have "\<exists>c1. each (\<lambda>sq. retire env sq False) (active s) (wcore s) = Some c1 \<and> serving (cm c1) (mset lps)"
    by (rule each_ok [OF _ m(1) S]) (auto intro!: retire_ok [OF env] simp: match_active_def)
  then obtain c1 where c1: "each (\<lambda>sq. retire env sq False) (active s) (wcore s) = Some c1"
    "serving (cm c1) (mset lps + {#})" by auto
  have "\<exists>c2. each (drop_prefill env) (prefilling s) c1 = Some c2 \<and> serving (cm c2) {#}"
    by (rule each_ok [OF _ m(2) c1(2)]) (auto intro!: drop_prefill_ok [OF env] simp: pending_ctx_def match_prefill_def)
  then show ?thesis using c1(1) by (auto simp: shutdown_def)
qed

end

end
