(* ===== verification/RF_WorkerRun.thy ===== *)
theory RF_WorkerRun
  imports RF_WorkerStep
begin

text \<open>
  The interpretation of the worker's contract by the mapper, and what it gives: runs of the
  worker from its start never fail and keep the service in reachable states.
\<close>

section \<open>The mapper provides the contract\<close>

text \<open>\<open>L\<close> are the leases of a reachable state of the service whose mapper is \<open>m\<close>.\<close>

definition served :: "config \<Rightarrow> 'kv kv_ops \<Rightarrow> 'kv cell_view \<Rightarrow> 'kv kv_mapper \<Rightarrow> lease multiset \<Rightarrow> bool" where
  "served cfg ops cells m L \<longleftrightarrow> kv_laws ops cells \<and> mcfg m = cfg \<and>
     (\<exists>ls. mset ls = L \<and> reachable ops cells \<lparr>mapper = m, leases = ls\<rparr>)"

lemma servedE:
  assumes "served cfg ops cells m L"
  obtains ls P where "kv_laws ops cells" "mset ls = L" "reachable ops cells \<lparr>mapper = m, leases = ls\<rparr>"
    "mapper_inv cells m P ls (mset (map l_leaf ls))"
proof -
  obtain ls where ls: "kv_laws ops cells" "mset ls = L" "reachable ops cells \<lparr>mapper = m, leases = ls\<rparr>"
    using assms by (auto simp: served_def)
  obtain P where "mapper_inv cells m P ls (mset (map l_leaf ls))" using reachable_inv [OF ls(1,3)] by auto
  then show thesis by (rule that [OF ls])
qed

lemma served_step:
  assumes "served cfg ops cells m L0" "reachable ops cells \<lparr>mapper = m, leases = ls\<rparr>"
    and step: "serve ops cells \<lparr>mapper = m, leases = ls\<rparr> \<lparr>mapper = m', leases = ls'\<rparr>" and "mset ls' = L"
  shows "served cfg ops cells m' L"
proof -
  have laws: "kv_laws ops cells" "mcfg m = cfg" using assms(1) by (simp_all add: served_def)
  have "serving_inv cells \<lparr>mapper = m, leases = ls\<rparr>"
    using reachable_inv [OF laws(1) assms(2)] unfolding serving_inv_def by blast
  then have "mcfg m' = cfg" using serve_inv [OF step laws(1)] laws(2) by simp
  then show ?thesis using laws(1) reachable_step [OF assms(2) step] assms(4) unfolding served_def by blast
qed

lemma served_prepare:
  assumes "served cfg ops cells m L"
  shows "\<exists>m' res. prepare_sequence ops m prompt = Some (m', res) \<and>
    (case res of
       Inl _ \<Rightarrow> served cfg ops cells m' L
     | Inr r \<Rightarrow> served cfg ops cells m' (add_mset (pending_lease (res_seq_id r) (leaf_node r) prompt (cached_pos r)) L) \<and>
         0 \<le> cached_pos r \<and> cached_pos r \<le> int (length prompt) \<and> delta r = drop (nat (cached_pos r)) prompt)"
proof -
  obtain ls P where ls: "kv_laws ops cells" "mset ls = L" "reachable ops cells \<lparr>mapper = m, leases = ls\<rparr>"
    "mapper_inv cells m P ls (mset (map l_leaf ls))" by (rule servedE [OF assms])
  obtain m' res where p: "prepare_sequence ops m prompt = Some (m', res)" and
    cas: "case res of
       Inl e \<Rightarrow> \<exists>P'. mapper_inv cells m' P' ls (mset (map l_leaf ls)) \<and> free_seq_ids m' = [] \<and>
         (\<forall>x. evictable (tree m') x \<longrightarrow> P' x = prompt)
     | Inr r \<Rightarrow> \<exists>P'. prepared cells ls (mset (map l_leaf ls)) prompt m' P' r"
    using prepare_sequence_ok [OF ls(4) evict_ready_leases [OF ls(1)], of prompt] by blast
  show ?thesis
  proof (cases res)
    case (Inl e)
    then show ?thesis using p served_step [OF assms(1) ls(3) serve.refuse ls(2)] by auto
  next
    case (Inr r)
    have "served cfg ops cells m' (add_mset (pending_lease (res_seq_id r) (leaf_node r) prompt (cached_pos r)) L)"
      by (rule served_step [OF assms(1) ls(3) serve.admit]) (use p Inr ls(2) in auto)
    then show ?thesis using p Inr cas by (auto simp: prepared_def)
  qed
qed

lemma served_front:
  assumes "served cfg ops cells m (add_mset l L)"
  obtains ls P where "kv_laws ops cells" "l \<in> set ls" "mset (remove1 l ls) = L" "reachable ops cells \<lparr>mapper = m, leases = ls\<rparr>"
    "mapper_inv cells m P (l # remove1 l ls) (add_mset (l_leaf l) (mset (map l_leaf (remove1 l ls))))"
proof -
  obtain ls P where ls: "kv_laws ops cells" "mset ls = add_mset l L" "reachable ops cells \<lparr>mapper = m, leases = ls\<rparr>"
    "mapper_inv cells m P ls (mset (map l_leaf ls))" by (rule servedE [OF assms])
  have l: "l \<in> set ls" using ls(2) by (metis set_mset_mset union_single_eq_member add_mset_add_single)
  show thesis by (rule that [OF ls(1) l _ ls(3) leases_front [OF ls(4) l]]) (simp add: ls(2))
qed

lemma served_give_back:
  assumes "served cfg ops cells m (add_mset l L)"
  shows "\<exists>m1 m2. release_sequence ops m (l_seq l) (Some (l_leaf l)) = Some m1 \<and>
    release_reference m1 (Some (l_leaf l)) = Some m2 \<and> served cfg ops cells m2 L"
proof -
  obtain ls P where ls: "kv_laws ops cells" "l \<in> set ls" "mset (remove1 l ls) = L" "reachable ops cells \<lparr>mapper = m, leases = ls\<rparr>"
    "mapper_inv cells m P (l # remove1 l ls) (add_mset (l_leaf l) (mset (map l_leaf (remove1 l ls))))"
    by (rule served_front [OF assms])
  obtain m' where m': "abandon_calls ops m l = Some m'" using abandon_ok [OF ls(5,1)] by blast
  have "served cfg ops cells m' L" by (rule served_step [OF assms(1) ls(4) serve.abandon ls(3)]) (use ls(2) m' in auto)
  then show ?thesis using m' by (auto simp: abandon_calls_def split: bind_splits)
qed

lemma served_finish:
  assumes "served cfg ops cells m (add_mset l L)" "l_ready l" "l_cells l \<noteq> []"
  shows "\<exists>m0 node m1 m2. extend_sequence m (l_seq l) (Some (l_leaf l)) (l_cells l) = Some (m0, node) \<and>
    release_sequence ops m0 (l_seq l) node = Some m1 \<and>
    release_reference m1 (Some (l_leaf l)) = Some m2 \<and> served cfg ops cells m2 L"
proof -
  obtain ls P where ls: "kv_laws ops cells" "l \<in> set ls" "mset (remove1 l ls) = L" "reachable ops cells \<lparr>mapper = m, leases = ls\<rparr>"
    "mapper_inv cells m P (l # remove1 l ls) (add_mset (l_leaf l) (mset (map l_leaf (remove1 l ls))))"
    by (rule served_front [OF assms(1)])
  obtain m' where m': "finish_calls ops m l = Some m'" using finish_ok [OF ls(5,1) assms(2,3)] by blast
  have "served cfg ops cells m' L" by (rule served_step [OF assms(1) ls(4) serve.finish ls(3)]) (use ls(2) m' assms in auto)
  then show ?thesis using m' by (auto simp: finish_calls_def split: bind_splits)
qed

lemma served_make_ready:
  assumes "served cfg ops cells m (add_mset l L)" "l_cells l = l_prompt l"
  shows "\<exists>m'. mark_sequence_ready m (l_seq l) (Some (l_leaf l)) = Some m' \<and>
    served cfg ops cells m' (add_mset (l\<lparr>l_ready := True\<rparr>) L)"
proof -
  obtain ls P where ls: "kv_laws ops cells" "l \<in> set ls" "mset (remove1 l ls) = L" "reachable ops cells \<lparr>mapper = m, leases = ls\<rparr>"
    "mapper_inv cells m P (l # remove1 l ls) (add_mset (l_leaf l) (mset (map l_leaf (remove1 l ls))))"
    by (rule served_front [OF assms(1)])
  obtain m' where m': "mark_sequence_ready m (l_seq l) (Some (l_leaf l)) = Some m'"
    using mark_sequence_ready_ok [OF ls(5) assms(2)] by blast
  have "served cfg ops cells m' (add_mset (l\<lparr>l_ready := True\<rparr>) L)"
    by (rule served_step [OF assms(1) ls(4) serve.complete]) (use ls(2,3) m' assms in auto)
  then show ?thesis using m' by blast
qed

lemma served_count: "served cfg ops cells m L \<Longrightarrow> served cfg ops cells (set_sequence_cell_count m s n) L"
proof -
  assume S: "served cfg ops cells m L"
  then obtain ls where ls: "mset ls = L" "reachable ops cells \<lparr>mapper = m, leases = ls\<rparr>" by (auto simp: served_def)
  show "served cfg ops cells (set_sequence_cell_count m s n) L" by (rule served_step [OF S ls(2) serve.count ls(1)])
qed

lemma served_evict:
  assumes "served cfg ops cells m L"
  shows "\<exists>m' b. evict_idle_sequence ops m = Some (m', b) \<and> served cfg ops cells m' L"
proof -
  obtain ls P where ls: "kv_laws ops cells" "mset ls = L" "reachable ops cells \<lparr>mapper = m, leases = ls\<rparr>"
    "mapper_inv cells m P ls (mset (map l_leaf ls))" by (rule servedE [OF assms])
  have "\<forall>l \<in> set ls. l_leaf l \<in># mset (map l_leaf ls)" by auto
  from evict_one_ok [OF ls(4,1) this] obtain m' b where e: "evict_idle_sequence ops m = Some (m', b)"
    by (auto simp: evict_idle_sequence_def)
  show ?thesis using e served_step [OF assms(1) ls(3) serve.reclaim ls(2)] by blast
qed

lemma served_inspect: "served cfg ops cells m L \<Longrightarrow> \<exists>av. mapper_inspect_prefix m prompt = Some av"
proof (elim servedE)
  fix ls P assume "mapper_inv cells m P ls (mset (map l_leaf ls))"
  then have "wf_tree (tree m) P" by (simp add: mapper_inv_def)
  from inspect_prefix_ok [OF this, of prompt] show ?thesis by (auto simp: mapper_inspect_prefix_def)
qed

lemma served_decoded:
  assumes S: "served cfg ops cells m L"
    and new: "\<And>l. l \<in># L \<Longrightarrow> holds_exactly (cells kv' (l_seq l)) (l_cells l @ xs (l_seq l)) \<and>
      (l_ready l \<or> prefix (l_cells l @ xs (l_seq l)) (l_prompt l))"
    and other: "\<And>s. s \<notin> l_seq ` set_mset L \<Longrightarrow> cells kv' s = cells (kv m) s"
  shows "served cfg ops cells (m\<lparr>kv := kv'\<rparr>) (image_mset (append_cells xs) L)"
proof -
  obtain ls P where ls: "kv_laws ops cells" "mset ls = L" "reachable ops cells \<lparr>mapper = m, leases = ls\<rparr>"
    "mapper_inv cells m P ls (mset (map l_leaf ls))" by (rule servedE [OF S])
  have "serve ops cells \<lparr>mapper = m, leases = ls\<rparr> \<lparr>mapper = m\<lparr>kv := kv'\<rparr>, leases = map (append_cells xs) ls\<rparr>"
  proof (rule serve.decode)
    show "batch_decoded cells ls xs (kv m) kv'" using new other ls(2) by (auto simp: batch_decoded_def)
    show "\<forall>l \<in> set ls. l_ready l \<or> prefix (l_cells l @ xs (l_seq l)) (l_prompt l)"
    proof
      fix l assume "l \<in> set ls"
      then have "l \<in># L" using ls(2) by auto
      from new [OF this] show "l_ready l \<or> prefix (l_cells l @ xs (l_seq l)) (l_prompt l)" by (rule conjunct2)
    qed
  qed
  then show ?thesis by (rule served_step [OF S ls(3)]) (simp add: ls(2) [symmetric])
qed

lemma served_lease:
  assumes "served cfg ops cells m L" "l \<in># L"
  shows "holds_exactly (cells (kv m) (l_seq l)) (l_cells l) \<and> (\<not> l_ready l \<longrightarrow> prefix (l_cells l) (l_prompt l))"
proof -
  obtain ls P where ls: "mset ls = L" "mapper_inv cells m P ls (mset (map l_leaf ls))" by (rule servedE [OF assms(1)])
  then have "lease_ok (tree m) P (cells (kv m)) l" using assms(2) by (auto simp: mapper_inv_def)
  then show ?thesis by (auto simp: lease_ok_def)
qed

lemma served_distinct:
  assumes "served cfg ops cells m (mset ls)"
  shows "distinct (map l_seq ls)"
proof -
  obtain ls' P where ls: "mset ls' = mset ls" "mapper_inv cells m P ls' (mset (map l_leaf ls'))" by (rule servedE [OF assms])
  have "distinct (map l_seq ls')" using pool_partition(6) [OF ls(2)] .
  moreover have "mset (map l_seq ls') = mset (map l_seq ls)" using ls(1) by simp
  ultimately show ?thesis using mset_eq_imp_distinct_iff by blast
qed

interpretation mapper_service: sequence_service ops cells "served cfg ops cells" for cfg and ops :: "'kv kv_ops" and cells
  by (rule sequence_service.intro [OF served_prepare served_inspect served_give_back served_finish
        served_make_ready served_count served_evict served_decoded served_lease served_distinct])

section \<open>Runs of the worker\<close>

text \<open>
  What the worker's state can see: requests arrive, in any order and at any time, between the
  iterations of its loop.
\<close>

datatype worker_event = Arrive inference_request | Iterate

definition new_worker :: "config \<Rightarrow> 'kv \<Rightarrow> 'w \<Rightarrow> ('kv, 'w) worker_state" where
  "new_worker cfg kv0 w = \<lparr>queue = [], active = [], prefilling = [], generating = 0,
     wcore = \<lparr>cm = new_mapper cfg kv0, cw = w, decode_steps = 0, prefill_tokens = 0, prefill_calls = 0\<rparr>\<rparr>"

fun run_events ::
  "('kv, 'w) worker_env \<Rightarrow> worker_event list \<Rightarrow> ('kv, 'w) worker_state \<Rightarrow> ('kv, 'w) worker_state option" where
  "run_events env [] s = Some s"
| "run_events env (Arrive req # evs) s = run_events env evs (enqueue req s)"
| "run_events env (Iterate # evs) s = do { s' \<leftarrow> run_iteration env s; run_events env evs s' }"

lemma new_worker_inv:
  assumes "kv_laws ops cells" "\<And>q i. cells kv0 q i = None"
  shows "worker_inv (served cfg ops cells) (new_worker cfg kv0 w)"
proof -
  have "served cfg ops cells (new_mapper cfg kv0) {#}"
    unfolding served_def
  proof (intro conjI exI)
    show "mcfg (new_mapper cfg kv0) = cfg" by (simp add: new_mapper_def)
    show "reachable ops cells \<lparr>mapper = new_mapper cfg kv0, leases = []\<rparr>" using assms(2) by (rule reachable_new)
  qed (simp_all add: assms(1))
  then show ?thesis by (auto simp: worker_inv_def new_worker_def matched_def intro!: exI [of _ "[]"])
qed

lemma run_events_ok:
  "env_ops env = ops \<Longrightarrow> decode_law env cells \<Longrightarrow> worker_inv (served cfg ops cells) s \<Longrightarrow>
   \<exists>s'. run_events env evs s = Some s' \<and> worker_inv (served cfg ops cells) s'"
proof (induction env evs s rule: run_events.induct)
  case (3 env evs s)
  from mapper_service.run_iteration_ok [OF "3.prems"] obtain s1 where
    s1: "run_iteration env s = Some s1" "worker_inv (served cfg ops cells) s1" by blast
  then show ?case using "3.IH" [OF s1(1) "3.prems"(1,2)] by simp
qed (simp_all add: mapper_service.enqueue_ok)

subsection \<open>A decoder on the table\<close>

definition put_cell :: "batch_entry \<Rightarrow> kv_table \<Rightarrow> kv_table" where
  "put_cell e tab = tab(b_seq e := (tab (b_seq e))(nat (b_pos e) \<mapsto> b_token e))"

definition table_decode :: "batch_entry list \<Rightarrow> kv_table \<Rightarrow> 'w \<Rightarrow> int \<times> kv_table \<times> 'w" where
  "table_decode batch tab w = (0, fold put_cell batch tab, w)"

lemma put_other: "of_seq s batch = [] \<Longrightarrow> fold put_cell batch tab s = tab s"
  by (induction batch arbitrary: tab) (auto simp: of_seq_def put_cell_def split: if_splits)

lemma put_own:
  "holds_exactly (tab s) xs \<Longrightarrow>
   map b_pos (of_seq s batch) = map int [length xs..<length xs + length (of_seq s batch)] \<Longrightarrow>
   holds_exactly (fold put_cell batch tab s) (xs @ map b_token (of_seq s batch))"
proof (induction batch arbitrary: tab xs)
  case Nil then show ?case by (simp add: of_seq_def)
next
  case (Cons e batch)
  show ?case
  proof (cases "b_seq e = s")
    case False
    then have "put_cell e tab s = tab s" "of_seq s (e # batch) = of_seq s batch" by (auto simp: put_cell_def of_seq_def)
    then show ?thesis using Cons by simp
  next
    case True
    then have own: "of_seq s (e # batch) = e # of_seq s batch" by (simp add: of_seq_def)
    have "[length xs..<length xs + length (e # of_seq s batch)] =
        length xs # [length (xs @ [b_token e])..<length (xs @ [b_token e]) + length (of_seq s batch)]"
      by (simp add: upt_conv_Cons del: upt_Suc)
    then have pos: "b_pos e = int (length xs)"
      "map b_pos (of_seq s batch) = map int [length (xs @ [b_token e])..<length (xs @ [b_token e]) + length (of_seq s batch)]"
      using Cons.prems(2) unfolding own by (simp_all del: upt_Suc)
    have "put_cell e tab s = (tab s)(length xs \<mapsto> b_token e)" using True pos(1) by (simp add: put_cell_def)
    then have "holds_exactly (put_cell e tab s) (xs @ [b_token e])"
      using Cons.prems(1) by (auto simp: holds_exactly_def nth_append)
    then have "holds_exactly (fold put_cell batch (put_cell e tab) s) ((xs @ [b_token e]) @ map b_token (of_seq s batch))"
      using pos(2) by (rule Cons.IH)
    then show ?thesis by (simp add: own)
  qed
qed

lemma table_decode_law:
  assumes "llama_decode env = table_decode"
  shows "decode_law env table_cells"
  unfolding decode_law_def assms table_decode_def
proof (intro allI impI)
  fix batch :: "batch_entry list" and kv0 kv1 :: kv_table and w w1 :: 'b and st :: int
  assume "(0, fold put_cell batch kv0, w) = (st, kv1, w1)"
  then have kv1: "kv1 = fold put_cell batch kv0" "st = 0" by auto
  show "\<exists>k. (\<forall>s. of_seq s batch = [] \<longrightarrow> table_cells kv1 s = table_cells kv0 s) \<and>
       (\<forall>s xs. holds_exactly (table_cells kv0 s) xs \<longrightarrow>
          map b_pos (of_seq s batch) = map int [length xs..<length xs + length (of_seq s batch)] \<longrightarrow>
          holds_exactly (table_cells kv1 s) (xs @ take (k s) (map b_token (of_seq s batch)))) \<and>
       (\<forall>s. (st = 0 \<longrightarrow> length (of_seq s batch) \<le> k s) \<and> (st = 1 \<longrightarrow> k s = 0))"
    by (intro exI [of _ "\<lambda>s. length (of_seq s batch)"]) (simp add: kv1 table_cells_def put_other put_own)
qed

section \<open>A concrete world\<close>

text \<open>What clients are told is logged; \<open>gone\<close> says when a client is found cancelled.\<close>

datatype notice = Token nat string bool | Failure nat int | Cancellation nat

definition logging_env ::
  "(nat \<Rightarrow> notice list \<Rightarrow> bool \<times> notice list) \<Rightarrow> (notice list \<Rightarrow> token) \<Rightarrow> (kv_table, notice list) worker_env" where
  "logging_env poll next = \<lparr>env_ops = table_ops, env_n_ctx = 32, env_n_batch = 4, env_n_seq_max = 4,
     tokenize = map (\<lambda>c. if c = CHR ''a'' then 1 else 2), apply_chat_template = (\<lambda>ms. concat (map snd ms)),
     llama_decode = table_decode, create_sampler = (\<lambda>_ _ w. (0, w)), free_sampler = (\<lambda>_ w. w),
     sample = (\<lambda>_ _ w. (next w, w)), is_eog = (\<lambda>t. t = 0), token_piece = (\<lambda>_. ''x''),
     poll_cancelled = poll, on_cancel = (\<lambda>i w. w @ [Cancellation i]),
     on_token = (\<lambda>i p last_one st w. w @ [Token i p last_one]), on_error = (\<lambda>i msg st w. w @ [Failure i st])\<rparr>"

definition sample_env :: "(nat \<Rightarrow> notice list \<Rightarrow> bool) \<Rightarrow> (kv_table, notice list) worker_env" where
  "sample_env gone = logging_env (\<lambda>i w. (gone i w, w)) (\<lambda>w. if length w \<ge> 3 then 0 else 2)"

definition sample_request :: "nat \<Rightarrow> string \<Rightarrow> int \<Rightarrow> inference_request" where
  "sample_request i p n = \<lparr>rq_id = i, rq_prompt = p, rq_messages = [], rq_max_tokens = n, rq_temperature = 0,
     rq_top_p = 1, rq_stream = True, rq_cancel_armed = True\<rparr>"

definition sample_worker :: "(kv_table, notice list) worker_state" where
  "sample_worker = new_worker (sample_config 4) empty_table []"

lemma sample_decode_law: "decode_law (sample_env gone) table_cells"
  by (rule table_decode_law) (simp add: sample_env_def logging_env_def)

lemma sample_env_ops: "env_ops (sample_env gone) = table_ops"
  by (simp add: sample_env_def logging_env_def)

section \<open>The worker never fails\<close>

definition accounted :: "'kv kv_ops \<Rightarrow> 'kv cell_view \<Rightarrow> ('kv, 'w) worker_state \<Rightarrow> bool" where
  "accounted ops cells s \<longleftrightarrow> (\<exists>las lps ls. reachable ops cells \<lparr>mapper = cm (wcore s), leases = ls\<rparr> \<and>
     mset ls = mset (las @ lps) \<and> list_all2 match_active (active s) las \<and> (\<forall>sq \<in> set (active s). \<not> as_done sq) \<and>
     list_all2 pending_ctx (prefilling s) lps)"

lemma accounted_inv: "worker_inv (served cfg ops cells) s \<Longrightarrow> accounted ops cells s"
  by (fastforce simp: worker_inv_def served_def accounted_def matched_def)

text \<open>
  C14. The worker refines the service. Whatever the clients, the tokenizer, the sampler and the
  callbacks do, and in whatever order requests arrive, every run of the worker from its start
  returns, and the vectors it keeps describe exactly the leases of a reachable state of the
  service: each active sequence owns a ready lease whose KV cells are its tokens, each prompt
  in prefill owns a lease that holds the decoded part of the prompt. So every property of the
  reachable states holds while the worker runs, and the worker never uses a sequence or a node
  it has given back.
\<close>

theorem worker_runs_safely:
  assumes "kv_laws (env_ops env) cells" "decode_law env cells" "\<And>q i. cells kv0 q i = None"
  shows "\<exists>s. run_events env evs (new_worker cfg kv0 w) = Some s \<and> accounted (env_ops env) cells s"
  using run_events_ok [OF refl assms(2) new_worker_inv [OF assms(1,3)]] accounted_inv by blast

theorem worker_runs_safely_witness:
  "\<exists>s. run_events (sample_env (\<lambda>_ _. False)) [Arrive (sample_request 0 ''aba'' 3), Iterate, Iterate] sample_worker = Some s \<and>
     accounted table_ops table_cells s"
  using worker_runs_safely [of "sample_env (\<lambda>_ _. False)" table_cells empty_table
      "[Arrive (sample_request 0 ''aba'' 3), Iterate, Iterate]" "sample_config 4" "[]"]
  by (simp add: sample_env_ops table_laws sample_decode_law sample_worker_def) (simp add: empty_table_def table_cells_def)

text \<open>
  When the server stops, the worker gives back everything: after any run, \<open>shutdown\<close>
  returns, no sequence is active or in prefill, and the mapper is in a reachable state that
  serves no request, in which only the root is referenced.
\<close>

theorem shutdown_gives_back:
  assumes laws: "kv_laws (env_ops env) cells" "decode_law env cells" "\<And>q i. cells kv0 q i = None"
  shows "\<exists>s s'. run_events env evs (new_worker cfg kv0 w) = Some s \<and> shutdown env s = Some s' \<and>
    active s' = [] \<and> prefilling s' = [] \<and> generating s' = 0 \<and>
    reachable (env_ops env) cells \<lparr>mapper = cm (wcore s'), leases = []\<rparr> \<and>
    (\<forall>n nd. heap (tree (cm (wcore s'))) n = Some nd \<longrightarrow> ref_count nd = (if n = root_addr then 1 else 0))"
proof -
  obtain s where s: "run_events env evs (new_worker cfg kv0 w) = Some s" "worker_inv (served cfg (env_ops env) cells) s"
    using run_events_ok [OF refl laws(2) new_worker_inv [OF laws(1,3)]] by blast
  obtain s' where s': "shutdown env s = Some s'" "active s' = []" "prefilling s' = []"
    "served cfg (env_ops env) cells (cm (wcore s')) {#}" using mapper_service.shutdown_ok [OF refl s(2)] by blast
  have gen: "generating s' = 0" using s'(1) by (auto simp: shutdown_def split: bind_splits)
  obtain ls P where ls: "mset ls = {#}" "reachable (env_ops env) cells \<lparr>mapper = cm (wcore s'), leases = ls\<rparr>"
    "mapper_inv cells (cm (wcore s')) P ls (mset (map l_leaf ls))" by (rule servedE [OF s'(4)])
  have "\<forall>n nd. heap (tree (cm (wcore s'))) n = Some nd \<longrightarrow> ref_count nd = (if n = root_addr then 1 else 0)"
    using ls by (auto simp: mapper_inv_def refs_ok_def)
  then show ?thesis using s s' gen ls(1,2) by auto
qed

theorem shutdown_gives_back_witness:
  "\<exists>s s'. run_events (sample_env (\<lambda>_ _. False)) [Arrive (sample_request 0 ''aba'' 3), Iterate] sample_worker = Some s \<and>
    shutdown (sample_env (\<lambda>_ _. False)) s = Some s' \<and> active s' = [] \<and> prefilling s' = [] \<and> generating s' = 0 \<and>
    reachable table_ops table_cells \<lparr>mapper = cm (wcore s'), leases = []\<rparr> \<and>
    (\<forall>n nd. heap (tree (cm (wcore s'))) n = Some nd \<longrightarrow> ref_count nd = (if n = root_addr then 1 else 0))"
  unfolding sample_worker_def
  by (rule shutdown_gives_back [where cells = table_cells and env = "sample_env (\<lambda>_ _. False)", unfolded sample_env_ops])
    (simp_all add: table_laws sample_decode_law, simp add: empty_table_def table_cells_def)

end
