(* ===== verification/RF_WorkerAnswer.thy ===== *)
theory RF_WorkerAnswer
  imports RF_WorkerRun
begin

text \<open>
  No request is lost: whatever leaves the worker's queue and vectors has been answered. The
  callbacks are arbitrary; \<open>A w i\<close> says that in the world \<open>w\<close> the client of request \<open>i\<close> has
  been told the end of it, by a last token, by an error or by its own cancellation.
\<close>

section \<open>Answers\<close>

definition kept :: "('w \<Rightarrow> nat \<Rightarrow> bool) \<Rightarrow> 'w \<Rightarrow> 'w \<Rightarrow> bool" where
  "kept A w w' \<longleftrightarrow> (\<forall>i. A w i \<longrightarrow> A w' i)"

text \<open>
  The three final callbacks answer their request, where \<open>on_cancel\<close> follows a poll that has found
  the client gone, and no call takes an answer back.
\<close>

definition answer_law :: "('kv, 'w) worker_env \<Rightarrow> ('w \<Rightarrow> nat \<Rightarrow> bool) \<Rightarrow> bool" where
  "answer_law env A \<longleftrightarrow>
     (\<forall>i w w'. poll_cancelled env i w = (True, w') \<longrightarrow> A (on_cancel env i w') i) \<and> (\<forall>i msg st w. A (on_error env i msg st w) i) \<and>
     (\<forall>i p st w. A (on_token env i p True st w) i) \<and>
     (\<forall>i w. kept A w (on_cancel env i w)) \<and> (\<forall>i msg st w. kept A w (on_error env i msg st w)) \<and>
     (\<forall>i p last_one st w. kept A w (on_token env i p last_one st w)) \<and>
     (\<forall>i w. kept A w (snd (poll_cancelled env i w))) \<and> (\<forall>smpl w. kept A w (free_sampler env smpl w)) \<and>
     (\<forall>smpl i w. kept A w (snd (sample env smpl i w))) \<and> (\<forall>t p w. kept A w (snd (create_sampler env t p w))) \<and>
     (\<forall>batch kv w. kept A w (snd (snd (llama_decode env batch kv w))))"

lemma kept_refl [simp, intro]: "kept A w w"
  by (simp add: kept_def)

lemma kept_trans: "kept A w w1 \<Longrightarrow> kept A w1 w2 \<Longrightarrow> kept A w w2"
  by (simp add: kept_def)

lemma keptD: "kept A w w' \<Longrightarrow> A w i \<Longrightarrow> A w' i"
  by (simp add: kept_def)

lemma answer_laws:
  assumes "answer_law env A"
  shows "poll_cancelled env i w = (True, w') \<Longrightarrow> A (on_cancel env i w') i" "A (on_error env i msg st w) i" "A (on_token env i p True ist w) i"
    "kept A w (on_cancel env i w)" "kept A w (on_error env i msg st w)" "kept A w (on_token env i p b ist w)"
    "poll_cancelled env i w = (hit, w') \<Longrightarrow> kept A w w'" "kept A w (free_sampler env smpl w)"
    "sample env smpl k w = (tok, w') \<Longrightarrow> kept A w w'" "create_sampler env t tp w = (smpl, w') \<Longrightarrow> kept A w w'"
    "llama_decode env batch k0 w = (status, k1, w') \<Longrightarrow> kept A w w'"
  using assms unfolding answer_law_def by (metis snd_conv)+

lemma kept_through:
  assumes "answer_law env A" "kept A w0 w"
  shows "kept A w0 (on_cancel env i w)" "kept A w0 (on_error env i msg st w)" "kept A w0 (on_token env i p b ist w)"
    "kept A w0 (free_sampler env smpl w)"
  using kept_trans [OF assms(2)] answer_laws(4,5,6,8) [OF assms(1)] by blast+

text \<open>What was before is still there or has been answered.\<close>

definition settled :: "('w \<Rightarrow> nat \<Rightarrow> bool) \<Rightarrow> 'w \<Rightarrow> 'w \<Rightarrow> nat multiset \<Rightarrow> nat multiset \<Rightarrow> bool" where
  "settled A w w' before after \<longleftrightarrow> kept A w w' \<and> (\<exists>gone. before = after + gone \<and> (\<forall>i \<in># gone. A w' i))"

lemma settled_same: "kept A w w' \<Longrightarrow> settled A w w' X X"
  by (simp add: settled_def)

lemma settled_kept: "settled A w w' X Y \<Longrightarrow> kept A w w'"
  by (simp add: settled_def)

lemma settled_trans: "settled A w w1 X Y \<Longrightarrow> settled A w1 w2 Y Z \<Longrightarrow> settled A w w2 X Z"
  unfolding settled_def
proof (elim conjE exE, intro conjI)
  fix gone gone' assume a: "kept A w w1" "kept A w1 w2" "X = Y + gone" "\<forall>i \<in># gone. A w1 i"
    "Y = Z + gone'" "\<forall>i \<in># gone'. A w2 i"
  show "kept A w w2" using a(1,2) by (rule kept_trans)
  have "\<forall>i \<in># gone' + gone. A w2 i" using a(4,6) keptD [OF a(2)] by auto
  then show "\<exists>gone. X = Z + gone \<and> (\<forall>i \<in># gone. A w2 i)"
    using a(3,5) by (intro exI [of _ "gone' + gone"]) (simp add: ac_simps)
qed

lemma settled_add: "settled A w w' X Y \<Longrightarrow> settled A w w' (X + Z) (Y + Z)"
  unfolding settled_def by (auto simp: ac_simps)

lemma settled_add_mset: "settled A w w' X Y \<Longrightarrow> settled A w w' (add_mset i X) (add_mset i Y)"
  using settled_add [of A w w' X Y "{#i#}"] by simp

lemma settled_gone: "settled A w w' X Y \<Longrightarrow> A w' i \<Longrightarrow> settled A w w' (add_mset i X) Y"
proof -
  assume s: "settled A w w' X Y" and a: "A w' i"
  then obtain gone where "kept A w w'" "X = Y + gone" "\<forall>i \<in># gone. A w' i" by (auto simp: settled_def)
  then show ?thesis using a unfolding settled_def by (intro conjI exI [of _ "add_mset i gone"]) auto
qed

section \<open>Requests\<close>

text \<open>A request whose cancellation has been reported is answered.\<close>

definition live :: "('w \<Rightarrow> nat \<Rightarrow> bool) \<Rightarrow> 'w \<Rightarrow> inference_request \<Rightarrow> bool" where
  "live A w req \<longleftrightarrow> rq_cancel_armed req \<or> A w (rq_id req)"

lemma live_kept: "kept A w w' \<Longrightarrow> live A w req \<Longrightarrow> live A w' req"
  by (auto simp: live_def keptD)

lemma is_cancelled_live:
  assumes "answer_law env A" "is_cancelled env req c = (hit, req', c')"
  shows "kept A (cw c) (cw c')" "rq_id req' = rq_id req"
    "live A (cw c) req \<Longrightarrow> live A (cw c') req'" "live A (cw c) req \<Longrightarrow> hit \<Longrightarrow> A (cw c') (rq_id req)"
proof -
  obtain h w where p: "poll_cancelled env (rq_id req) (cw c) = (h, w)" by (cases "poll_cancelled env (rq_id req) (cw c)")
  note k = answer_laws(7) [OF assms(1) p]
  have "kept A (cw c) (on_cancel env (rq_id req) w)" by (rule kept_trans [OF k answer_laws(4) [OF assms(1)]])
  then show "kept A (cw c) (cw c')" "rq_id req' = rq_id req"
    "live A (cw c) req \<Longrightarrow> live A (cw c') req'" "live A (cw c) req \<Longrightarrow> hit \<Longrightarrow> A (cw c') (rq_id req)"
    using assms(2) p k answer_laws(1) [OF assms(1), of "rq_id req" "cw c" w]
    by (auto simp: is_cancelled_def live_def keptD split: if_splits)
qed

definition act_ok :: "('w \<Rightarrow> nat \<Rightarrow> bool) \<Rightarrow> 'w \<Rightarrow> active_seq \<Rightarrow> bool" where
  "act_ok A w sq \<longleftrightarrow> live A w (as_req sq) \<and> (as_done sq \<longrightarrow> notify_on_retire sq \<or> A w (rq_id (as_req sq)))"

lemma act_ok_kept: "kept A w w' \<Longrightarrow> act_ok A w sq \<Longrightarrow> act_ok A w' sq"
  by (auto simp: act_ok_def keptD live_kept)

abbreviation act_id :: "active_seq \<Rightarrow> nat" where
  "act_id sq \<equiv> rq_id (as_req sq)"

abbreviation ctx_id :: "prefill_ctx \<Rightarrow> nat" where
  "ctx_id ctx \<equiv> rq_id (pc_req ctx)"

lemma retire_answers:
  assumes law: "answer_law env A" and run: "retire env sq notify c = Some c'" and l: "live A (cw c) (as_req sq)"
    and n: "notify \<or> A (cw c) (act_id sq)"
  shows "kept A (cw c) (cw c') \<and> A (cw c') (act_id sq)"
proof (cases notify)
  case False
  then show ?thesis using run n kept_through(4) [OF law kept_refl]
    by (auto simp: retire_def Let_def split: bind_splits intro: keptD [OF answer_laws(8) [OF law]])
next
  case True
  obtain hit req1 c1 where p: "is_cancelled env (as_req sq) c = (hit, req1, c1)" by (cases "is_cancelled env (as_req sq) c")
  note p' = is_cancelled_live [OF law p]
  obtain node c2 where c2: "cw c2 = cw c1"
    "(if hit then Some (Some (as_leaf sq), req1, c1)
      else do { (m, node) \<leftarrow> extend_sequence (cm c1) (as_seq_id sq) (Some (as_leaf sq)) (cached_tokens sq);
                Some (node, req1, c1\<lparr>cm := m\<rparr>) }) = Some (node, req1, c2)"
    using run True p by (auto simp: retire_def split: bind_splits if_splits prod.splits)
  obtain hit2 req2 c3 where q: "is_cancelled env req1 c2 = (hit2, req2, c3)" by (cases "is_cancelled env req1 c2")
  note q' = is_cancelled_live [OF law q]
  let ?w = "if hit2 then cw c3 else on_token env (rq_id req1) [] True (Some (as_stats sq)) (cw c3)"
  have w: "cw c' = free_sampler env (as_sampler sq) ?w"
    using run True p c2 q by (auto simp: retire_def Let_def split: bind_splits if_splits)
  have live1: "live A (cw c2) req1" using p'(3) [OF l] c2(1) by simp
  have "kept A (cw c) (cw c3)" using kept_trans [OF p'(1)] q'(1) c2(1) by simp
  then have "kept A (cw c) ?w" using kept_through(3) [OF law] by simp
  moreover have "A ?w (act_id sq)" using q'(4) [OF live1] answer_laws(3) [OF law] p'(2) by (auto split: if_splits)
  ultimately show ?thesis using w kept_trans answer_laws(8) [OF law] keptD by metis
qed

lemma fail_active_answers:
  assumes law: "answer_law env A" and run: "fail_active env msg st sq c = Some c'" and l: "live A (cw c) (as_req sq)"
  shows "kept A (cw c) (cw c') \<and> A (cw c') (act_id sq)"
proof -
  obtain hit req1 c1 where p: "is_cancelled env (as_req sq) c = (hit, req1, c1)" by (cases "is_cancelled env (as_req sq) c")
  note p' = is_cancelled_live [OF law p]
  let ?w = "if hit then cw c1 else on_error env (rq_id req1) msg st (cw c1)"
  have w: "cw c' = free_sampler env (as_sampler sq) ?w"
    using run p by (auto simp: fail_active_def Let_def report_error_def split: bind_splits if_splits)
  have "kept A (cw c) ?w" using p'(1) kept_through(2) [OF law p'(1)] by simp
  moreover have "A ?w (act_id sq)" using p'(2,4) l answer_laws(2) [OF law] by (auto split: if_splits)
  ultimately show ?thesis using w kept_trans answer_laws(8) [OF law] keptD by metis
qed

lemma drop_prefill_cw: "drop_prefill env ctx c = Some c' \<Longrightarrow> cw c' = cw c"
  by (auto simp: drop_prefill_def split: bind_splits)

lemma fail_prefill_answers:
  assumes law: "answer_law env A" and run: "fail_prefill env msg st ctx c = Some c'" and l: "live A (cw c) (pc_req ctx)"
  shows "kept A (cw c) (cw c') \<and> A (cw c') (ctx_id ctx)"
proof -
  obtain hit req1 c1 where p: "is_cancelled env (pc_req ctx) c = (hit, req1, c1)" by (cases "is_cancelled env (pc_req ctx) c")
  note p' = is_cancelled_live [OF law p]
  have w: "cw c' = (if hit then cw c1 else on_error env (rq_id req1) msg st (cw c1))"
    using run p by (auto simp: fail_prefill_def Let_def report_error_def dest!: drop_prefill_cw split: if_splits)
  then show ?thesis using p' l kept_through(2) [OF law p'(1)] answer_laws(2) [OF law] by (auto split: if_splits)
qed

lemma each_settled:
  assumes step: "\<And>x c c'. f x c = Some c' \<Longrightarrow> ok (cw c) x \<Longrightarrow> kept A (cw c) (cw c') \<and> A (cw c') (ident x)"
    and stable: "\<And>w w' x. kept A w w' \<Longrightarrow> ok w x \<Longrightarrow> ok w' x"
  shows "each f xs c = Some c' \<Longrightarrow> \<forall>x \<in> set xs. ok (cw c) x \<Longrightarrow>
    settled A (cw c) (cw c') (mset (map ident xs)) {#}"
proof (induction xs arbitrary: c)
  case Nil then show ?case by (simp add: settled_same)
next
  case (Cons x xs)
  obtain c1 where c1: "f x c = Some c1" "each f xs c1 = Some c'" using Cons.prems(1) by (auto split: bind_splits)
  have k: "kept A (cw c) (cw c1)" "A (cw c1) (ident x)" using step [OF c1(1)] Cons.prems(2) by auto
  have s: "settled A (cw c1) (cw c') (mset (map ident xs)) {#}"
    using Cons.prems(2) stable [OF k(1)] by (intro Cons.IH [OF c1(2)]) auto
  have "settled A (cw c) (cw c1) (mset (map ident (x # xs))) (mset (map ident xs))"
    using settled_gone [OF settled_same [OF k(1)] k(2)] by simp
  then show ?case using s by (rule settled_trans)
qed

section \<open>The steps\<close>

lemma poll_active_settled:
  "answer_law env A \<Longrightarrow> \<forall>sq \<in> set seqs. live A (cw c) (as_req sq) \<and> \<not> as_done sq \<Longrightarrow>
   poll_active env seqs c = (seqs', c') \<Longrightarrow>
   kept A (cw c) (cw c') \<and> map act_id seqs' = map act_id seqs \<and>
   (\<forall>sq \<in> set seqs'. live A (cw c') (as_req sq) \<and> (as_done sq \<longrightarrow> A (cw c') (act_id sq)))"
proof (induction seqs arbitrary: c seqs' c')
  case Nil then show ?case by simp
next
  case (Cons sq seqs)
  obtain hit req c1 where p: "is_cancelled env (as_req sq) c = (hit, req, c1)" by (cases "is_cancelled env (as_req sq) c")
  obtain rest c2 where r: "poll_active env seqs c1 = (rest, c2)" by (cases "poll_active env seqs c1")
  note p' = is_cancelled_live [OF Cons.prems(1) p]
  have ih: "kept A (cw c1) (cw c2)" "map act_id rest = map act_id seqs"
    "\<forall>sq \<in> set rest. live A (cw c2) (as_req sq) \<and> (as_done sq \<longrightarrow> A (cw c2) (act_id sq))"
    using Cons.IH [OF Cons.prems(1) _ r] Cons.prems(2) live_kept [OF p'(1)] by auto
  have "live A (cw c2) req" "hit \<Longrightarrow> A (cw c2) (rq_id req)"
    using p'(2-4) Cons.prems(2) live_kept [OF ih(1)] keptD [OF ih(1)] by auto
  then show ?case using Cons.prems(2,3) p r p'(2) ih kept_trans [OF p'(1) ih(1)] by auto
qed

lemma retire_done_settled:
  "answer_law env A \<Longrightarrow> \<forall>sq \<in> set seqs. live A (cw c) (as_req sq) \<and> (as_done sq \<longrightarrow> A (cw c) (act_id sq)) \<Longrightarrow>
   retire_done env seqs c = Some (seqs', c') \<Longrightarrow>
   settled A (cw c) (cw c') (mset (map act_id seqs)) (mset (map act_id seqs')) \<and>
   (\<forall>sq \<in> set seqs'. live A (cw c') (as_req sq) \<and> \<not> as_done sq)"
proof (induction seqs arbitrary: c seqs' c')
  case Nil then show ?case by (simp add: settled_same)
next
  case (Cons sq seqs)
  note law = Cons.prems(1)
  show ?case
  proof (cases "as_done sq")
    case True
    obtain c1 where c1: "retire env sq False c = Some c1" "retire_done env seqs c1 = Some (seqs', c')"
      using Cons.prems(3) True by (auto split: bind_splits)
    have k: "kept A (cw c) (cw c1)" "A (cw c1) (act_id sq)"
      using retire_answers [OF law c1(1)] Cons.prems(2) True by auto
    have ih: "settled A (cw c1) (cw c') (mset (map act_id seqs)) (mset (map act_id seqs'))"
      "\<forall>sq \<in> set seqs'. live A (cw c') (as_req sq) \<and> \<not> as_done sq"
      using Cons.IH [OF law _ c1(2)] Cons.prems(2) live_kept [OF k(1)] keptD [OF k(1)] by auto
    have "settled A (cw c) (cw c1) (mset (map act_id (sq # seqs))) (mset (map act_id seqs))"
      using settled_gone [OF settled_same [OF k(1)] k(2)] by simp
    from conjI [OF settled_trans [OF this ih(1)] ih(2)] show ?thesis .
  next
    case False
    obtain rest where r: "retire_done env seqs c = Some (rest, c')" "seqs' = sq # rest"
      using Cons.prems(3) False by (auto split: bind_splits prod.splits)
    have ih: "settled A (cw c) (cw c') (mset (map act_id seqs)) (mset (map act_id rest))"
      "\<forall>sq \<in> set rest. live A (cw c') (as_req sq) \<and> \<not> as_done sq"
      using Cons.IH [OF law _ r(1)] Cons.prems(2) by auto
    then show ?thesis using r(2) False Cons.prems(2) settled_add_mset [OF ih(1)] live_kept [OF settled_kept [OF ih(1)]]
      by auto
  qed
qed

lemma retire_completed_settled:
  "answer_law env A \<Longrightarrow> \<forall>sq \<in> set seqs. act_ok A (cw c) sq \<Longrightarrow> retire_completed env seqs c = Some (seqs', c') \<Longrightarrow>
   settled A (cw c) (cw c') (mset (map act_id seqs)) (mset (map act_id seqs')) \<and>
   (\<forall>sq \<in> set seqs'. live A (cw c') (as_req sq) \<and> \<not> as_done sq)"
proof (induction seqs arbitrary: c seqs' c')
  case Nil then show ?case by (simp add: settled_same)
next
  case (Cons sq seqs)
  note law = Cons.prems(1)
  have ok: "act_ok A (cw c) sq" using Cons.prems(2) by simp
  show ?case
  proof (cases "as_done sq")
    case True
    obtain hit req c0 where p: "is_cancelled env (as_req sq) c = (hit, req, c0)" by (cases "is_cancelled env (as_req sq) c")
    note p' = is_cancelled_live [OF law p]
    obtain c1 where c1: "retire env (sq\<lparr>as_req := req\<rparr>) (notify_on_retire sq) c0 = Some c1"
      "retire_completed env seqs c1 = Some (seqs', c')"
      using Cons.prems(3) True p by (auto split: bind_splits)
    have "live A (cw c0) (as_req (sq\<lparr>as_req := req\<rparr>))" "notify_on_retire sq \<or> A (cw c0) (act_id (sq\<lparr>as_req := req\<rparr>))"
      using ok True p' keptD [OF p'(1)] by (auto simp: act_ok_def)
    from retire_answers [OF law c1(1) this] have k: "kept A (cw c0) (cw c1)" "A (cw c1) (act_id sq)"
      using p'(2) by simp_all
    note k' = kept_trans [OF p'(1) k(1)]
    have ih: "settled A (cw c1) (cw c') (mset (map act_id seqs)) (mset (map act_id seqs'))"
      "\<forall>sq \<in> set seqs'. live A (cw c') (as_req sq) \<and> \<not> as_done sq"
      using Cons.IH [OF law _ c1(2)] Cons.prems(2) act_ok_kept [OF k'] by auto
    have "settled A (cw c) (cw c1) (mset (map act_id (sq # seqs))) (mset (map act_id seqs))"
      using settled_gone [OF settled_same [OF k'] k(2)] by simp
    from conjI [OF settled_trans [OF this ih(1)] ih(2)] show ?thesis .
  next
    case False
    obtain rest where r: "retire_completed env seqs c = Some (rest, c')" "seqs' = sq # rest"
      using Cons.prems(3) False by (auto split: bind_splits prod.splits)
    have ih: "settled A (cw c) (cw c') (mset (map act_id seqs)) (mset (map act_id rest))"
      "\<forall>sq \<in> set rest. live A (cw c') (as_req sq) \<and> \<not> as_done sq"
      using Cons.IH [OF law _ r(1)] Cons.prems(2) by auto
    then show ?thesis using r(2) False ok settled_add_mset [OF ih(1)] live_kept [OF settled_kept [OF ih(1)]]
      by (auto simp: act_ok_def)
  qed
qed

lemma drop_cancelled_settled:
  "answer_law env A \<Longrightarrow> \<forall>ctx \<in> set ctxs. live A (cw c) (pc_req ctx) \<Longrightarrow> drop_cancelled env ctxs c = Some (ctxs', c') \<Longrightarrow>
   settled A (cw c) (cw c') (mset (map ctx_id ctxs)) (mset (map ctx_id ctxs')) \<and>
   (\<forall>ctx \<in> set ctxs'. live A (cw c') (pc_req ctx))"
proof (induction ctxs arbitrary: c ctxs' c')
  case Nil then show ?case by (simp add: settled_same)
next
  case (Cons ctx ctxs)
  note law = Cons.prems(1)
  obtain hit req c0 where p: "is_cancelled env (pc_req ctx) c = (hit, req, c0)" by (cases "is_cancelled env (pc_req ctx) c")
  note p' = is_cancelled_live [OF law p]
  have l: "live A (cw c) (pc_req ctx)" using Cons.prems(2) by simp
  show ?case
  proof (cases hit)
    case True
    obtain c1 where c1: "drop_prefill env ctx c0 = Some c1" "drop_cancelled env ctxs c1 = Some (ctxs', c')"
      using Cons.prems(3) True p by (auto split: bind_splits)
    have k: "kept A (cw c) (cw c1)" "A (cw c1) (ctx_id ctx)"
      using p'(1,4) l True drop_prefill_cw [OF c1(1)] by simp_all
    have ih: "settled A (cw c1) (cw c') (mset (map ctx_id ctxs)) (mset (map ctx_id ctxs'))"
      "\<forall>ctx \<in> set ctxs'. live A (cw c') (pc_req ctx)"
      using Cons.IH [OF law _ c1(2)] Cons.prems(2) live_kept [OF k(1)] by auto
    have "settled A (cw c) (cw c1) (mset (map ctx_id (ctx # ctxs))) (mset (map ctx_id ctxs))"
      using settled_gone [OF settled_same [OF k(1)] k(2)] by simp
    from conjI [OF settled_trans [OF this ih(1)] ih(2)] show ?thesis .
  next
    case False
    obtain rest where r: "drop_cancelled env ctxs c0 = Some (rest, c')" "ctxs' = ctx\<lparr>pc_req := req\<rparr> # rest"
      using Cons.prems(3) False p by (auto split: bind_splits prod.splits)
    have ih: "settled A (cw c0) (cw c') (mset (map ctx_id ctxs)) (mset (map ctx_id rest))"
      "\<forall>ctx \<in> set rest. live A (cw c') (pc_req ctx)"
      using Cons.IH [OF law _ r(1)] Cons.prems(2) live_kept [OF p'(1)] by auto
    have "settled A (cw c) (cw c') (mset (map ctx_id (ctx # ctxs))) (mset (map ctx_id ctxs'))"
      using settled_trans [OF settled_same [OF p'(1)] settled_add_mset [OF ih(1)]] r(2) p'(2) by simp
    moreover have "live A (cw c') req" using p'(3) [OF l] live_kept [OF settled_kept [OF ih(1)]] by simp
    ultimately show ?thesis using r(2) ih(2) by simp
  qed
qed

lemma decode_kept:
  assumes law: "answer_law env A" and run: "decode_with_retry env batch c = Some (status, c')"
  shows "kept A (cw c) (cw c')"
proof -
  obtain st k1 w1 where d: "llama_decode env batch (kv (cm c)) (cw c) = (st, k1, w1)"
    by (cases "llama_decode env batch (kv (cm c)) (cw c)") auto
  note k = answer_laws(11) [OF law d]
  show ?thesis
    using run d k kept_trans [OF k answer_laws(11) [OF law]]
    by (auto simp: decode_with_retry_def Let_def split: bind_splits if_splits prod.splits)
qed

lemma finish_chunks_same:
  "finish_chunks subs ctxs logits c = Some (ctxs', logits', c') \<Longrightarrow>
   cw c' = cw c \<and> map pc_req ctxs' = map pc_req ctxs \<and> length logits' = length logits"
proof (induction subs ctxs logits c rule: finish_chunks.induct)
  case 1 then show ?case by simp
next
  case (2 sub subs ctxs logits c)
  let ?ctx = "ctxs ! ctx_index sub"
  let ?new = "?ctx\<lparr>delta_start := delta_start ?ctx + sub_tokens sub\<rparr>"
  have len: "ctx_index sub < length ctxs" using "2.prems" by (auto split: if_splits)
  have same: "map pc_req (ctxs[ctx_index sub := ?new]) = map pc_req ctxs"
    using len by (simp add: map_update list_update_same_conv)
  show ?case
  proof (cases "delta_start ?new = int (length (delta (pc_prep ?new)))")
    case True
    then obtain m where "mark_sequence_ready (cm c) (res_seq_id (pc_prep ?new)) (Some (leaf_node (pc_prep ?new))) = Some m"
      "finish_chunks subs (ctxs[ctx_index sub := ?new]) (logits[ctx_index sub := logit_index sub]) (c\<lparr>cm := m\<rparr>) =
        Some (ctxs', logits', c')"
      using "2.prems" len by (auto simp: Let_def split: bind_splits)
    from "2.IH"(1) [OF len refl refl refl True this] same show ?thesis by simp
  next
    case False
    then have "finish_chunks subs (ctxs[ctx_index sub := ?new]) logits c = Some (ctxs', logits', c')"
      using "2.prems" len by (auto simp: Let_def)
    from "2.IH"(2) [OF len refl refl refl False this] same show ?thesis by simp
  qed
qed

lemma generate_one_answers:
  assumes law: "answer_law env A" and run: "generate_one env i sq c = (sq', c')" and l: "live A (cw c) (as_req sq)"
    and nd: "\<not> as_done sq"
  shows "kept A (cw c) (cw c') \<and> act_id sq' = act_id sq \<and> act_ok A (cw c') sq'"
proof -
  let ?m = "set_sequence_cell_count (cm c) (as_seq_id sq) (as_pos sq + 1)"
  obtain tok w where s: "sample env (as_sampler sq) (int i) (cw c) = (tok, w)"
    by (cases "sample env (as_sampler sq) (int i) (cw c)")
  note ks = answer_laws(9) [OF law s]
  have l0: "live A w (as_req sq)" by (rule live_kept [OF ks l])
  show ?thesis
  proof (cases "is_eog env tok")
    case True
    then show ?thesis using run s ks l0 by (auto simp: generate_one_def act_ok_def Let_def)
  next
    case False
    let ?c1 = "c\<lparr>cm := ?m, cw := w\<rparr>" and ?last = "as_remaining sq - 1 = 0"
    obtain hit req c2 where p: "is_cancelled env (as_req sq) ?c1 = (hit, req, c2)" by (cases "is_cancelled env (as_req sq) ?c1")
    note p' = is_cancelled_live [OF law p]
    have l1: "live A (cw ?c1) (as_req sq)" using l0 by simp
    let ?st = "if ?last then Some (count_predicted (as_stats sq)) else None"
    let ?c3 = "if hit then c2 else c2\<lparr>cw := on_token env (rq_id req) (token_piece env tok) ?last ?st (cw c2)\<rparr>"
    have k2: "kept A (cw c) (cw c2)" using kept_trans [OF ks] p'(1) by simp
    have k23: "kept A (cw c2) (cw ?c3)" using answer_laws(6) [OF law] by simp
    note k3 = kept_trans [OF k2 k23]
    have req: "live A (cw ?c3) req" "rq_id req = act_id sq" using live_kept [OF k23 p'(3) [OF l1]] p'(2) by simp_all
    have fin: "A (cw ?c3) (act_id sq)" if "?last" "hit = hit"
      using p'(4) [OF l1] answer_laws(3) [OF law] that(1) p'(2) by auto
    obtain hit2 req2 c4 where q: "is_cancelled env req ?c3 = (hit2, req2, c4)" by (cases "is_cancelled env req ?c3")
    note q' = is_cancelled_live [OF law q]
    have k4: "kept A (cw c) (cw c4)" by (rule kept_trans [OF k3 q'(1)])
    show ?thesis
    proof (cases ?last)
      case True
      then have "sq' = sq\<lparr>cached_tokens := cached_tokens sq @ [next_token sq], as_stats := count_predicted (as_stats sq),
          as_remaining := 0, as_req := req, as_done := True\<rparr>" "c' = ?c3"
        using run s False p by (auto simp: generate_one_def Let_def)
      then show ?thesis using k3 req fin True by (simp add: act_ok_def)
    next
      case last: False
      then have "act_id sq' = rq_id req2 \<and> as_req sq' = req2 \<and> (as_done sq' \<longrightarrow> hit2) \<and> c' = c4"
        using run s False p q nd by (auto simp: generate_one_def Let_def split: if_splits)
      then show ?thesis using k4 req q' by (auto simp: act_ok_def)
    qed
  qed
qed

lemma generate_all_settled:
  "answer_law env A \<Longrightarrow> \<forall>sq \<in> set seqs. live A (cw c) (as_req sq) \<and> \<not> as_done sq \<Longrightarrow>
   generate_all env i seqs c = (seqs', c') \<Longrightarrow>
   kept A (cw c) (cw c') \<and> map act_id seqs' = map act_id seqs \<and> (\<forall>sq \<in> set seqs'. act_ok A (cw c') sq)"
proof (induction seqs arbitrary: i c seqs' c')
  case Nil then show ?case by simp
next
  case (Cons sq seqs)
  obtain sq1 c1 where g: "generate_one env i sq c = (sq1, c1)" by (cases "generate_one env i sq c")
  obtain rest c2 where r: "generate_all env (Suc i) seqs c1 = (rest, c2)" by (cases "generate_all env (Suc i) seqs c1")
  have g': "kept A (cw c) (cw c1)" "act_id sq1 = act_id sq" "act_ok A (cw c1) sq1"
    using generate_one_answers [OF Cons.prems(1) g] Cons.prems(2) by auto
  have ih: "kept A (cw c1) (cw c2)" "map act_id rest = map act_id seqs" "\<forall>sq \<in> set rest. act_ok A (cw c2) sq"
    using Cons.IH [OF Cons.prems(1) _ r] Cons.prems(2) live_kept [OF g'(1)] by auto
  then show ?case using Cons.prems(3) g r g' kept_trans [OF g'(1) ih(1)] act_ok_kept [OF ih(1)] by auto
qed

lemma start_generation_answers:
  assumes law: "answer_law env A" and run: "start_generation env ctx logit c = Some (started, c')"
    and l: "live A (cw c) (pc_req ctx)"
  shows "kept A (cw c) (cw c') \<and> (case started of None \<Rightarrow> A (cw c') (ctx_id ctx)
    | Some sq \<Rightarrow> act_id sq = ctx_id ctx \<and> live A (cw c') (as_req sq) \<and> \<not> as_done sq)"
proof -
  obtain hit req c1 where p: "is_cancelled env (pc_req ctx) c = (hit, req, c1)" by (cases "is_cancelled env (pc_req ctx) c")
  note p' = is_cancelled_live [OF law p]
  obtain smpl w1 where cs: "create_sampler env (rq_temperature req) (rq_top_p req) (cw c1) = (smpl, w1)"
    by (cases "create_sampler env (rq_temperature req) (rq_top_p req) (cw c1)")
  obtain tok w2 where st: "sample env smpl logit w1 = (tok, w2)" by (cases "sample env smpl logit w1")
  have k1: "kept A (cw c1) w2"
    by (rule kept_trans [OF answer_laws(10) [OF law cs] answer_laws(9) [OF law st]])
  have k2: "kept A (cw c) w2" by (rule kept_trans [OF p'(1) k1])
  have kt: "kept A (cw c) (on_token env (rq_id req) piece b ist w2)" for piece b ist
    by (rule kept_through(3) [OF law k2])
  have fin: "kept A (cw c) (free_sampler env smpl (on_token env (rq_id req) piece True ist w2))"
    "A (free_sampler env smpl (on_token env (rq_id req) piece True ist w2)) (ctx_id ctx)" for piece ist
    using kept_through(4) [OF law kt] keptD [OF answer_laws(8) [OF law] answer_laws(3) [OF law]] p'(2) by metis+
  have lv: "live A (on_token env (rq_id req) piece b ist w2) req" for piece b ist
    using live_kept [OF kept_through(3) [OF law k1] p'(3) [OF l]] .
  consider "hit" | "\<not> hit" "is_eog env tok" | "\<not> hit" "\<not> is_eog env tok" "rq_max_tokens req \<le> 1"
    | "\<not> hit" "\<not> is_eog env tok" "\<not> rq_max_tokens req \<le> 1" by blast
  then show ?thesis
  proof cases
    case 1
    then show ?thesis using run p p'(1) p'(4) [OF l]
      by (auto simp: start_generation_def dest!: drop_prefill_cw split: bind_splits)
  next
    case 2
    then have "started = None" "cw c' = free_sampler env smpl (on_token env (rq_id req) [] True (Some (pc_stats ctx)) w2)"
      using run p cs st by (auto simp: start_generation_def dest!: drop_prefill_cw split: bind_splits)
    then show ?thesis using fin by simp
  next
    case 3
    then have "started = None" "cw c' = free_sampler env smpl (on_token env (rq_id req) (token_piece env tok) True
        (Some ((pc_stats ctx)\<lparr>predicted_n := 1\<rparr>)) w2)"
      using run p cs st by (auto simp: start_generation_def dest!: drop_prefill_cw split: bind_splits)
    then show ?thesis using fin by simp
  next
    case 4
    then show ?thesis using run p cs st kt lv p'(2) by (auto simp: start_generation_def new_active_def)
  qed
qed

lemma start_all_settled:
  "answer_law env A \<Longrightarrow> \<forall>p \<in> set ps. live A (cw c) (pc_req (fst p)) \<Longrightarrow> start_all env ps c = Some (keep, new, c') \<Longrightarrow>
   settled A (cw c) (cw c') (mset (map (\<lambda>p. ctx_id (fst p)) ps)) (mset (map ctx_id keep) + mset (map act_id new)) \<and>
   (\<forall>ctx \<in> set keep. live A (cw c') (pc_req ctx)) \<and> (\<forall>sq \<in> set new. live A (cw c') (as_req sq) \<and> \<not> as_done sq)"
proof (induction ps arbitrary: c keep new c')
  case Nil then show ?case by (simp add: settled_same)
next
  case (Cons p ps)
  note law = Cons.prems(1)
  obtain ctx lg where p: "p = (ctx, lg)" by (cases p)
  have l: "live A (cw c) (pc_req ctx)" using Cons.prems(2) p by simp
  show ?case
  proof (cases "lg < 0")
    case True
    obtain keep' where r: "start_all env ps c = Some (keep', new, c')" "keep = ctx # keep'"
      using Cons.prems(3) True p by (auto split: bind_splits prod.splits)
    have ih: "settled A (cw c) (cw c') (mset (map (\<lambda>p. ctx_id (fst p)) ps)) (mset (map ctx_id keep') + mset (map act_id new))"
      "\<forall>ctx \<in> set keep'. live A (cw c') (pc_req ctx)" "\<forall>sq \<in> set new. live A (cw c') (as_req sq) \<and> \<not> as_done sq"
      using Cons.IH [OF law _ r(1)] Cons.prems(2) by auto
    then show ?thesis using r(2) p settled_add_mset [OF ih(1)] live_kept [OF settled_kept [OF ih(1)] l] by simp
  next
    case False
    obtain started c1 new' where r: "start_generation env ctx lg c = Some (started, c1)"
      "start_all env ps c1 = Some (keep, new', c')" "new = (case started of None \<Rightarrow> new' | Some sq \<Rightarrow> sq # new')"
      using Cons.prems(3) False p by (auto split: bind_splits prod.splits)
    note g = start_generation_answers [OF law r(1) l]
    have k: "kept A (cw c) (cw c1)" using g by simp
    have ih: "settled A (cw c1) (cw c') (mset (map (\<lambda>p. ctx_id (fst p)) ps)) (mset (map ctx_id keep) + mset (map act_id new'))"
      "\<forall>ctx \<in> set keep. live A (cw c') (pc_req ctx)" "\<forall>sq \<in> set new'. live A (cw c') (as_req sq) \<and> \<not> as_done sq"
      using Cons.IH [OF law _ r(2)] Cons.prems(2) live_kept [OF k] by auto
    note s = settled_trans [OF settled_same [OF k] ih(1)]
    show ?thesis
    proof (cases started)
      case None
      then have "A (cw c') (ctx_id ctx)" using g keptD [OF settled_kept [OF ih(1)]] by simp
      then show ?thesis using settled_gone [OF s] ih(2,3) r(3) None p by simp
    next
      case (Some sq)
      then have "act_id sq = ctx_id ctx" "live A (cw c') (as_req sq)" "\<not> as_done sq"
        using g live_kept [OF settled_kept [OF ih(1)]] by auto
      then show ?thesis using settled_add_mset [OF s] ih(2,3) r(3) Some p by simp
    qed
  qed
qed

section \<open>The whole step\<close>

text \<open>The requests of the vectors can go on: their clients have not been told an end.\<close>

definition going :: "('w \<Rightarrow> nat \<Rightarrow> bool) \<Rightarrow> 'w \<Rightarrow> active_seq list \<Rightarrow> prefill_ctx list \<Rightarrow> bool" where
  "going A w seqs ctxs \<longleftrightarrow> (\<forall>sq \<in> set seqs. live A w (as_req sq) \<and> \<not> as_done sq) \<and> (\<forall>ctx \<in> set ctxs. live A w (pc_req ctx))"

definition vector_ids :: "active_seq list \<Rightarrow> prefill_ctx list \<Rightarrow> nat multiset" where
  "vector_ids seqs ctxs = mset (map act_id seqs) + mset (map ctx_id ctxs)"

lemma going_kept: "kept A w w' \<Longrightarrow> going A w seqs ctxs \<Longrightarrow> going A w' seqs ctxs"
  by (auto simp: going_def live_kept)

lemma vector_ids_last:
  "seqs \<noteq> [] \<Longrightarrow> vector_ids seqs ctxs = add_mset (act_id (last seqs)) (vector_ids (butlast seqs) ctxs)"
  "ctxs \<noteq> [] \<Longrightarrow> vector_ids seqs ctxs = add_mset (ctx_id (last ctxs)) (vector_ids seqs (butlast ctxs))"
  by (cases seqs rule: rev_cases; simp add: vector_ids_def) (cases ctxs rule: rev_cases; simp add: vector_ids_def)

lemma fail_newest_settled:
  assumes law: "answer_law env A" and g: "going A (cw c) seqs ctxs"
    and run: "after_decode env 1 pt subs seqs ctxs c = Some (seqs', ctxs', c')"
  shows "settled A (cw c) (cw c') (vector_ids seqs ctxs) (vector_ids seqs' ctxs') \<and> going A (cw c') seqs' ctxs'"
proof -
  consider "seqs \<noteq> []" | "seqs = []" "ctxs \<noteq> []" | "seqs = []" "ctxs = []" by blast
  then show ?thesis
  proof cases
    case 1
    then have r: "fail_active env ''KV cache is full'' 503 (last seqs) c = Some c'" "seqs' = butlast seqs" "ctxs' = ctxs"
      using run by (auto simp: after_decode_def split: bind_splits)
    have "live A (cw c) (as_req (last seqs))" using g 1 by (simp add: going_def)
    from fail_active_answers [OF law r(1) this] have a: "kept A (cw c) (cw c')" "A (cw c') (act_id (last seqs))" by simp_all
    show ?thesis using settled_gone [OF settled_same [OF a(1)] a(2)] vector_ids_last(1) [OF 1] going_kept [OF a(1) g] r(2,3)
      by (auto simp: going_def dest: in_set_butlastD)
  next
    case 2
    then have r: "fail_prefill env ''KV cache is full'' 503 (last ctxs) c = Some c'" "seqs' = seqs" "ctxs' = butlast ctxs"
      using run by (auto simp: after_decode_def split: bind_splits)
    have "live A (cw c) (pc_req (last ctxs))" using g 2 by (simp add: going_def)
    from fail_prefill_answers [OF law r(1) this] have a: "kept A (cw c) (cw c')" "A (cw c') (ctx_id (last ctxs))" by simp_all
    show ?thesis using settled_gone [OF settled_same [OF a(1)] a(2)] vector_ids_last(2) [OF 2(2)] going_kept [OF a(1) g] r(2,3)
      by (auto simp: going_def dest: in_set_butlastD)
  next
    case 3
    then show ?thesis using run g by (auto simp: after_decode_def settled_same)
  qed
qed

lemma fail_all_settled:
  assumes law: "answer_law env A" and g: "going A (cw c) seqs ctxs" and st: "status \<noteq> 0" "status \<noteq> 1"
    and run: "after_decode env status pt subs seqs ctxs c = Some (seqs', ctxs', c')"
  shows "settled A (cw c) (cw c') (vector_ids seqs ctxs) (vector_ids seqs' ctxs') \<and> going A (cw c') seqs' ctxs'"
proof -
  obtain c1 where r: "each (fail_active env ''inference decode failed'' 500) seqs c = Some c1"
    "each (fail_prefill env ''inference prefill failed'' 500) ctxs c1 = Some c'" "seqs' = []" "ctxs' = []"
    using run st by (auto simp: after_decode_def split: bind_splits)
  have s1: "settled A (cw c) (cw c1) (mset (map act_id seqs)) {#}"
    by (rule each_settled [OF _ _ r(1), where ok = "\<lambda>w sq. live A w (as_req sq)"])
      (use g fail_active_answers [OF law] in \<open>auto simp: going_def live_kept\<close>)
  have s2: "settled A (cw c1) (cw c') (mset (map ctx_id ctxs)) {#}"
    by (rule each_settled [OF _ _ r(2), where ok = "\<lambda>w ctx. live A w (pc_req ctx)"])
      (use g fail_prefill_answers [OF law] live_kept [OF settled_kept [OF s1]] in \<open>auto simp: going_def live_kept\<close>)
  have "settled A (cw c) (cw c1) (vector_ids seqs ctxs) (mset (map ctx_id ctxs))"
    using settled_add [OF s1, of "mset (map ctx_id ctxs)"] by (simp add: vector_ids_def)
  from settled_trans [OF this s2] show ?thesis using r(3,4) by (simp add: vector_ids_def going_def)
qed

lemma advance_settled:
  assumes law: "answer_law env A" and g: "going A (cw c) seqs ctxs"
    and run: "after_decode env 0 pt subs seqs ctxs c = Some (seqs', ctxs', c')"
  shows "settled A (cw c) (cw c') (vector_ids seqs ctxs) (vector_ids seqs' ctxs') \<and> going A (cw c') seqs' ctxs'"
proof -
  obtain ctxs1 logits c1 where f: "finish_chunks subs ctxs (replicate (length ctxs) (-1)) (count_step pt c) = Some (ctxs1, logits, c1)"
    using run by (auto simp: after_decode_def split: bind_splits)
  obtain seqs1 c2 where ga: "generate_all env 0 seqs c1 = (seqs1, c2)" by (cases "generate_all env 0 seqs c1")
  obtain seqs2 c3 new where r: "retire_completed env seqs1 c2 = Some (seqs2, c3)"
    "start_all env (zip ctxs1 logits) c3 = Some (ctxs', new, c')" "seqs' = seqs2 @ new"
    using run f ga by (auto simp: after_decode_def split: bind_splits prod.splits)
  have same: "cw c1 = cw (count_step pt c)" "map pc_req ctxs1 = map pc_req ctxs" "length logits = length ctxs"
    using finish_chunks_same [OF f] by simp_all
  have cw1: "cw c1 = cw c" using same(1) by (simp add: count_step_def Let_def)
  have "map rq_id (map pc_req ctxs1) = map rq_id (map pc_req ctxs)" by (simp only: same(2))
  moreover have "length ctxs1 = length ctxs" using arg_cong [OF same(2), of length] by simp
  ultimately have ids1: "map ctx_id ctxs1 = map ctx_id ctxs" "length logits = length ctxs1"
    using same(3) by (simp_all add: comp_def)
  have lv1: "\<forall>ctx \<in> set ctxs1. live A (cw c1) (pc_req ctx)"
  proof
    fix ctx assume "ctx \<in> set ctxs1"
    then have "pc_req ctx \<in> set (map pc_req ctxs)" using same(2) [symmetric] by simp
    then show "live A (cw c1) (pc_req ctx)" using g cw1 by (auto simp: going_def)
  qed
  have "\<forall>sq \<in> set seqs. live A (cw c1) (as_req sq) \<and> \<not> as_done sq" using g cw1 by (simp add: going_def)
  from generate_all_settled [OF law this ga] have k2: "kept A (cw c1) (cw c2)" "map act_id seqs1 = map act_id seqs"
    "\<forall>sq \<in> set seqs1. act_ok A (cw c2) sq" by simp_all
  from retire_completed_settled [OF law k2(3) r(1)] have s3:
    "settled A (cw c2) (cw c3) (mset (map act_id seqs1)) (mset (map act_id seqs2))"
    "\<forall>sq \<in> set seqs2. live A (cw c3) (as_req sq) \<and> \<not> as_done sq" by simp_all
  have k3: "kept A (cw c1) (cw c3)" by (rule kept_trans [OF k2(1) settled_kept [OF s3(1)]])
  have "\<forall>p \<in> set (zip ctxs1 logits). live A (cw c3) (pc_req (fst p))"
    using lv1 live_kept [OF k3] by (auto dest: set_zip_leftD)
  from start_all_settled [OF law this r(2)] have s4:
    "settled A (cw c3) (cw c') (mset (map (\<lambda>p. ctx_id (fst p)) (zip ctxs1 logits))) (mset (map ctx_id ctxs') + mset (map act_id new))"
    "\<forall>ctx \<in> set ctxs'. live A (cw c') (pc_req ctx)" "\<forall>sq \<in> set new. live A (cw c') (as_req sq) \<and> \<not> as_done sq" by simp_all
  have "map (\<lambda>p. ctx_id (fst p)) (zip ctxs1 logits) = map ctx_id (map fst (zip ctxs1 logits))" by simp
  then have "map (\<lambda>p. ctx_id (fst p)) (zip ctxs1 logits) = map ctx_id ctxs" using ids1 by (simp del: map_map)
  then have s4': "settled A (cw c3) (cw c') (mset (map ctx_id ctxs)) (mset (map ctx_id ctxs') + mset (map act_id new))"
    using s4(1) by simp
  have t1: "settled A (cw c) (cw c2) (vector_ids seqs ctxs) (vector_ids seqs ctxs)" using k2(1) cw1 by (simp add: settled_same)
  have t2: "settled A (cw c2) (cw c3) (vector_ids seqs ctxs) (vector_ids seqs2 ctxs)"
    using settled_add [OF s3(1), of "mset (map ctx_id ctxs)"] k2(2) by (simp add: vector_ids_def)
  have t3: "settled A (cw c3) (cw c') (vector_ids seqs2 ctxs) (vector_ids seqs' ctxs')"
    using settled_add [OF s4', of "mset (map act_id seqs2)"] r(3) by (simp add: vector_ids_def ac_simps)
  have "going A (cw c') seqs' ctxs'"
    using r(3) s3(2) s4(2,3) live_kept [OF settled_kept [OF s4(1)]] by (auto simp: going_def)
  with settled_trans [OF settled_trans [OF t1 t2] t3] show ?thesis by (rule conjI)
qed

lemma fused_step_settled:
  assumes law: "answer_law env A" and g: "going A (cw c) seqs ctxs"
    and run: "fused_step env seqs ctxs c = Some (seqs', ctxs', c')"
  shows "settled A (cw c) (cw c') (vector_ids seqs ctxs) (vector_ids seqs' ctxs') \<and> going A (cw c') seqs' ctxs'"
proof -
  obtain polled c1 where po: "poll_active env seqs c = (polled, c1)" by (cases "poll_active env seqs c")
  obtain seqs1 c2 where r: "retire_done env polled c1 = Some (seqs1, c2)"
    using run po by (auto simp: fused_step_def split: bind_splits)
  obtain ctxs1 c3 where d: "drop_cancelled env ctxs c2 = Some (ctxs1, c3)"
    using run po r by (auto simp: fused_step_def split: bind_splits)
  have "\<forall>sq \<in> set seqs. live A (cw c) (as_req sq) \<and> \<not> as_done sq" using g by (simp add: going_def)
  from poll_active_settled [OF law this po] have p: "kept A (cw c) (cw c1)" "map act_id polled = map act_id seqs"
    "\<forall>sq \<in> set polled. live A (cw c1) (as_req sq) \<and> (as_done sq \<longrightarrow> A (cw c1) (act_id sq))" by simp_all
  from retire_done_settled [OF law p(3) r] have s2:
    "settled A (cw c1) (cw c2) (mset (map act_id polled)) (mset (map act_id seqs1))"
    "\<forall>sq \<in> set seqs1. live A (cw c2) (as_req sq) \<and> \<not> as_done sq" by simp_all
  have k2: "kept A (cw c) (cw c2)" by (rule kept_trans [OF p(1) settled_kept [OF s2(1)]])
  have "\<forall>ctx \<in> set ctxs. live A (cw c2) (pc_req ctx)" using g live_kept [OF k2] by (simp add: going_def)
  from drop_cancelled_settled [OF law this d] have s3:
    "settled A (cw c2) (cw c3) (mset (map ctx_id ctxs)) (mset (map ctx_id ctxs1))"
    "\<forall>ctx \<in> set ctxs1. live A (cw c3) (pc_req ctx)" by simp_all
  have g3: "going A (cw c3) seqs1 ctxs1" using s2(2) s3(2) live_kept [OF settled_kept [OF s3(1)]] by (simp add: going_def)
  have "settled A (cw c) (cw c2) (vector_ids seqs ctxs) (vector_ids seqs1 ctxs)"
    using settled_trans [OF settled_same [OF p(1)] settled_add [OF s2(1), of "mset (map ctx_id ctxs)"]] p(2)
    by (simp add: vector_ids_def)
  moreover have "settled A (cw c2) (cw c3) (vector_ids seqs1 ctxs) (vector_ids seqs1 ctxs1)"
    using settled_add [OF s3(1), of "mset (map act_id seqs1)"] by (simp add: vector_ids_def add.commute)
  ultimately have s: "settled A (cw c) (cw c3) (vector_ids seqs ctxs) (vector_ids seqs1 ctxs1)" by (rule settled_trans)
  obtain batch subs pt where b: "build_batch (env_n_batch env - int (length seqs1)) seqs1 ctxs1 = (batch, subs, pt)"
    by (metis prod_cases3)
  show ?thesis
  proof (cases "seqs1 = [] \<and> (ctxs1 = [] \<or> env_n_batch env - int (length seqs1) \<le> 0) \<or> batch = []")
    case True
    then have "(seqs', ctxs', c') = (seqs1, ctxs1, c3)"
      using run po r d b by (auto simp: fused_step_def Let_def split: if_splits)
    then show ?thesis using s g3 by simp
  next
    case False
    obtain status c4 where dec: "decode_with_retry env batch c3 = Some (status, c4)"
      "after_decode env status pt subs seqs1 ctxs1 c4 = Some (seqs', ctxs', c')"
      using False run po r d b by (auto simp: fused_step_def Let_def split: if_splits bind_splits)
    note k4 = decode_kept [OF law dec(1)]
    have g4: "going A (cw c4) seqs1 ctxs1" by (rule going_kept [OF k4 g3])
    have s4: "settled A (cw c) (cw c4) (vector_ids seqs ctxs) (vector_ids seqs1 ctxs1)"
      by (rule settled_trans [OF s settled_same [OF k4]])
    consider "status = 0" | "status = 1" | "status \<noteq> 0" "status \<noteq> 1" by blast
    then have "settled A (cw c4) (cw c') (vector_ids seqs1 ctxs1) (vector_ids seqs' ctxs') \<and> going A (cw c') seqs' ctxs'"
      using advance_settled [OF law g4] fail_newest_settled [OF law g4] fail_all_settled [OF law g4] dec(2)
      by cases blast+
    then show ?thesis using settled_trans [OF s4, of "cw c'" "vector_ids seqs' ctxs'"] by simp
  qed
qed

section \<open>Admission and the loop\<close>

lemma queue_rest_settled:
  "answer_law env A \<Longrightarrow> \<forall>req \<in> set reqs. live A (cw c) req \<Longrightarrow> queue_rest env reqs c = (rest, c') \<Longrightarrow>
   settled A (cw c) (cw c') (mset (map rq_id reqs)) (mset (map rq_id rest)) \<and> (\<forall>req \<in> set rest. live A (cw c') req)"
proof (induction reqs arbitrary: c rest c')
  case Nil then show ?case by (simp add: settled_same)
next
  case (Cons req reqs)
  note law = Cons.prems(1)
  obtain hit req1 c1 where p: "is_cancelled env req c = (hit, req1, c1)" by (cases "is_cancelled env req c")
  obtain rest1 where r: "queue_rest env reqs c1 = (rest1, c')" "rest = (if hit then rest1 else req1 # rest1)"
    using Cons.prems(3) p by (auto split: prod.splits)
  note p' = is_cancelled_live [OF law p]
  have l: "live A (cw c) req" using Cons.prems(2) by simp
  have ih: "settled A (cw c1) (cw c') (mset (map rq_id reqs)) (mset (map rq_id rest1))" "\<forall>req \<in> set rest1. live A (cw c') req"
    using Cons.IH [OF law _ r(1)] Cons.prems(2) live_kept [OF p'(1)] by auto
  note s = settled_trans [OF settled_same [OF p'(1)] ih(1)]
  note k = settled_kept [OF ih(1)]
  show ?case
  proof (cases hit)
    case True
    have "A (cw c') (rq_id req)" by (rule keptD [OF k p'(4) [OF l True]])
    from settled_gone [OF s this] show ?thesis using ih(2) r(2) True by simp
  next
    case False
    have "live A (cw c') req1" by (rule live_kept [OF k p'(3) [OF l]])
    then show ?thesis using settled_add_mset [OF s, of "rq_id req"] ih(2) r(2) False p'(2) by simp
  qed
qed

lemma clamp_simps [simp]:
  "rq_id (clamp_max_tokens n req) = rq_id req" "live A w (clamp_max_tokens n req) = live A w req"
  by (simp_all add: clamp_max_tokens_def live_def)

definition admitted_ids :: "prefill_ctx list \<Rightarrow> inference_request list \<Rightarrow> inference_request list \<Rightarrow> nat multiset" where
  "admitted_ids ctxs deferred queued = mset (map ctx_id ctxs) + mset (map rq_id deferred) + mset (map rq_id queued)"

definition admitted_live ::
  "('w \<Rightarrow> nat \<Rightarrow> bool) \<Rightarrow> 'w \<Rightarrow> prefill_ctx list \<Rightarrow> inference_request list \<Rightarrow> inference_request list \<Rightarrow> bool" where
  "admitted_live A w ctxs deferred queued \<longleftrightarrow> (\<forall>ctx \<in> set ctxs. live A w (pc_req ctx)) \<and>
     (\<forall>req \<in> set deferred. live A w req) \<and> (\<forall>req \<in> set queued. live A w req)"

lemma new_prefill_req [simp]: "pc_req (new_prefill req toks prep) = req"
  by (simp add: new_prefill_def)

lemma report_error_answers:
  "answer_law env A \<Longrightarrow> kept A (cw c) (cw (report_error env req msg st c)) \<and> A (cw (report_error env req msg st c)) (rq_id req)"
  using answer_laws(2,5) by (auto simp: report_error_def)

lemma prepare_all_settled:
  "answer_law env A \<Longrightarrow> \<forall>req \<in> set reqs. live A (cw c) req \<Longrightarrow>
   prepare_all env reqs c = Some (ctxs, deferred, queued, c') \<Longrightarrow>
   settled A (cw c) (cw c') (mset (map rq_id reqs)) (admitted_ids ctxs deferred queued) \<and>
   admitted_live A (cw c') ctxs deferred queued"
proof (induction reqs arbitrary: c ctxs deferred queued c')
  case Nil then show ?case by (simp add: settled_same admitted_ids_def admitted_live_def)
next
  case (Cons req reqs)
  note law = Cons.prems(1)
  obtain hit req1 c1 where p: "is_cancelled env req c = (hit, req1, c1)" by (cases "is_cancelled env req c")
  note p' = is_cancelled_live [OF law p]
  have l: "live A (cw c) req" using Cons.prems(2) by simp
  note l1 = p'(3) [OF l]
  have rest: "\<forall>req \<in> set reqs. live A w req" if "kept A (cw c) w" for w
    using Cons.prems(2) live_kept [OF that] by simp
  let ?toks = "tokenize env (prompt_text env req1)"
  let ?av = "available_tokens env ?toks" and ?req = "clamp_max_tokens (available_tokens env (tokenize env (prompt_text env req1))) req1"
  have answered: ?case if k: "kept A (cw c) (cw c2)" "A (cw c2) (rq_id req)"
    and run: "prepare_all env reqs c2 = Some (ctxs, deferred, queued, c')" for c2
  proof -
    have ih: "settled A (cw c2) (cw c') (mset (map rq_id reqs)) (admitted_ids ctxs deferred queued)"
      "admitted_live A (cw c') ctxs deferred queued" using Cons.IH [OF law rest [OF k(1)] run] by simp_all
    have "A (cw c') (rq_id req)" by (rule keptD [OF settled_kept [OF ih(1)] k(2)])
    from settled_gone [OF settled_trans [OF settled_same [OF k(1)] ih(1)] this] show ?thesis using ih(2) by simp
  qed
  have ongoing: "settled A (cw c) (cw c') (mset (map rq_id (req # reqs))) (add_mset (rq_id req) X) \<and> live A (cw c') req1"
    if k: "kept A (cw c1) (cw c2)" and s: "settled A (cw c2) (cw c') (mset (map rq_id reqs)) X" for c2 X
  proof -
    note k' = kept_trans [OF p'(1) k]
    show ?thesis using settled_add_mset [OF settled_trans [OF settled_same [OF k'] s], of "rq_id req"]
      live_kept [OF kept_trans [OF k settled_kept [OF s]] l1] by simp
  qed
  show ?case
  proof (cases "hit \<or> ?av \<le> 0")
    case True
    then consider "hit" | "\<not> hit" "?av \<le> 0" by blast
    then show ?thesis
    proof cases
      case 1 then show ?thesis using Cons.prems(3) p p'(1) p'(4) [OF l] by (intro answered [of c1]) simp_all
    next
      case 2
      let ?c = "report_error env req1 ''prompt exceeds context window'' 400 c1"
      note e = report_error_answers [OF law, of c1 req1 "''prompt exceeds context window''" 400]
      have "kept A (cw c) (cw ?c)" using kept_trans [OF p'(1)] e by blast
      then show ?thesis using Cons.prems(3) p p'(2) e 2 by (intro answered [of ?c]) (simp_all add: Let_def)
    qed
  next
    case False
    then have go: "\<not> hit" "\<not> ?av \<le> 0" by simp_all
    obtain av where av: "mapper_inspect_prefix (cm c1) ?toks = Some av"
      using Cons.prems(3) go p by (auto simp: Let_def split: bind_splits)
    show ?thesis
    proof (cases "pending_tokens av - ready_tokens av > 0")
      case True
      obtain deferred' where r: "prepare_all env reqs c1 = Some (ctxs, deferred', queued, c')" "deferred = ?req # deferred'"
        using Cons.prems(3) go p av True by (auto simp: Let_def split: bind_splits)
      from Cons.IH [OF law rest [OF p'(1)] r(1)] ongoing [OF kept_refl] show ?thesis
        using r(2) p'(2) by (auto simp: admitted_ids_def admitted_live_def)
    next
      case nopend: False
      obtain m res where pr: "prepare_sequence (env_ops env) (cm c1) ?toks = Some (m, res)"
        using Cons.prems(3) go p av nopend by (auto simp: Let_def split: bind_splits)
      show ?thesis
      proof (cases res)
        case (Inl e)
        obtain rest1 where q: "queue_rest env reqs (c1\<lparr>cm := m\<rparr>) = (rest1, c')" "ctxs = []" "deferred = []" "queued = ?req # rest1"
          using Cons.prems(3) go p av nopend pr Inl by (auto simp: Let_def split: prod.splits)
        have k: "kept A (cw c) (cw (c1\<lparr>cm := m\<rparr>))" using p'(1) by simp
        from queue_rest_settled [OF law rest [OF k] q(1)] have s:
          "settled A (cw (c1\<lparr>cm := m\<rparr>)) (cw c') (mset (map rq_id reqs)) (mset (map rq_id rest1))"
          "\<forall>req \<in> set rest1. live A (cw c') req" by simp_all
        have "kept A (cw c1) (cw (c1\<lparr>cm := m\<rparr>))" by simp
        from ongoing [OF this s(1)] show ?thesis using q(2-4) s(2) p'(2) by (simp add: admitted_ids_def admitted_live_def)
      next
        case (Inr prep)
        show ?thesis
        proof (cases "delta prep = []")
          case True
          obtain m2 where r: "prepare_all env reqs (report_error env ?req ''internal cache preparation error'' 500 (c1\<lparr>cm := m2\<rparr>)) =
              Some (ctxs, deferred, queued, c')"
            using Cons.prems(3) go p av nopend pr Inr True by (auto simp: Let_def split: bind_splits)
          note e = report_error_answers [OF law, of "c1\<lparr>cm := m2\<rparr>" ?req "''internal cache preparation error''" 500]
          have "kept A (cw c) (cw (report_error env ?req ''internal cache preparation error'' 500 (c1\<lparr>cm := m2\<rparr>)))"
            using kept_trans [OF p'(1)] e by simp
          then show ?thesis using e p'(2) by (intro answered [OF _ _ r]) simp_all
        next
          case False
          obtain ctxs' where r: "prepare_all env reqs (c1\<lparr>cm := m\<rparr>) = Some (ctxs', deferred, queued, c')"
            "ctxs = new_prefill ?req ?toks prep # ctxs'"
            using Cons.prems(3) go p av nopend pr Inr False by (auto simp: Let_def split: bind_splits)
          have k: "kept A (cw c) (cw (c1\<lparr>cm := m\<rparr>))" "kept A (cw c1) (cw (c1\<lparr>cm := m\<rparr>))" using p'(1) by simp_all
          from Cons.IH [OF law rest [OF k(1)] r(1)] have s:
            "settled A (cw (c1\<lparr>cm := m\<rparr>)) (cw c') (mset (map rq_id reqs)) (admitted_ids ctxs' deferred queued)"
            "admitted_live A (cw c') ctxs' deferred queued" by simp_all
          from ongoing [OF k(2) s(1)] show ?thesis using r(2) s(2) p'(2) by (simp add: admitted_ids_def admitted_live_def)
        qed
      qed
    qed
  qed
qed

definition worker_ids :: "('kv, 'w) worker_state \<Rightarrow> nat multiset" where
  "worker_ids s = mset (map rq_id (queue s)) + vector_ids (active s) (prefilling s)"

definition all_live :: "('w \<Rightarrow> nat \<Rightarrow> bool) \<Rightarrow> ('kv, 'w) worker_state \<Rightarrow> bool" where
  "all_live A s \<longleftrightarrow> (\<forall>req \<in> set (queue s). live A (cw (wcore s)) req) \<and>
     going A (cw (wcore s)) (active s) (prefilling s)"

lemma defer_to_front_append [simp]: "defer_to_front deferred q = deferred @ q"
  by (simp add: defer_to_front_def foldr_conv_fold [symmetric]) (induction deferred; simp)

lemma run_iteration_settled:
  assumes law: "answer_law env A" and l: "all_live A s" and run: "run_iteration env s = Some s'"
  shows "settled A (cw (wcore s)) (cw (wcore s')) (worker_ids s) (worker_ids s') \<and> all_live A s'"
proof -
  let ?n = "admit_count env s" and ?w = "cw (wcore s)"
  obtain ctxs deferred queued c1 where p: "prepare_all env (take ?n (queue s)) (wcore s) = Some (ctxs, deferred, queued, c1)"
    using run by (auto simp: run_iteration_def Let_def split: bind_splits)
  obtain seqs pre c2 where f: "fused_step env (active s) (prefilling s @ ctxs) c1 = Some (seqs, pre, c2)"
    and s': "s' = \<lparr>queue = defer_to_front (queued @ deferred) (drop ?n (queue s)), active = seqs, prefilling = pre,
      generating = length seqs, wcore = c2\<rparr>"
    using run p by (auto simp: run_iteration_def Let_def split: bind_splits)
  have q: "\<forall>req \<in> set (queue s). live A ?w req" and g: "going A ?w (active s) (prefilling s)" using l by (auto simp: all_live_def)
  have "\<forall>req \<in> set (take ?n (queue s)). live A ?w req" using q by (auto dest: in_set_takeD)
  from prepare_all_settled [OF law this p] have s1:
    "settled A ?w (cw c1) (mset (map rq_id (take ?n (queue s)))) (admitted_ids ctxs deferred queued)"
    "admitted_live A (cw c1) ctxs deferred queued" by simp_all
  have g1: "going A (cw c1) (active s) (prefilling s @ ctxs)"
    using going_kept [OF settled_kept [OF s1(1)] g] s1(2) by (auto simp: going_def admitted_live_def)
  from fused_step_settled [OF law this f] have s2:
    "settled A (cw c1) (cw c2) (vector_ids (active s) (prefilling s @ ctxs)) (vector_ids seqs pre)" "going A (cw c2) seqs pre"
    by simp_all
  note k = kept_trans [OF settled_kept [OF s1(1)] settled_kept [OF s2(1)]]
  let ?D = "mset (map rq_id (drop ?n (queue s)))"
  have "mset (map rq_id (queue s)) = mset (map rq_id (take ?n (queue s) @ drop ?n (queue s)))" by simp
  then have ids: "worker_ids s = mset (map rq_id (take ?n (queue s))) + (?D + vector_ids (active s) (prefilling s))"
    by (simp only: worker_ids_def map_append mset_append ac_simps)
  have "settled A ?w (cw c1) (worker_ids s) (admitted_ids ctxs deferred queued + (?D + vector_ids (active s) (prefilling s)))"
    unfolding ids by (rule settled_add [OF s1(1)])
  moreover have "settled A (cw c1) (cw c2) (admitted_ids ctxs deferred queued + (?D + vector_ids (active s) (prefilling s)))
      (vector_ids seqs pre + (mset (map rq_id deferred) + mset (map rq_id queued) + ?D))"
    using settled_add [OF s2(1), of "mset (map rq_id deferred) + mset (map rq_id queued) + ?D"]
    by (simp add: admitted_ids_def vector_ids_def ac_simps)
  ultimately have "settled A ?w (cw c2) (worker_ids s) (vector_ids seqs pre + (mset (map rq_id deferred) + mset (map rq_id queued) + ?D))"
    by (rule settled_trans)
  moreover have "vector_ids seqs pre + (mset (map rq_id deferred) + mset (map rq_id queued) + ?D) = worker_ids s'"
    by (simp add: s' worker_ids_def ac_simps)
  moreover have "\<forall>req \<in> set (queue s'). live A (cw c2) req"
    using s1(2) q live_kept [OF k] live_kept [OF settled_kept [OF s2(1)]]
    by (auto simp: s' admitted_live_def dest: in_set_dropD)
  ultimately show ?thesis using s2(2) by (simp add: all_live_def s')
qed

fun arrivals :: "worker_event list \<Rightarrow> inference_request list" where
  "arrivals [] = []"
| "arrivals (Arrive req # evs) = req # arrivals evs"
| "arrivals (Iterate # evs) = arrivals evs"

lemma run_events_settled:
  "answer_law env A \<Longrightarrow> all_live A s \<Longrightarrow> \<forall>req \<in> set (arrivals evs). rq_cancel_armed req \<Longrightarrow>
   run_events env evs s = Some s' \<Longrightarrow>
   settled A (cw (wcore s)) (cw (wcore s')) (mset (map rq_id (arrivals evs)) + worker_ids s) (worker_ids s')"
proof (induction env evs s rule: run_events.induct)
  case 1 then show ?case by (simp add: settled_same)
next
  case (2 env req evs s)
  have "all_live A (enqueue req s)" using "2.prems"(2,3) by (simp add: all_live_def enqueue_def live_def)
  from "2.IH" [OF "2.prems"(1) this] "2.prems"(3,4) show ?case
    by (simp add: enqueue_def worker_ids_def ac_simps)
next
  case (3 env evs s)
  obtain s1 where s1: "run_iteration env s = Some s1" "run_events env evs s1 = Some s'"
    using "3.prems"(4) by (auto split: bind_splits)
  from run_iteration_settled [OF "3.prems"(1,2) s1(1)] have
    i: "settled A (cw (wcore s)) (cw (wcore s1)) (worker_ids s) (worker_ids s1)" "all_live A s1" by simp_all
  have t: "settled A (cw (wcore s1)) (cw (wcore s')) (mset (map rq_id (arrivals evs)) + worker_ids s1) (worker_ids s')"
    using "3.IH" [OF s1(1) "3.prems"(1) i(2)] "3.prems"(3) s1(2) by simp
  have "settled A (cw (wcore s)) (cw (wcore s1)) (mset (map rq_id (arrivals evs)) + worker_ids s)
      (mset (map rq_id (arrivals evs)) + worker_ids s1)"
    using settled_add [OF i(1), of "mset (map rq_id (arrivals evs))"] by (simp only: add.commute)
  from settled_trans [OF this t] show ?case by simp
qed

text \<open>
  C15. No request is lost. After any run of the worker from its start, every request that
  arrived is still queued, active or in prefill, or its client has been told the end of it: a
  last token, an error, or its cancellation. The claim holds for all callbacks, samplers and
  decoders; \<open>A\<close> is any record of the answers that the three final callbacks write.
\<close>

theorem no_request_lost:
  assumes "answer_law env A" "run_events env evs (new_worker cfg kv0 w) = Some s"
    and "\<forall>req \<in> set (arrivals evs). rq_cancel_armed req"
  shows "\<exists>gone. mset (map rq_id (arrivals evs)) = worker_ids s + gone \<and> (\<forall>i \<in># gone. A (cw (wcore s)) i)"
proof -
  have "all_live A (new_worker cfg kv0 w)" "worker_ids (new_worker cfg kv0 w) = {#}"
    by (simp_all add: all_live_def new_worker_def going_def worker_ids_def vector_ids_def)
  then show ?thesis using run_events_settled [OF assms(1) _ assms(3,2)] by (simp add: settled_def)
qed

definition told :: "notice list \<Rightarrow> nat \<Rightarrow> bool" where
  "told w i \<longleftrightarrow> Cancellation i \<in> set w \<or> (\<exists>st. Failure i st \<in> set w) \<or> (\<exists>p. Token i p True \<in> set w)"

lemma sample_answer_law: "answer_law (sample_env gone) told"
  by (auto simp: answer_law_def kept_def told_def sample_env_def logging_env_def table_decode_def)

theorem no_request_lost_witness:
  "\<exists>s. run_events (sample_env (\<lambda>_ _. False)) [Arrive (sample_request 7 ''aba'' 1), Iterate] sample_worker = Some s \<and>
    (\<exists>gone. {#7#} = worker_ids s + gone \<and> (\<forall>i \<in># gone. told (cw (wcore s)) i))"
proof -
  obtain s where s: "run_events (sample_env (\<lambda>_ _. False)) [Arrive (sample_request 7 ''aba'' 1), Iterate] sample_worker = Some s"
    using run_events_ok [OF sample_env_ops sample_decode_law new_worker_inv [OF table_laws]]
    by (metis empty_table_def sample_worker_def table_cells_def)
  from no_request_lost [OF sample_answer_law this [unfolded sample_worker_def]] have
    "\<exists>gone. {#7#} = worker_ids s + gone \<and> (\<forall>i \<in># gone. told (cw (wcore s)) i)"
    by (simp add: sample_request_def)
  with s show ?thesis by blast
qed

end
