(* ===== verification/RF_WorkerLimits.thy ===== *)
theory RF_WorkerLimits
  imports RF_WorkerRun
begin

text \<open>
  The limits the worker keeps: sequence slots, the size of a batch, the context window, and
  the progress of chunked prefill.
\<close>

section \<open>Lengths\<close>

lemma poll_active_length: "poll_active env seqs c = (seqs', c') \<Longrightarrow> length seqs' = length seqs"
  by (induction seqs arbitrary: c seqs' c') (auto split: prod.splits)

lemma retire_done_length: "retire_done env seqs c = Some (seqs', c') \<Longrightarrow> length seqs' \<le> length seqs"
  by (induction seqs arbitrary: c seqs') (auto split: if_splits bind_splits prod.splits intro: le_SucI)

lemma retire_completed_length: "retire_completed env seqs c = Some (seqs', c') \<Longrightarrow> length seqs' \<le> length seqs"
  by (induction seqs arbitrary: c seqs') (auto split: if_splits bind_splits prod.splits intro: le_SucI)

lemma drop_cancelled_length: "drop_cancelled env ctxs c = Some (ctxs', c') \<Longrightarrow> length ctxs' \<le> length ctxs"
  by (induction ctxs arbitrary: c ctxs') (auto split: if_splits bind_splits prod.splits intro: le_SucI)

lemma generate_all_length: "generate_all env i seqs c = (seqs', c') \<Longrightarrow> length seqs' = length seqs"
  by (induction seqs arbitrary: i c seqs' c') (auto split: prod.splits)

lemma start_all_length:
  "start_all env ps c = Some (keep, new, c') \<Longrightarrow> length keep + length new \<le> length ps \<and>
   length new \<le> length (filter (\<lambda>p. 0 \<le> snd p) ps)"
proof (induction ps arbitrary: c keep new)
  case Nil then show ?case by simp
next
  case (Cons p ps)
  obtain ctx lg where p: "p = (ctx, lg)" by (cases p)
  show ?case
  proof (cases "lg < 0")
    case True
    then show ?thesis using Cons.prems p by (auto split: bind_splits prod.splits dest!: Cons.IH)
  next
    case False
    then show ?thesis using Cons.prems p
      by (auto split: bind_splits prod.splits option.splits dest!: Cons.IH)
  qed
qed

lemma prepare_all_length:
  "prepare_all env reqs c = Some (ctxs, deferred, queued, c') \<Longrightarrow> length ctxs \<le> length reqs"
proof (induction reqs arbitrary: c ctxs deferred queued)
  case Nil then show ?case by simp
next
  case (Cons req reqs)
  then show ?case
    by (auto simp: Let_def split: prod.splits if_splits bind_splits sum.splits dest!: Cons.IH)
qed

subsection \<open>The number of prompts that complete\<close>

lemma submit_prompts_sizes:
  "submit_prompts capacity i ctxs used idx = (es, subs, t) \<Longrightarrow>
   used + int (length es) = t \<and> t \<le> max used capacity \<and> int (length subs) \<le> t - used"
proof (induction capacity i ctxs used idx arbitrary: es subs t rule: submit_prompts.induct)
  case 1 then show ?case by simp
next
  case (2 capacity i ctx ctxs used idx)
  consider "\<not> used < capacity" | "used < capacity" "remaining_delta ctx \<le> 0" | "used < capacity" "0 < remaining_delta ctx"
    by linarith
  then show ?case
  proof cases
    case 1 then show ?thesis using "2.prems" by auto
  next
    case 2
    then have "submit_prompts capacity (Suc i) ctxs used idx = (es, subs, t)"
      using "2.prems" by (simp add: Let_def remaining_delta_def)
    then show ?thesis using "2.IH"(1) [OF 2(1) refl] 2(2) by (simp add: remaining_delta_def)
  next
    case 3
    let ?n = "min (remaining_delta ctx) (capacity - used)"
    obtain es' ss t' where r': "submit_prompts capacity (Suc i) ctxs (used + ?n) (idx + ?n) = (es', ss, t')"
      by (metis prod_cases3)
    have r: "submit_prompts capacity (Suc i) ctxs (used + ?n) (idx + ?n) = (es', ss, t)"
      "es = chunk_entries ctx ?n @ es'" "subs = chunk_submission i ctx ?n idx # ss"
      using submit_prompts_chunk [OF 3 refl r'] "2.prems" r' by simp_all
    have "used + ?n + int (length es') = t \<and> t \<le> max (used + ?n) capacity \<and> int (length ss) \<le> t - (used + ?n)"
      using "2.IH"(2) [OF 3(1) refl _ refl refl, of es' ss t] 3(2) r(1) by (simp add: remaining_delta_def)
    then show ?thesis using r(2,3) 3 by auto
  qed
qed

lemma filter_update: "length (filter P (xs[i := x])) \<le> Suc (length (filter P xs))"
proof (induction xs arbitrary: i)
  case (Cons y ys)
  show ?case
  proof (cases i)
    case (Suc k) then show ?thesis using Cons.IH [of k] by simp
  qed simp
qed simp

lemma finish_chunks_length:
  "finish_chunks subs ctxs logits c = Some (ctxs', logits', c') \<Longrightarrow>
   length ctxs' = length ctxs \<and> length logits' = length logits \<and>
   length (filter (\<lambda>g. 0 \<le> g) logits') \<le> length (filter (\<lambda>g. 0 \<le> g) logits) + length subs"
proof (induction subs ctxs logits c rule: finish_chunks.induct)
  case 1 then show ?case by simp
next
  case (2 sub subs ctxs logits c)
  let ?ctx = "ctxs ! ctx_index sub"
  let ?new = "?ctx\<lparr>delta_start := delta_start ?ctx + sub_tokens sub\<rparr>"
  have len: "ctx_index sub < length ctxs" using "2.prems" by (auto split: if_splits)
  show ?case
  proof (cases "delta_start ?new = int (length (delta (pc_prep ?new)))")
    case True
    then obtain m where m: "mark_sequence_ready (cm c) (res_seq_id (pc_prep ?new)) (Some (leaf_node (pc_prep ?new))) = Some m"
      "finish_chunks subs (ctxs[ctx_index sub := ?new]) (logits[ctx_index sub := logit_index sub]) (c\<lparr>cm := m\<rparr>) =
        Some (ctxs', logits', c')"
      using "2.prems" len by (auto simp: Let_def split: bind_splits)
    from "2.IH"(1) [OF len refl refl refl True m]
      filter_update [of "\<lambda>g. 0 \<le> g" logits "ctx_index sub" "logit_index sub"] show ?thesis by simp
  next
    case False
    then have "finish_chunks subs (ctxs[ctx_index sub := ?new]) logits c = Some (ctxs', logits', c')"
      using "2.prems" len by (auto simp: Let_def)
    from "2.IH"(2) [OF len refl refl refl False this] show ?thesis by simp
  qed
qed

lemma filter_zip_snd: "length xs = length ys \<Longrightarrow> length (filter (\<lambda>p. Q (snd p)) (zip xs ys)) = length (filter Q ys)"
  by (induction xs ys rule: list_induct2) simp_all

lemma after_decode_length:
  assumes "after_decode env status pt subs seqs ctxs c = Some (seqs', ctxs', c')"
  shows "length seqs' + length ctxs' \<le> length seqs + length ctxs \<and> length seqs' \<le> length seqs + length subs"
proof -
  consider "status = 0" | "status = 1" | "status \<noteq> 0" "status \<noteq> 1" by blast
  then show ?thesis
  proof cases
    case 1
    obtain ctxs1 logits c1 where f: "finish_chunks subs ctxs (replicate (length ctxs) (-1)) (count_step pt c) = Some (ctxs1, logits, c1)"
      using assms 1 by (auto simp: after_decode_def split: bind_splits)
    obtain seqs1 c2 where ga: "generate_all env 0 seqs c1 = (seqs1, c2)" by (cases "generate_all env 0 seqs c1")
    obtain seqs2 c3 new where r: "retire_completed env seqs1 c2 = Some (seqs2, c3)"
      "start_all env (zip ctxs1 logits) c3 = Some (ctxs', new, c')" "seqs' = seqs2 @ new"
      using assms 1 f ga by (auto simp: after_decode_def split: bind_splits prod.splits)
    have len: "length ctxs1 = length ctxs" "length logits = length ctxs" "length (filter (\<lambda>g. 0 \<le> g) logits) \<le> length subs"
      using finish_chunks_length [OF f] by simp_all
    have "length (filter (\<lambda>p. 0 \<le> snd p) (zip ctxs1 logits)) = length (filter (\<lambda>g. 0 \<le> g) logits)"
      using len(1,2) by (intro filter_zip_snd) simp
    then show ?thesis
      using len start_all_length [OF r(2)] retire_completed_length [OF r(1)] generate_all_length [OF ga] r(3) by simp
  next
    case 2
    then show ?thesis using assms by (auto simp: after_decode_def split: bind_splits if_splits)
  next
    case 3
    then show ?thesis using assms by (auto simp: after_decode_def split: bind_splits if_splits)
  qed
qed

lemma fused_step_length:
  assumes run: "fused_step env seqs ctxs c = Some (seqs', ctxs', c')"
  shows "length seqs' + length ctxs' \<le> length seqs + length ctxs \<and>
    int (length seqs') \<le> max (int (length seqs)) (env_n_batch env)"
proof -
  obtain polled c1 where po: "poll_active env seqs c = (polled, c1)" by (cases "poll_active env seqs c")
  obtain seqs1 c2 where r: "retire_done env polled c1 = Some (seqs1, c2)"
    using run po by (auto simp: fused_step_def split: bind_splits)
  obtain ctxs1 c3 where d: "drop_cancelled env ctxs c2 = Some (ctxs1, c3)"
    using run po r by (auto simp: fused_step_def split: bind_splits)
  have len: "length seqs1 \<le> length seqs" "length ctxs1 \<le> length ctxs"
    using poll_active_length [OF po] retire_done_length [OF r] drop_cancelled_length [OF d] by simp_all
  let ?cap = "env_n_batch env - int (length seqs1)"
  obtain es subs t where s: "submit_prompts ?cap 0 ctxs1 0 (int (length seqs1)) = (es, subs, t)" by (metis prod_cases3)
  then have b: "build_batch ?cap seqs1 ctxs1 = (map decode_entry seqs1 @ es, subs, t)" by (simp add: build_batch_def)
  show ?thesis
  proof (cases "seqs1 = [] \<and> (ctxs1 = [] \<or> ?cap \<le> 0) \<or> map decode_entry seqs1 @ es = []")
    case True
    then have "(seqs', ctxs', c') = (seqs1, ctxs1, c3)"
      using run po r d b by (auto simp: fused_step_def Let_def split: if_splits)
    then show ?thesis using len by simp
  next
    case False
    obtain status c4 where "after_decode env status t subs seqs1 ctxs1 c4 = Some (seqs', ctxs', c')"
      using False run po r d b by (auto simp: fused_step_def Let_def split: if_splits bind_splits)
    from after_decode_length [OF this] submit_prompts_sizes [OF s] len show ?thesis by linarith
  qed
qed

section \<open>Slots and batches\<close>

definition slots_ok :: "('kv, 'w) worker_env \<Rightarrow> ('kv, 'w) worker_state \<Rightarrow> bool" where
  "slots_ok env s \<longleftrightarrow> int (length (active s) + length (prefilling s)) \<le> max 0 (env_n_seq_max env - 1) \<and>
     int (length (active s)) \<le> max 0 (env_n_batch env)"

lemma run_iteration_slots:
  assumes "slots_ok env s" "run_iteration env s = Some s'"
  shows "slots_ok env s'"
proof -
  let ?n = "admit_count env s"
  obtain ctxs deferred queued c1 where p: "prepare_all env (take ?n (queue s)) (wcore s) = Some (ctxs, deferred, queued, c1)"
    using assms(2) by (auto simp: run_iteration_def Let_def split: bind_splits)
  obtain seqs pre c2 where f: "fused_step env (active s) (prefilling s @ ctxs) c1 = Some (seqs, pre, c2)"
    and s': "active s' = seqs" "prefilling s' = pre"
    using assms(2) p by (auto simp: run_iteration_def Let_def split: bind_splits)
  have "length ctxs \<le> ?n" using prepare_all_length [OF p] by simp
  moreover have "int ?n \<le> max 0 (env_n_seq_max env - 1 - int (length (active s) + length (prefilling s)))"
    by (simp add: admit_count_def)
  ultimately show ?thesis using fused_step_length [OF f] assms(1) s' by (auto simp: slots_ok_def)
qed

lemma run_events_slots: "slots_ok env s \<Longrightarrow> run_events env evs s = Some s' \<Longrightarrow> slots_ok env s'"
proof (induction env evs s rule: run_events.induct)
  case (2 env req evs s) then show ?case by (simp add: enqueue_def slots_ok_def)
next
  case (3 env evs s) then show ?case using run_iteration_slots by (auto split: bind_splits)
qed simp

text \<open>
  C17. Admission keeps within the sequence pool and the decode within the batch: in every run
  the active sequences and the prompts in prefill together never exceed \<open>n_seq_max - 1\<close>, the
  active sequences never exceed \<open>n_batch\<close>, and so the batch built from the vectors has exactly
  one entry per active sequence plus the reported prompt tokens, at most \<open>n_batch\<close> entries.
\<close>

theorem batch_within_capacity:
  assumes "run_events env evs (new_worker cfg kv0 w) = Some s" "0 \<le> env_n_batch env" "1 \<le> env_n_seq_max env"
    and "build_batch (env_n_batch env - int (length (active s))) (active s) (prefilling s) = (batch, subs, prompt_total)"
  shows "int (length (active s) + length (prefilling s)) \<le> env_n_seq_max env - 1 \<and>
    int (length batch) = int (length (active s)) + prompt_total \<and> int (length batch) \<le> env_n_batch env \<and>
    int (length subs) \<le> prompt_total"
proof -
  have "slots_ok env (new_worker cfg kv0 w)" by (simp add: slots_ok_def new_worker_def)
  from run_events_slots [OF this assms(1)] have ok: "slots_ok env s" .
  obtain es where "submit_prompts (env_n_batch env - int (length (active s))) 0 (prefilling s) 0 (int (length (active s))) =
      (es, subs, prompt_total)" "batch = map decode_entry (active s) @ es"
    using assms(4) by (auto simp: build_batch_def split: prod.splits)
  with submit_prompts_sizes ok assms(2,3) show ?thesis by (fastforce simp: slots_ok_def)
qed

theorem batch_within_capacity_witness:
  "\<exists>s batch subs prompt_total. run_events (sample_env (\<lambda>_ _. False)) [Arrive (sample_request 0 ''ababab'' 3), Iterate] sample_worker = Some s \<and>
    build_batch (4 - int (length (active s))) (active s) (prefilling s) = (batch, subs, prompt_total) \<and>
    int (length (active s) + length (prefilling s)) \<le> 3 \<and>
    int (length batch) = int (length (active s)) + prompt_total \<and> int (length batch) \<le> 4 \<and> int (length subs) \<le> prompt_total"
proof -
  let ?evs = "[Arrive (sample_request 0 ''ababab'' 3), Iterate]" and ?env = "sample_env (\<lambda>_ _. False)"
  obtain s where s: "run_events ?env ?evs sample_worker = Some s"
    using run_events_ok [OF sample_env_ops sample_decode_law new_worker_inv [OF table_laws]]
    by (metis empty_table_def sample_worker_def table_cells_def)
  obtain batch subs pt where b: "build_batch (env_n_batch ?env - int (length (active s))) (active s) (prefilling s) = (batch, subs, pt)"
    by (metis prod_cases3)
  have "env_n_batch ?env = 4" "env_n_seq_max ?env = 4" by (simp_all add: sample_env_def logging_env_def)
  with batch_within_capacity [OF s [unfolded sample_worker_def] _ _ b] b
  have "build_batch (4 - int (length (active s))) (active s) (prefilling s) = (batch, subs, pt)"
    "int (length (active s) + length (prefilling s)) \<le> 3"
    "int (length batch) = int (length (active s)) + pt" "int (length batch) \<le> 4" "int (length subs) \<le> pt" by simp_all
  with s show ?thesis by blast
qed

section \<open>The context window\<close>

definition ctx_room :: "('kv, 'w) worker_env \<Rightarrow> prefill_ctx \<Rightarrow> bool" where
  "ctx_room env ctx \<longleftrightarrow> int (length (pc_tokens ctx)) + rq_max_tokens (pc_req ctx) \<le> env_n_ctx env - 4"

definition seq_room :: "('kv, 'w) worker_env \<Rightarrow> active_seq \<Rightarrow> bool" where
  "seq_room env sq \<longleftrightarrow> \<not> as_done sq \<longrightarrow> 1 \<le> as_remaining sq \<and>
     int (length (cached_tokens sq)) + as_remaining sq \<le> env_n_ctx env - 5"

definition room :: "('kv, 'w) worker_env \<Rightarrow> active_seq list \<Rightarrow> prefill_ctx list \<Rightarrow> bool" where
  "room env seqs ctxs \<longleftrightarrow> (\<forall>sq \<in> set seqs. seq_room env sq \<and> \<not> as_done sq) \<and> (\<forall>ctx \<in> set ctxs. ctx_room env ctx)"

lemma is_cancelled_limit: "is_cancelled env req c = (hit, req', c') \<Longrightarrow> rq_max_tokens req' = rq_max_tokens req"
  by (auto simp: is_cancelled_def split: prod.splits if_splits)

lemma poll_active_room:
  "poll_active env seqs c = (seqs', c') \<Longrightarrow> \<forall>sq \<in> set seqs. seq_room env sq \<Longrightarrow> \<forall>sq \<in> set seqs'. seq_room env sq"
  by (induction seqs arbitrary: c seqs' c') (auto simp: seq_room_def split: prod.splits)

lemma retire_done_set:
  "retire_done env seqs c = Some (seqs', c') \<Longrightarrow> set seqs' \<subseteq> set seqs \<and> (\<forall>sq \<in> set seqs'. \<not> as_done sq)"
  by (induction seqs arbitrary: c seqs') (fastforce split: if_splits bind_splits prod.splits)+

lemma retire_completed_set:
  "retire_completed env seqs c = Some (seqs', c') \<Longrightarrow> set seqs' \<subseteq> set seqs \<and> (\<forall>sq \<in> set seqs'. \<not> as_done sq)"
  by (induction seqs arbitrary: c seqs') (fastforce split: if_splits bind_splits prod.splits)+

lemma drop_cancelled_room:
  "drop_cancelled env ctxs c = Some (ctxs', c') \<Longrightarrow> \<forall>ctx \<in> set ctxs. ctx_room env ctx \<Longrightarrow> \<forall>ctx \<in> set ctxs'. ctx_room env ctx"
proof (induction ctxs arbitrary: c ctxs')
  case Nil then show ?case by simp
next
  case (Cons ctx ctxs)
  obtain hit req c0 where p: "is_cancelled env (pc_req ctx) c = (hit, req, c0)" by (cases "is_cancelled env (pc_req ctx) c")
  have "ctx_room env (ctx\<lparr>pc_req := req\<rparr>)" using Cons.prems(2) is_cancelled_limit [OF p] by (simp add: ctx_room_def)
  then show ?case using Cons p by (fastforce split: if_splits bind_splits prod.splits)
qed

lemma finish_chunks_room:
  "finish_chunks subs ctxs logits c = Some (ctxs', logits', c') \<Longrightarrow> \<forall>ctx \<in> set ctxs. ctx_room env ctx \<Longrightarrow>
   \<forall>ctx \<in> set ctxs'. ctx_room env ctx"
proof (induction subs ctxs logits c rule: finish_chunks.induct)
  case 1 then show ?case by simp
next
  case (2 sub subs ctxs logits c)
  let ?ctx = "ctxs ! ctx_index sub"
  let ?new = "?ctx\<lparr>delta_start := delta_start ?ctx + sub_tokens sub\<rparr>"
  have len: "ctx_index sub < length ctxs" using "2.prems" by (auto split: if_splits)
  then have "ctx_room env ?new" using "2.prems"(2) by (simp add: ctx_room_def)
  then have all: "\<forall>ctx \<in> set (ctxs[ctx_index sub := ?new]). ctx_room env ctx"
    using "2.prems"(2) set_update_subset_insert by fastforce
  show ?case
  proof (cases "delta_start ?new = int (length (delta (pc_prep ?new)))")
    case True
    then obtain m where m: "mark_sequence_ready (cm c) (res_seq_id (pc_prep ?new)) (Some (leaf_node (pc_prep ?new))) = Some m"
      "finish_chunks subs (ctxs[ctx_index sub := ?new]) (logits[ctx_index sub := logit_index sub]) (c\<lparr>cm := m\<rparr>) =
        Some (ctxs', logits', c')"
      using "2.prems"(1) len by (auto simp: Let_def split: bind_splits)
    show ?thesis by (rule "2.IH"(1) [OF len refl refl refl True m all])
  next
    case False
    then have "finish_chunks subs (ctxs[ctx_index sub := ?new]) logits c = Some (ctxs', logits', c')"
      using "2.prems"(1) len by (auto simp: Let_def)
    from "2.IH"(2) [OF len refl refl refl False this all] show ?thesis .
  qed
qed

lemma generate_one_room:
  assumes "generate_one env i sq c = (sq', c')" "seq_room env sq" "\<not> as_done sq"
  shows "seq_room env sq'"
  using assms by (auto simp: generate_one_def seq_room_def Let_def split: prod.splits if_splits)

lemma generate_all_room:
  "generate_all env i seqs c = (seqs', c') \<Longrightarrow> \<forall>sq \<in> set seqs. seq_room env sq \<and> \<not> as_done sq \<Longrightarrow>
   \<forall>sq \<in> set seqs'. seq_room env sq"
  by (induction seqs arbitrary: i c seqs' c') (auto split: prod.splits dest: generate_one_room)

lemma start_generation_room:
  assumes run: "start_generation env ctx logit c = Some (Some sq, c')" and r: "ctx_room env ctx"
  shows "seq_room env sq \<and> \<not> as_done sq"
proof -
  obtain hit req c1 where p: "is_cancelled env (pc_req ctx) c = (hit, req, c1)" by (cases "is_cancelled env (pc_req ctx) c")
  have "rq_max_tokens req = rq_max_tokens (pc_req ctx)" by (rule is_cancelled_limit [OF p])
  then show ?thesis using run r p
    by (auto simp: start_generation_def new_active_def seq_room_def ctx_room_def Let_def
        split: prod.splits if_splits bind_splits)
qed

lemma start_all_room:
  "start_all env ps c = Some (keep, new, c') \<Longrightarrow> \<forall>p \<in> set ps. ctx_room env (fst p) \<Longrightarrow> room env new keep"
proof (induction ps arbitrary: c keep new)
  case Nil then show ?case by (simp add: room_def)
next
  case (Cons p ps)
  obtain ctx lg where p: "p = (ctx, lg)" by (cases p)
  show ?case
  proof (cases "lg < 0")
    case True
    obtain keep' where "start_all env ps c = Some (keep', new, c')" "keep = ctx # keep'"
      using Cons.prems(1) True p by (auto split: bind_splits prod.splits)
    then show ?thesis using Cons.IH Cons.prems(2) p by (auto simp: room_def)
  next
    case False
    obtain started c1 new' where r: "start_generation env ctx lg c = Some (started, c1)"
      "start_all env ps c1 = Some (keep, new', c')" "new = (case started of None \<Rightarrow> new' | Some sq \<Rightarrow> sq # new')"
      using Cons.prems(1) False p by (auto split: bind_splits prod.splits)
    have ih: "room env new' keep" using Cons.IH [OF r(2)] Cons.prems(2) by simp
    have ctx: "ctx_room env ctx" using Cons.prems(2) p by simp
    show ?thesis
    proof (cases started)
      case None then show ?thesis using ih r(3) by simp
    next
      case (Some sq)
      then show ?thesis using ih r(1,3) start_generation_room [OF _ ctx] by (auto simp: room_def)
    qed
  qed
qed

lemma after_decode_room:
  assumes run: "after_decode env status pt subs seqs ctxs c = Some (seqs', ctxs', c')" and r: "room env seqs ctxs"
  shows "room env seqs' ctxs'"
proof (cases "status = 0")
  case True
  obtain ctxs1 logits c1 where f: "finish_chunks subs ctxs (replicate (length ctxs) (-1)) (count_step pt c) = Some (ctxs1, logits, c1)"
    using run True by (auto simp: after_decode_def split: bind_splits)
  obtain seqs1 c2 where ga: "generate_all env 0 seqs c1 = (seqs1, c2)" by (cases "generate_all env 0 seqs c1")
  obtain seqs2 c3 new where o: "retire_completed env seqs1 c2 = Some (seqs2, c3)"
    "start_all env (zip ctxs1 logits) c3 = Some (ctxs', new, c')" "seqs' = seqs2 @ new"
    using run True f ga by (auto simp: after_decode_def split: bind_splits prod.splits)
  have "\<forall>p \<in> set (zip ctxs1 logits). ctx_room env (fst p)"
    using finish_chunks_room [OF f, of env] r by (auto simp: room_def dest!: set_zip_leftD)
  from start_all_room [OF o(2) this] have "room env new ctxs'" .
  moreover have "\<forall>sq \<in> set seqs1. seq_room env sq" using generate_all_room [OF ga] r by (simp add: room_def)
  ultimately show ?thesis using retire_completed_set [OF o(1)] o(3) by (auto simp: room_def)
next
  case False
  then show ?thesis using run r
    by (cases "status = 1") (auto simp: after_decode_def room_def split: if_splits bind_splits dest: in_set_butlastD)
qed

lemma fused_step_room:
  assumes run: "fused_step env seqs ctxs c = Some (seqs', ctxs', c')" and r: "room env seqs ctxs"
  shows "room env seqs' ctxs'"
proof -
  obtain polled c1 where po: "poll_active env seqs c = (polled, c1)" by (cases "poll_active env seqs c")
  obtain seqs1 c2 where rd: "retire_done env polled c1 = Some (seqs1, c2)"
    using run po by (auto simp: fused_step_def split: bind_splits)
  obtain ctxs1 c3 where d: "drop_cancelled env ctxs c2 = Some (ctxs1, c3)"
    using run po rd by (auto simp: fused_step_def split: bind_splits)
  have r1: "room env seqs1 ctxs1"
    using poll_active_room [OF po] retire_done_set [OF rd] drop_cancelled_room [OF d] r by (auto simp: room_def)
  obtain batch subs pt where b: "build_batch (env_n_batch env - int (length seqs1)) seqs1 ctxs1 = (batch, subs, pt)"
    by (metis prod_cases3)
  show ?thesis
    using run po rd d b r1 after_decode_room [OF _ r1]
    by (auto simp: fused_step_def Let_def split: if_splits bind_splits)
qed

lemma prepare_all_room:
  "prepare_all env reqs c = Some (ctxs, deferred, queued, c') \<Longrightarrow> \<forall>ctx \<in> set ctxs. ctx_room env ctx"
proof (induction reqs arbitrary: c ctxs deferred queued)
  case Nil then show ?case by simp
next
  case (Cons req reqs)
  have new: "ctx_room env (new_prefill (clamp_max_tokens (available_tokens env toks) req1) toks prep)" for toks req1 prep
    by (simp add: ctx_room_def new_prefill_def clamp_max_tokens_def available_tokens_def)
  show ?case using Cons.prems
    by (auto simp: Let_def new split: prod.splits if_splits bind_splits sum.splits dest!: Cons.IH)
qed

lemma run_events_room:
  "room env (active s) (prefilling s) \<Longrightarrow> run_events env evs s = Some s' \<Longrightarrow> room env (active s') (prefilling s')"
proof (induction env evs s rule: run_events.induct)
  case (2 env req evs s) then show ?case by (simp add: enqueue_def)
next
  case (3 env evs s)
  obtain s1 where s1: "run_iteration env s = Some s1" "run_events env evs s1 = Some s'"
    using "3.prems"(2) by (auto split: bind_splits)
  obtain ctxs deferred queued c1 seqs pre c2 where
    p: "prepare_all env (take (admit_count env s) (queue s)) (wcore s) = Some (ctxs, deferred, queued, c1)" and
    f: "fused_step env (active s) (prefilling s @ ctxs) c1 = Some (seqs, pre, c2)" "active s1 = seqs" "prefilling s1 = pre"
    using s1(1) by (auto simp: run_iteration_def Let_def split: bind_splits)
  have "room env (active s) (prefilling s @ ctxs)" using prepare_all_room [OF p] "3.prems"(1) by (auto simp: room_def)
  from fused_step_room [OF f(1) this] have "room env (active s1) (prefilling s1)" using f(2,3) by simp
  from "3.IH" [OF s1(1) this s1(2)] show ?case .
qed simp

text \<open>
  C18. A sequence never outgrows the context window: in every run, each active sequence
  decodes its next token at a position that, with the tokens it may still generate, stays
  below \<open>n_ctx - 4\<close>, and each prompt in prefill has room for its whole completion.
\<close>

theorem positions_within_context:
  assumes "kv_laws (env_ops env) cells" "decode_law env cells" "\<And>q i. cells kv0 q i = None"
  shows "\<exists>s. run_events env evs (new_worker cfg kv0 w) = Some s \<and>
    (\<forall>sq \<in> set (active s). 0 < as_pos sq \<and> 1 \<le> as_remaining sq \<and> as_pos sq + as_remaining sq < env_n_ctx env - 4) \<and>
    (\<forall>ctx \<in> set (prefilling s). 0 \<le> cached_pos (pc_prep ctx) + delta_start ctx \<and>
       cached_pos (pc_prep ctx) + int (length (delta (pc_prep ctx))) + rq_max_tokens (pc_req ctx) \<le> env_n_ctx env - 4)"
proof -
  obtain s where s: "run_events env evs (new_worker cfg kv0 w) = Some s" "worker_inv (served cfg (env_ops env) cells) s"
    using run_events_ok [OF refl assms(2) new_worker_inv [OF assms(1,3)]] by blast
  have "room env (active (new_worker cfg kv0 w)) (prefilling (new_worker cfg kv0 w))" by (simp add: room_def new_worker_def)
  from run_events_room [OF this s(1)] have r: "room env (active s) (prefilling s)" .
  obtain las lps where m: "list_all2 match_active (active s) las" "list_all2 pending_ctx (prefilling s) lps"
    using s(2) by (auto simp: worker_inv_def matched_def)
  have "0 < as_pos sq \<and> 1 \<le> as_remaining sq \<and> as_pos sq + as_remaining sq < env_n_ctx env - 4" if sq: "sq \<in> set (active s)" for sq
  proof -
    obtain l where "match_active sq l" using list_all2_partner [OF m(1) sq] list_all2_zip [OF m(1)] by blast
    then show ?thesis using r sq by (auto simp: match_active_def room_def seq_room_def)
  qed
  moreover have "0 \<le> cached_pos (pc_prep ctx) + delta_start ctx \<and>
    cached_pos (pc_prep ctx) + int (length (delta (pc_prep ctx))) + rq_max_tokens (pc_req ctx) \<le> env_n_ctx env - 4"
    if ctx: "ctx \<in> set (prefilling s)" for ctx
  proof -
    obtain l where "pending_ctx ctx l" using list_all2_partner [OF m(2) ctx] list_all2_zip [OF m(2)] by blast
    then have "ctx_ok ctx" by (simp add: pending_ctx_def match_prefill_def)
    then show ?thesis using r ctx by (auto simp: ctx_ok_def room_def ctx_room_def)
  qed
  ultimately show ?thesis using s(1) by blast
qed

theorem positions_within_context_witness:
  "\<exists>s. run_events (sample_env (\<lambda>_ _. False)) [Arrive (sample_request 0 ''aba'' 3), Iterate] sample_worker = Some s \<and>
    (\<forall>sq \<in> set (active s). 0 < as_pos sq \<and> 1 \<le> as_remaining sq \<and> as_pos sq + as_remaining sq < 28) \<and>
    (\<forall>ctx \<in> set (prefilling s). 0 \<le> cached_pos (pc_prep ctx) + delta_start ctx \<and>
       cached_pos (pc_prep ctx) + int (length (delta (pc_prep ctx))) + rq_max_tokens (pc_req ctx) \<le> 28)"
  unfolding sample_worker_def
  using positions_within_context [of "sample_env (\<lambda>_ _. False)" table_cells empty_table
      "[Arrive (sample_request 0 ''aba'' 3), Iterate]" "sample_config 4" "[]"]
  by (simp add: sample_env_def logging_env_def table_laws table_decode_law) (simp add: empty_table_def table_cells_def)

end
