(* ===== verification/RF_WorkerProgress.thy ===== *)
theory RF_WorkerProgress
  imports RF_WorkerAnswer RF_WorkerLimits
begin

text \<open>
  The worker drains: a measure of the work left in its vectors falls with every iteration,
  whatever the decoder and the clients do.
\<close>

section \<open>The work left\<close>

definition ctx_work :: "prefill_ctx \<Rightarrow> int" where
  "ctx_work ctx = remaining_delta ctx + max 0 (rq_max_tokens (pc_req ctx))"

definition work :: "active_seq list \<Rightarrow> prefill_ctx list \<Rightarrow> int" where
  "work seqs ctxs = sum_list (map as_remaining seqs) + sum_list (map ctx_work ctxs)"

text \<open>Every sequence and every prompt has something left.\<close>

definition busy :: "active_seq list \<Rightarrow> prefill_ctx list \<Rightarrow> bool" where
  "busy seqs ctxs \<longleftrightarrow> (\<forall>sq \<in> set seqs. 1 \<le> as_remaining sq \<and> \<not> as_done sq) \<and> (\<forall>ctx \<in> set ctxs. 0 < remaining_delta ctx)"

lemma sum_list_pos: "\<forall>x \<in> set xs. (1::int) \<le> f x \<Longrightarrow> int (length xs) \<le> sum_list (map f xs)"
  by (induction xs) auto

lemma busy_work: "busy seqs ctxs \<Longrightarrow> int (length seqs + length ctxs) \<le> work seqs ctxs"
proof -
  assume b: "busy seqs ctxs"
  have "int (length seqs) \<le> sum_list (map as_remaining seqs)" using b by (intro sum_list_pos) (simp add: busy_def)
  moreover have "int (length ctxs) \<le> sum_list (map ctx_work ctxs)"
    using b by (intro sum_list_pos) (fastforce simp: busy_def ctx_work_def)
  ultimately show ?thesis by (simp add: work_def)
qed

lemma work_last:
  "seqs \<noteq> [] \<Longrightarrow> work seqs ctxs = work (butlast seqs) ctxs + as_remaining (last seqs)"
  "ctxs \<noteq> [] \<Longrightarrow> work seqs ctxs = work seqs (butlast ctxs) + ctx_work (last ctxs)"
  by (cases seqs rule: rev_cases; simp add: work_def) (cases ctxs rule: rev_cases; simp add: work_def)

section \<open>The steps\<close>

lemma poll_active_work:
  "poll_active env seqs c = (seqs', c') \<Longrightarrow> map as_remaining seqs' = map as_remaining seqs"
  by (induction seqs arbitrary: c seqs' c') (auto split: prod.splits)

lemma retire_done_work:
  "retire_done env seqs c = Some (seqs', c') \<Longrightarrow> \<forall>sq \<in> set seqs. 1 \<le> as_remaining sq \<Longrightarrow>
   sum_list (map as_remaining seqs') \<le> sum_list (map as_remaining seqs)"
proof (induction seqs arbitrary: c seqs')
  case (Cons sq seqs)
  then show ?case by (fastforce split: if_splits bind_splits prod.splits)
qed simp

lemma drop_cancelled_work:
  "drop_cancelled env ctxs c = Some (ctxs', c') \<Longrightarrow> \<forall>ctx \<in> set ctxs. 0 < remaining_delta ctx \<Longrightarrow>
   sum_list (map ctx_work ctxs') \<le> sum_list (map ctx_work ctxs) \<and> (\<forall>ctx \<in> set ctxs'. 0 < remaining_delta ctx)"
proof (induction ctxs arbitrary: c ctxs')
  case Nil then show ?case by simp
next
  case (Cons ctx ctxs)
  obtain hit req c0 where p: "is_cancelled env (pc_req ctx) c = (hit, req, c0)" by (cases "is_cancelled env (pc_req ctx) c")
  have w: "ctx_work (ctx\<lparr>pc_req := req\<rparr>) = ctx_work ctx" "remaining_delta (ctx\<lparr>pc_req := req\<rparr>) = remaining_delta ctx"
    using is_cancelled_limit [OF p] by (simp_all add: ctx_work_def remaining_delta_def)
  show ?case
  proof (cases hit)
    case True
    obtain c1 where "drop_cancelled env ctxs c1 = Some (ctxs', c')" using Cons.prems(1) p True by (auto split: bind_splits)
    moreover have "0 \<le> ctx_work ctx" using Cons.prems(2) by (simp add: ctx_work_def)
    ultimately show ?thesis using Cons.IH [of c1 ctxs'] Cons.prems(2) by simp
  next
    case False
    obtain rest where "drop_cancelled env ctxs c0 = Some (rest, c')" "ctxs' = ctx\<lparr>pc_req := req\<rparr> # rest"
      using Cons.prems(1) p False by (auto split: bind_splits prod.splits)
    then show ?thesis using Cons.IH [of c0 rest] Cons.prems(2) w by simp
  qed
qed

lemma sum_list_replace:
  "i < length xs \<Longrightarrow> sum_list (map f (xs[i := x])) = sum_list (map f xs) - f (xs ! i) + (f x :: int)"
  by (induction xs arbitrary: i) (auto split: nat.splits)

lemma finish_chunks_work:
  "finish_chunks subs ctxs logits c = Some (ctxs', logits', c') \<Longrightarrow>
   sum_list (map ctx_work ctxs') = sum_list (map ctx_work ctxs) - sum_list (map sub_tokens subs)"
proof (induction subs ctxs logits c rule: finish_chunks.induct)
  case 1 then show ?case by simp
next
  case (2 sub subs ctxs logits c)
  let ?ctx = "ctxs ! ctx_index sub"
  let ?new = "?ctx\<lparr>delta_start := delta_start ?ctx + sub_tokens sub\<rparr>"
  have len: "ctx_index sub < length ctxs" using "2.prems" by (auto split: if_splits)
  have new: "ctx_work ?new = ctx_work ?ctx - sub_tokens sub" by (simp add: ctx_work_def remaining_delta_def)
  have sum: "sum_list (map ctx_work (ctxs[ctx_index sub := ?new])) = sum_list (map ctx_work ctxs) - sub_tokens sub"
    using sum_list_replace [OF len, of ctx_work ?new] new by simp
  show ?case
  proof (cases "delta_start ?new = int (length (delta (pc_prep ?new)))")
    case True
    then obtain m where m: "mark_sequence_ready (cm c) (res_seq_id (pc_prep ?new)) (Some (leaf_node (pc_prep ?new))) = Some m"
      "finish_chunks subs (ctxs[ctx_index sub := ?new]) (logits[ctx_index sub := logit_index sub]) (c\<lparr>cm := m\<rparr>) =
        Some (ctxs', logits', c')"
      using "2.prems" len by (auto simp: Let_def split: bind_splits)
    from "2.IH"(1) [OF len refl refl refl True m] sum show ?thesis by simp
  next
    case False
    then have "finish_chunks subs (ctxs[ctx_index sub := ?new]) logits c = Some (ctxs', logits', c')"
      using "2.prems" len by (auto simp: Let_def)
    from "2.IH"(2) [OF len refl refl refl False this] sum show ?thesis by simp
  qed
qed

lemma submit_prompts_tokens:
  "submit_prompts capacity i ctxs used idx = (es, subs, t) \<Longrightarrow>
   sum_list (map sub_tokens subs) = t - used \<and> used \<le> t \<and>
   (used < capacity \<and> (\<exists>ctx \<in> set ctxs. 0 < remaining_delta ctx) \<longrightarrow> used < t)"
proof (induction capacity i ctxs used idx arbitrary: es subs t rule: submit_prompts.induct)
  case 1 then show ?case by simp
next
  case (2 capacity i ctx ctxs used idx)
  consider "\<not> used < capacity" | "used < capacity" "remaining_delta ctx \<le> 0" | "used < capacity" "0 < remaining_delta ctx"
    by linarith
  then show ?case
  proof cases
    case 1 then show ?thesis using "2.prems" by auto
  next
    case 2
    then have "submit_prompts capacity (Suc i) ctxs used idx = (es, subs, t)"
      using "2.prems" by (simp add: Let_def remaining_delta_def)
    then show ?thesis using "2.IH"(1) [OF 2(1) refl] 2(2) by (auto simp: remaining_delta_def)
  next
    case 3
    let ?n = "min (remaining_delta ctx) (capacity - used)"
    obtain es' ss t' where r': "submit_prompts capacity (Suc i) ctxs (used + ?n) (idx + ?n) = (es', ss, t')"
      by (metis prod_cases3)
    have r: "submit_prompts capacity (Suc i) ctxs (used + ?n) (idx + ?n) = (es', ss, t)" "subs = chunk_submission i ctx ?n idx # ss"
      using submit_prompts_chunk [OF 3 refl r'] "2.prems" r' by simp_all
    have "sum_list (map sub_tokens ss) = t - (used + ?n) \<and> used + ?n \<le> t"
      using "2.IH"(2) [OF 3(1) refl _ refl refl, of es' ss t] 3(2) r(1) by (simp add: remaining_delta_def)
    moreover have "0 < ?n" using 3 by simp
    moreover have "sum_list (map sub_tokens subs) = ?n + sum_list (map sub_tokens ss)"
      using r(2) by (simp add: chunk_submission_def)
    ultimately show ?thesis by linarith
  qed
qed

lemma generate_one_work:
  assumes "generate_one env i sq c = (sq', c')" "1 \<le> as_remaining sq"
  shows "(if as_done sq' then 0 else as_remaining sq') \<le> as_remaining sq - 1"
  using assms by (auto simp: generate_one_def Let_def split: prod.splits if_splits)

lemma generate_all_work:
  "generate_all env i seqs c = (seqs', c') \<Longrightarrow> \<forall>sq \<in> set seqs. 1 \<le> as_remaining sq \<Longrightarrow>
   sum_list (map (\<lambda>sq. if as_done sq then 0 else as_remaining sq) seqs') \<le> sum_list (map as_remaining seqs) - int (length seqs)"
proof (induction seqs arbitrary: i c seqs' c')
  case Nil then show ?case by simp
next
  case (Cons sq seqs)
  obtain sq1 c1 where g: "generate_one env i sq c = (sq1, c1)" by (cases "generate_one env i sq c")
  obtain rest c2 where r: "generate_all env (Suc i) seqs c1 = (rest, c2)" by (cases "generate_all env (Suc i) seqs c1")
  have "sum_list (map (\<lambda>sq. if as_done sq then 0 else as_remaining sq) rest) \<le> sum_list (map as_remaining seqs) - int (length seqs)"
    using Cons.IH [OF r] Cons.prems(2) by simp
  moreover have "seqs' = sq1 # rest" using Cons.prems(1) g r by simp
  moreover have "(if as_done sq1 then 0 else as_remaining sq1) \<le> as_remaining sq - 1"
    using generate_one_work [OF g] Cons.prems(2) by simp
  ultimately show ?case by simp
qed

lemma retire_completed_work:
  "retire_completed env seqs c = Some (seqs', c') \<Longrightarrow>
   sum_list (map as_remaining seqs') = sum_list (map (\<lambda>sq. if as_done sq then 0 else as_remaining sq) seqs)"
  by (induction seqs arbitrary: c seqs') (auto split: if_splits bind_splits prod.splits)

lemma start_generation_work:
  assumes run: "start_generation env ctx logit c = Some (Some sq, c')"
  shows "as_remaining sq \<le> max 0 (rq_max_tokens (pc_req ctx))"
proof -
  obtain hit req c1 where p: "is_cancelled env (pc_req ctx) c = (hit, req, c1)" by (cases "is_cancelled env (pc_req ctx) c")
  have "rq_max_tokens req = rq_max_tokens (pc_req ctx)" by (rule is_cancelled_limit [OF p])
  then show ?thesis using run p
    by (auto simp: start_generation_def new_active_def Let_def split: prod.splits if_splits bind_splits)
qed

lemma start_all_work:
  "start_all env ps c = Some (keep, new, c') \<Longrightarrow> \<forall>(ctx, lg) \<in> set ps. 0 \<le> remaining_delta ctx \<Longrightarrow>
   work new keep \<le> sum_list (map (\<lambda>p. ctx_work (fst p)) ps)"
proof (induction ps arbitrary: c keep new)
  case Nil then show ?case by (simp add: work_def)
next
  case (Cons p ps)
  obtain ctx lg where p: "p = (ctx, lg)" by (cases p)
  show ?case
  proof (cases "lg < 0")
    case True
    obtain keep' where "start_all env ps c = Some (keep', new, c')" "keep = ctx # keep'"
      using Cons.prems(1) True p by (auto split: bind_splits prod.splits)
    then show ?thesis using Cons.IH Cons.prems(2) p by (fastforce simp: work_def)
  next
    case False
    obtain started c1 new' where r: "start_generation env ctx lg c = Some (started, c1)"
      "start_all env ps c1 = Some (keep, new', c')" "new = (case started of None \<Rightarrow> new' | Some sq \<Rightarrow> sq # new')"
      using Cons.prems(1) False p by (auto split: bind_splits prod.splits)
    have ih: "work new' keep \<le> sum_list (map (\<lambda>p. ctx_work (fst p)) ps)" using Cons.IH [OF r(2)] Cons.prems(2) by simp
    have ctx: "max 0 (rq_max_tokens (pc_req ctx)) \<le> ctx_work ctx" using Cons.prems(2) p by (simp add: ctx_work_def)
    show ?thesis
    proof (cases started)
      case None then show ?thesis using ih r(3) p ctx by simp
    next
      case (Some sq)
      then have "as_remaining sq \<le> max 0 (rq_max_tokens (pc_req ctx))" using r(1) by (intro start_generation_work) simp
      then have "as_remaining sq \<le> ctx_work ctx" using ctx by (rule order_trans)
      then show ?thesis using ih r(3) Some p by (simp add: work_def)
    qed
  qed
qed

lemma finish_chunks_remaining:
  "submit_prompts capacity (length pre) ctxs used idx = (es, subs, t) \<Longrightarrow> \<forall>ctx \<in> set ctxs. 0 < remaining_delta ctx \<Longrightarrow>
   finish_chunks subs (pre @ ctxs) logits c = Some (ctxs', logits', c') \<Longrightarrow>
   \<exists>post. ctxs' = pre @ post \<and> (\<forall>ctx \<in> set post. 0 \<le> remaining_delta ctx)"
proof (induction ctxs arbitrary: pre used idx es subs t logits c)
  case Nil then show ?case by auto
next
  case (Cons ctx ctxs)
  show ?case
  proof (cases "used < capacity")
    case False
    then show ?thesis using Cons.prems by (intro exI [of _ "ctx # ctxs"]) auto
  next
    case True
    let ?n = "min (remaining_delta ctx) (capacity - used)"
    let ?ctx = "ctx\<lparr>delta_start := delta_start ctx + ?n\<rparr>"
    have rem: "0 < remaining_delta ctx" using Cons.prems(2) by simp
    obtain es' ss t' where r: "submit_prompts capacity (Suc (length pre)) ctxs (used + ?n) (idx + ?n) = (es', ss, t')"
      by (metis prod_cases3)
    have subs: "subs = chunk_submission (length pre) ctx ?n idx # ss"
      using submit_prompts_chunk [OF True rem refl r] Cons.prems(1) by simp
    have r1: "submit_prompts capacity (length (pre @ [?ctx])) ctxs (used + ?n) (idx + ?n) = (es', ss, t')" using r by simp
    obtain logits1 c1 where "finish_chunks ss ((pre @ [?ctx]) @ ctxs) logits1 c1 = Some (ctxs', logits', c')"
      using Cons.prems(3) subs
      by (auto simp: chunk_submission_def Let_def list_update_append nth_append split: if_splits bind_splits)
    then obtain post where "ctxs' = (pre @ [?ctx]) @ post" "\<forall>ctx \<in> set post. 0 \<le> remaining_delta ctx"
      using Cons.IH [OF r1] Cons.prems(2) by auto
    moreover have "0 \<le> remaining_delta ?ctx" by (simp add: remaining_delta_def)
    ultimately show ?thesis by (intro exI [of _ "?ctx # post"]) simp
  qed
qed

lemma advance_work:
  assumes run: "after_decode env 0 pt subs seqs ctxs c = Some (seqs', ctxs', c')" and b: "busy seqs ctxs"
    and sub: "submit_prompts capacity 0 ctxs 0 idx = (es, subs, t)"
  shows "work seqs' ctxs' \<le> work seqs ctxs - int (length seqs) - t"
proof -
  obtain ctxs1 logits c1 where f: "finish_chunks subs ctxs (replicate (length ctxs) (-1)) (count_step pt c) = Some (ctxs1, logits, c1)"
    using run by (auto simp: after_decode_def split: bind_splits)
  obtain seqs1 c2 where ga: "generate_all env 0 seqs c1 = (seqs1, c2)" by (cases "generate_all env 0 seqs c1")
  obtain seqs2 c3 new where r: "retire_completed env seqs1 c2 = Some (seqs2, c3)"
    "start_all env (zip ctxs1 logits) c3 = Some (ctxs', new, c')" "seqs' = seqs2 @ new"
    using run f ga by (auto simp: after_decode_def split: bind_splits prod.splits)
  have "submit_prompts capacity (length []) ctxs 0 idx = (es, subs, t)" using sub by simp
  from finish_chunks_remaining [OF this, of "replicate (length ctxs) (-1)" "count_step pt c" ctxs1 logits c1]
  have rem: "\<forall>ctx \<in> set ctxs1. 0 \<le> remaining_delta ctx" using b f by (auto simp: busy_def)
  have len: "length ctxs1 = length logits" using finish_chunks_length [OF f] by simp
  have "\<forall>(ctx, lg) \<in> set (zip ctxs1 logits). 0 \<le> remaining_delta ctx" using rem by (auto dest: set_zip_leftD)
  from start_all_work [OF r(2) this] have "work new ctxs' \<le> sum_list (map ctx_work (map fst (zip ctxs1 logits)))"
    by (simp add: comp_def)
  then have new: "work new ctxs' \<le> sum_list (map ctx_work ctxs1)" using len by (simp del: map_map)
  have "sum_list (map as_remaining seqs2) \<le> sum_list (map as_remaining seqs) - int (length seqs)"
    using generate_all_work [OF ga] retire_completed_work [OF r(1)] b by (simp add: busy_def)
  moreover have "sum_list (map ctx_work ctxs1) = sum_list (map ctx_work ctxs) - t"
    using finish_chunks_work [OF f] submit_prompts_tokens [OF sub] by simp
  ultimately show ?thesis using new r(3) by (simp add: work_def)
qed

lemma after_decode_work:
  assumes run: "after_decode env status pt subs seqs ctxs c = Some (seqs', ctxs', c')" and b: "busy seqs ctxs"
    and sub: "submit_prompts capacity 0 ctxs 0 idx = (es, subs, t)" and some: "0 < int (length seqs) + t"
    and ne: "seqs \<noteq> [] \<or> ctxs \<noteq> []"
  shows "work seqs' ctxs' < work seqs ctxs"
proof -
  consider "status = 0" | "status = 1" "seqs \<noteq> []" | "status = 1" "seqs = []" "ctxs \<noteq> []" | "status \<noteq> 0" "status \<noteq> 1"
    using ne by blast
  then show ?thesis
  proof cases
    case 1 then show ?thesis using advance_work [OF _ b sub] run some by fastforce
  next
    case 2
    then have "seqs' = butlast seqs" "ctxs' = ctxs" using run by (auto simp: after_decode_def split: bind_splits)
    moreover have "1 \<le> as_remaining (last seqs)" using b 2 by (simp add: busy_def)
    ultimately show ?thesis using work_last(1) [OF 2(2)] by simp
  next
    case 3
    then have "seqs' = seqs" "ctxs' = butlast ctxs" using run by (auto simp: after_decode_def split: bind_splits)
    moreover have "0 < remaining_delta (last ctxs)" using b 3 by (simp add: busy_def)
    then have "0 < ctx_work (last ctxs)" unfolding ctx_work_def by linarith
    ultimately show ?thesis using work_last(2) [OF 3(3), of seqs] by simp
  next
    case 4
    then have "seqs' = []" "ctxs' = []" using run by (auto simp: after_decode_def split: bind_splits)
    moreover have "0 < work seqs ctxs" using busy_work [OF b] ne by (cases seqs; cases ctxs) auto
    ultimately show ?thesis by (simp add: work_def)
  qed
qed

lemma fused_step_work:
  assumes run: "fused_step env seqs ctxs c = Some (seqs', ctxs', c')" and b: "busy seqs ctxs"
    and batch: "1 \<le> env_n_batch env" and ne: "seqs \<noteq> [] \<or> ctxs \<noteq> []"
  shows "work seqs' ctxs' < work seqs ctxs"
proof -
  obtain polled c1 where po: "poll_active env seqs c = (polled, c1)" by (cases "poll_active env seqs c")
  obtain seqs1 c2 where r: "retire_done env polled c1 = Some (seqs1, c2)"
    using run po by (auto simp: fused_step_def split: bind_splits)
  obtain ctxs1 c3 where d: "drop_cancelled env ctxs c2 = Some (ctxs1, c3)"
    using run po r by (auto simp: fused_step_def split: bind_splits)
  have p: "map as_remaining polled = map as_remaining seqs" by (rule poll_active_work [OF po])
  have "1 \<le> as_remaining sq" if "sq \<in> set polled" for sq
  proof -
    have "as_remaining sq \<in> set (map as_remaining seqs)" using that p [symmetric] by simp
    then show ?thesis using b by (auto simp: busy_def)
  qed
  then have p1: "\<forall>sq \<in> set polled. 1 \<le> as_remaining sq" by blast
  have dc: "sum_list (map ctx_work ctxs1) \<le> sum_list (map ctx_work ctxs) \<and> (\<forall>ctx \<in> set ctxs1. 0 < remaining_delta ctx)"
    using drop_cancelled_work [OF d] b by (simp add: busy_def)
  have le: "work seqs1 ctxs1 \<le> work seqs ctxs"
    using retire_done_work [OF r p1] p dc by (simp add: work_def)
  have b1: "busy seqs1 ctxs1" using retire_done_set [OF r] p1 dc by (auto simp: busy_def)
  let ?cap = "env_n_batch env - int (length seqs1)"
  obtain es subs t where s: "submit_prompts ?cap 0 ctxs1 0 (int (length seqs1)) = (es, subs, t)" by (metis prod_cases3)
  then have bb: "build_batch ?cap seqs1 ctxs1 = (map decode_entry seqs1 @ es, subs, t)" by (simp add: build_batch_def)
  note tok = submit_prompts_tokens [OF s] submit_prompts_sizes [OF s]
  show ?thesis
  proof (cases "seqs1 = [] \<and> ctxs1 = []")
    case True
    then have "seqs' = [] \<and> ctxs' = []" using run po r d by (auto simp: fused_step_def)
    moreover have "0 < work seqs ctxs" using busy_work [OF b] ne by (cases seqs; cases ctxs) auto
    ultimately show ?thesis by (simp add: work_def)
  next
    case False
    have some: "0 < int (length seqs1) + t"
    proof (cases "seqs1 = []")
      case True
      then have "ctxs1 \<noteq> []" using False by simp
      then have "\<exists>ctx \<in> set ctxs1. 0 < remaining_delta ctx" using b1 by (cases ctxs1) (auto simp: busy_def)
      then show ?thesis using tok(1) True batch by simp
    next
      case nonempty: False then show ?thesis using tok(1) by (simp add: add_pos_nonneg)
    qed
    have "map decode_entry seqs1 @ es \<noteq> []" using some tok(2) by auto
    moreover have "\<not> (seqs1 = [] \<and> (ctxs1 = [] \<or> ?cap \<le> 0))" using False batch by auto
    ultimately obtain status c4 where "after_decode env status t subs seqs1 ctxs1 c4 = Some (seqs', ctxs', c')"
      using run po r d bb by (auto simp: fused_step_def Let_def split: if_splits bind_splits)
    from after_decode_work [OF this b1 s some] False le show ?thesis by auto
  qed
qed

section \<open>Draining\<close>

lemma running_busy:
  assumes "worker_inv (served cfg ops cells) s" "room env (active s) (prefilling s)"
  shows "busy (active s) (prefilling s)"
proof -
  obtain las lps where m: "list_all2 pending_ctx (prefilling s) lps"
    using assms(1) by (auto simp: worker_inv_def matched_def)
  have "0 < remaining_delta ctx" if ctx: "ctx \<in> set (prefilling s)" for ctx
  proof -
    obtain l where "pending_ctx ctx l" using list_all2_partner [OF m ctx] list_all2_zip [OF m] by blast
    then show ?thesis by (rule pending_remaining)
  qed
  then show ?thesis using assms(2) by (auto simp: busy_def room_def seq_room_def)
qed

lemma drain_iteration:
  assumes "run_iteration env s = Some s'" "queue s = []"
  shows "queue s' = []" "\<exists>c. fused_step env (active s) (prefilling s) (wcore s) = Some (active s', prefilling s', c)"
  using assms by (auto simp: run_iteration_def admit_count_def Let_def split: bind_splits)

lemma run_events_append:
  "run_events env (evs @ evs') s = do { s' \<leftarrow> run_events env evs s; run_events env evs' s' }"
  by (induction env evs s rule: run_events.induct) (auto split: bind_splits)

lemma drain_ok:
  assumes env: "env_ops env = ops" "decode_law env cells" "1 \<le> env_n_batch env"
  shows "worker_inv (served cfg ops cells) s \<Longrightarrow> room env (active s) (prefilling s) \<Longrightarrow> queue s = [] \<Longrightarrow>
    \<exists>k s'. run_events env (replicate k Iterate) s = Some s' \<and> active s' = [] \<and> prefilling s' = [] \<and> queue s' = []"
proof (induction "nat (work (active s) (prefilling s))" arbitrary: s rule: less_induct)
  case less
  show ?case
  proof (cases "active s = [] \<and> prefilling s = []")
    case True
    then show ?thesis using less.prems(3) by (intro exI [of _ 0] exI [of _ s]) simp
  next
    case False
    obtain s1 where s1: "run_iteration env s = Some s1" "worker_inv (served cfg ops cells) s1"
      using mapper_service.run_iteration_ok [OF env(1,2) less.prems(1)] by blast
    obtain c where f: "fused_step env (active s) (prefilling s) (wcore s) = Some (active s1, prefilling s1, c)"
      using drain_iteration(2) [OF s1(1) less.prems(3)] by blast
    have r1: "room env (active s1) (prefilling s1)" by (rule fused_step_room [OF f less.prems(2)])
    have dec: "work (active s1) (prefilling s1) < work (active s) (prefilling s)"
      using fused_step_work [OF f running_busy [OF less.prems(1,2)] env(3)] False by blast
    have "0 \<le> work (active s1) (prefilling s1)" using busy_work [OF running_busy [OF s1(2) r1]] by simp
    with dec have "nat (work (active s1) (prefilling s1)) < nat (work (active s) (prefilling s))" by simp
    from less.hyps [OF this s1(2) r1 drain_iteration(1) [OF s1(1) less.prems(3)]] obtain k s' where
      "run_events env (replicate k Iterate) s1 = Some s'" "active s' = [] \<and> prefilling s' = [] \<and> queue s' = []" by blast
    then show ?thesis using s1(1) by (intro exI [of _ "Suc k"] exI [of _ s']) simp
  qed
qed

text \<open>
  The worker drains. From every state a run can reach in which the queue is empty, the
  worker becomes idle after finitely many iterations when no request arrives, whatever the
  decoder, the sampler and the clients do: even a sampler that never ends a text, a client that
  never reads or a decoder that always fails cannot keep it busy.
\<close>

theorem worker_drains:
  assumes "kv_laws (env_ops env) cells" "decode_law env cells" "\<And>q i. cells kv0 q i = None" "1 \<le> env_n_batch env"
    and "run_events env evs (new_worker cfg kv0 w) = Some s" "queue s = []"
  shows "\<exists>k s'. run_events env (replicate k Iterate) s = Some s' \<and>
    active s' = [] \<and> prefilling s' = [] \<and> queue s' = []"
proof -
  have i: "worker_inv (served cfg (env_ops env) cells) s"
    using run_events_ok [OF refl assms(2) new_worker_inv [OF assms(1,3)]] assms(5) by (metis option.inject)
  have "room env (active (new_worker cfg kv0 w)) (prefilling (new_worker cfg kv0 w))" by (simp add: room_def new_worker_def)
  from run_events_room [OF this assms(5)] have r: "room env (active s) (prefilling s)" .
  show ?thesis by (rule drain_ok [OF refl assms(2,4) i r assms(6)])
qed

theorem worker_drains_witness:
  "\<exists>s. run_events (sample_env (\<lambda>_ _. False)) [Arrive (sample_request 0 ''aba'' 3), Iterate] sample_worker = Some s \<and>
    (\<exists>k s'. run_events (sample_env (\<lambda>_ _. False)) (replicate k Iterate) s = Some s' \<and>
       active s' = [] \<and> prefilling s' = [] \<and> queue s' = [])"
proof -
  let ?evs = "[Arrive (sample_request 0 ''aba'' 3), Iterate]" and ?env = "sample_env (\<lambda>_ _. False)"
  have "map_option queue (run_events ?env ?evs sample_worker) = Some []" by code_simp
  then obtain s where s: "run_events ?env ?evs sample_worker = Some s" "queue s = []" by auto
  have "kv_laws (env_ops ?env) table_cells" "1 \<le> env_n_batch ?env" by (simp_all add: sample_env_def logging_env_def table_laws)
  from worker_drains [OF this(1) sample_decode_law _ this(2) s(1) [unfolded sample_worker_def] s(2)]
  have "\<exists>k s'. run_events ?env (replicate k Iterate) s = Some s' \<and> active s' = [] \<and> prefilling s' = [] \<and> queue s' = []"
    by (simp add: table_cells_def empty_table_def)
  with s(1) show ?thesis by blast
qed

section \<open>After the last token\<close>

text \<open>
  The worker asks for the cancellation of a request again after it has sent the last
  token: a client that is found gone only after its last token is first told the end and then
  counted as cancelled, although its request was served completely.
\<close>

theorem completed_request_counted_cancelled:
  "map_option (\<lambda>s. (cw (wcore s), length (queue s), length (active s), length (prefilling s)))
     (run_events (sample_env (\<lambda>i w. Token i ''x'' True \<in> set w))
        [Arrive (sample_request 0 ''aba'' 2), Iterate, Iterate] sample_worker) =
   Some ([Token 0 ''x'' False, Token 0 ''x'' True, Cancellation 0], 0, 0, 0)"
  by code_simp

end
