(* ===== verification/RF_WorkerServes.thy ===== *)
theory RF_WorkerServes
  imports RF_WorkerProgress
begin

text \<open>
  The worker serves its whole queue. When nothing is active, every sequence id outside the pool
  is idle cache, and each node of the tree keeps at most one of them; so with at least three ids
  one of them can be reclaimed for the first request of the queue, whatever its prompt is.
\<close>

section \<open>The mapper without requests\<close>

lemma idle_state:
  assumes "served cfg ops cells m {#}"
  obtains P where "mapper_inv cells m P [] {#}" "kv_laws ops cells" "mcfg m = cfg"
proof -
  obtain ls P where ls: "kv_laws ops cells" "mset ls = {#}" "reachable ops cells \<lparr>mapper = m, leases = ls\<rparr>"
    "mapper_inv cells m P ls (mset (map l_leaf ls))" by (rule servedE [OF assms])
  then show thesis using that assms by (simp add: served_def)
qed

text \<open>Nothing is pending, so no request is deferred.\<close>

lemma idle_inspect:
  assumes "served cfg ops cells m {#}" "mapper_inspect_prefix m p = Some av"
  shows "\<not> pending_tokens av - ready_tokens av > 0"
proof -
  obtain P where P: "mapper_inv cells m P [] {#}" by (rule idle_state [OF assms(1)])
  then have wf: "wf_tree (tree m) P" and idle: "idle_ready (tree m) []" by (simp_all add: mapper_inv_def)
  have none: "seq_ids nd - ready_seq_ids nd = {}" if "heap (tree m) n = Some nd" for n nd
    using idle that by (auto simp: idle_ready_def)
  have "avail_sound (tree m) P p av" using inspect_prefix_ok [OF wf, of p] assms(2) by (auto simp: mapper_inspect_prefix_def)
  then have "0 \<le> ready_tokens av" "\<not> 0 < pending_tokens av" using none
    by (auto simp: avail_sound_def covered_by_def)
  then show ?thesis by simp
qed

text \<open>Two idle sequences outside the root are at two nodes, and the prompt's node is one of them at most.\<close>

lemma idle_prepare:
  assumes S: "served cfg ops cells m {#}" and n: "4 \<le> max_sequences cfg"
    and run: "prepare_sequence ops m p = Some (m', res)"
  shows "\<exists>r. res = Inr r"
proof (cases res)
  case (Inl e)
  obtain P where P: "mapper_inv cells m P [] {#}" "kv_laws ops cells" "mcfg m = cfg" by (rule idle_state [OF S])
  have "evict_ready ops cells [] {#}" using P(2) by (simp add: evict_ready_def)
  from prepare_sequence_ok [OF P(1) this, of p] obtain P' where P': "mapper_inv cells m' P' [] {#}" "free_seq_ids m' = []"
    "\<forall>x. evictable (tree m') x \<longrightarrow> P' x = p" "mcfg m' = cfg" using run Inl P(3) by auto
  have wf: "wf_tree (tree m') P'" and idle: "idle_ready (tree m') []" and refs: "refs_ok (tree m') {#}"
    and own: "owned (tree m') = {1..<max_sequences cfg}"
    using P'(1,2,4) by (auto simp: mapper_inv_def pool_ok_def)
  have at: "\<exists>x xd. heap (tree m') x = Some xd \<and> s \<in> seq_ids xd \<and> (x = root_addr \<or> P' x = p)" if "s \<in> {1, 2, 3}" for s
  proof -
    have "s \<in> owned (tree m')" using that n own by auto
    then obtain x xd where x: "heap (tree m') x = Some xd" "s \<in> seq_ids xd" by (auto simp: owned_def)
    have "evictable (tree m') x" if "x \<noteq> root_addr" using that x refs by (auto simp: evictable_def refs_ok_def)
    then show ?thesis using x P'(3) by blast
  qed
  have same: "s = s'" if "heap (tree m') x = Some xd" "s \<in> seq_ids xd" "s' \<in> seq_ids xd" for s s' x xd
    using idle that by (simp add: idle_ready_def)
  obtain x1 d1 where x1: "heap (tree m') x1 = Some d1" "1 \<in> seq_ids d1" "x1 = root_addr \<or> P' x1 = p" using at [of 1] by auto
  obtain x2 d2 where x2: "heap (tree m') x2 = Some d2" "2 \<in> seq_ids d2" "x2 = root_addr \<or> P' x2 = p" using at [of 2] by auto
  obtain x3 d3 where x3: "heap (tree m') x3 = Some d3" "3 \<in> seq_ids d3" "x3 = root_addr \<or> P' x3 = p" using at [of 3] by auto
  note x = x1 x2 x3
  have shape: "wf_shape (tree m') P'" using wf by (simp add: wf_tree_def)
  have inj: "y = z" if "heap (tree m') y \<noteq> None" "heap (tree m') z \<noteq> None" "P' y = p" "P' z = p" for y z
    using that path_inj [OF shape, of y _ z] by auto
  have "x1 \<noteq> x2" using same [OF x(1,2), of 2] x(1,4,5) by auto
  moreover have "x1 \<noteq> x3" using same [OF x(1,2), of 3] x(1,7,8) by auto
  moreover have "x2 \<noteq> x3" using same [OF x(4,5), of 3] x(4,7,8) by auto
  moreover have "heap (tree m') x1 \<noteq> None" "heap (tree m') x2 \<noteq> None" "heap (tree m') x3 \<noteq> None" using x by simp_all
  ultimately have "x1 = root_addr \<or> x2 = root_addr" "x1 = root_addr \<or> x3 = root_addr" "x2 = root_addr \<or> x3 = root_addr"
    using inj [of x1 x2] inj [of x1 x3] inj [of x2 x3] x(3,6,9) by blast+
  then have False using \<open>x1 \<noteq> x2\<close> \<open>x1 \<noteq> x3\<close> \<open>x2 \<noteq> x3\<close> by blast
  then show ?thesis ..
qed blast

section \<open>The queue shrinks\<close>

lemma queue_rest_length: "queue_rest env reqs c = (rest, c') \<Longrightarrow> length rest \<le> length reqs"
  by (induction reqs arbitrary: c rest c') (force split: prod.splits if_splits)+

text \<open>What an admission of one request does; the rest of the list follows.\<close>

lemma prepare_all_cases:
  assumes run: "prepare_all env (req # reqs) c = Some (ctxs, deferred, queued, c')"
  obtains (dropped) c2 where "prepare_all env reqs c2 = Some (ctxs, deferred, queued, c')"
  | (waits) av p c1 deferred' where "cm c1 = cm c" "mapper_inspect_prefix (cm c) p = Some av"
      "pending_tokens av - ready_tokens av > 0"
      "prepare_all env reqs c1 = Some (ctxs, deferred', queued, c')" "length deferred = Suc (length deferred')"
  | (refused) p m e rest c1 where "prepare_sequence (env_ops env) (cm c) p = Some (m, Inl e)"
      "queue_rest env reqs c1 = (rest, c')" "ctxs = []" "deferred = []" "length queued = Suc (length rest)"
  | (admitted) ctx c2 ctxs' where "prepare_all env reqs c2 = Some (ctxs', deferred, queued, c')" "ctxs = ctx # ctxs'"
proof -
  obtain hit req1 c1 where p: "is_cancelled env req c = (hit, req1, c1)" by (cases "is_cancelled env req c")
  note cm1 = is_cancelled_cm [OF p]
  let ?toks = "tokenize env (prompt_text env req1)"
  let ?av = "available_tokens env ?toks"
  show thesis
  proof (cases "hit \<or> ?av \<le> 0")
    case True
    then show thesis using run p by (cases hit) (auto simp: Let_def intro: dropped)
  next
    case False
    then have go: "\<not> hit" "\<not> ?av \<le> 0" by simp_all
    obtain av where av: "mapper_inspect_prefix (cm c1) ?toks = Some av"
      using run go p by (auto simp: Let_def split: bind_splits)
    show thesis
    proof (cases "pending_tokens av - ready_tokens av > 0")
      case True
      then show thesis using run go p av cm1 by (auto simp: Let_def split: bind_splits intro: waits)
    next
      case nopend: False
      obtain m res where pr: "prepare_sequence (env_ops env) (cm c1) ?toks = Some (m, res)"
        using run go p av nopend by (auto simp: Let_def split: bind_splits)
      show thesis
      proof (cases res)
        case (Inl e)
        show thesis using run go p av nopend pr Inl cm1
          by (auto simp: Let_def split: prod.splits intro: refused [of ?toks m e "c1\<lparr>cm := m\<rparr>"])
      next
        case (Inr prep)
        then show thesis using run go p av nopend pr
          by (cases "delta prep = []") (auto simp: Let_def split: bind_splits intro: dropped admitted)
      qed
    qed
  qed
qed

lemma prepare_all_queue:
  "prepare_all env reqs c = Some (ctxs, deferred, queued, c') \<Longrightarrow> length ctxs + length deferred + length queued \<le> length reqs"
proof (induction reqs arbitrary: c ctxs deferred queued c')
  case (Cons req reqs)
  show ?case
  proof (rule prepare_all_cases [OF Cons.prems])
    fix c2 assume "prepare_all env reqs c2 = Some (ctxs, deferred, queued, c')"
    from Cons.IH [OF this] show ?thesis by simp
  next
    fix c1 deferred' assume "prepare_all env reqs c1 = Some (ctxs, deferred', queued, c')" "length deferred = Suc (length deferred')"
    with Cons.IH show ?thesis by fastforce
  next
    fix rest c1 assume q: "queue_rest env reqs c1 = (rest, c')" "ctxs = []" "deferred = []" "length queued = Suc (length rest)"
    from queue_rest_length [OF q(1)] q show ?thesis by simp
  next
    fix ctx c2 ctxs' assume "prepare_all env reqs c2 = Some (ctxs', deferred, queued, c')" "ctxs = ctx # ctxs'"
    with Cons.IH show ?thesis by fastforce
  qed
qed simp

lemma prepare_all_idle:
  assumes run: "prepare_all env (req # reqs) c = Some (ctxs, deferred, queued, c')"
    and S: "served cfg ops cells (cm c) {#}" and env: "env_ops env = ops" "4 \<le> max_sequences cfg"
  shows "length deferred + length queued \<le> length reqs"
proof (rule prepare_all_cases [OF run])
  fix c2 assume "prepare_all env reqs c2 = Some (ctxs, deferred, queued, c')"
  from prepare_all_queue [OF this] show ?thesis by simp
next
  fix av p assume "mapper_inspect_prefix (cm c) p = Some av" "pending_tokens av - ready_tokens av > 0"
  with idle_inspect [OF S] show ?thesis by blast
next
  fix p m e assume "prepare_sequence (env_ops env) (cm c) p = Some (m, Inl e)"
  with idle_prepare [OF S env(2)] env(1) show ?thesis by fastforce
next
  fix ctx c2 ctxs' assume "prepare_all env reqs c2 = Some (ctxs', deferred, queued, c')"
  from prepare_all_queue [OF this] show ?thesis by simp
qed

lemma run_iteration_queue:
  assumes run: "run_iteration env s = Some s'" and inv: "worker_inv (served cfg ops cells) s"
    and env: "env_ops env = ops" "4 \<le> max_sequences cfg" "2 \<le> env_n_seq_max env"
  shows "length (queue s') < length (queue s) \<or> length (queue s') = length (queue s) \<and>
    (active s = [] \<and> prefilling s = [] \<longrightarrow> queue s = []) \<and>
    (\<exists>c. fused_step env (active s) (prefilling s) c = Some (active s', prefilling s', wcore s'))"
proof -
  let ?n = "admit_count env s"
  obtain ctxs deferred queued c1 where p: "prepare_all env (take ?n (queue s)) (wcore s) = Some (ctxs, deferred, queued, c1)"
    using run by (auto simp: run_iteration_def Let_def split: bind_splits)
  obtain seqs pre c2 where f: "fused_step env (active s) (prefilling s @ ctxs) c1 = Some (seqs, pre, c2)"
    and s': "s' = \<lparr>queue = defer_to_front (queued @ deferred) (drop ?n (queue s)), active = seqs, prefilling = pre,
      generating = length seqs, wcore = c2\<rparr>"
    using run p by (auto simp: run_iteration_def Let_def split: bind_splits)
  have n: "?n \<le> length (queue s)" by (simp add: admit_count_def)
  have len: "length ctxs + length deferred + length queued \<le> ?n" using prepare_all_queue [OF p] n by simp
  have q': "length (queue s') = length deferred + length queued + (length (queue s) - ?n)" by (simp add: s')
  show ?thesis
  proof (cases "ctxs = [] \<and> length deferred + length queued = ?n")
    case False
    then have "length deferred + length queued < ?n" using len by (cases ctxs) auto
    then show ?thesis using q' n by linarith
  next
    case True
    have "queue s = []" if idle: "active s = []" "prefilling s = []"
    proof (rule ccontr)
      assume ne: "queue s \<noteq> []"
      have "served cfg ops cells (cm (wcore s)) {#}" using inv idle by (auto simp: worker_inv_def matched_def)
      moreover have "0 < length (queue s)" "0 < nat (env_n_seq_max env - 1)" using ne env(3) by simp_all
      then have "0 < ?n" using idle by (simp add: admit_count_def)
      then have "take ?n (queue s) \<noteq> []" using ne by simp
      then obtain req reqs where r: "take ?n (queue s) = req # reqs" by (cases "take ?n (queue s)") auto
      ultimately have "length deferred + length queued \<le> length reqs" using prepare_all_idle [OF p [unfolded r] _ env(1,2)] by simp
      moreover have "length (req # reqs) = ?n" using n unfolding r [symmetric] by simp
      ultimately show False using True by simp
    qed
    then show ?thesis using q' n True f s' by auto
  qed
qed

section \<open>Everything is served\<close>

lemma serves_ok:
  assumes env: "env_ops env = ops" "decode_law env cells" "1 \<le> env_n_batch env" "4 \<le> max_sequences cfg" "2 \<le> env_n_seq_max env"
  shows "worker_inv (served cfg ops cells) s \<Longrightarrow> room env (active s) (prefilling s) \<Longrightarrow>
    \<exists>k s'. run_events env (replicate k Iterate) s = Some s' \<and> active s' = [] \<and> prefilling s' = [] \<and> queue s' = []"
proof (induction "(length (queue s), nat (work (active s) (prefilling s)))" arbitrary: s
    rule: wf_induct_rule [OF wf_lex_prod [OF wf_less_than wf_less_than]])
  case less: (1 s)
  show ?case
  proof (cases "active s = [] \<and> prefilling s = [] \<and> queue s = []")
    case True
    then show ?thesis by (intro exI [of _ 0] exI [of _ s]) simp
  next
    case False
    obtain s1 where s1: "run_iteration env s = Some s1" "worker_inv (served cfg ops cells) s1"
      using mapper_service.run_iteration_ok [OF env(1,2) less.prems(1)] by blast
    have r1: "room env (active s1) (prefilling s1)"
      using run_events_room [OF less.prems(2), of "[Iterate]" s1] s1(1) by simp
    have "((length (queue s1), nat (work (active s1) (prefilling s1))), (length (queue s), nat (work (active s) (prefilling s))))
        \<in> less_than <*lex*> less_than"
      using run_iteration_queue [OF s1(1) less.prems(1) env(1,4,5)]
    proof (elim disjE conjE exE)
      fix c assume q: "length (queue s1) = length (queue s)" "active s = [] \<and> prefilling s = [] \<longrightarrow> queue s = []"
        and f: "fused_step env (active s) (prefilling s) c = Some (active s1, prefilling s1, wcore s1)"
      have "active s \<noteq> [] \<or> prefilling s \<noteq> []" using False q(2) by blast
      with fused_step_work [OF f running_busy [OF less.prems(1,2)] env(3)]
      have "work (active s1) (prefilling s1) < work (active s) (prefilling s)" by blast
      moreover have "0 \<le> work (active s1) (prefilling s1)" using busy_work [OF running_busy [OF s1(2) r1]] by simp
      ultimately show ?thesis using q(1) by simp
    qed simp
    from less.hyps [OF this s1(2) r1] obtain k s' where
      "run_events env (replicate k Iterate) s1 = Some s'" "active s' = [] \<and> prefilling s' = [] \<and> queue s' = []" by blast
    then show ?thesis using s1(1) by (intro exI [of _ "Suc k"] exI [of _ s']) simp
  qed
qed

text \<open>
  C16. The worker serves everything. From every state that a run can reach, when no more
  requests arrive, the worker empties its queue and becomes idle after finitely many
  iterations, whatever the decoder, the sampler and the clients do: even a sampler that never
  ends a text, a client that never reads or a decoder that always fails cannot keep it busy,
  and no request waits for ever for a sequence or for another request's prompt. Three sequence
  ids are enough for it; with a single one it does not hold.
\<close>

theorem worker_serves_everything:
  assumes "kv_laws (env_ops env) cells" "decode_law env cells" "\<And>q i. cells kv0 q i = None" "1 \<le> env_n_batch env"
    and "env_n_seq_max env = max_sequences cfg" "4 \<le> max_sequences cfg"
    and "run_events env evs (new_worker cfg kv0 w) = Some s"
  shows "\<exists>k s'. run_events env (replicate k Iterate) s = Some s' \<and>
    active s' = [] \<and> prefilling s' = [] \<and> queue s' = []"
proof -
  have i: "worker_inv (served cfg (env_ops env) cells) s"
    using run_events_ok [OF refl assms(2) new_worker_inv [OF assms(1,3)]] assms(7) by (metis option.inject)
  have "room env (active (new_worker cfg kv0 w)) (prefilling (new_worker cfg kv0 w))" by (simp add: room_def new_worker_def)
  from run_events_room [OF this assms(7)] have r: "room env (active s) (prefilling s)" .
  show ?thesis by (rule serves_ok [OF refl assms(2,4,6) _ i r]) (use assms(5,6) in simp)
qed

theorem worker_serves_everything_witness:
  "\<exists>s. run_events (sample_env (\<lambda>_ _. False)) [Arrive (sample_request 0 ''aba'' 3), Arrive (sample_request 1 ''ab'' 2), Iterate,
       Arrive (sample_request 2 ''b'' 1)] sample_worker = Some s \<and> queue s \<noteq> [] \<and>
    (\<exists>k s'. run_events (sample_env (\<lambda>_ _. False)) (replicate k Iterate) s = Some s' \<and>
       active s' = [] \<and> prefilling s' = [] \<and> queue s' = [])"
proof -
  let ?evs = "[Arrive (sample_request 0 ''aba'' 3), Arrive (sample_request 1 ''ab'' 2), Iterate, Arrive (sample_request 2 ''b'' 1)]"
  let ?env = "sample_env (\<lambda>_ _. False)"
  have "map_option (\<lambda>s. queue s \<noteq> []) (run_events ?env ?evs sample_worker) = Some True" by code_simp
  then obtain s where s: "run_events ?env ?evs sample_worker = Some s" "queue s \<noteq> []" by auto
  have e: "kv_laws (env_ops ?env) table_cells" "1 \<le> env_n_batch ?env" "env_n_seq_max ?env = max_sequences (sample_config 4)"
    "4 \<le> max_sequences (sample_config 4)" by (simp_all add: sample_env_def logging_env_def table_laws sample_config_def)
  from worker_serves_everything [OF e(1) sample_decode_law _ e(2-4) s(1) [unfolded sample_worker_def]]
  have "\<exists>k s'. run_events ?env (replicate k Iterate) s = Some s' \<and> active s' = [] \<and> prefilling s' = [] \<and> queue s' = []"
    by (simp add: table_cells_def empty_table_def)
  with s show ?thesis by blast
qed

end
