(* ===== verification/RF_WorkerProtocol.thy ===== *)
theory RF_WorkerProtocol
  imports RF_WorkerAnswer
begin

text \<open>
  What follows an answer: nothing. The callbacks are arbitrary again; \<open>Opn w i\<close> says that in the
  world \<open>w\<close> the answer to request \<open>i\<close> may still go on, and \<open>Fine w i\<close> that it has been as it
  should be so far. The worker keeps every answer fine, and the answers of all requests it still
  holds open.
\<close>

section \<open>Open answers\<close>

text \<open>
  A piece keeps an answer open, a last piece or an error completes it, nobody else's answer is
  touched, and no other call touches any answer.
\<close>

definition keeps :: "('w \<Rightarrow> nat \<Rightarrow> bool) \<Rightarrow> ('w \<Rightarrow> nat \<Rightarrow> bool) \<Rightarrow> nat set \<Rightarrow> 'w \<Rightarrow> 'w \<Rightarrow> bool" where
  "keeps Opn Fine I w w' \<longleftrightarrow> (\<forall>i. i \<notin> I \<longrightarrow> (Opn w i \<longrightarrow> Opn w' i) \<and> (Fine w i \<longrightarrow> Fine w' i))"

definition callback_law :: "('kv, 'w) worker_env \<Rightarrow> ('w \<Rightarrow> nat \<Rightarrow> bool) \<Rightarrow> ('w \<Rightarrow> nat \<Rightarrow> bool) \<Rightarrow> bool" where
  "callback_law env Opn Fine \<longleftrightarrow>
     (\<forall>w i. Opn w i \<longrightarrow> Fine w i) \<and>
     (\<forall>i p st w. Opn w i \<longrightarrow> Opn (on_token env i p False st w) i) \<and>
     (\<forall>i p st w. Opn w i \<longrightarrow> Fine (on_token env i p True st w) i) \<and>
     (\<forall>i msg code w. code \<noteq> 0 \<longrightarrow> Opn w i \<longrightarrow> Fine (on_error env i msg code w) i) \<and>
     (\<forall>i p b st w. keeps Opn Fine {i} w (on_token env i p b st w)) \<and>
     (\<forall>i msg st w. keeps Opn Fine {i} w (on_error env i msg st w)) \<and>
     (\<forall>i w. keeps Opn Fine {} w (on_cancel env i w)) \<and>
     (\<forall>i w. keeps Opn Fine {} w (snd (poll_cancelled env i w))) \<and>
     (\<forall>smpl w. keeps Opn Fine {} w (free_sampler env smpl w)) \<and>
     (\<forall>smpl i w. keeps Opn Fine {} w (snd (sample env smpl i w))) \<and>
     (\<forall>t p w. keeps Opn Fine {} w (snd (create_sampler env t p w))) \<and>
     (\<forall>batch kv w. keeps Opn Fine {} w (snd (snd (llama_decode env batch kv w))))"

lemma callback_laws:
  assumes "callback_law env Opn Fine"
  shows "Opn w i \<Longrightarrow> Fine w i" "Opn w i \<Longrightarrow> Opn (on_token env i p False st w) i"
    "Opn w i \<Longrightarrow> Fine (on_token env i p True st w) i" "code \<noteq> 0 \<Longrightarrow> Opn w i \<Longrightarrow> Fine (on_error env i msg code w) i"
    "keeps Opn Fine {i} w (on_token env i p b st w)" "keeps Opn Fine {i} w (on_error env i msg code w)"
  using assms unfolding callback_law_def by metis+

text \<open>All answers are fine, and the requests of \<open>X\<close> are different ones with open answers.\<close>

definition following :: "('w \<Rightarrow> nat \<Rightarrow> bool) \<Rightarrow> ('w \<Rightarrow> nat \<Rightarrow> bool) \<Rightarrow> 'w \<Rightarrow> nat multiset \<Rightarrow> bool" where
  "following Opn Fine w X \<longleftrightarrow> (\<forall>i. Fine w i) \<and> (\<forall>i. count X i \<le> 1) \<and> (\<forall>i \<in># X. Opn w i)"

lemma following_mono: "following Opn Fine w Y \<Longrightarrow> X \<subseteq># Y \<Longrightarrow> following Opn Fine w X"
  unfolding following_def by (meson mset_subset_eqD mset_subset_eq_count order_trans)

lemma following_keeps: "following Opn Fine w X \<Longrightarrow> keeps Opn Fine {} w w' \<Longrightarrow> following Opn Fine w' X"
  by (auto simp: following_def keeps_def)

lemma following_piece:
  assumes law: "callback_law env Opn Fine" and f: "following Opn Fine w (add_mset i X)"
  shows "following Opn Fine (on_token env i p False st w) (add_mset i X)"
proof -
  have "Opn w i" using f by (simp add: following_def)
  note o = callback_laws(2) [OF law this, of p st]
  show ?thesis using f callback_laws(5) [OF law, of i w p False st] o callback_laws(1) [OF law o]
    unfolding following_def keeps_def by (metis singletonD)
qed

lemma following_fresh: "following Opn Fine w (add_mset i X) \<Longrightarrow> i \<notin># X"
proof -
  assume "following Opn Fine w (add_mset i X)"
  then have "count (add_mset i X) i \<le> 1" by (simp only: following_def)
  then show ?thesis by (simp add: not_in_iff)
qed

lemma following_end:
  assumes law: "callback_law env Opn Fine" and f: "following Opn Fine w (add_mset i X)"
    and k: "keeps Opn Fine {i} w w'" and fin: "Fine w' i"
  shows "following Opn Fine w' X"
proof -
  have X: "following Opn Fine w X" using following_mono [OF f] by simp
  then have "Opn w' j" if "j \<in># X" for j
    using that k following_fresh [OF f] by (auto simp: following_def keeps_def)
  moreover have "Fine w' j" for j using X k fin by (cases "j = i") (auto simp: following_def keeps_def)
  ultimately show ?thesis using X by (simp add: following_def)
qed

lemma following_last:
  assumes law: "callback_law env Opn Fine" and f: "following Opn Fine w (add_mset i X)"
  shows "following Opn Fine (on_token env i p True st w) X"
    "code \<noteq> 0 \<Longrightarrow> following Opn Fine (on_error env i msg code w) X"
proof -
  have o: "Opn w i" using f by (simp add: following_def)
  show "following Opn Fine (on_token env i p True st w) X"
    by (rule following_end [OF law f callback_laws(5) [OF law] callback_laws(3) [OF law o]])
  show "following Opn Fine (on_error env i msg code w) X" if "code \<noteq> 0"
    by (rule following_end [OF law f callback_laws(6) [OF law] callback_laws(4) [OF law that o]])
qed

lemma following_less: "following Opn Fine w (add_mset i X) \<Longrightarrow> following Opn Fine w X"
  using following_mono [of Opn Fine w "add_mset i X" X] by simp

lemma following_calls:
  assumes law: "callback_law env Opn Fine" and f: "following Opn Fine w X"
  shows "following Opn Fine (on_cancel env i w) X" "following Opn Fine (free_sampler env smpl w) X"
    "poll_cancelled env i w = (hit, w') \<Longrightarrow> following Opn Fine w' X"
    "sample env smpl k w = (tok, w') \<Longrightarrow> following Opn Fine w' X"
    "create_sampler env t tp w = (smpl, w') \<Longrightarrow> following Opn Fine w' X"
    "llama_decode env batch k0 w = (status, k1, w') \<Longrightarrow> following Opn Fine w' X"
  using law following_keeps [OF f] unfolding callback_law_def by (metis snd_conv)+

section \<open>The endings\<close>

lemma is_cancelled_following:
  assumes "callback_law env Opn Fine" "is_cancelled env req c = (hit, req', c')" "following Opn Fine (cw c) X"
  shows "following Opn Fine (cw c') X" "rq_id req' = rq_id req"
proof -
  obtain h w where p: "poll_cancelled env (rq_id req) (cw c) = (h, w)" by (cases "poll_cancelled env (rq_id req) (cw c)")
  note f = following_calls(3) [OF assms(1,3) p]
  show "following Opn Fine (cw c') X" "rq_id req' = rq_id req"
    using assms(2) p f following_calls(1) [OF assms(1) f] by (auto simp: is_cancelled_def split: if_splits)
qed

lemma retire_silent:
  "callback_law env Opn Fine \<Longrightarrow> retire env sq False c = Some c' \<Longrightarrow> following Opn Fine (cw c) X \<Longrightarrow>
   following Opn Fine (cw c') X"
  by (auto simp: retire_def Let_def following_calls(2) split: bind_splits)

lemma retire_following:
  assumes law: "callback_law env Opn Fine" and run: "retire env sq True c = Some c'"
    and f: "following Opn Fine (cw c) (add_mset (act_id sq) X)"
  shows "following Opn Fine (cw c') X"
proof -
  obtain hit req1 c1 where p: "is_cancelled env (as_req sq) c = (hit, req1, c1)" by (cases "is_cancelled env (as_req sq) c")
  note f1 = is_cancelled_following [OF law p f]
  obtain node c2 where c2: "cw c2 = cw c1"
    "(if hit then Some (Some (as_leaf sq), req1, c1)
      else do { (m, node) \<leftarrow> extend_sequence (cm c1) (as_seq_id sq) (Some (as_leaf sq)) (cached_tokens sq);
                Some (node, req1, c1\<lparr>cm := m\<rparr>) }) = Some (node, req1, c2)"
    using run p by (auto simp: retire_def split: bind_splits if_splits prod.splits)
  obtain hit2 req2 c3 where q: "is_cancelled env req1 c2 = (hit2, req2, c3)" by (cases "is_cancelled env req1 c2")
  have "following Opn Fine (cw c2) (add_mset (act_id sq) X)" using f1(1) c2(1) by simp
  note f3 = is_cancelled_following(1) [OF law q this]
  let ?w = "if hit2 then cw c3 else on_token env (rq_id req1) [] True (Some (as_stats sq)) (cw c3)"
  have "following Opn Fine ?w X" using following_less [OF f3] following_last(1) [OF law f3] f1(2) by simp
  moreover have "cw c' = free_sampler env (as_sampler sq) ?w"
    using run p c2 q by (auto simp: retire_def Let_def split: bind_splits if_splits)
  ultimately show ?thesis by (simp add: following_calls(2) [OF law])
qed

lemma failed_following:
  assumes law: "callback_law env Opn Fine" and st: "st \<noteq> 0" and p: "is_cancelled env req c = (hit, req1, c1)"
    and f: "following Opn Fine (cw c) (add_mset (rq_id req) X)"
  shows "following Opn Fine (cw (if hit then c1 else report_error env req1 msg st c1)) X"
  using is_cancelled_following [OF law p f] following_less following_last(2) [OF law _ st] by (auto simp: report_error_def)

lemma fail_active_following:
  assumes law: "callback_law env Opn Fine" and st: "st \<noteq> 0" and run: "fail_active env msg st sq c = Some c'"
    and f: "following Opn Fine (cw c) (add_mset (act_id sq) X)"
  shows "following Opn Fine (cw c') X"
proof -
  obtain hit req1 c1 where p: "is_cancelled env (as_req sq) c = (hit, req1, c1)" by (cases "is_cancelled env (as_req sq) c")
  from failed_following [OF law st p f, of msg] following_calls(2) [OF law] run p show ?thesis
    by (auto simp: fail_active_def Let_def split: bind_splits)
qed

lemma fail_prefill_following:
  assumes law: "callback_law env Opn Fine" and st: "st \<noteq> 0" and run: "fail_prefill env msg st ctx c = Some c'"
    and f: "following Opn Fine (cw c) (add_mset (ctx_id ctx) X)"
  shows "following Opn Fine (cw c') X"
proof -
  obtain hit req1 c1 where p: "is_cancelled env (pc_req ctx) c = (hit, req1, c1)" by (cases "is_cancelled env (pc_req ctx) c")
  from failed_following [OF law st p f, of msg] run p show ?thesis
    by (auto simp: fail_prefill_def Let_def dest!: drop_prefill_cw)
qed

lemma each_following:
  assumes step: "\<And>x c c' X. f x c = Some c' \<Longrightarrow> following Opn Fine (cw c) (add_mset (ident x) X) \<Longrightarrow>
    following Opn Fine (cw c') X"
  shows "each f xs c = Some c' \<Longrightarrow> following Opn Fine (cw c) (mset (map ident xs) + Z) \<Longrightarrow> following Opn Fine (cw c') Z"
proof (induction xs arbitrary: c)
  case (Cons x xs)
  obtain c1 where c1: "f x c = Some c1" "each f xs c1 = Some c'" using Cons.prems(1) by (auto split: bind_splits)
  have "following Opn Fine (cw c) (add_mset (ident x) (mset (map ident xs) + Z))" using Cons.prems(2) by simp
  from Cons.IH [OF c1(2) step [OF c1(1) this]] show ?case .
qed simp

section \<open>The step\<close>

lemma poll_active_following:
  "callback_law env Opn Fine \<Longrightarrow> following Opn Fine (cw c) X \<Longrightarrow> poll_active env seqs c = (seqs', c') \<Longrightarrow>
   following Opn Fine (cw c') X \<and> map act_id seqs' = map act_id seqs \<and>
   map notify_on_retire seqs' = map notify_on_retire seqs"
proof (induction seqs arbitrary: c seqs' c')
  case (Cons sq seqs)
  obtain hit req c1 where p: "is_cancelled env (as_req sq) c = (hit, req, c1)" by (cases "is_cancelled env (as_req sq) c")
  obtain rest where r: "poll_active env seqs c1 = (rest, c')" "seqs' = sq\<lparr>as_req := req, as_done := as_done sq \<or> hit\<rparr> # rest"
    using Cons.prems(3) p by (auto split: prod.splits)
  note f = is_cancelled_following [OF Cons.prems(1) p Cons.prems(2)]
  from Cons.IH [OF Cons.prems(1) f(1) r(1)] show ?case using f(2) r(2) by simp
qed simp

lemma retire_done_following:
  "callback_law env Opn Fine \<Longrightarrow> following Opn Fine (cw c) X \<Longrightarrow> retire_done env seqs c = Some (seqs', c') \<Longrightarrow>
   following Opn Fine (cw c') X \<and> seqs' = filter (\<lambda>sq. \<not> as_done sq) seqs"
proof (induction seqs arbitrary: c seqs' c')
  case (Cons sq seqs)
  show ?case
  proof (cases "as_done sq")
    case True
    obtain c1 where c1: "retire env sq False c = Some c1" "retire_done env seqs c1 = Some (seqs', c')"
      using Cons.prems(3) True by (auto split: bind_splits)
    from Cons.IH [OF Cons.prems(1) retire_silent [OF Cons.prems(1) c1(1) Cons.prems(2)] c1(2)] show ?thesis using True by simp
  next
    case False
    then show ?thesis using Cons.IH [OF Cons.prems(1,2)] Cons.prems(3) by (auto split: bind_splits prod.splits)
  qed
qed simp

lemma drop_cancelled_following:
  "callback_law env Opn Fine \<Longrightarrow> following Opn Fine (cw c) X \<Longrightarrow> drop_cancelled env ctxs c = Some (ctxs', c') \<Longrightarrow>
   following Opn Fine (cw c') X \<and> mset (map ctx_id ctxs') \<subseteq># mset (map ctx_id ctxs)"
proof (induction ctxs arbitrary: c ctxs' c')
  case (Cons ctx ctxs)
  obtain hit req c0 where p: "is_cancelled env (pc_req ctx) c = (hit, req, c0)" by (cases "is_cancelled env (pc_req ctx) c")
  note f = is_cancelled_following [OF Cons.prems(1) p Cons.prems(2)]
  show ?case
  proof (cases hit)
    case True
    obtain c1 where c1: "drop_prefill env ctx c0 = Some c1" "drop_cancelled env ctxs c1 = Some (ctxs', c')"
      using Cons.prems(3) True p by (auto split: bind_splits)
    have "following Opn Fine (cw c1) X" using f(1) drop_prefill_cw [OF c1(1)] by simp
    from Cons.IH [OF Cons.prems(1) this c1(2)] show ?thesis by (auto intro: subset_mset.order_trans)
  next
    case False
    then obtain rest where r: "drop_cancelled env ctxs c0 = Some (rest, c')" "ctxs' = ctx\<lparr>pc_req := req\<rparr> # rest"
      using Cons.prems(3) p by (auto split: bind_splits prod.splits)
    from Cons.IH [OF Cons.prems(1) f(1) r(1)] show ?thesis using r(2) f(2) by simp
  qed
qed simp

lemma decode_following:
  assumes law: "callback_law env Opn Fine" and run: "decode_with_retry env batch c = Some (status, c')"
    and f: "following Opn Fine (cw c) X"
  shows "following Opn Fine (cw c') X"
proof -
  obtain st k1 w1 where d: "llama_decode env batch (kv (cm c)) (cw c) = (st, k1, w1)"
    by (cases "llama_decode env batch (kv (cm c)) (cw c)") auto
  note f1 = following_calls(6) [OF law f d]
  show ?thesis using run d f1 following_calls(6) [OF law f1]
    by (auto simp: decode_with_retry_def Let_def split: bind_splits if_splits prod.splits)
qed

section \<open>After the decode\<close>

text \<open>A sequence that is done has an open answer only when its last token is still to be sent.\<close>

definition open_id :: "active_seq \<Rightarrow> nat multiset" where
  "open_id sq = (if as_done sq \<and> \<not> notify_on_retire sq then {#} else {#act_id sq#})"

definition unfinished :: "active_seq \<Rightarrow> bool" where
  "unfinished sq \<longleftrightarrow> \<not> as_done sq \<and> \<not> notify_on_retire sq"

lemma generate_one_following:
  assumes law: "callback_law env Opn Fine" and run: "generate_one env i sq c = (sq', c')"
    and f: "following Opn Fine (cw c) (add_mset (act_id sq) X)" and nd: "unfinished sq"
  shows "following Opn Fine (cw c') (open_id sq' + X) \<and> (as_done sq' \<or> \<not> notify_on_retire sq')"
proof -
  let ?m = "set_sequence_cell_count (cm c) (as_seq_id sq) (as_pos sq + 1)"
  obtain tok w where s: "sample env (as_sampler sq) (int i) (cw c) = (tok, w)"
    by (cases "sample env (as_sampler sq) (int i) (cw c)")
  note fs = following_calls(4) [OF law f s]
  show ?thesis
  proof (cases "is_eog env tok")
    case True
    then show ?thesis using run s fs by (auto simp: generate_one_def open_id_def Let_def)
  next
    case False
    let ?c1 = "c\<lparr>cm := ?m, cw := w\<rparr>" and ?last = "as_remaining sq - 1 = 0"
    obtain hit req c2 where p: "is_cancelled env (as_req sq) ?c1 = (hit, req, c2)" by (cases "is_cancelled env (as_req sq) ?c1")
    let ?st = "if ?last then Some (count_predicted (as_stats sq)) else None"
    let ?c3 = "if hit then c2 else c2\<lparr>cw := on_token env (rq_id req) (token_piece env tok) ?last ?st (cw c2)\<rparr>"
    have "following Opn Fine (cw ?c1) (add_mset (act_id sq) X)" using fs by simp
    note f2 = is_cancelled_following [OF law p this]
    obtain hit2 req2 c4 where q: "is_cancelled env req ?c3 = (hit2, req2, c4)" by (cases "is_cancelled env req ?c3")
    show ?thesis
    proof (cases ?last)
      case True
      then have "as_done sq' \<and> \<not> notify_on_retire sq'" "c' = ?c3"
        using run s False p nd by (auto simp: generate_one_def Let_def unfinished_def)
      moreover have "following Opn Fine (cw ?c3) X"
        using True f2(2) following_less [OF f2(1)] following_last(1) [OF law f2(1)] by simp
      ultimately show ?thesis by (simp add: open_id_def)
    next
      case last: False
      then have f3: "following Opn Fine (cw ?c3) (add_mset (act_id sq) X)"
        using f2 following_piece [OF law f2(1)] by simp
      note f4 = is_cancelled_following [OF law q f3]
      have "c' = c4 \<and> as_req sq' = req2 \<and> \<not> notify_on_retire sq'"
        using run s False p q nd last by (auto simp: generate_one_def Let_def unfinished_def split: if_splits)
      then show ?thesis using f4 f2(2) following_less [OF f4(1)] by (simp add: open_id_def)
    qed
  qed
qed

abbreviation open_ids :: "active_seq list \<Rightarrow> nat multiset" where
  "open_ids seqs \<equiv> sum_list (map open_id seqs)"

lemma generate_all_following:
  "callback_law env Opn Fine \<Longrightarrow> list_all unfinished seqs \<Longrightarrow> following Opn Fine (cw c) (mset (map act_id seqs) + Z) \<Longrightarrow>
   generate_all env i seqs c = (seqs', c') \<Longrightarrow>
   following Opn Fine (cw c') (open_ids seqs' + Z) \<and> list_all (\<lambda>sq. as_done sq \<or> \<not> notify_on_retire sq) seqs'"
proof (induction seqs arbitrary: i c seqs' c' Z)
  case (Cons sq seqs)
  obtain sq1 c1 where g: "generate_one env i sq c = (sq1, c1)" by (cases "generate_one env i sq c")
  obtain rest where r: "generate_all env (Suc i) seqs c1 = (rest, c')" "seqs' = sq1 # rest"
    using Cons.prems(4) g by (auto split: prod.splits)
  have "following Opn Fine (cw c) (add_mset (act_id sq) (mset (map act_id seqs) + Z))" using Cons.prems(3) by simp
  from generate_one_following [OF Cons.prems(1) g this] have
    "following Opn Fine (cw c1) (mset (map act_id seqs) + (open_id sq1 + Z))" "as_done sq1 \<or> \<not> notify_on_retire sq1"
    using Cons.prems(2) by (simp_all add: ac_simps)
  with Cons.IH [OF Cons.prems(1) _ _ r(1), of "open_id sq1 + Z"] show ?case
    using Cons.prems(2) r(2) by (simp add: ac_simps)
qed simp

lemma retire_completed_following:
  "callback_law env Opn Fine \<Longrightarrow> list_all (\<lambda>sq. as_done sq \<or> \<not> notify_on_retire sq) seqs \<Longrightarrow>
   following Opn Fine (cw c) (open_ids seqs + Z) \<Longrightarrow> retire_completed env seqs c = Some (seqs', c') \<Longrightarrow>
   following Opn Fine (cw c') (mset (map act_id seqs') + Z) \<and> list_all unfinished seqs'"
proof (induction seqs arbitrary: c seqs' c' Z)
  case (Cons sq seqs)
  note law = Cons.prems(1)
  show ?case
  proof (cases "as_done sq")
    case True
    obtain hit req c0 where p: "is_cancelled env (as_req sq) c = (hit, req, c0)" by (cases "is_cancelled env (as_req sq) c")
    obtain c1 where c1: "retire env (sq\<lparr>as_req := req\<rparr>) (notify_on_retire sq) c0 = Some c1"
      "retire_completed env seqs c1 = Some (seqs', c')"
      using Cons.prems(4) True p by (auto split: bind_splits)
    have "following Opn Fine (cw c) (open_id sq + (open_ids seqs + Z))" using Cons.prems(3) by (simp add: ac_simps)
    note f0 = is_cancelled_following [OF law p this]
    have "following Opn Fine (cw c1) (open_ids seqs + Z)"
    proof (cases "notify_on_retire sq")
      case True
      have "following Opn Fine (cw c0) (add_mset (act_id (sq\<lparr>as_req := req\<rparr>)) (open_ids seqs + Z))"
        using f0 True by (simp add: open_id_def)
      from retire_following [OF law c1(1) [simplified True] this] show ?thesis .
    next
      case False
      then show ?thesis using retire_silent [OF law _ f0(1)] c1(1) True by (simp add: open_id_def)
    qed
    from Cons.IH [OF law _ this c1(2)] show ?thesis using Cons.prems(2) by simp
  next
    case False
    obtain rest where r: "retire_completed env seqs c = Some (rest, c')" "seqs' = sq # rest"
      using Cons.prems(4) False by (auto split: bind_splits prod.splits)
    have "following Opn Fine (cw c) (open_ids seqs + add_mset (act_id sq) Z)"
      using Cons.prems(3) False by (simp add: open_id_def [of sq])
    from Cons.IH [OF law _ this r(1)] show ?thesis using Cons.prems(2) False r(2) by (simp add: unfinished_def)
  qed
qed simp

lemma start_generation_following:
  assumes law: "callback_law env Opn Fine" and run: "start_generation env ctx logit c = Some (started, c')"
    and f: "following Opn Fine (cw c) (add_mset (ctx_id ctx) X)"
  shows "case started of None \<Rightarrow> following Opn Fine (cw c') X
    | Some sq \<Rightarrow> following Opn Fine (cw c') (add_mset (act_id sq) X) \<and> unfinished sq"
proof -
  obtain hit req c1 where p: "is_cancelled env (pc_req ctx) c = (hit, req, c1)" by (cases "is_cancelled env (pc_req ctx) c")
  note f1 = is_cancelled_following [OF law p f]
  obtain smpl w1 where cs: "create_sampler env (rq_temperature req) (rq_top_p req) (cw c1) = (smpl, w1)"
    by (cases "create_sampler env (rq_temperature req) (rq_top_p req) (cw c1)")
  obtain tok w2 where st: "sample env smpl logit w1 = (tok, w2)" by (cases "sample env smpl logit w1")
  note f2 = following_calls(4) [OF law following_calls(5) [OF law f1(1) cs] st, folded f1(2)]
  have fin: "following Opn Fine (free_sampler env smpl (on_token env (rq_id req) piece True ist w2)) X" for piece ist
    by (rule following_calls(2) [OF law following_last(1) [OF law f2]])
  consider "hit" | "\<not> hit" "is_eog env tok" | "\<not> hit" "\<not> is_eog env tok" "rq_max_tokens req \<le> 1"
    | "\<not> hit" "\<not> is_eog env tok" "\<not> rq_max_tokens req \<le> 1" by blast
  then show ?thesis
  proof cases
    case 1
    then show ?thesis using run p following_less [OF f1(1)]
      by (auto simp: start_generation_def dest!: drop_prefill_cw split: bind_splits)
  next
    case 2
    then have "started = None" "cw c' = free_sampler env smpl (on_token env (rq_id req) [] True (Some (pc_stats ctx)) w2)"
      using run p cs st by (auto simp: start_generation_def dest!: drop_prefill_cw split: bind_splits)
    then show ?thesis using fin by simp
  next
    case 3
    then have "started = None" "cw c' = free_sampler env smpl (on_token env (rq_id req) (token_piece env tok) True
        (Some ((pc_stats ctx)\<lparr>predicted_n := 1\<rparr>)) w2)"
      using run p cs st by (auto simp: start_generation_def dest!: drop_prefill_cw split: bind_splits)
    then show ?thesis using fin by simp
  next
    case 4
    then show ?thesis using run p cs st following_piece [OF law f2]
      by (auto simp: start_generation_def new_active_def unfinished_def)
  qed
qed

lemma start_all_following:
  "callback_law env Opn Fine \<Longrightarrow> following Opn Fine (cw c) (mset (map (\<lambda>p. ctx_id (fst p)) ps) + Z) \<Longrightarrow>
   start_all env ps c = Some (keep, new, c') \<Longrightarrow>
   following Opn Fine (cw c') (mset (map ctx_id keep) + mset (map act_id new) + Z) \<and> list_all unfinished new"
proof (induction ps arbitrary: c keep new c' Z)
  case (Cons p ps)
  note law = Cons.prems(1)
  obtain ctx lg where p: "p = (ctx, lg)" by (cases p)
  have f: "following Opn Fine (cw c) (add_mset (ctx_id ctx) (mset (map (\<lambda>p. ctx_id (fst p)) ps) + Z))"
    using Cons.prems(2) p by simp
  show ?case
  proof (cases "lg < 0")
    case True
    obtain keep' where r: "start_all env ps c = Some (keep', new, c')" "keep = ctx # keep'"
      using Cons.prems(3) True p by (auto split: bind_splits prod.splits)
    from Cons.IH [OF law _ r(1), of "add_mset (ctx_id ctx) Z"] f show ?thesis using r(2) by simp
  next
    case False
    obtain started c1 new' where r: "start_generation env ctx lg c = Some (started, c1)"
      "start_all env ps c1 = Some (keep, new', c')" "new = (case started of None \<Rightarrow> new' | Some sq \<Rightarrow> sq # new')"
      using Cons.prems(3) False p by (auto split: bind_splits prod.splits)
    note g = start_generation_following [OF law r(1) f]
    show ?thesis
    proof (cases started)
      case None
      then show ?thesis using Cons.IH [OF law _ r(2), of Z] g r(3) by simp
    next
      case (Some sq)
      then show ?thesis using Cons.IH [OF law _ r(2), of "add_mset (act_id sq) Z"] g r(3) by simp
    qed
  qed
qed simp

section \<open>The loop\<close>

lemma after_decode_following:
  assumes law: "callback_law env Opn Fine" and run: "after_decode env status pt subs seqs ctxs c = Some (seqs', ctxs', c')"
    and f: "following Opn Fine (cw c) (vector_ids seqs ctxs + Z)" and u: "list_all unfinished seqs"
  shows "following Opn Fine (cw c') (vector_ids seqs' ctxs' + Z) \<and> list_all unfinished seqs'"
proof -
  consider (newest) "status = 1" "seqs \<noteq> []" | (prompt) "status = 1" "seqs = []" "ctxs \<noteq> []" | (idle) "status = 1" "seqs = []" "ctxs = []"
    | (all) "status \<noteq> 0" "status \<noteq> 1" | (advance) "status = 0" by fastforce
  then show ?thesis
  proof cases
    case newest
    then have r: "fail_active env ''KV cache is full'' 503 (last seqs) c = Some c'" "seqs' = butlast seqs" "ctxs' = ctxs"
      using run by (auto simp: after_decode_def split: bind_splits)
    have "following Opn Fine (cw c) (add_mset (act_id (last seqs)) (vector_ids (butlast seqs) ctxs + Z))"
      using f vector_ids_last(1) [OF newest(2), of ctxs] by simp
    then show ?thesis using fail_active_following [OF law _ r(1)] r(2,3) u by (auto simp: list_all_iff dest: in_set_butlastD)
  next
    case prompt
    then have r: "fail_prefill env ''KV cache is full'' 503 (last ctxs) c = Some c'" "seqs' = seqs" "ctxs' = butlast ctxs"
      using run by (auto simp: after_decode_def split: bind_splits)
    have "following Opn Fine (cw c) (add_mset (ctx_id (last ctxs)) (vector_ids seqs (butlast ctxs) + Z))"
      using f vector_ids_last(2) [OF prompt(3), of seqs] by simp
    then show ?thesis using fail_prefill_following [OF law _ r(1)] r(2,3) u by simp
  next
    case idle
    then show ?thesis using run f u by (auto simp: after_decode_def)
  next
    case all
    obtain c1 where r: "each (fail_active env ''inference decode failed'' 500) seqs c = Some c1"
      "each (fail_prefill env ''inference prefill failed'' 500) ctxs c1 = Some c'" "seqs' = []" "ctxs' = []"
      using run all by (auto simp: after_decode_def split: bind_splits)
    have "following Opn Fine (cw c) (mset (map act_id seqs) + (mset (map ctx_id ctxs) + Z))"
      using f by (simp add: vector_ids_def ac_simps)
    from each_following [OF fail_active_following [OF law, of 500] r(1) this]
    have "following Opn Fine (cw c1) (mset (map ctx_id ctxs) + Z)" by simp
    from each_following [OF fail_prefill_following [OF law, of 500] r(2) this] show ?thesis
      using r(3,4) by (simp add: vector_ids_def)
  next
    case advance
    obtain ctxs1 logits c1 where fc: "finish_chunks subs ctxs (replicate (length ctxs) (-1)) (count_step pt c) = Some (ctxs1, logits, c1)"
      using run advance by (auto simp: after_decode_def split: bind_splits)
    obtain seqs1 c2 where ga: "generate_all env 0 seqs c1 = (seqs1, c2)" by (cases "generate_all env 0 seqs c1")
    obtain seqs2 c3 new where r: "retire_completed env seqs1 c2 = Some (seqs2, c3)"
      "start_all env (zip ctxs1 logits) c3 = Some (ctxs', new, c')" "seqs' = seqs2 @ new"
      using run advance fc ga by (auto simp: after_decode_def split: bind_splits prod.splits)
    have cw1: "cw c1 = cw c" "map pc_req ctxs1 = map pc_req ctxs" "length logits = length ctxs"
      using finish_chunks_same [OF fc] by (simp_all add: count_step_def Let_def)
    have same: "map ctx_id ctxs1 = map ctx_id ctxs" using arg_cong [OF cw1(2), of "map rq_id"]
      by (simp add: comp_def del: map_eq_conv)
    have "map (\<lambda>p. ctx_id (fst p)) (zip ctxs1 logits) = map ctx_id (map fst (zip ctxs1 logits))" by simp
    moreover have "length ctxs1 = length logits" using arg_cong [OF cw1(2), of length] cw1(3) by simp
    ultimately have ids: "map (\<lambda>p. ctx_id (fst p)) (zip ctxs1 logits) = map ctx_id ctxs" using same
      by (simp del: map_map map_eq_conv)
    have "following Opn Fine (cw c1) (mset (map act_id seqs) + (mset (map ctx_id ctxs) + Z))"
      using f cw1(1) by (simp add: vector_ids_def ac_simps)
    from generate_all_following [OF law u this ga] retire_completed_following [OF law _ _ r(1)]
    have "following Opn Fine (cw c3) (mset (map act_id seqs2) + (mset (map ctx_id ctxs) + Z))" "list_all unfinished seqs2" by blast+
    then show ?thesis using start_all_following [OF law _ r(2), of "mset (map act_id seqs2) + Z"] ids r(3)
      by (simp add: vector_ids_def ac_simps)
  qed
qed

lemma fused_step_following:
  assumes law: "callback_law env Opn Fine" and run: "fused_step env seqs ctxs c = Some (seqs', ctxs', c')"
    and f: "following Opn Fine (cw c) (vector_ids seqs ctxs + Z)" and u: "list_all unfinished seqs"
  shows "following Opn Fine (cw c') (vector_ids seqs' ctxs' + Z) \<and> list_all unfinished seqs'"
proof -
  obtain polled c1 where po: "poll_active env seqs c = (polled, c1)" by (cases "poll_active env seqs c")
  obtain seqs1 c2 where r: "retire_done env polled c1 = Some (seqs1, c2)"
    using run po by (auto simp: fused_step_def split: bind_splits)
  obtain ctxs1 c3 where d: "drop_cancelled env ctxs c2 = Some (ctxs1, c3)"
    using run po r by (auto simp: fused_step_def split: bind_splits)
  from poll_active_following [OF law f po] have p: "following Opn Fine (cw c1) (vector_ids seqs ctxs + Z)"
    "map act_id polled = map act_id seqs" "map notify_on_retire polled = map notify_on_retire seqs" by simp_all
  from retire_done_following [OF law p(1) r] have q: "following Opn Fine (cw c2) (vector_ids seqs ctxs + Z)"
    "seqs1 = filter (\<lambda>sq. \<not> as_done sq) polled" by simp_all
  from drop_cancelled_following [OF law q(1) d] have t: "following Opn Fine (cw c3) (vector_ids seqs ctxs + Z)"
    "mset (map ctx_id ctxs1) \<subseteq># mset (map ctx_id ctxs)" by simp_all
  have "mset (map act_id seqs1) \<subseteq># mset (map act_id polled)"
    unfolding q(2) mset_map by (intro image_mset_subseteq_mono) simp
  then have "vector_ids seqs1 ctxs1 + Z \<subseteq># vector_ids seqs ctxs + Z"
    using t(2) p(2) by (auto simp: vector_ids_def intro: subset_mset.add_mono simp del: mset_map)
  with t(1) have f3: "following Opn Fine (cw c3) (vector_ids seqs1 ctxs1 + Z)" by (rule following_mono)
  have "list_all (\<lambda>b. \<not> b) (map notify_on_retire polled)" unfolding p(3) using u by (auto simp: list_all_iff unfinished_def)
  then have u1: "list_all unfinished seqs1" unfolding q(2) by (auto simp: list_all_iff unfinished_def)
  obtain batch subs pt where b: "build_batch (env_n_batch env - int (length seqs1)) seqs1 ctxs1 = (batch, subs, pt)"
    by (metis prod_cases3)
  show ?thesis
  proof (cases "seqs1 = [] \<and> (ctxs1 = [] \<or> env_n_batch env - int (length seqs1) \<le> 0) \<or> batch = []")
    case True
    then have "(seqs', ctxs', c') = (seqs1, ctxs1, c3)"
      using run po r d b by (auto simp: fused_step_def Let_def split: if_splits)
    then show ?thesis using f3 u1 by simp
  next
    case False
    obtain status c4 where dec: "decode_with_retry env batch c3 = Some (status, c4)"
      "after_decode env status pt subs seqs1 ctxs1 c4 = Some (seqs', ctxs', c')"
      using False run po r d b by (auto simp: fused_step_def Let_def split: if_splits bind_splits)
    from after_decode_following [OF law dec(2) decode_following [OF law dec(1) f3] u1] show ?thesis .
  qed
qed

lemma queue_rest_following:
  "callback_law env Opn Fine \<Longrightarrow> following Opn Fine (cw c) X \<Longrightarrow> queue_rest env reqs c = (rest, c') \<Longrightarrow>
   following Opn Fine (cw c') X \<and> mset (map rq_id rest) \<subseteq># mset (map rq_id reqs)"
proof (induction reqs arbitrary: c rest c')
  case (Cons req reqs)
  obtain hit req1 c1 where p: "is_cancelled env req c = (hit, req1, c1)" by (cases "is_cancelled env req c")
  obtain rest1 where r: "queue_rest env reqs c1 = (rest1, c')" "rest = (if hit then rest1 else req1 # rest1)"
    using Cons.prems(3) p by (auto split: prod.splits)
  note f = is_cancelled_following [OF Cons.prems(1) p Cons.prems(2)]
  from Cons.IH [OF Cons.prems(1) f(1) r(1)] show ?case using r(2) f(2) by (auto intro: subset_mset.order_trans)
qed simp

lemma report_error_following:
  "callback_law env Opn Fine \<Longrightarrow> st \<noteq> 0 \<Longrightarrow> following Opn Fine (cw c) (add_mset (rq_id req) X) \<Longrightarrow>
   following Opn Fine (cw (report_error env req msg st c)) X"
  by (simp add: report_error_def following_last(2))

lemma prepare_all_following:
  "callback_law env Opn Fine \<Longrightarrow> following Opn Fine (cw c) (mset (map rq_id reqs) + Z) \<Longrightarrow>
   prepare_all env reqs c = Some (ctxs, deferred, queued, c') \<Longrightarrow>
   following Opn Fine (cw c') (admitted_ids ctxs deferred queued + Z)"
proof (induction reqs arbitrary: c ctxs deferred queued c' Z)
  case Nil then show ?case by (simp add: admitted_ids_def)
next
  case (Cons req reqs)
  note law = Cons.prems(1)
  have f: "following Opn Fine (cw c) (add_mset (rq_id req) (mset (map rq_id reqs) + Z))" using Cons.prems(2) by simp
  obtain hit req1 c1 where p: "is_cancelled env req c = (hit, req1, c1)" by (cases "is_cancelled env req c")
  note f1 = is_cancelled_following [OF law p f]
  note f1_less = following_less [OF f1(1)]
  let ?toks = "tokenize env (prompt_text env req1)"
  let ?av = "available_tokens env ?toks" and ?req = "clamp_max_tokens (available_tokens env (tokenize env (prompt_text env req1))) req1"
  have step: "following Opn Fine (cw c') (admitted_ids ctxs1 deferred1 queued1 + add_mset (rq_id req) Z)"
    if "prepare_all env reqs c2 = Some (ctxs1, deferred1, queued1, c')" "cw c2 = cw c1" for c2 ctxs1 deferred1 queued1
    using Cons.IH [OF law _ that(1), of "add_mset (rq_id req) Z"] f1(1) that(2) by simp
  have answered: ?case if "cw c2 = cw c1" "rq_id req2 = rq_id req" "st \<noteq> 0"
    "prepare_all env reqs (report_error env req2 msg st c2) = Some (ctxs, deferred, queued, c')" for c2 req2 msg st
    using Cons.IH [OF law report_error_following [OF law that(3)] that(4)] f1(1) that(1,2) by simp
  consider (cancelled) "hit" | (long) "\<not> hit" "?av \<le> 0" | (go) "\<not> hit" "\<not> ?av \<le> 0" by blast
  then show ?case
  proof cases
    case cancelled
    then show ?thesis using Cons.IH [OF law f1_less] Cons.prems(3) p by simp
  next
    case long
    then show ?thesis using Cons.prems(3) p f1(2) by (intro answered [of c1 req1]) (simp_all add: Let_def)
  next
    case go
    obtain av where av: "mapper_inspect_prefix (cm c1) ?toks = Some av"
      using Cons.prems(3) go p by (auto simp: Let_def split: bind_splits)
    show ?thesis
    proof (cases "pending_tokens av - ready_tokens av > 0")
      case True
      obtain deferred' where r: "prepare_all env reqs c1 = Some (ctxs, deferred', queued, c')" "deferred = ?req # deferred'"
        using Cons.prems(3) go p av True by (auto simp: Let_def split: bind_splits)
      from step [OF r(1)] show ?thesis using r(2) f1(2) by (simp add: admitted_ids_def)
    next
      case nopend: False
      obtain m res where pr: "prepare_sequence (env_ops env) (cm c1) ?toks = Some (m, res)"
        using Cons.prems(3) go p av nopend by (auto simp: Let_def split: bind_splits)
      show ?thesis
      proof (cases res)
        case (Inl e)
        obtain rest1 where q: "queue_rest env reqs (c1\<lparr>cm := m\<rparr>) = (rest1, c')" "ctxs = []" "deferred = []" "queued = ?req # rest1"
          using Cons.prems(3) go p av nopend pr Inl by (auto simp: Let_def split: prod.splits)
        have "following Opn Fine (cw (c1\<lparr>cm := m\<rparr>)) (add_mset (rq_id req) (mset (map rq_id reqs) + Z))" using f1(1) by simp
        from queue_rest_following [OF law this q(1)] have t:
          "following Opn Fine (cw c') (add_mset (rq_id req) (mset (map rq_id reqs) + Z))" "mset (map rq_id rest1) \<subseteq># mset (map rq_id reqs)"
          by simp_all
        have "admitted_ids ctxs deferred queued + Z \<subseteq># add_mset (rq_id req) (mset (map rq_id reqs) + Z)"
          using t(2) q(2-4) f1(2) by (simp add: admitted_ids_def)
        with t(1) show ?thesis by (rule following_mono)
      next
        case (Inr prep)
        show ?thesis
        proof (cases "delta prep = []")
          case True
          obtain m2 where r: "prepare_all env reqs (report_error env ?req ''internal cache preparation error'' 500 (c1\<lparr>cm := m2\<rparr>)) =
              Some (ctxs, deferred, queued, c')"
            using Cons.prems(3) go p av nopend pr Inr True by (auto simp: Let_def split: bind_splits)
          show ?thesis using f1(2) by (intro answered [OF _ _ _ r]) simp_all
        next
          case False
          obtain ctxs' where r: "prepare_all env reqs (c1\<lparr>cm := m\<rparr>) = Some (ctxs', deferred, queued, c')"
            "ctxs = new_prefill ?req ?toks prep # ctxs'"
            using Cons.prems(3) go p av nopend pr Inr False by (auto simp: Let_def split: bind_splits)
          from step [OF r(1)] show ?thesis using r(2) f1(2) by (simp add: admitted_ids_def)
        qed
      qed
    qed
  qed
qed

lemma run_iteration_following:
  assumes law: "callback_law env Opn Fine" and run: "run_iteration env s = Some s'"
    and f: "following Opn Fine (cw (wcore s)) (worker_ids s + Z)" and u: "list_all unfinished (active s)"
  shows "following Opn Fine (cw (wcore s')) (worker_ids s' + Z) \<and> list_all unfinished (active s')"
proof -
  let ?n = "admit_count env s"
  obtain ctxs deferred queued c1 where p: "prepare_all env (take ?n (queue s)) (wcore s) = Some (ctxs, deferred, queued, c1)"
    using run by (auto simp: run_iteration_def Let_def split: bind_splits)
  obtain seqs pre c2 where st: "fused_step env (active s) (prefilling s @ ctxs) c1 = Some (seqs, pre, c2)"
    and s': "s' = \<lparr>queue = defer_to_front (queued @ deferred) (drop ?n (queue s)), active = seqs, prefilling = pre,
      generating = length seqs, wcore = c2\<rparr>"
    using run p by (auto simp: run_iteration_def Let_def split: bind_splits)
  let ?D = "mset (map rq_id (drop ?n (queue s)))"
  have "mset (map rq_id (queue s)) = mset (map rq_id (take ?n (queue s) @ drop ?n (queue s)))" by simp
  then have "worker_ids s = mset (map rq_id (take ?n (queue s))) + (?D + vector_ids (active s) (prefilling s))"
    by (simp only: worker_ids_def map_append mset_append ac_simps)
  then have "following Opn Fine (cw (wcore s)) (mset (map rq_id (take ?n (queue s))) + (?D + vector_ids (active s) (prefilling s) + Z))"
    using f by (simp add: ac_simps)
  from prepare_all_following [OF law this p] have "following Opn Fine (cw c1) (vector_ids (active s) (prefilling s @ ctxs) +
      (mset (map rq_id deferred) + mset (map rq_id queued) + ?D + Z))"
    by (simp add: admitted_ids_def vector_ids_def ac_simps)
  from fused_step_following [OF law st this u] show ?thesis by (simp add: s' worker_ids_def ac_simps)
qed

lemma run_events_following:
  "callback_law env Opn Fine \<Longrightarrow> run_events env evs s = Some s' \<Longrightarrow> list_all unfinished (active s) \<Longrightarrow>
   following Opn Fine (cw (wcore s)) (mset (map rq_id (arrivals evs)) + worker_ids s) \<Longrightarrow>
   following Opn Fine (cw (wcore s')) (worker_ids s')"
proof (induction env evs s rule: run_events.induct)
  case 1 then show ?case by simp
next
  case (2 env req evs s)
  show ?case using "2.IH" [OF "2.prems"(1)] "2.prems"(2-4) by (simp add: enqueue_def worker_ids_def ac_simps)
next
  case (3 env evs s)
  obtain s1 where s1: "run_iteration env s = Some s1" "run_events env evs s1 = Some s'"
    using "3.prems"(2) by (auto split: bind_splits)
  have "following Opn Fine (cw (wcore s)) (worker_ids s + mset (map rq_id (arrivals evs)))"
    using "3.prems"(4) by (simp add: add.commute)
  from run_iteration_following [OF "3.prems"(1) s1(1) this "3.prems"(3)] "3.IH" [OF s1(1) "3.prems"(1) s1(2)] show ?case
    by (simp add: add.commute)
qed

end
