(* ===== verification/RF_WorkerStats.thy ===== *)
theory RF_WorkerStats
  imports RF_WorkerAnswer RF_WorkerLimits
begin

text \<open>
  The counts that the worker reports with an answer: of tokens of the prompt, of cached and of
  generated tokens. They stay within the context window. The callbacks are arbitrary; \<open>Q\<close> is
  anything of the world that they keep as long as the counts they get are in this range.
\<close>

section \<open>Counts in range\<close>

definition counts_ok :: "('kv, 'w) worker_env \<Rightarrow> inference_stats \<Rightarrow> bool" where
  "counts_ok env st \<longleftrightarrow> (\<forall>i \<in> {prompt_n st, cache_n st, stat_prompt_tokens st, predicted_n st}. 0 \<le> i \<and> i \<le> env_n_ctx env)"

definition counted_law :: "('kv, 'w) worker_env \<Rightarrow> ('w \<Rightarrow> bool) \<Rightarrow> bool" where
  "counted_law env Q \<longleftrightarrow>
     (\<forall>i p b st w. Q w \<longrightarrow> (\<forall>s. st = Some s \<longrightarrow> counts_ok env s) \<longrightarrow> Q (on_token env i p b st w)) \<and>
     (\<forall>i msg code w. Q w \<longrightarrow> Q (on_error env i msg code w)) \<and>
     (\<forall>i w. Q w \<longrightarrow> Q (on_cancel env i w)) \<and> (\<forall>i w. Q w \<longrightarrow> Q (snd (poll_cancelled env i w))) \<and>
     (\<forall>smpl w. Q w \<longrightarrow> Q (free_sampler env smpl w)) \<and> (\<forall>smpl i w. Q w \<longrightarrow> Q (snd (sample env smpl i w))) \<and>
     (\<forall>t p w. Q w \<longrightarrow> Q (snd (create_sampler env t p w))) \<and>
     (\<forall>batch kv w. Q w \<longrightarrow> Q (snd (snd (llama_decode env batch kv w))))"

lemma counted_calls:
  assumes "counted_law env Q" "Q w"
  shows "(\<And>s. st = Some s \<Longrightarrow> counts_ok env s) \<Longrightarrow> Q (on_token env i p b st w)"
    "Q (on_error env i msg code w)" "Q (on_cancel env i w)" "Q (free_sampler env smpl w)"
    "poll_cancelled env i w = (hit, w') \<Longrightarrow> Q w'" "sample env smpl k w = (tok, w') \<Longrightarrow> Q w'"
    "create_sampler env t tp w = (smpl, w') \<Longrightarrow> Q w'" "llama_decode env batch k0 w = (status, k1, w') \<Longrightarrow> Q w'"
  using assms unfolding counted_law_def by (metis snd_conv)+

text \<open>
  A prompt in prefill has room for its completion, and the tokens that a sequence has generated
  and may still generate fit into the window.
\<close>

definition ctx_counts :: "('kv, 'w) worker_env \<Rightarrow> prefill_ctx \<Rightarrow> bool" where
  "ctx_counts env ctx \<longleftrightarrow> counts_ok env (pc_stats ctx) \<and> predicted_n (pc_stats ctx) = 0 \<and> 1 \<le> env_n_ctx env \<and>
     rq_max_tokens (pc_req ctx) \<le> env_n_ctx env"

definition seq_counts :: "('kv, 'w) worker_env \<Rightarrow> active_seq \<Rightarrow> bool" where
  "seq_counts env sq \<longleftrightarrow> counts_ok env (as_stats sq) \<and> 0 \<le> as_remaining sq \<and> (as_done sq \<or> 1 \<le> as_remaining sq) \<and>
     predicted_n (as_stats sq) + as_remaining sq \<le> env_n_ctx env"

definition all_counts :: "('kv, 'w) worker_env \<Rightarrow> active_seq list \<Rightarrow> prefill_ctx list \<Rightarrow> bool" where
  "all_counts env seqs ctxs \<longleftrightarrow> (\<forall>sq \<in> set seqs. seq_counts env sq) \<and> (\<forall>ctx \<in> set ctxs. ctx_counts env ctx)"

section \<open>The endings\<close>

lemma is_cancelled_counted:
  assumes "counted_law env Q" "is_cancelled env req c = (hit, req', c')" "Q (cw c)"
  shows "Q (cw c')" "rq_max_tokens req' = rq_max_tokens req"
proof -
  obtain h w where p: "poll_cancelled env (rq_id req) (cw c) = (h, w)" by (cases "poll_cancelled env (rq_id req) (cw c)")
  note q = counted_calls(5) [OF assms(1,3) p]
  show "Q (cw c')" "rq_max_tokens req' = rq_max_tokens req"
    using assms(2) p q counted_calls(3) [OF assms(1) q] by (auto simp: is_cancelled_def split: if_splits)
qed

lemma retire_counted:
  assumes law: "counted_law env Q" and run: "retire env sq notify c = Some c'" and q: "Q (cw c)" and st: "counts_ok env (as_stats sq)"
  shows "Q (cw c')"
proof (cases notify)
  case False
  then show ?thesis using run counted_calls(4) [OF law q] by (auto simp: retire_def Let_def split: bind_splits)
next
  case True
  obtain hit req1 c1 where p: "is_cancelled env (as_req sq) c = (hit, req1, c1)" by (cases "is_cancelled env (as_req sq) c")
  note q1 = is_cancelled_counted(1) [OF law p q]
  obtain node c2 where c2: "cw c2 = cw c1"
    "(if hit then Some (Some (as_leaf sq), req1, c1)
      else do { (m, node) \<leftarrow> extend_sequence (cm c1) (as_seq_id sq) (Some (as_leaf sq)) (cached_tokens sq);
                Some (node, req1, c1\<lparr>cm := m\<rparr>) }) = Some (node, req1, c2)"
    using run p True by (auto simp: retire_def split: bind_splits if_splits prod.splits)
  obtain hit2 req2 c3 where r: "is_cancelled env req1 c2 = (hit2, req2, c3)" by (cases "is_cancelled env req1 c2")
  note q3 = is_cancelled_counted(1) [OF law r q1 [folded c2(1)]]
  let ?w = "if hit2 then cw c3 else on_token env (rq_id req1) [] True (Some (as_stats sq)) (cw c3)"
  have "Q ?w" using q3 st by (auto intro!: counted_calls(1) [OF law q3])
  moreover have "cw c' = free_sampler env (as_sampler sq) ?w"
    using run p c2 r True by (auto simp: retire_def Let_def split: bind_splits if_splits)
  ultimately show ?thesis using counted_calls(4) [OF law] by simp
qed

lemma failed_counted:
  assumes "counted_law env Q" "is_cancelled env req c = (hit, req1, c1)" "Q (cw c)"
  shows "Q (cw (if hit then c1 else report_error env req1 msg st c1))"
  using is_cancelled_counted(1) [OF assms] counted_calls(2) [OF assms(1)] by (simp add: report_error_def)

lemma fail_active_counted: "counted_law env Q \<Longrightarrow> fail_active env msg st sq c = Some c' \<Longrightarrow> Q (cw c) \<Longrightarrow> Q (cw c')"
proof -
  assume law: "counted_law env Q" and run: "fail_active env msg st sq c = Some c'" and q: "Q (cw c)"
  obtain hit req1 c1 where p: "is_cancelled env (as_req sq) c = (hit, req1, c1)" by (cases "is_cancelled env (as_req sq) c")
  from failed_counted [OF law p q, of msg st] counted_calls(4) [OF law] run p show ?thesis
    by (auto simp: fail_active_def Let_def split: bind_splits)
qed

lemma fail_prefill_counted: "counted_law env Q \<Longrightarrow> fail_prefill env msg st ctx c = Some c' \<Longrightarrow> Q (cw c) \<Longrightarrow> Q (cw c')"
proof -
  assume law: "counted_law env Q" and run: "fail_prefill env msg st ctx c = Some c'" and q: "Q (cw c)"
  obtain hit req1 c1 where p: "is_cancelled env (pc_req ctx) c = (hit, req1, c1)" by (cases "is_cancelled env (pc_req ctx) c")
  from failed_counted [OF law p q, of msg st] run p show ?thesis by (auto simp: fail_prefill_def Let_def dest!: drop_prefill_cw)
qed

lemma each_counted:
  assumes "\<And>x c c'. f x c = Some c' \<Longrightarrow> Q (cw c) \<Longrightarrow> Q (cw c')"
  shows "each f xs c = Some c' \<Longrightarrow> Q (cw c) \<Longrightarrow> Q (cw c')"
proof (induction xs arbitrary: c)
  case (Cons x xs)
  obtain c1 where c1: "f x c = Some c1" "each f xs c1 = Some c'" using Cons.prems(1) by (auto split: bind_splits)
  show ?case by (rule Cons.IH [OF c1(2) assms [OF c1(1) Cons.prems(2)]])
qed simp

section \<open>The step\<close>

lemma poll_active_counted:
  "counted_law env Q \<Longrightarrow> poll_active env seqs c = (seqs', c') \<Longrightarrow> Q (cw c) \<Longrightarrow> \<forall>sq \<in> set seqs. seq_counts env sq \<Longrightarrow>
   Q (cw c') \<and> (\<forall>sq \<in> set seqs'. seq_counts env sq)"
proof (induction seqs arbitrary: c seqs' c')
  case (Cons sq seqs)
  obtain hit req c1 where p: "is_cancelled env (as_req sq) c = (hit, req, c1)" by (cases "is_cancelled env (as_req sq) c")
  obtain rest where r: "poll_active env seqs c1 = (rest, c')" "seqs' = sq\<lparr>as_req := req, as_done := as_done sq \<or> hit\<rparr> # rest"
    using Cons.prems(2) p by (auto split: prod.splits)
  have "Q (cw c') \<and> (\<forall>sq \<in> set rest. seq_counts env sq)"
    by (rule Cons.IH [OF Cons.prems(1) r(1) is_cancelled_counted(1) [OF Cons.prems(1) p Cons.prems(3)]]) (simp add: Cons.prems(4))
  moreover have "seq_counts env (sq\<lparr>as_req := req, as_done := as_done sq \<or> hit\<rparr>)"
    using Cons.prems(4) by (auto simp: seq_counts_def)
  ultimately show ?case by (simp add: r(2))
qed simp

lemma retire_done_counted:
  "counted_law env Q \<Longrightarrow> retire_done env seqs c = Some (seqs', c') \<Longrightarrow> Q (cw c) \<Longrightarrow> \<forall>sq \<in> set seqs. seq_counts env sq \<Longrightarrow> Q (cw c')"
proof (induction seqs arbitrary: c seqs' c')
  case (Cons sq seqs)
  show ?case
  proof (cases "as_done sq")
    case True
    obtain c1 where c1: "retire env sq False c = Some c1" "retire_done env seqs c1 = Some (seqs', c')"
      using Cons.prems(2) True by (auto split: bind_splits)
    have "Q (cw c1)" using retire_counted [OF Cons.prems(1) c1(1) Cons.prems(3)] Cons.prems(4) by (simp add: seq_counts_def)
    then show ?thesis using Cons.IH [OF Cons.prems(1) c1(2)] Cons.prems(4) by simp
  next
    case False
    then obtain rest where "retire_done env seqs c = Some (rest, c')" using Cons.prems(2) by (auto split: bind_splits prod.splits)
    then show ?thesis using Cons.IH [OF Cons.prems(1)] Cons.prems(3,4) by simp
  qed
qed simp

lemma retire_completed_counted:
  "counted_law env Q \<Longrightarrow> retire_completed env seqs c = Some (seqs', c') \<Longrightarrow> Q (cw c) \<Longrightarrow> \<forall>sq \<in> set seqs. seq_counts env sq \<Longrightarrow> Q (cw c')"
proof (induction seqs arbitrary: c seqs' c')
  case (Cons sq seqs)
  show ?case
  proof (cases "as_done sq")
    case True
    obtain hit req c0 where p: "is_cancelled env (as_req sq) c = (hit, req, c0)" by (cases "is_cancelled env (as_req sq) c")
    obtain c1 where c1: "retire env (sq\<lparr>as_req := req\<rparr>) (notify_on_retire sq) c0 = Some c1" "retire_completed env seqs c1 = Some (seqs', c')"
      using Cons.prems(2) True p by (auto split: bind_splits)
    have "Q (cw c1)" using retire_counted [OF Cons.prems(1) c1(1) is_cancelled_counted(1) [OF Cons.prems(1) p Cons.prems(3)]] Cons.prems(4)
      by (simp add: seq_counts_def)
    then show ?thesis using Cons.IH [OF Cons.prems(1) c1(2)] Cons.prems(4) by simp
  next
    case False
    then obtain rest where "retire_completed env seqs c = Some (rest, c')" using Cons.prems(2) by (auto split: bind_splits prod.splits)
    then show ?thesis using Cons.IH [OF Cons.prems(1)] Cons.prems(3,4) by simp
  qed
qed simp

lemma drop_cancelled_counted:
  "counted_law env Q \<Longrightarrow> drop_cancelled env ctxs c = Some (ctxs', c') \<Longrightarrow> Q (cw c) \<Longrightarrow> \<forall>ctx \<in> set ctxs. ctx_counts env ctx \<Longrightarrow>
   Q (cw c') \<and> (\<forall>ctx \<in> set ctxs'. ctx_counts env ctx)"
proof (induction ctxs arbitrary: c ctxs' c')
  case (Cons ctx ctxs)
  obtain hit req c0 where p: "is_cancelled env (pc_req ctx) c = (hit, req, c0)" by (cases "is_cancelled env (pc_req ctx) c")
  note q0 = is_cancelled_counted [OF Cons.prems(1) p Cons.prems(3)]
  show ?case
  proof (cases hit)
    case True
    obtain c1 where c1: "drop_prefill env ctx c0 = Some c1" "drop_cancelled env ctxs c1 = Some (ctxs', c')"
      using Cons.prems(2) True p by (auto split: bind_splits)
    then show ?thesis using Cons.IH [OF Cons.prems(1) c1(2)] q0(1) drop_prefill_cw [OF c1(1)] Cons.prems(4) by simp
  next
    case False
    obtain rest where r: "drop_cancelled env ctxs c0 = Some (rest, c')" "ctxs' = ctx\<lparr>pc_req := req\<rparr> # rest"
      using Cons.prems(2) False p by (auto split: bind_splits prod.splits)
    have "ctx_counts env (ctx\<lparr>pc_req := req\<rparr>)" using Cons.prems(4) q0(2) by (simp add: ctx_counts_def)
    then show ?thesis using Cons.IH [OF Cons.prems(1) r(1) q0(1)] Cons.prems(4) r(2) by simp
  qed
qed simp

lemma decode_counted: "counted_law env Q \<Longrightarrow> decode_with_retry env batch c = Some (status, c') \<Longrightarrow> Q (cw c) \<Longrightarrow> Q (cw c')"
proof -
  assume law: "counted_law env Q" and run: "decode_with_retry env batch c = Some (status, c')" and q: "Q (cw c)"
  obtain st k1 w1 where d: "llama_decode env batch (kv (cm c)) (cw c) = (st, k1, w1)"
    by (cases "llama_decode env batch (kv (cm c)) (cw c)") auto
  note q1 = counted_calls(8) [OF law q d]
  show ?thesis using run d q1 counted_calls(8) [OF law q1]
    by (auto simp: decode_with_retry_def Let_def split: bind_splits if_splits prod.splits)
qed

lemma finish_chunks_counts:
  "finish_chunks subs ctxs logits c = Some (ctxs', logits', c') \<Longrightarrow> \<forall>ctx \<in> set ctxs. ctx_counts env ctx \<Longrightarrow>
   \<forall>ctx \<in> set ctxs'. ctx_counts env ctx"
proof (induction subs ctxs logits c rule: finish_chunks.induct)
  case (2 sub subs ctxs logits c)
  let ?ctx = "ctxs ! ctx_index sub"
  let ?new = "?ctx\<lparr>delta_start := delta_start ?ctx + sub_tokens sub\<rparr>"
  have len: "ctx_index sub < length ctxs" using "2.prems" by (auto split: if_splits)
  then have "ctx_counts env ?ctx" using "2.prems"(2) nth_mem by blast
  then have "ctx_counts env ?new" by (simp add: ctx_counts_def)
  then have all: "\<forall>ctx \<in> set (ctxs[ctx_index sub := ?new]). ctx_counts env ctx"
    using "2.prems"(2) set_update_subset_insert by fastforce
  show ?case
  proof (cases "delta_start ?new = int (length (delta (pc_prep ?new)))")
    case True
    then obtain m where m: "mark_sequence_ready (cm c) (res_seq_id (pc_prep ?new)) (Some (leaf_node (pc_prep ?new))) = Some m"
      "finish_chunks subs (ctxs[ctx_index sub := ?new]) (logits[ctx_index sub := logit_index sub]) (c\<lparr>cm := m\<rparr>) =
        Some (ctxs', logits', c')"
      using "2.prems"(1) len by (auto simp: Let_def split: bind_splits)
    show ?thesis by (rule "2.IH"(1) [OF len refl refl refl True m all])
  next
    case False
    then have "finish_chunks subs (ctxs[ctx_index sub := ?new]) logits c = Some (ctxs', logits', c')"
      using "2.prems"(1) len by (auto simp: Let_def)
    from "2.IH"(2) [OF len refl refl refl False this all] show ?thesis .
  qed
qed simp

lemma generate_one_counted:
  assumes law: "counted_law env Q" and run: "generate_one env i sq c = (sq', c')" and q: "Q (cw c)"
    and st: "seq_counts env sq" "\<not> as_done sq"
  shows "Q (cw c') \<and> seq_counts env sq'"
proof -
  let ?m = "set_sequence_cell_count (cm c) (as_seq_id sq) (as_pos sq + 1)"
  obtain tok w where s: "sample env (as_sampler sq) (int i) (cw c) = (tok, w)"
    by (cases "sample env (as_sampler sq) (int i) (cw c)")
  note q1 = counted_calls(6) [OF law q s]
  show ?thesis
  proof (cases "is_eog env tok")
    case True
    then show ?thesis using run s q1 st by (auto simp: generate_one_def seq_counts_def Let_def)
  next
    case False
    let ?c1 = "c\<lparr>cm := ?m, cw := w\<rparr>" and ?last = "as_remaining sq - 1 = 0"
    obtain hit req c2 where p: "is_cancelled env (as_req sq) ?c1 = (hit, req, c2)" by (cases "is_cancelled env (as_req sq) ?c1")
    let ?st = "if ?last then Some (count_predicted (as_stats sq)) else None"
    let ?c3 = "if hit then c2 else c2\<lparr>cw := on_token env (rq_id req) (token_piece env tok) ?last ?st (cw c2)\<rparr>"
    have "Q (cw ?c1)" using q1 by simp
    note q2 = is_cancelled_counted(1) [OF law p this]
    have new: "counts_ok env (count_predicted (as_stats sq))" using st by (auto simp: counts_ok_def seq_counts_def count_predicted_def)
    then have q3: "Q (cw ?c3)" using q2 by (auto intro!: counted_calls(1) [OF law q2])
    obtain hit2 req2 c4 where r: "is_cancelled env req ?c3 = (hit2, req2, c4)" by (cases "is_cancelled env req ?c3")
    note q4 = is_cancelled_counted(1) [OF law r q3]
    have "c' = ?c3 \<or> c' = c4" "as_stats sq' = count_predicted (as_stats sq)" "as_remaining sq' = as_remaining sq - 1"
      "?last \<longrightarrow> as_done sq'"
      using run s False p r by (auto simp: generate_one_def Let_def split: if_splits)
    then show ?thesis using q3 q4 new st by (auto simp: seq_counts_def count_predicted_def)
  qed
qed

lemma generate_all_counted:
  "counted_law env Q \<Longrightarrow> generate_all env i seqs c = (seqs', c') \<Longrightarrow> Q (cw c) \<Longrightarrow> \<forall>sq \<in> set seqs. seq_counts env sq \<and> \<not> as_done sq \<Longrightarrow>
   Q (cw c') \<and> (\<forall>sq \<in> set seqs'. seq_counts env sq)"
proof (induction seqs arbitrary: i c seqs' c')
  case (Cons sq seqs)
  obtain sq1 c1 where g: "generate_one env i sq c = (sq1, c1)" by (cases "generate_one env i sq c")
  obtain rest where r: "generate_all env (Suc i) seqs c1 = (rest, c')" "seqs' = sq1 # rest"
    using Cons.prems(2) g by (auto split: prod.splits)
  from generate_one_counted [OF Cons.prems(1) g Cons.prems(3)] Cons.prems(4) have "Q (cw c1)" "seq_counts env sq1" by simp_all
  with Cons.IH [OF Cons.prems(1) r(1)] Cons.prems(4) r(2) show ?case by simp
qed simp

lemma start_generation_counted:
  assumes law: "counted_law env Q" and run: "start_generation env ctx logit c = Some (started, c')" and q: "Q (cw c)"
    and st: "ctx_counts env ctx"
  shows "Q (cw c') \<and> (\<forall>sq. started = Some sq \<longrightarrow> seq_counts env sq)"
proof -
  obtain hit req c1 where p: "is_cancelled env (pc_req ctx) c = (hit, req, c1)" by (cases "is_cancelled env (pc_req ctx) c")
  note q1 = is_cancelled_counted [OF law p q]
  show ?thesis
  proof (cases hit)
    case True
    then show ?thesis using run p q1(1) by (auto simp: start_generation_def split: bind_splits dest!: drop_prefill_cw)
  next
    case False
    obtain smpl w1 where c: "create_sampler env (rq_temperature req) (rq_top_p req) (cw c1) = (smpl, w1)"
      by (cases "create_sampler env (rq_temperature req) (rq_top_p req) (cw c1)")
    obtain tok w2 where s: "sample env smpl logit w1 = (tok, w2)" by (cases "sample env smpl logit w1")
    have q2: "Q w2" by (rule counted_calls(6) [OF law counted_calls(7) [OF law q1(1) c] s])
    let ?st = "(pc_stats ctx)\<lparr>predicted_n := 1\<rparr>"
    have ok: "counts_ok env (pc_stats ctx)" "counts_ok env ?st" using st by (auto simp: ctx_counts_def counts_ok_def)
    have t: "Q (on_token env (rq_id req) piece b (Some (pc_stats ctx)) w2)" "Q (on_token env (rq_id req) piece b (if b then Some ?st else None) w2)"
      "Q (on_token env (rq_id req) piece b (Some ?st) w2)" for piece b using ok by (auto intro!: counted_calls(1) [OF law q2] split: if_splits)
    have max: "rq_max_tokens req \<le> env_n_ctx env" using st q1(2) by (simp add: ctx_counts_def)
    have n: "predicted_n (pc_stats ctx) = 0" "1 \<le> env_n_ctx env" using st by (simp_all add: ctx_counts_def)
    show ?thesis
    proof (cases "is_eog env tok \<or> rq_max_tokens req \<le> 1")
      case True
      then show ?thesis using run p False c s t counted_calls(4) [OF law]
        by (auto simp: start_generation_def Let_def split: bind_splits if_splits dest!: drop_prefill_cw)
    next
      case go: False
      then have "started = Some (new_active ctx req ?st smpl tok)" "cw c' = on_token env (rq_id req) (token_piece env tok) False None w2"
        using run p False c s by (auto simp: start_generation_def Let_def)
      moreover have "seq_counts env (new_active ctx req ?st smpl tok)" using ok(2) max go n by (simp add: seq_counts_def new_active_def)
      ultimately show ?thesis using t(2) [of "token_piece env tok" False] by simp
    qed
  qed
qed

lemma start_all_counted:
  "counted_law env Q \<Longrightarrow> start_all env ps c = Some (keep, new, c') \<Longrightarrow> Q (cw c) \<Longrightarrow> \<forall>p \<in> set ps. ctx_counts env (fst p) \<Longrightarrow>
   Q (cw c') \<and> all_counts env new keep"
proof (induction ps arbitrary: c keep new)
  case Nil then show ?case by (simp add: all_counts_def)
next
  case (Cons p ps)
  obtain ctx lg where p: "p = (ctx, lg)" by (cases p)
  show ?case
  proof (cases "lg < 0")
    case True
    obtain keep' where "start_all env ps c = Some (keep', new, c')" "keep = ctx # keep'"
      using Cons.prems(2) True p by (auto split: bind_splits prod.splits)
    then show ?thesis using Cons.IH [OF Cons.prems(1)] Cons.prems(3,4) p by (auto simp: all_counts_def)
  next
    case False
    obtain started c1 new' where r: "start_generation env ctx lg c = Some (started, c1)"
      "start_all env ps c1 = Some (keep, new', c')" "new = (case started of None \<Rightarrow> new' | Some sq \<Rightarrow> sq # new')"
      using Cons.prems(2) False p by (auto split: bind_splits prod.splits)
    have "Q (cw c1) \<and> (\<forall>sq. started = Some sq \<longrightarrow> seq_counts env sq)"
      using start_generation_counted [OF Cons.prems(1) r(1) Cons.prems(3)] Cons.prems(4) p by simp
    then show ?thesis using Cons.IH [OF Cons.prems(1) r(2)] Cons.prems(4) r(3) by (auto simp: all_counts_def split: option.splits)
  qed
qed

lemma after_decode_counted:
  assumes law: "counted_law env Q" and run: "after_decode env status pt subs seqs ctxs c = Some (seqs', ctxs', c')"
    and q: "Q (cw c)" and st: "all_counts env seqs ctxs" "\<forall>sq \<in> set seqs. \<not> as_done sq"
  shows "Q (cw c') \<and> all_counts env seqs' ctxs'"
proof -
  consider (full) "status = 1" | (advance) "status = 0" | (all) "status \<noteq> 0" "status \<noteq> 1" by blast
  then show ?thesis
  proof cases
    case full
    then show ?thesis using run q st fail_active_counted [OF law] fail_prefill_counted [OF law]
      by (auto simp: after_decode_def all_counts_def split: bind_splits if_splits dest: in_set_butlastD)
  next
    case all
    obtain c1 where r: "each (fail_active env ''inference decode failed'' 500) seqs c = Some c1"
      "each (fail_prefill env ''inference prefill failed'' 500) ctxs c1 = Some c'" "seqs' = []" "ctxs' = []"
      using run all by (auto simp: after_decode_def split: bind_splits)
    have "Q (cw c1)" by (rule each_counted [where Q = Q, OF _ r(1) q]) (rule fail_active_counted [OF law])
    then have "Q (cw c')" using each_counted [where Q = Q and f = "fail_prefill env ''inference prefill failed'' 500", OF _ r(2)] fail_prefill_counted [OF law] by blast
    then show ?thesis using r(3,4) by (simp add: all_counts_def)
  next
    case advance
    obtain ctxs1 logits c1 where fc: "finish_chunks subs ctxs (replicate (length ctxs) (-1)) (count_step pt c) = Some (ctxs1, logits, c1)"
      using run advance by (auto simp: after_decode_def split: bind_splits)
    obtain seqs1 c2 where ga: "generate_all env 0 seqs c1 = (seqs1, c2)" by (cases "generate_all env 0 seqs c1")
    obtain seqs2 c3 new where r: "retire_completed env seqs1 c2 = Some (seqs2, c3)"
      "start_all env (zip ctxs1 logits) c3 = Some (ctxs', new, c')" "seqs' = seqs2 @ new"
      using run advance fc ga by (auto simp: after_decode_def split: bind_splits prod.splits)
    have q1: "Q (cw c1)" using finish_chunks_same [OF fc] q by (simp add: count_step_def Let_def)
    have g: "Q (cw c2) \<and> (\<forall>sq \<in> set seqs1. seq_counts env sq)"
      by (rule generate_all_counted [OF law ga q1]) (use st in \<open>auto simp: all_counts_def\<close>)
    have q3: "Q (cw c3)" by (rule retire_completed_counted [OF law r(1)]) (use g in auto)
    have "\<forall>p \<in> set (zip ctxs1 logits). ctx_counts env (fst p)"
      using finish_chunks_counts [OF fc, of env] st(1) by (auto simp: all_counts_def dest!: set_zip_leftD)
    from start_all_counted [OF law r(2) q3 this] g retire_completed_set [OF r(1)] r(3) show ?thesis by (auto simp: all_counts_def)
  qed
qed

lemma fused_step_counted:
  assumes law: "counted_law env Q" and run: "fused_step env seqs ctxs c = Some (seqs', ctxs', c')"
    and q: "Q (cw c)" and st: "all_counts env seqs ctxs"
  shows "Q (cw c') \<and> all_counts env seqs' ctxs'"
proof -
  obtain polled c1 where po: "poll_active env seqs c = (polled, c1)" by (cases "poll_active env seqs c")
  obtain seqs1 c2 where rd: "retire_done env polled c1 = Some (seqs1, c2)"
    using run po by (auto simp: fused_step_def split: bind_splits)
  obtain ctxs1 c3 where d: "drop_cancelled env ctxs c2 = Some (ctxs1, c3)"
    using run po rd by (auto simp: fused_step_def split: bind_splits)
  have p: "Q (cw c1)" "\<forall>sq \<in> set polled. seq_counts env sq" using poll_active_counted [OF law po q] st by (auto simp: all_counts_def)
  have q2: "Q (cw c2)" by (rule retire_done_counted [OF law rd p])
  have d': "Q (cw c3)" "\<forall>ctx \<in> set ctxs1. ctx_counts env ctx" using drop_cancelled_counted [OF law d q2] st by (auto simp: all_counts_def)
  have all: "all_counts env seqs1 ctxs1" "\<forall>sq \<in> set seqs1. \<not> as_done sq" using retire_done_set [OF rd] p(2) d'(2) by (auto simp: all_counts_def)
  obtain batch subs pt where b: "build_batch (env_n_batch env - int (length seqs1)) seqs1 ctxs1 = (batch, subs, pt)"
    by (metis prod_cases3)
  show ?thesis
  proof (cases "seqs1 = [] \<and> (ctxs1 = [] \<or> env_n_batch env - int (length seqs1) \<le> 0) \<or> batch = []")
    case True
    then have "(seqs', ctxs', c') = (seqs1, ctxs1, c3)"
      using run po rd d b by (auto simp: fused_step_def Let_def split: if_splits)
    then show ?thesis using d' all by simp
  next
    case False
    obtain status c4 where dec: "decode_with_retry env batch c3 = Some (status, c4)"
      "after_decode env status pt subs seqs1 ctxs1 c4 = Some (seqs', ctxs', c')"
      using False run po rd d b by (auto simp: fused_step_def Let_def split: if_splits bind_splits)
    from after_decode_counted [OF law dec(2) decode_counted [OF law dec(1) d'(1)] all] show ?thesis .
  qed
qed

section \<open>Admission and runs\<close>

lemma queue_rest_counted: "counted_law env Q \<Longrightarrow> queue_rest env reqs c = (rest, c') \<Longrightarrow> Q (cw c) \<Longrightarrow> Q (cw c')"
proof (induction reqs arbitrary: c rest c')
  case (Cons req reqs)
  obtain hit req1 c1 where p: "is_cancelled env req c = (hit, req1, c1)" by (cases "is_cancelled env req c")
  show ?case using Cons.IH [OF Cons.prems(1) _ is_cancelled_counted(1) [OF Cons.prems(1) p Cons.prems(3)]] Cons.prems(2) p
    by (auto split: prod.splits)
qed simp

text \<open>The counts of a new context are those of its prompt.\<close>

definition fresh_counts :: "('kv, 'w) worker_env \<Rightarrow> prefill_ctx \<Rightarrow> bool" where
  "fresh_counts env ctx \<longleftrightarrow> (\<exists>req toks prep. ctx = new_prefill (clamp_max_tokens (available_tokens env toks) req) toks prep \<and>
     0 < available_tokens env toks)"

lemma fresh_counts_ok: "fresh_counts env ctx \<Longrightarrow> ctx_ok ctx \<Longrightarrow> ctx_counts env ctx"
  by (auto simp: fresh_counts_def ctx_ok_def ctx_counts_def counts_ok_def new_prefill_def clamp_max_tokens_def available_tokens_def)

lemma prepare_all_counted:
  "counted_law env Q \<Longrightarrow> prepare_all env reqs c = Some (ctxs, deferred, queued, c') \<Longrightarrow> Q (cw c) \<Longrightarrow>
   Q (cw c') \<and> (\<forall>ctx \<in> set ctxs. fresh_counts env ctx)"
proof (induction reqs arbitrary: c ctxs deferred queued c')
  case (Cons req reqs)
  note law = Cons.prems(1)
  obtain hit req1 c1 where p: "is_cancelled env req c = (hit, req1, c1)" by (cases "is_cancelled env req c")
  note q1 = is_cancelled_counted(1) [OF law p Cons.prems(3)]
  let ?toks = "tokenize env (prompt_text env req1)"
  let ?av = "available_tokens env ?toks" and ?req = "clamp_max_tokens (available_tokens env (tokenize env (prompt_text env req1))) req1"
  have same: ?case if "prepare_all env reqs c2 = Some (ctxs, deferred', queued, c')" "Q (cw c2)" for c2 deferred'
    using Cons.IH [OF law that] .
  have err: "Q (cw (report_error env r msg st c2))" if "cw c2 = cw c1" for r msg st c2
    using counted_calls(2) [OF law q1] that by (simp add: report_error_def)
  consider (cancelled) "hit" | (long) "\<not> hit" "?av \<le> 0" | (go) "\<not> hit" "\<not> ?av \<le> 0" by blast
  then show ?case
  proof cases
    case cancelled then show ?thesis using Cons.prems(2) p q1 same by simp
  next
    case long then show ?thesis using Cons.prems(2) p same [OF _ err] by (simp add: Let_def)
  next
    case go
    obtain av where av: "mapper_inspect_prefix (cm c1) ?toks = Some av"
      using Cons.prems(2) go p by (auto simp: Let_def split: bind_splits)
    show ?thesis
    proof (cases "pending_tokens av - ready_tokens av > 0")
      case True
      obtain deferred' where "prepare_all env reqs c1 = Some (ctxs, deferred', queued, c')"
        using Cons.prems(2) go p av True by (auto simp: Let_def split: bind_splits)
      then show ?thesis using same q1 by blast
    next
      case nopend: False
      obtain m res where pr: "prepare_sequence (env_ops env) (cm c1) ?toks = Some (m, res)"
        using Cons.prems(2) go p av nopend by (auto simp: Let_def split: bind_splits)
      show ?thesis
      proof (cases res)
        case (Inl e)
        obtain rest1 where "queue_rest env reqs (c1\<lparr>cm := m\<rparr>) = (rest1, c')" "ctxs = []"
          using Cons.prems(2) go p av nopend pr Inl by (auto simp: Let_def split: prod.splits)
        then show ?thesis using queue_rest_counted [OF law] q1 by fastforce
      next
        case (Inr prep)
        show ?thesis
        proof (cases "delta prep = []")
          case True
          obtain m2 where "prepare_all env reqs (report_error env ?req ''internal cache preparation error'' 500 (c1\<lparr>cm := m2\<rparr>)) =
              Some (ctxs, deferred, queued, c')"
            using Cons.prems(2) go p av nopend pr Inr True by (auto simp: Let_def split: bind_splits)
          then show ?thesis by (rule same) (rule err, simp)
        next
          case False
          obtain ctxs' where r: "prepare_all env reqs (c1\<lparr>cm := m\<rparr>) = Some (ctxs', deferred, queued, c')"
            "ctxs = new_prefill ?req ?toks prep # ctxs'"
            using Cons.prems(2) go p av nopend pr Inr False by (auto simp: Let_def split: bind_splits)
          have "fresh_counts env (new_prefill ?req ?toks prep)" using go(2) unfolding fresh_counts_def by (metis not_le)
          then show ?thesis using Cons.IH [OF law r(1)] q1 r(2) by simp
        qed
      qed
    qed
  qed
qed simp

lemma run_iteration_counted:
  assumes law: "counted_law env Q" "decode_law env cells" and inv: "worker_inv (served cfg (env_ops env) cells) s"
    and run: "run_iteration env s = Some s'" and q: "Q (cw (wcore s))" and st: "all_counts env (active s) (prefilling s)"
  shows "Q (cw (wcore s')) \<and> all_counts env (active s') (prefilling s')"
proof -
  let ?n = "admit_count env s"
  obtain las lps where "served cfg (env_ops env) cells (cm (wcore s)) (mset las + mset lps)" using inv by (auto simp: worker_inv_def)
  from mapper_service.prepare_all_ok [OF refl this, of "take ?n (queue s)"] obtain ctxs deferred queued c1 new where
    p: "prepare_all env (take ?n (queue s)) (wcore s) = Some (ctxs, deferred, queued, c1)" "list_all2 pending_ctx ctxs new" by blast
  obtain seqs pre c2 where f: "fused_step env (active s) (prefilling s @ ctxs) c1 = Some (seqs, pre, c2)"
    and s': "active s' = seqs" "prefilling s' = pre" "wcore s' = c2"
    using run p by (auto simp: run_iteration_def Let_def split: bind_splits)
  have a: "Q (cw c1)" "\<forall>ctx \<in> set ctxs. fresh_counts env ctx" using prepare_all_counted [OF law(1) p(1) q] by simp_all
  have "\<forall>ctx \<in> set ctxs. ctx_ok ctx"
    using p(2) by (auto simp: list_all2_conv_all_nth in_set_conv_nth pending_ctx_def match_prefill_def)
  then have "all_counts env (active s) (prefilling s @ ctxs)" using a(2) st fresh_counts_ok by (auto simp: all_counts_def)
  from fused_step_counted [OF law(1) f a(1) this] s' show ?thesis by simp
qed

lemma run_events_counted:
  "counted_law env Q \<Longrightarrow> decode_law env cells \<Longrightarrow> worker_inv (served cfg (env_ops env) cells) s \<Longrightarrow> run_events env evs s = Some s' \<Longrightarrow>
   Q (cw (wcore s)) \<Longrightarrow> all_counts env (active s) (prefilling s) \<Longrightarrow> Q (cw (wcore s'))"
proof (induction env evs s rule: run_events.induct)
  case (2 env req evs s)
  have "worker_inv (served cfg (env_ops env) cells) (enqueue req s)" using "2.prems"(3) by (simp add: mapper_service.enqueue_ok)
  from "2.IH" [OF "2.prems"(1,2) this] "2.prems"(4-6) show ?case by (simp add: enqueue_def)
next
  case (3 env evs s)
  obtain s1 where s1: "run_iteration env s = Some s1" "run_events env evs s1 = Some s'"
    using "3.prems"(4) by (auto split: bind_splits)
  have inv: "worker_inv (served cfg (env_ops env) cells) s1"
    using mapper_service.run_iteration_ok [OF refl "3.prems"(2,3)] s1(1) by auto
  from run_iteration_counted [OF "3.prems"(1-3) s1(1) "3.prems"(5,6)]
  show ?case using "3.IH" [OF s1(1) "3.prems"(1,2) inv s1(2)] by blast
qed simp

end
