(* ===== verification/RF_OpenAI.thy ===== *)
theory RF_OpenAI
  imports RF_Json RF_Worker
begin

text \<open>
  The OpenAI-compatible texts (src/openai_api.cpp): the request body that is read, the JSON
  texts that are written, and the split of a text before an incomplete UTF-8 character.
\<close>

section \<open>Printing numbers\<close>

text \<open>\<open>std::to_string\<close> of an integer, and of a double (six decimals, ties to even).\<close>

definition digit_char :: "nat \<Rightarrow> char" where
  "digit_char d = char_of (48 + d)"

fun nat_text :: "nat \<Rightarrow> string" where
  "nat_text n = (if n < 10 then [digit_char n] else nat_text (n div 10) @ [digit_char (n mod 10)])"

declare nat_text.simps [simp del]

definition int_text :: "int \<Rightarrow> string" where
  "int_text i = (if i < 0 then CHR ''-'' # nat_text (nat (- i)) else nat_text (nat i))"

definition fixed6 :: "rat \<Rightarrow> string" where
  "fixed6 x = (let n = nat (round_even (\<bar>x\<bar> * 1000000)); frac = nat_text (n mod 1000000) in
     (if x < 0 then ''-'' else []) @ nat_text (n div 1000000) @ ''.'' @ replicate (6 - length frac) CHR ''0'' @ frac)"

text \<open>The statistics of a finished request, with the two durations the worker measures.\<close>

record response_stats = inference_stats +
  prompt_ms :: rat
  predicted_ms :: rat

definition timings_json :: "response_stats \<Rightarrow> string" where
  \<open>timings_json stats =
     ''{"prompt_n":'' @ int_text (prompt_n stats) @ '',"cache_n":'' @ int_text (cache_n stats) @
     '',"prompt_ms":'' @ fixed6 (prompt_ms stats) @ '',"predicted_n":'' @ int_text (predicted_n stats) @
     '',"predicted_ms":'' @ fixed6 (predicted_ms stats) @ ''}''\<close>

definition usage_json :: "response_stats \<Rightarrow> string" where
  \<open>usage_json stats =
     ''{"prompt_tokens":'' @ int_text (stat_prompt_tokens stats) @
     '',"completion_tokens":'' @ int_text (predicted_n stats) @
     '',"total_tokens":'' @ int_text (stat_prompt_tokens stats + predicted_n stats) @ ''}''\<close>

section \<open>Escaping\<close>

definition hex_char :: "nat \<Rightarrow> char" where
  "hex_char d = ''0123456789abcdef'' ! d"

text \<open>The text \<open>snprintf\<close> writes for the format \<open>%04x\<close>.\<close>

definition hex4 :: "nat \<Rightarrow> string" where
  "hex4 n = map (\<lambda>k. hex_char (n div 16 ^ k mod 16)) [3, 2, 1, 0]"

definition escape_char :: "char \<Rightarrow> string" where
  "escape_char c =
     (if c = CHR 0x22 then [CHR 0x5C, CHR 0x22]
      else if c = CHR 0x5C then [CHR 0x5C, CHR 0x5C]
      else if c = CHR 0x0A then [CHR 0x5C, CHR ''n'']
      else if c = CHR 0x0D then [CHR 0x5C, CHR ''r'']
      else if c = CHR 0x09 then [CHR 0x5C, CHR ''t'']
      else if c < CHR 0x20 then CHR 0x5C # CHR ''u'' # hex4 (of_char c)
      else [c])"

definition json_escape :: "string \<Rightarrow> string" where
  "json_escape s = concat (map escape_char s)"

definition error_json :: "string \<Rightarrow> string \<Rightarrow> string" where
  \<open>error_json message kind =
     ''{"error":{"message":"'' @ json_escape message @ ''","type":"'' @ kind @ ''"}}''\<close>

definition completion_json :: "string \<Rightarrow> response_stats \<Rightarrow> bool \<Rightarrow> string" where
  \<open>completion_json content stats is_chat =
     (if is_chat then
        ''{"object":"chat.completion","choices":[{"message":{'' @ ''"role":"assistant","content":"'' @
        json_escape content @ ''"},"finish_reason":"stop"}],"timings":'' @ timings_json stats @
        '',"usage":'' @ usage_json stats @ ''}''
      else
        ''{"object":"text_completion","choices":[{"text":"'' @ json_escape content @
        ''","finish_reason":"stop"}],"timings":'' @ timings_json stats @
        '',"usage":'' @ usage_json stats @ ''}'')\<close>

section \<open>The request body\<close>

text \<open>
  The conversion of a double to \<open>float\<close>; out of the range of \<open>float\<close> it is undefined.
\<close>

definition to_float :: "rat \<Rightarrow> rat option" where
  "to_float x = (let y = round_signed 24 (-149) x in if \<bar>y\<bar> \<ge> pow2 128 then None else Some y)"

definition body_messages :: "json \<Rightarrow> chat_message list" where
  "body_messages body =
     map (\<lambda>message. \<lparr>msg_role = (if json_contains message ''role'' then as_string (json_member message ''role'') else ''user''),
                     msg_content = (if json_contains message ''content'' then as_string (json_member message ''content'') else [])\<rparr>)
       (as_array (json_member body ''messages''))"

definition body_max_tokens :: "json \<Rightarrow> config \<Rightarrow> string + int" where
  "body_max_tokens body cfg =
     (if json_contains body ''max_tokens'' then
        (if json_type_of (json_member body ''max_tokens'') \<noteq> TNumber then Inl ''max_tokens must be a number''
         else
           let max_tokens = as_number (json_member body ''max_tokens'') in
           if max_tokens < 0 \<or> max_tokens > 2147483647 \<or> of_int \<lfloor>max_tokens\<rfloor> \<noteq> max_tokens
           then Inl ''max_tokens must be a non-negative int32''
           else Inr \<lfloor>max_tokens\<rfloor>)
      else Inr (cfg_max_tokens cfg))"

definition body_float :: "json \<Rightarrow> string \<Rightarrow> rat \<Rightarrow> rat option" where
  "body_float body key otherwise =
     (if json_contains body key \<and> json_type_of (json_member body key) = TNumber
      then to_float (as_number (json_member body key)) else Some otherwise)"

text \<open>\<open>None\<close> is undefined behaviour; errors are those of the parser and of \<open>max_tokens\<close>.\<close>

definition parse_request_body ::
  "string \<Rightarrow> inference_request \<Rightarrow> config \<Rightarrow> (string + inference_request) option" where
  "parse_request_body body_text request cfg =
     do { parsed \<leftarrow> json_parse body_text;
          case parsed of
            Inl e \<Rightarrow> Some (Inl e)
          | Inr body \<Rightarrow>
              (let r1 =
                 (if json_contains body ''messages'' \<and> json_type_of (json_member body ''messages'') = TArray
                  then request\<lparr>rq_messages := rq_messages request @ body_messages body\<rparr>
                  else if json_contains body ''prompt'' \<and> json_type_of (json_member body ''prompt'') = TString
                  then request\<lparr>rq_prompt := as_string (json_member body ''prompt'')\<rparr>
                  else request) in
               case body_max_tokens body cfg of
                 Inl e \<Rightarrow> Some (Inl e)
               | Inr n \<Rightarrow>
                   do { t \<leftarrow> body_float body ''temperature'' (cfg_temperature cfg);
                        p \<leftarrow> body_float body ''top_p'' (cfg_top_p cfg);
                        Some (Inr (r1\<lparr>rq_max_tokens := n, rq_temperature := t, rq_top_p := p,
                          rq_stream := json_contains body ''stream'' \<and>
                            json_type_of (json_member body ''stream'') = TBool \<and>
                            as_bool (json_member body ''stream'')\<rparr>)) }) }"

section \<open>Complete UTF-8 characters\<close>

definition is_continuation :: "char \<Rightarrow> bool" where
  "is_continuation c \<longleftrightarrow> (of_char c :: nat) AND 0xC0 = 0x80"

definition expected_length :: "char \<Rightarrow> nat" where
  "expected_length c =
     (if CHR 0xF0 \<le> c \<and> c \<le> CHR 0xF4 then 4
      else if CHR 0xE0 \<le> c \<and> c \<le> CHR 0xEF then 3
      else if CHR 0xC2 \<le> c \<and> c \<le> CHR 0xDF then 2
      else 1)"

text \<open>The loop from the end: \<open>suffix_start\<close> and \<open>continuation_count\<close>.\<close>

fun trailing_continuations :: "string \<Rightarrow> nat \<Rightarrow> nat \<Rightarrow> nat \<times> nat" where
  "trailing_continuations text 0 k = (0, k)"
| "trailing_continuations text (Suc n) k =
     (if k < 3 \<and> is_continuation (text ! n) then trailing_continuations text n (k + 1) else (Suc n, k))"

definition complete_utf8_prefix_length :: "string \<Rightarrow> nat" where
  "complete_utf8_prefix_length text =
     (if text = [] then 0
      else
        let (suffix_start, count) = trailing_continuations text (length text) 0 in
        if count = 0 then
          (if expected_length (last text) > 1 then length text - 1 else length text)
        else if suffix_start = 0 then length text
        else if expected_length (text ! (suffix_start - 1)) > count + 1 then suffix_start - 1
        else length text)"

end
