(* ===== verification/RF_Stream.thy ===== *)
theory RF_Stream
  imports RF_OpenAI
begin

text \<open>
  A streamed answer (src/http_server.cpp, the SSE branch of \<open>handle_completion\<close>): the state the
  worker's callbacks share with the content provider, the callbacks, and the provider's wait.
  The sink is not under the repository's control: what it answers is a parameter, a function of
  the calls made so far, and the state keeps the calls with their answers.
\<close>

datatype sink_call = Polled bool | Wrote string bool

record sink_env =
  sink_is_writable :: "sink_call list \<Rightarrow> bool"
  sink_write :: "sink_call list \<Rightarrow> string \<Rightarrow> bool"

text \<open>
  \<open>sink_done\<close> is the call of \<open>sink.done()\<close>, \<open>provider_returned\<close> the value the provider has
  returned, after which the sink is gone; \<open>writes_timed\<close> is the counter \<open>sse_writes\<close>, kept when
  the server measures.
\<close>

record stream_state =
  ss_cancelled :: bool
  ss_enqueued :: bool
  ss_done :: bool
  incomplete_utf8 :: string
  calls :: "sink_call list"
  sink_done :: bool
  provider_returned :: "bool option"
  writes_timed :: nat

definition new_stream :: stream_state where
  "new_stream = \<lparr>ss_cancelled = False, ss_enqueued = False, ss_done = False, incomplete_utf8 = [], calls = [],
     sink_done = False, provider_returned = None, writes_timed = 0\<rparr>"

definition is_writable :: "sink_env \<Rightarrow> stream_state \<Rightarrow> bool \<times> stream_state" where
  "is_writable sk st = (let r = sink_is_writable sk (calls st) in (r, st\<lparr>calls := calls st @ [Polled r]\<rparr>))"

definition write_sink :: "sink_env \<Rightarrow> string \<Rightarrow> stream_state \<Rightarrow> bool \<times> stream_state" where
  "write_sink sk text st = (let r = sink_write sk (calls st) text in (r, st\<lparr>calls := calls st @ [Wrote text r]\<rparr>))"

definition timed_write :: "bool \<Rightarrow> sink_env \<Rightarrow> string \<Rightarrow> stream_state \<Rightarrow> bool \<times> stream_state" where
  "timed_write perf sk text st =
     (let (r, st) = write_sink sk text st in
      (r, if perf then st\<lparr>writes_timed := writes_timed st + 1\<rparr> else st))"

section \<open>The texts of the events\<close>

definition newline2 :: string where
  "newline2 = [CHR 0x0A, CHR 0x0A]"

definition done_event :: string where
  "done_event = ''data: [DONE]'' @ newline2"

definition keep_alive_event :: string where
  \<open>keep_alive_event = ''data: {"choices":[{"delta":{},"finish_reason":null}]}'' @ newline2\<close>

definition chunk_json :: "string \<Rightarrow> bool \<Rightarrow> response_stats option \<Rightarrow> string" where
  \<open>chunk_json content is_last stats =
     ''{"choices":[{"delta":{"content":"'' @ json_escape content @ ''"},"finish_reason":'' @
     (if is_last then ''"stop"'' else ''null'') @
     (case stats of
        Some s \<Rightarrow> if is_last then ''}],"timings":'' @ timings_json s @ '',"usage":'' @ usage_json s else []
      | None \<Rightarrow> []) @
     (if is_last \<and> stats \<noteq> None then ''}'' else ''}]}'')\<close>

definition chunk_event :: "string \<Rightarrow> bool \<Rightarrow> response_stats option \<Rightarrow> string" where
  "chunk_event content is_last stats = ''data: '' @ chunk_json content is_last stats @ newline2"

definition error_kind :: "int \<Rightarrow> string" where
  "error_kind status = (if status = 400 then ''invalid_request_error'' else ''server_error'')"

definition error_event :: "string \<Rightarrow> int \<Rightarrow> string" where
  "error_event message status = ''data: '' @ error_json message (error_kind status) @ newline2"

section \<open>The callbacks\<close>

definition stop_stream :: "bool \<Rightarrow> stream_state \<Rightarrow> stream_state" where
  "stop_stream cancel st = st\<lparr>ss_cancelled := ss_cancelled st \<or> cancel, ss_done := True\<rparr>"

text \<open>The content of a chunk, and the bytes that wait for the rest of their character.\<close>

definition split_content :: "string \<Rightarrow> string \<Rightarrow> bool \<Rightarrow> string \<times> string" where
  "split_content carried token is_last =
     (let content = carried @ token;
          complete_length = complete_utf8_prefix_length content;
          incomplete = drop complete_length content in
      if incomplete \<noteq> [] \<and> is_last then (take complete_length content @ incomplete, [])
      else (take complete_length content, incomplete))"

definition stream_on_token ::
  "bool \<Rightarrow> sink_env \<Rightarrow> string \<Rightarrow> bool \<Rightarrow> response_stats option \<Rightarrow> stream_state \<Rightarrow> stream_state" where
  "stream_on_token perf sk token is_last stats st =
     (if ss_cancelled st then st
      else
        let (writable, st) = is_writable sk st in
        if \<not> writable then stop_stream True st
        else
          let (content, incomplete) = split_content (incomplete_utf8 st) token is_last;
              st = st\<lparr>incomplete_utf8 := incomplete\<rparr>;
              (wrote_chunk, st) = timed_write perf sk (chunk_event content is_last stats) st in
          if \<not> wrote_chunk then stop_stream True st
          else if is_last then
            (let (wrote_done, st) = timed_write perf sk done_event st in stop_stream (\<not> wrote_done) st)
          else st)"

definition stream_on_error :: "sink_env \<Rightarrow> string \<Rightarrow> int \<Rightarrow> stream_state \<Rightarrow> stream_state" where
  "stream_on_error sk message status st =
     (if ss_cancelled st then st
      else
        let (writable, st) = is_writable sk st in
        if \<not> writable then stop_stream True st
        else
          let (wrote, st) = write_sink sk (error_event message status) st in
          if \<not> wrote then stop_stream True st
          else
            let (wrote_done, st) = write_sink sk done_event st in stop_stream (\<not> wrote_done) st)"

section \<open>The content provider\<close>

text \<open>The first call of the provider sets the callbacks and enqueues the request.\<close>

definition provider_enqueue :: "stream_state \<Rightarrow> bool \<times> stream_state" where
  "provider_enqueue st = (if ss_enqueued st then (False, st) else (True, st\<lparr>ss_enqueued := True\<rparr>))"

text \<open>
  One return of \<open>wait_for\<close>: when the stream is done the provider returns, otherwise two seconds
  have passed and it writes a keep-alive event.
\<close>

definition provider_wait :: "sink_env \<Rightarrow> stream_state \<Rightarrow> stream_state" where
  "provider_wait sk st =
     (if provider_returned st \<noteq> None then st
      else if ss_done st then
        (if ss_cancelled st then st\<lparr>provider_returned := Some False\<rparr>
         else st\<lparr>sink_done := True, provider_returned := Some True\<rparr>)
      else
        let (writable, st) = is_writable sk st in
        if \<not> writable then st\<lparr>ss_cancelled := True, provider_returned := Some False\<rparr>
        else
          let (wrote, st) = write_sink sk keep_alive_event st in
          if \<not> wrote then st\<lparr>ss_cancelled := True, provider_returned := Some False\<rparr> else st)"

text \<open>
  The worker's callbacks and the provider's waits take the mutex in turn, in any order.
\<close>

datatype stream_event =
    Piece string
  | FinalPiece string "response_stats option"
  | Problem string int
  | Wake

fun stream_step :: "bool \<Rightarrow> sink_env \<Rightarrow> stream_event \<Rightarrow> stream_state \<Rightarrow> stream_state" where
  "stream_step perf sk (Piece token) st = stream_on_token perf sk token False None st"
| "stream_step perf sk (FinalPiece token stats) st = stream_on_token perf sk token True stats st"
| "stream_step perf sk (Problem message status) st = stream_on_error sk message status st"
| "stream_step perf sk Wake st = provider_wait sk st"

definition run_stream :: "bool \<Rightarrow> sink_env \<Rightarrow> stream_event list \<Rightarrow> stream_state \<Rightarrow> stream_state" where
  "run_stream perf sk evs st = foldl (\<lambda>st ev. stream_step perf sk ev st) st evs"

end
