(* ===== verification/RF_Server.thy ===== *)
theory RF_Server
  imports RF_Stream RF_Worker
begin

text \<open>
  The HTTP server (src/http_server.cpp): the server's two flags, the guard of the administration
  endpoints, the texts of the observation endpoints, and the completion handler with its
  non-streaming answer. Routing, sockets and the transfer of a response are cpp-httplib's.
\<close>

section \<open>Responses\<close>

text \<open>\<open>status\<close> is \<open>None\<close> where the handler leaves the library's default.\<close>

record response =
  status :: "int option"
  content :: string
  content_type :: string
  headers :: "(string \<times> string) list"

definition no_response :: response where
  "no_response = \<lparr>status = None, content = [], content_type = [], headers = []\<rparr>"

definition set_content :: "string \<Rightarrow> string \<Rightarrow> response \<Rightarrow> response" where
  "set_content text kind res = res\<lparr>content := text, content_type := kind\<rparr>"

definition set_header :: "string \<Rightarrow> string \<Rightarrow> response \<Rightarrow> response" where
  "set_header key val res = res\<lparr>headers := headers res @ [(key, val)]\<rparr>"

definition set_status :: "int \<Rightarrow> response \<Rightarrow> response" where
  "set_status n res = res\<lparr>status := Some n\<rparr>"

definition allow_origin :: "response \<Rightarrow> response" where
  "allow_origin = set_header ''Access-Control-Allow-Origin'' ''*''"

definition json_content :: "string \<Rightarrow> response \<Rightarrow> response" where
  "json_content text = set_content text ''application/json''"

section \<open>The server\<close>

record server =
  srv_running :: bool
  srv_accepting :: bool

definition new_server :: server where
  "new_server = \<lparr>srv_running = False, srv_accepting = True\<rparr>"

text \<open>What \<open>start\<close> does before it listens, and after \<open>listen\<close> has returned.\<close>

definition start_server :: "server \<Rightarrow> server" where
  "start_server s = s\<lparr>srv_running := True, srv_accepting := True\<rparr>"

definition listen_returned :: "server \<Rightarrow> server" where
  "listen_returned s = s\<lparr>srv_running := False\<rparr>"

definition stop_server :: "server \<Rightarrow> server" where
  "stop_server s = s\<lparr>srv_running := False\<rparr>"

definition begin_drain :: "server \<Rightarrow> server" where
  "begin_drain s = s\<lparr>srv_accepting := False\<rparr>"

definition is_accepting :: "server \<Rightarrow> bool" where
  "is_accepting s = srv_accepting s"

definition on_http_error :: "response \<Rightarrow> response" where
  "on_http_error res =
     (if status res = Some 413
      then json_content (error_json ''request body too large'' ''invalid_request_error'') res else res)"

definition preflight :: "response \<Rightarrow> response" where
  "preflight res =
     set_status 204
      (set_header ''Access-Control-Allow-Headers'' ''Content-Type, Authorization''
       (set_header ''Access-Control-Allow-Methods'' ''POST, GET, OPTIONS'' (allow_origin res)))"

text \<open>The bytes E2 80 94 are the dash of the message.\<close>

definition unauthorized_text :: string where
  \<open>unauthorized_text = ''{"error":"Unauthorized '' @ [CHR 0xE2, CHR 0x80, CHR 0x94] @
     '' set Authorization: Bearer <admin-token>"}''\<close>

definition check_admin_auth :: "config \<Rightarrow> string \<Rightarrow> response \<Rightarrow> bool \<times> response" where
  "check_admin_auth cfg authorization res =
     (if admin_token cfg = [] then (True, res)
      else if authorization = ''Bearer '' @ admin_token cfg then (True, res)
      else (False, json_content unauthorized_text (set_status 401 res)))"

section \<open>Observation\<close>

text \<open>The format \<open>%.4f\<close> of a non-negative double, and \<open>snprintf\<close> into a buffer of \<open>n\<close> bytes.\<close>

definition fixed4 :: "rat \<Rightarrow> string" where
  "fixed4 x = (let n = nat (round_even (x * 10000)); frac = nat_text (n mod 10000) in
     nat_text (n div 10000) @ ''.'' @ replicate (4 - length frac) CHR ''0'' @ frac)"

definition printed :: "nat \<Rightarrow> string \<Rightarrow> string" where
  "printed n text = take (n - 1) text"

definition to_double :: "nat \<Rightarrow> rat" where
  "to_double n = round_signed 53 (-1074) (of_nat n)"

definition hit_rate :: "cache_metrics \<Rightarrow> rat" where
  "hit_rate m =
     (if total_requests m > 0
      then round_signed 53 (-1074) (to_double (hits m) / to_double (total_requests m)) else 0)"

text \<open>The file name of the model, up to a byte zero.\<close>

definition after_last :: "char \<Rightarrow> string \<Rightarrow> string" where
  "after_last c s = rev (takeWhile (\<lambda>d. d \<noteq> c) (rev s))"

definition model_file :: "config \<Rightarrow> string" where
  "model_file cfg = takeWhile (\<lambda>c. c \<noteq> CHR 0x00) (after_last CHR ''/'' (model_path cfg))"

definition health ::
  "config \<Rightarrow> server \<Rightarrow> bool \<Rightarrow> ('kv, 'w) worker_state \<Rightarrow> response \<Rightarrow> response option" where
  \<open>health cfg srv worker_running ws res =
     (if \<not> srv_running srv \<or> \<not> srv_accepting srv \<or> \<not> worker_running
      then Some (json_content ''{"status":"draining"}'' (set_status 503 res))
      else
        do { active_seqs \<leftarrow> active_sequence_count (tree (cm (wcore ws)));
             Some (json_content
               (printed 512
                 (''{"status":"ok","model":"'' @ model_file cfg @ ''","active_sequences":'' @ int_text active_seqs @
                  '',"pending_requests":'' @ nat_text (length (queue ws)) @
                  '',"cache_hit_rate":'' @ fixed4 (hit_rate (metrics (cm (wcore ws)))) @ ''}''))
               (allow_origin res)) })\<close>

record perf_metrics =
  queue_wait_us :: nat
  queue_wait_requests :: nat
  tokenize_us :: nat
  tokenize_calls :: nat
  cache_lookup_us :: nat
  cache_lookup_calls :: nat
  cache_insert_us :: nat
  cache_insert_calls :: nat
  prefill_decode_us :: nat
  prefill_decode_tokens :: nat
  generation_decode_us :: nat
  generation_decode_tokens :: nat
  sync_us :: nat
  sync_calls :: nat
  sampler_us :: nat
  sampler_calls :: nat
  callback_us :: nat
  callback_calls :: nat
  sse_write_us :: nat
  sse_writes :: nat

definition metric :: "string \<Rightarrow> string \<Rightarrow> string \<Rightarrow> string" where
  "metric name kind val = ''# TYPE '' @ name @ '' '' @ kind @ [CHR 0x0A] @ name @ '' '' @ val @ [CHR 0x0A]"

definition append_counter :: "string \<Rightarrow> nat \<Rightarrow> string" where
  "append_counter name val = metric name ''counter'' (nat_text val)"

definition perf_text :: "perf_metrics \<Rightarrow> string" where
  "perf_text p =
     append_counter ''radixforge_queue_wait_microseconds_total'' (queue_wait_us p) @
     append_counter ''radixforge_queue_wait_requests_total'' (queue_wait_requests p) @
     append_counter ''radixforge_tokenize_microseconds_total'' (tokenize_us p) @
     append_counter ''radixforge_tokenize_calls_total'' (tokenize_calls p) @
     append_counter ''radixforge_cache_lookup_microseconds_total'' (cache_lookup_us p) @
     append_counter ''radixforge_cache_lookup_calls_total'' (cache_lookup_calls p) @
     append_counter ''radixforge_cache_insert_microseconds_total'' (cache_insert_us p) @
     append_counter ''radixforge_cache_insert_calls_total'' (cache_insert_calls p) @
     append_counter ''radixforge_prefill_decode_microseconds_total'' (prefill_decode_us p) @
     append_counter ''radixforge_prefill_decode_tokens_total'' (prefill_decode_tokens p) @
     append_counter ''radixforge_generation_decode_microseconds_total'' (generation_decode_us p) @
     append_counter ''radixforge_generation_decode_tokens_total'' (generation_decode_tokens p) @
     append_counter ''radixforge_sync_microseconds_total'' (sync_us p) @
     append_counter ''radixforge_sync_calls_total'' (sync_calls p) @
     append_counter ''radixforge_sampler_microseconds_total'' (sampler_us p) @
     append_counter ''radixforge_sampler_calls_total'' (sampler_calls p) @
     append_counter ''radixforge_callback_microseconds_total'' (callback_us p) @
     append_counter ''radixforge_callback_calls_total'' (callback_calls p) @
     append_counter ''radixforge_sse_write_microseconds_total'' (sse_write_us p) @
     append_counter ''radixforge_sse_writes_total'' (sse_writes p)"

definition metrics_response ::
  "perf_metrics option \<Rightarrow> nat \<Rightarrow> ('kv, 'w) worker_state \<Rightarrow> response \<Rightarrow> response option" where
  "metrics_response perf cancelled_requests ws res =
     (let m = cm (wcore ws); c = metrics m in
      do { nodes \<leftarrow> node_count (tree m);
           Some (set_content
             (metric ''radixforge_requests_total'' ''counter'' (nat_text (total_requests c)) @
              metric ''radixforge_cache_hit_tokens_total'' ''counter'' (nat_text (cache_hit_tokens c)) @
              metric ''radixforge_prompt_tokens_total'' ''counter'' (nat_text (prompt_tokens c)) @
              metric ''radixforge_evictions_total'' ''counter'' (nat_text (evictions c)) @
              metric ''radixforge_cancelled_requests_total'' ''counter'' (nat_text cancelled_requests) @
              metric ''radixforge_active_sequences'' ''gauge'' (int_text (mapper_active_count m)) @
              metric ''radixforge_retained_sequences'' ''gauge'' (int_text (mapper_retained_count m)) @
              metric ''radixforge_kv_cells_used'' ''gauge'' (int_text (kv_cells_used m)) @
              metric ''radixforge_tree_nodes'' ''gauge'' (int_text nodes) @
              (case perf of None \<Rightarrow> [] | Some p \<Rightarrow> perf_text p))
             ''text/plain; version=0.0.4; charset=utf-8'' (allow_origin res)) })"

definition admin_stats ::
  "config \<Rightarrow> string \<Rightarrow> ('kv, 'w) worker_state \<Rightarrow> response \<Rightarrow> response option" where
  \<open>admin_stats cfg authorization ws res =
     (case check_admin_auth cfg authorization res of
        (False, res) \<Rightarrow> Some res
      | (True, res) \<Rightarrow>
          do { active_seqs \<leftarrow> active_sequence_count (tree (cm (wcore ws)));
               let m = metrics (cm (wcore ws)) in
               Some (json_content
                 (printed 768
                   (''{"active_sequences":'' @ int_text active_seqs @
                    '',"generating_sequences":'' @ nat_text (generating ws) @
                    '',"pending_requests":'' @ nat_text (length (queue ws)) @
                    '',"decode_steps":'' @ nat_text (decode_steps (wcore ws)) @
                    '',"prefill_tokens":'' @ int_text (prefill_tokens (wcore ws)) @
                    '',"prefill_calls":'' @ nat_text (prefill_calls (wcore ws)) @
                    '',"cache":{"hits":'' @ nat_text (hits m) @ '',"misses":'' @ nat_text (misses m) @
                    '',"evictions":'' @ nat_text (evictions m) @
                    '',"total_requests":'' @ nat_text (total_requests m) @
                    '',"hit_rate":'' @ fixed4 (hit_rate m) @ ''}}''))
                 (allow_origin res)) })\<close>

section \<open>Completions\<close>

text \<open>A default request, with the number its callbacks are known by.\<close>

definition default_request :: "nat \<Rightarrow> inference_request" where
  "default_request i = \<lparr>rq_id = i, rq_prompt = [], rq_messages = [], rq_max_tokens = 4096,
     rq_temperature = float_0_7, rq_top_p = float_0_9, rq_stream = True, rq_cancel_armed = True\<rparr>"

datatype handling =
    Answer response
  | Streaming inference_request
  | Collecting inference_request

text \<open>
  The part of \<open>handle_completion\<close> before the request is enqueued. \<open>None\<close> is the undefined
  conversion of \<open>parse_request_body\<close>. A request that is enqueued is answered with the header.
\<close>

definition handle_completion :: "config \<Rightarrow> server \<Rightarrow> nat \<Rightarrow> string \<Rightarrow> handling option" where
  "handle_completion cfg srv i body =
     (if \<not> srv_accepting srv
      then Some (Answer (json_content (error_json ''server is draining'' ''server_error'') (set_status 503 no_response)))
      else
        do { parsed \<leftarrow> parse_request_body body (default_request i) cfg;
             Some (case parsed of
               Inl e \<Rightarrow> Answer (json_content (error_json e ''invalid_request_error'') (set_status 400 no_response))
             | Inr req \<Rightarrow>
                 if rq_prompt req = [] \<and> rq_messages req = []
                 then Answer (json_content (error_json ''no prompt or messages'' ''invalid_request_error'')
                                (set_status 400 no_response))
                 else if rq_stream req then Streaming req
                 else Collecting (req\<lparr>rq_stream := False\<rparr>)) })"

text \<open>
  The state of a collected answer. The callbacks read the cancellation flag before they take the
  lock; a cancellation in between only changes a text that nobody reads any more, so a callback is
  one step here.
\<close>

record collect_state =
  full_response :: string
  collected_stats :: response_stats
  cl_cancelled :: bool
  cl_done :: bool
  error_status :: int
  error_message :: string

definition new_collect :: collect_state where
  "new_collect = \<lparr>full_response = [], collected_stats = \<lparr>prompt_n = 0, cache_n = 0, stat_prompt_tokens = 0,
     predicted_n = 0, prompt_ms = 0, predicted_ms = 0\<rparr>, cl_cancelled = False, cl_done = False, error_status = 0,
     error_message = []\<rparr>"

definition collect_on_token :: "string \<Rightarrow> bool \<Rightarrow> response_stats option \<Rightarrow> collect_state \<Rightarrow> collect_state" where
  "collect_on_token token is_last stats st =
     (if cl_cancelled st then st
      else
        let st = st\<lparr>full_response := full_response st @ token\<rparr> in
        if is_last then
          (let st = (case stats of None \<Rightarrow> st | Some s \<Rightarrow> st\<lparr>collected_stats := s\<rparr>) in st\<lparr>cl_done := True\<rparr>)
        else st)"

definition collect_on_error :: "string \<Rightarrow> int \<Rightarrow> collect_state \<Rightarrow> collect_state" where
  "collect_on_error message code st =
     (if cl_cancelled st then st
      else st\<lparr>error_status := code, error_message := message, cl_done := True\<rparr>)"

definition collect_poll :: "bool \<Rightarrow> collect_state \<Rightarrow> bool" where
  "collect_poll connection_closed st \<longleftrightarrow> cl_cancelled st \<or> connection_closed"

fun collect_step :: "stream_event \<Rightarrow> collect_state \<Rightarrow> collect_state" where
  "collect_step (Piece token) st = collect_on_token token False None st"
| "collect_step (FinalPiece token stats) st = collect_on_token token True stats st"
| "collect_step (Problem message code) st = collect_on_error message code st"
| "collect_step Wake st = st"

definition run_collect :: "stream_event list \<Rightarrow> collect_state \<Rightarrow> collect_state" where
  "run_collect evs st = foldl (\<lambda>st ev. collect_step ev st) st evs"

text \<open>The answer when \<open>wait_for\<close> returns, because the worker is done or the time is over.\<close>

definition collect_response :: "bool \<Rightarrow> collect_state \<Rightarrow> response \<times> collect_state" where
  "collect_response is_chat st =
     (let res = allow_origin no_response in
      if \<not> cl_done st then
        (json_content (error_json ''inference timeout'' ''timeout_error'') (set_status 504 res), st\<lparr>cl_cancelled := True\<rparr>)
      else if error_status st \<noteq> 0 then
        (json_content (error_json (error_message st) (error_kind (error_status st))) (set_status (error_status st) res), st)
      else (json_content (completion_json (full_response st) (collected_stats st) is_chat) res, st))"

end
