(* ===== verification/RF_Utf8.thy ===== *)
theory RF_Utf8
  imports RF_OpenAI
begin

text \<open>
  UTF-8: the well-formed characters of the Unicode standard (table 3-7), and the split of a
  text before its last, incomplete character.
\<close>

section \<open>Well-formed characters\<close>

fun wf_bytes :: "nat list \<Rightarrow> bool" where
  "wf_bytes [a] \<longleftrightarrow> a < 0x80"
| "wf_bytes [a, b] \<longleftrightarrow> 0xC2 \<le> a \<and> a \<le> 0xDF \<and> 0x80 \<le> b \<and> b \<le> 0xBF"
| "wf_bytes [a, b, c] \<longleftrightarrow>
     0xE0 \<le> a \<and> a \<le> 0xEF \<and> (if a = 0xE0 then 0xA0 else 0x80) \<le> b \<and> b \<le> (if a = 0xED then 0x9F else 0xBF) \<and>
     0x80 \<le> c \<and> c \<le> 0xBF"
| "wf_bytes [a, b, c, d] \<longleftrightarrow>
     0xF0 \<le> a \<and> a \<le> 0xF4 \<and> (if a = 0xF0 then 0x90 else 0x80) \<le> b \<and> b \<le> (if a = 0xF4 then 0x8F else 0xBF) \<and>
     0x80 \<le> c \<and> c \<le> 0xBF \<and> 0x80 \<le> d \<and> d \<le> 0xBF"
| "wf_bytes _ \<longleftrightarrow> False"

definition utf8_char :: "string \<Rightarrow> bool" where
  "utf8_char c \<longleftrightarrow> wf_bytes (map of_char c)"

definition utf8_text :: "string \<Rightarrow> bool" where
  "utf8_text s \<longleftrightarrow> (\<exists>cs. (\<forall>c \<in> set cs. utf8_char c) \<and> s = concat cs)"

text \<open>The begin of a character that is not complete.\<close>

definition utf8_begin :: "string \<Rightarrow> bool" where
  "utf8_begin s \<longleftrightarrow> s = [] \<or> (\<exists>c r. utf8_char c \<and> c = s @ r \<and> r \<noteq> [])"

text \<open>What the split relies on: a lead byte that tells the length, and continuation bytes.\<close>

definition lead_shape :: "string \<Rightarrow> bool" where
  "lead_shape c \<longleftrightarrow> c \<noteq> [] \<and> \<not> is_continuation (hd c) \<and> (\<forall>b \<in> set (tl c). is_continuation b) \<and>
     length c = expected_length (hd c)"

lemma high_bits: "n AND 0xC0 = 64 * (n div 64 mod (4::nat))"
proof -
  have "n AND push_bit 6 (mask 2) = push_bit 6 (take_bit 2 (drop_bit 6 n))"
    by (rule bit_eqI) (auto simp: bit_simps)
  then show ?thesis by (simp add: push_bit_eq_mult drop_bit_eq_div take_bit_eq_mod mask_eq_exp_minus_1)
qed

lemma is_continuation_range: "is_continuation c \<longleftrightarrow> 0x80 \<le> (of_char c :: nat) \<and> (of_char c :: nat) < 0xC0"
proof -
  define n :: nat where "n = of_char c"
  have "n < 256" by (simp add: n_def)
  then have "n div 64 < 4" by (simp add: less_mult_imp_div_less)
  then have "is_continuation c \<longleftrightarrow> n div 64 = 2" by (simp add: is_continuation_def high_bits flip: n_def)
  also have "\<dots> \<longleftrightarrow> 0x80 \<le> n \<and> n < 0xC0" by auto
  finally show ?thesis by (simp add: n_def)
qed

lemma expected_length_range:
  "expected_length c =
     (let n = (of_char c :: nat) in
      if 0xF0 \<le> n \<and> n \<le> 0xF4 then 4 else if 0xE0 \<le> n \<and> n \<le> 0xEF then 3 else if 0xC2 \<le> n \<and> n \<le> 0xDF then 2 else 1)"
  by (simp add: expected_length_def less_eq_char_def Let_def)

lemma utf8_char_shape: "utf8_char c \<Longrightarrow> lead_shape c"
  unfolding utf8_char_def lead_shape_def
  by (cases "map of_char c :: nat list" rule: wf_bytes.cases)
    (auto simp: is_continuation_range expected_length_range Let_def split: if_splits)

lemma expected_length_le: "1 \<le> expected_length c \<and> expected_length c \<le> 4"
  by (simp add: expected_length_def)

section \<open>The split\<close>

lemma trailing_continuations_scan:
  assumes "\<not> is_continuation l" "\<forall>b \<in> set bs. is_continuation b"
  shows "j \<le> length bs \<Longrightarrow> k + j \<le> 3 \<Longrightarrow>
    trailing_continuations (pre @ l # bs) (Suc (length pre) + j) k = (Suc (length pre), k + j)"
proof (induction j arbitrary: k)
  case 0 then show ?case using assms by simp
next
  case (Suc j)
  have "is_continuation (bs ! j)" using assms(2) Suc.prems(1) by simp
  moreover have "(pre @ l # bs) ! (Suc (length pre) + j) = bs ! j" by (simp add: nth_append)
  ultimately show ?case using Suc.IH [of "k + 1"] Suc.prems by simp
qed

text \<open>The split of a text that ends in a lead byte and continuation bytes.\<close>

lemma complete_prefix_lead:
  assumes l: "\<not> is_continuation l" and bs: "\<forall>b \<in> set bs. is_continuation b" "length bs \<le> 3"
  shows "complete_utf8_prefix_length (pre @ l # bs) =
    (if expected_length l > length bs + 1 then length pre else length pre + 1 + length bs)"
proof -
  have s: "trailing_continuations (pre @ l # bs) (Suc (length pre + length bs)) 0 = (Suc (length pre), length bs)"
    using trailing_continuations_scan [OF l bs(1), of "length bs" 0 pre] bs(2) by simp
  have t: "length (pre @ l # bs) = Suc (length pre + length bs)" "pre @ l # bs \<noteq> []" by simp_all
  show ?thesis unfolding complete_utf8_prefix_length_def t(1) s
    by (cases "bs = []") (simp_all add: nth_append)
qed

lemma complete_prefix_begin:
  assumes "utf8_begin s"
  shows "complete_utf8_prefix_length (pre @ s) = length pre \<or> s = []"
proof (cases s)
  case (Cons l bs)
  then obtain c r where c: "lead_shape c" "c = l # bs @ r" "r \<noteq> []"
    using assms utf8_char_shape by (auto simp: utf8_begin_def)
  then have "\<not> is_continuation l" "\<forall>b \<in> set bs. is_continuation b" "length bs + 1 < expected_length l"
    by (auto simp: lead_shape_def simp flip: length_greater_0_conv)
  then show ?thesis using complete_prefix_lead [of l bs pre] expected_length_le [of l] Cons by simp
qed simp

lemma complete_prefix_char:
  assumes "utf8_char c"
  shows "complete_utf8_prefix_length (pre @ c) = length (pre @ c)"
proof -
  obtain l bs where c: "c = l # bs" using utf8_char_shape [OF assms] by (cases c) (auto simp: lead_shape_def)
  have "\<not> is_continuation l" "\<forall>b \<in> set bs. is_continuation b" "length bs + 1 = expected_length l"
    using utf8_char_shape [OF assms] c by (auto simp: lead_shape_def)
  then show ?thesis using complete_prefix_lead [of l bs pre] expected_length_le [of l] c by simp
qed

lemma complete_prefix_text:
  assumes "utf8_text s" "utf8_begin t"
  shows "complete_utf8_prefix_length (s @ t) = length s"
proof (cases "t = []")
  case False then show ?thesis using complete_prefix_begin [OF assms(2), of s] by simp
next
  case True
  obtain cs where cs: "\<forall>c \<in> set cs. utf8_char c" "s = concat cs" using assms(1) by (auto simp: utf8_text_def)
  show ?thesis
  proof (cases cs rule: rev_cases)
    case Nil then show ?thesis using cs True by (simp add: complete_utf8_prefix_length_def)
  next
    case (snoc ds c) then show ?thesis using cs True complete_prefix_char [of c "concat ds"] by simp
  qed
qed

text \<open>Every begin of a text splits into a text and the begin of a character.\<close>

lemma utf8_text_Nil [simp]: "utf8_text []"
  by (auto simp: utf8_text_def intro: exI [of _ "[]"])

lemma utf8_text_append: "utf8_text s \<Longrightarrow> utf8_text t \<Longrightarrow> utf8_text (s @ t)"
  unfolding utf8_text_def by (metis concat_append set_append Un_iff)

lemma utf8_text_char: "utf8_char c \<Longrightarrow> utf8_text c"
  by (auto simp: utf8_text_def intro: exI [of _ "[c]"])

lemma utf8_concat_split:
  "\<forall>c \<in> set cs. utf8_char c \<Longrightarrow> concat cs = s @ r \<Longrightarrow>
   \<exists>s1 t. s = s1 @ t \<and> utf8_text s1 \<and> utf8_begin t \<and> utf8_text (t @ r)"
proof (induction cs arbitrary: s)
  case Nil then show ?case by (auto simp: utf8_begin_def)
next
  case (Cons c cs)
  have rest: "utf8_text (concat cs)" using Cons.prems(1) by (auto simp: utf8_text_def)
  consider (long) u where "s = c @ u" "concat cs = u @ r" | (short) u where "c = s @ u" "u \<noteq> []" "r = u @ concat cs"
  proof -
    from Cons.prems(2) obtain u where u: "c = s @ u \<and> u @ concat cs = r \<or> s = c @ u \<and> concat cs = u @ r"
      by (auto simp: append_eq_append_conv2)
    then show thesis using long [of u] long [of "[]"] short [of u] by (cases "u = []") auto
  qed
  then show ?case
  proof cases
    case long
    then obtain s1 t where "u = s1 @ t" "utf8_text s1" "utf8_begin t" "utf8_text (t @ r)"
      using Cons.IH [of u] Cons.prems(1) by auto
    then show ?thesis using long utf8_text_append [OF utf8_text_char, of c s1] Cons.prems(1)
      by (intro exI [of _ "c @ s1"] exI [of _ t]) simp
  next
    case short
    then have "utf8_begin s" "utf8_text (s @ r)"
      using Cons.prems(1) utf8_text_append [OF utf8_text_char rest, of c] by (auto simp: utf8_begin_def)
    then show ?thesis by (intro exI [of _ "[]"] exI [of _ s]) simp
  qed
qed

lemma utf8_text_split:
  assumes "utf8_text (s @ r)"
  obtains s1 t where "s = s1 @ t" "utf8_text s1" "utf8_begin t" "utf8_text (t @ r)"
  using assms utf8_concat_split unfolding utf8_text_def by metis

text \<open>
  C30. The split agrees with the definition of UTF-8: a text of well-formed characters followed
  by the begin of one more, not complete, is cut exactly between the two, so that no byte of a
  complete character is held back and no begin of a character is let through.
\<close>

theorem complete_prefix_is_utf8:
  assumes "utf8_text s" "utf8_begin t"
  shows "complete_utf8_prefix_length (s @ t) = length s"
  using assms by (rule complete_prefix_text)

theorem complete_prefix_is_utf8_witness:
  "complete_utf8_prefix_length ([CHR ''a'', CHR 0xC3, CHR 0xA9] @ [CHR 0xF0, CHR 0x9F]) = 3"
proof -
  have "utf8_text [CHR ''a'', CHR 0xC3, CHR 0xA9]" unfolding utf8_text_def
    by (rule exI [of _ "[''a'', [CHR 0xC3, CHR 0xA9]]"]) (simp add: utf8_char_def)
  moreover have "utf8_begin [CHR 0xF0, CHR 0x9F]" unfolding utf8_begin_def
    by (rule disjI2, rule exI [of _ "[CHR 0xF0, CHR 0x9F, CHR 0x98, CHR 0x80]"]) (simp add: utf8_char_def)
  ultimately show ?thesis using complete_prefix_is_utf8 [of "[CHR ''a'', CHR 0xC3, CHR 0xA9]" "[CHR 0xF0, CHR 0x9F]"] by simp
qed

end
