(* ===== verification/RF_Numbers.thy ===== *)
theory RF_Numbers
  imports RF_OpenAI
begin

text \<open>
  Rounding to binary floating point: the exponent brackets the value, a rounded value has a
  mantissa of the format's width, and integers within that width are exact.
\<close>

lemma pow2_power_int: "pow2 e = 2 powi e"
  by (simp add: pow2_def power_int_def inverse_eq_divide power_one_over)

lemma pow2_pos [simp]: "0 < pow2 e"
  by (simp add: pow2_def)

lemma pow2_nonneg [simp]: "0 \<le> pow2 e"
  by (simp add: pow2_def)

lemma pow2_not_zero [simp]: "pow2 e \<noteq> 0"
  using pow2_pos [of e] by linarith

lemma pow2_add: "pow2 (a + b) = pow2 a * pow2 b"
  by (simp add: pow2_power_int power_int_add)

lemma pow2_mono: "a \<le> b \<Longrightarrow> pow2 a \<le> pow2 b"
  unfolding pow2_power_int by (rule power_int_increasing) simp_all

lemma pow2_nat: "pow2 (int n) = of_int (2 ^ n)"
  by (simp add: pow2_def)

lemma bitlen_bracket:
  assumes "0 < p"
  shows "pow2 (bitlen p - 1) \<le> of_int p" "of_int p < pow2 (bitlen p)"
proof -
  have "0 < bitlen p" using assms by (simp add: bitlen_alt_def)
  then obtain n where n: "bitlen p = int n + 1" using zero_less_imp_eq_int [of "bitlen p"]
    by (metis Suc_pred' of_nat_1 of_nat_add of_nat_0_less_iff Suc_eq_plus1)
  have b: "2 ^ n \<le> p \<and> p < 2 ^ (n + 1)" using bitlen_bounds [OF assms] n by (simp add: nat_add_distrib)
  have "pow2 (bitlen p - 1) = of_int (2 ^ n)" "pow2 (bitlen p) = of_int (2 ^ (n + 1))"
    using n pow2_nat [of n] pow2_nat [of "n + 1"] by (simp_all add: add.commute)
  then show "pow2 (bitlen p - 1) \<le> of_int p" "of_int p < pow2 (bitlen p)"
    using b by (simp_all only: of_int_le_iff of_int_less_iff)
qed

lemma binary_exponent_bracket:
  assumes "0 < x"
  shows "pow2 (binary_exponent x) \<le> x \<and> x < pow2 (binary_exponent x + 1)"
proof -
  obtain p q where pq: "quotient_of x = (p, q)" by (cases "quotient_of x")
  have x: "x = of_int p / of_int q" "0 < q" using quotient_of_div [OF pq] quotient_of_denom_pos [OF pq] by auto
  then have p: "0 < p" using assms by (simp add: zero_less_divide_iff)
  let ?k = "bitlen p" and ?l = "bitlen q"
  note bp = bitlen_bracket [OF p] and bq = bitlen_bracket [OF x(2)]
  have xq: "x * of_int q = of_int p" using x by simp
  have "pow2 (?k - 1 - ?l) * of_int q \<le> pow2 (?k - 1 - ?l) * pow2 ?l" using bq(2) by (intro mult_left_mono) simp_all
  also have "\<dots> = pow2 (?k - 1)" by (simp flip: pow2_add)
  also have "\<dots> \<le> x * of_int q" using bp(1) xq by simp
  finally have low: "pow2 (?k - 1 - ?l) \<le> x" using x(2) by simp
  have "x * of_int q < pow2 ?k" using bp(2) xq by simp
  also have "\<dots> = pow2 (?k - ?l + 1) * pow2 (?l - 1)" by (simp flip: pow2_add)
  also have "\<dots> \<le> pow2 (?k - ?l + 1) * of_int q" using bq(1) by (intro mult_left_mono) simp_all
  finally have high: "x < pow2 (?k - ?l + 1)" using x(2) by simp
  show ?thesis
  proof (cases "pow2 (?k - ?l) \<le> x")
    case True then show ?thesis using high by (simp add: binary_exponent_def pq)
  next
    case False
    have "?k - ?l - 1 = ?k - 1 - ?l" by simp
    then have "pow2 (?k - ?l - 1) \<le> x" using low by (simp only:)
    then show ?thesis using False by (simp add: binary_exponent_def pq)
  qed
qed

lemma round_even_int [simp]: "round_even (of_int n) = n"
  by (simp add: round_even_def)

lemma round_even_le:
  assumes "x \<le> of_int n"
  shows "round_even x \<le> n"
proof (cases "\<lfloor>x\<rfloor> = n")
  case True
  then have "x = of_int n" using assms by linarith
  then show ?thesis by simp
next
  case False
  then have "\<lfloor>x\<rfloor> + 1 \<le> n" using assms by linarith
  then show ?thesis by (auto simp: round_even_def Let_def)
qed

lemma round_even_error: "\<bar>of_int (round_even y) - y\<bar> \<le> 1 / 2"
proof -
  have "of_int \<lfloor>y\<rfloor> \<le> y \<and> y < of_int \<lfloor>y\<rfloor> + 1" by linarith
  then show ?thesis by (auto simp: round_even_def Let_def abs_le_iff split: if_splits)
qed

lemma round_even_nonneg: "0 \<le> x \<Longrightarrow> 0 \<le> round_even x"
  by (auto simp: round_even_def Let_def)

definition representable :: "nat \<Rightarrow> int \<Rightarrow> rat \<Rightarrow> bool" where
  "representable p emin y \<longleftrightarrow> (\<exists>m e. y = of_int m * pow2 e \<and> \<bar>m\<bar> \<le> 2 ^ p \<and> emin \<le> e)"

lemma round_binary_mantissa:
  assumes "0 < x"
  shows "\<exists>m. round_binary (int p) emin x = of_int m * pow2 (max (binary_exponent x - (int p - 1)) emin) \<and> 0 \<le> m \<and> m \<le> 2 ^ p"
proof -
  let ?e = "max (binary_exponent x - (int p - 1)) emin"
  have "x < pow2 (binary_exponent x + 1)" using binary_exponent_bracket [OF assms] by simp
  also have "\<dots> \<le> pow2 (int p + ?e)" by (rule pow2_mono) simp
  also have "\<dots> = of_int (2 ^ p) * pow2 ?e" by (simp only: pow2_add pow2_nat)
  finally have "x / pow2 ?e \<le> of_int (2 ^ p)" by (simp only: pos_divide_le_eq pow2_pos less_imp_le)
  then have "round_even (x / pow2 ?e) \<le> 2 ^ p" by (rule round_even_le)
  moreover have "0 \<le> round_even (x / pow2 ?e)" using assms by (intro round_even_nonneg) simp
  ultimately show ?thesis by (auto simp: round_binary_def Let_def)
qed

lemma round_signed_representable: "representable p emin (round_signed (int p) emin x)"
proof -
  have pos: "representable p emin (round_binary (int p) emin y) \<and> representable p emin (- round_binary (int p) emin y)"
    if y: "0 < y" for y
  proof -
    obtain m e where m: "round_binary (int p) emin y = of_int m * pow2 e" "0 \<le> m" "m \<le> 2 ^ p" "emin \<le> e"
      using round_binary_mantissa [OF y, of p emin] by (metis max.cobounded2)
    have "- round_binary (int p) emin y = of_int (- m) * pow2 e" using m(1) by simp
    moreover have "\<bar>m\<bar> \<le> 2 ^ p" "\<bar>- m\<bar> \<le> 2 ^ p" using m by auto
    ultimately show ?thesis using m(1,4) unfolding representable_def by blast
  qed
  have "representable p emin 0" by (auto simp: representable_def intro!: exI [of _ "0::int"] exI [of _ emin])
  then show ?thesis using pos [of x] pos [of "- x"] by (auto simp: round_signed_def)
qed

lemma binary_exponent_int: "0 < i \<Longrightarrow> binary_exponent (of_int i) \<le> bitlen i - 1"
proof -
  assume i: "0 < i"
  have "quotient_of (rat_of_int i) = (i, 1)" by simp
  then show ?thesis using i by (simp add: binary_exponent_def bitlen_alt_def Let_def)
qed

lemma round_binary_int:
  assumes "0 < i" "i < 2 ^ p" "emin \<le> 0"
  shows "round_binary (int p) emin (of_int i) = of_int i"
proof -
  let ?e = "max (binary_exponent (of_int i) - (int p - 1)) emin"
  have "bitlen i \<le> int p" using assms by (simp add: bitlen_le_iff_power)
  then have "?e \<le> 0" using binary_exponent_int [OF assms(1)] assms(3) by simp
  then obtain k where k: "?e = - int k" by (metis zle_iff_zadd add.inverse_inverse add_eq_0_iff minus_equation_iff nonpos_int_cases)
  have "of_int i / pow2 ?e = of_int (i * 2 ^ k)"
    unfolding k by (cases "k = 0") (simp_all add: pow2_def)
  then have "round_binary (int p) emin (of_int i) = of_int (i * 2 ^ k) * pow2 ?e" by (simp only: round_binary_def Let_def round_even_int)
  also have "\<dots> = of_int i" unfolding k by (cases "k = 0") (simp_all add: pow2_def)
  finally show ?thesis .
qed

lemma round_signed_int:
  assumes "\<bar>i\<bar> < 2 ^ p" "emin \<le> 0"
  shows "round_signed (int p) emin (of_int i) = of_int i"
  using round_binary_int [of i p emin] round_binary_int [of "- i" p emin] assms
  by (auto simp: round_signed_def)

end
