(* ===== verification/RF_JsonTotal.thy ===== *)
theory RF_JsonTotal
  imports RF_Json
begin

text \<open>
  The parser returns on every input, and what it accepts is nested at most as deep as the limit
  allows.
\<close>

section \<open>The parser consumes its input\<close>

lemma skip_ws_length: "length (skip_ws s) \<le> length s"
  by (simp add: skip_ws_def length_dropWhile_le)

lemma skip_ws_rest: "skip_ws s = c # r \<Longrightarrow> length r < length s"
  using skip_ws_length [of s] by simp

lemma expect_rest: "expect c s = Inr r \<Longrightarrow> length r < length s"
  by (auto simp: expect_def split: list.splits if_splits dest: skip_ws_rest)

lemma string_body_rest: "string_body acc s = Inr (x, r) \<Longrightarrow> length r < length s"
proof (induction acc s arbitrary: x r rule: string_body.induct)
  case 1 then show ?case by simp
next
  case (2 acc c s)
  consider "c = CHR 0x22" | "c \<noteq> CHR 0x22" "c < CHR 0x20" | "c \<noteq> CHR 0x22" "\<not> c < CHR 0x20" "c \<noteq> CHR 0x5C"
    | "c = CHR 0x5C" "s = []" | e s1 where "c = CHR 0x5C" "s = e # s1"
    by (cases s) blast+
  then show ?case
  proof cases
    case 1 then show ?thesis using "2.prems" by simp
  next
    case 2 then show ?thesis using "2.prems" by simp
  next
    case 3 then show ?thesis using "2.prems" "2.IH"(1) by fastforce
  next
    case 4 then show ?thesis using "2.prems" by simp
  next
    case (5 e s1)
    have bs: "CHR 0x5C \<noteq> CHR 0x22" "\<not> CHR 0x5C < CHR 0x20" by (simp_all add: less_char_def)
    show ?thesis
    proof (cases "simple_escape e")
      case (Some y)
      then have "string_body (acc @ [y]) s1 = Inr (x, r)" using "2.prems" 5 bs by simp
      then show ?thesis using "2.IH"(3) [of e s1 y] 5 bs Some by fastforce
    next
      case None
      obtain acc' s2 where u: "e = CHR ''u''" "append_unicode_escape acc s1 = Inr (acc', s2)" "string_body acc' s2 = Inr (x, r)"
        using "2.prems" 5 bs None by (auto split: if_splits sum.splits)
      have "length r < length s2" using "2.IH"(2) [of e s1 "(acc', s2)" acc' s2] 5 bs None u by auto
      then show ?thesis using unicode_escape_rest [OF u(2)] 5 by simp
    qed
  qed
qed

lemma parse_string_rest: "parse_string s = Inr (x, r) \<Longrightarrow> length r < length s"
  by (auto simp: parse_string_def split: sum.splits dest!: expect_rest string_body_rest)

lemma scan_digits_text: "scan_digits msg s = Inr (ds, r) \<Longrightarrow> s = ds @ r \<and> ds \<noteq> []"
  by (auto simp: scan_digits_def split: if_splits)

lemma scan_integer_text: "scan_integer s = Inr (ds, r) \<Longrightarrow> s = ds @ r \<and> ds \<noteq> []"
  by (cases s) (auto simp: scan_integer_def split: if_splits)

lemma scan_fraction_text: "scan_fraction s = Inr (fs, r) \<Longrightarrow> s = fs @ r"
  by (auto simp: scan_fraction_def split: list.splits char.splits bool.splits sum.splits prod.splits dest!: scan_digits_text)

lemma scan_exponent_text: "scan_exponent s = Inr (es, r) \<Longrightarrow> s = es @ r"
proof (cases s)
  case (Cons c s')
  assume a: "scan_exponent s = Inr (es, r)"
  let ?sgn = "if s' \<noteq> [] \<and> (hd s' = CHR ''+'' \<or> hd s' = CHR ''-'') then [hd s'] else []"
  have s': "s' = ?sgn @ drop (length ?sgn) s'" by (cases s') auto
  show ?thesis
  proof (cases "c = CHR ''e'' \<or> c = CHR ''E''")
    case True
    then obtain ds where d: "scan_digits ''invalid JSON number exponent'' (drop (length ?sgn) s') = Inr (ds, r)" "es = c # ?sgn @ ds"
      using a Cons by (auto simp: scan_exponent_def Let_def split: sum.splits if_splits)
    then have "drop (length ?sgn) s' = ds @ r" using scan_digits_text by blast
    then have "s' = ?sgn @ ds @ r" using s' by metis
    then show ?thesis using d(2) Cons by (simp del: append_assoc add: append_assoc [symmetric])
  next
    case False then show ?thesis using a Cons by (simp add: scan_exponent_def)
  qed
qed (simp add: scan_exponent_def)

text \<open>The text of a number is what the parser passes over.\<close>

lemma scan_number_text:
  assumes "scan_number s = Inr (text, r)"
  shows "s = text @ r \<and> text \<noteq> []"
proof -
  let ?sgn = "if s \<noteq> [] \<and> hd s = CHR ''-'' then ''-'' else []"
  have s: "s = ?sgn @ drop (length ?sgn) s" by (cases s) auto
  obtain ds s1 fs s2 es where "scan_integer (drop (length ?sgn) s) = Inr (ds, s1)" "scan_fraction s1 = Inr (fs, s2)"
    "scan_exponent s2 = Inr (es, r)" "text = ?sgn @ ds @ fs @ es"
    using assms by (auto simp: scan_number_def Let_def split: sum.splits)
  then have "drop (length ?sgn) s = ds @ fs @ es @ r" "ds \<noteq> []" "text = ?sgn @ ds @ fs @ es"
    using scan_integer_text scan_fraction_text scan_exponent_text by metis+
  then show ?thesis using s by (metis append.assoc append_is_Nil_conv)
qed

lemma parse_number_rest: "parse_number s = Inr (v, r) \<Longrightarrow> length r < length s"
  by (auto simp: parse_number_def split: sum.splits option.splits dest!: scan_number_text)

lemma take_keyword: "take n s = w \<Longrightarrow> length w = n \<Longrightarrow> 0 < n \<Longrightarrow> length (drop n s) < length s"
  by (cases s) auto

lemma parse_bool_rest: "parse_bool s = Inr (v, r) \<Longrightarrow> length r < length s"
  by (cases s) (auto simp: parse_bool_def split: if_splits)

lemma parse_null_rest: "parse_null s = Inr (v, r) \<Longrightarrow> length r < length s"
  by (cases s) (auto simp: parse_null_def split: if_splits)

section \<open>The parser returns\<close>

definition consumes :: "string \<Rightarrow> json result option \<Rightarrow> bool" where
  "consumes s res \<longleftrightarrow> (\<exists>r. res = Some r \<and> (\<forall>v rest. r = Inr (v, rest) \<longrightarrow> length rest < length s))"

definition good_parser :: "(string \<Rightarrow> json result option) \<Rightarrow> bool" where
  "good_parser p \<longleftrightarrow> (\<forall>s. consumes s (p s))"

lemma good_parserD: "good_parser p \<Longrightarrow> p s = Some (Inr (x, r)) \<Longrightarrow> length r < length s"
  unfolding good_parser_def consumes_def by (metis option.inject)

text \<open>Induction over the depth, up to the limit.\<close>

lemma depth_induct [case_names step]:
  assumes "\<And>depth. (depth \<le> kMaxDepth \<Longrightarrow> Q (depth + 1)) \<Longrightarrow> Q depth"
  shows "Q depth"
proof (induction "Suc kMaxDepth - depth" arbitrary: depth rule: less_induct)
  case less
  show ?case by (rule assms) (simp add: less)
qed

lemma consumes_error [simp]: "consumes s (Some (Inl e))"
  by (simp add: consumes_def)

lemma consumes_value [simp]: "consumes s (Some (Inr (v, r))) \<longleftrightarrow> length r < length s"
  by (simp add: consumes_def)

lemma consumes_mono: "consumes s' res \<Longrightarrow> length s' \<le> length s \<Longrightarrow> consumes s res"
  by (fastforce simp: consumes_def)

lemma parse_members_consumes: "good_parser p \<Longrightarrow> consumes s (parse_members p obj s)"
proof (induction s arbitrary: obj rule: measure_induct_rule [of length])
  case (less s)
  show ?case
  proof (cases "skip_ws s = [] \<or> hd (skip_ws s) \<noteq> CHR 0x22")
    case True then show ?thesis by (subst parse_members.simps) simp
  next
    case ok: False
    show ?thesis
    proof (cases "parse_string (skip_ws s)")
      case (Inl e) then show ?thesis using ok by (subst parse_members.simps) simp
    next
      case (Inr ks)
      obtain key s1 where ks: "ks = (key, s1)" by (cases ks)
      have l1: "length s1 < length s" using parse_string_rest Inr ks skip_ws_length [of s] by fastforce
      show ?thesis
      proof (cases "expect (CHR '':'') s1")
        case (Inl e) then show ?thesis using ok Inr ks by (subst parse_members.simps) simp
      next
        case ex: (Inr s2)
        have l2: "length s2 < length s" using expect_rest [OF ex] l1 by simp
        obtain v where v: "p s2 = Some v" "\<And>x r. v = Inr (x, r) \<Longrightarrow> length r < length s2"
          using less.prems unfolding good_parser_def consumes_def by blast
        show ?thesis
        proof (cases v)
          case (Inl e) then show ?thesis using ok Inr ks ex v by (subst parse_members.simps) simp
        next
          case vr: (Inr xr)
          obtain x s3 where xr: "xr = (x, s3)" by (cases xr)
          have l3: "length s3 < length s" using v(2) [of x s3] vr xr l2 by simp
          show ?thesis
          proof (cases "skip_ws s3")
            case Nil then show ?thesis using ok Inr ks ex v vr xr by (subst parse_members.simps) simp
          next
            case (Cons c r)
            have lr: "length r < length s" using skip_ws_rest [OF Cons] l3 by simp
            have "consumes s (parse_members p (emplace key x obj) r)"
              by (rule consumes_mono [OF less.IH [OF lr less.prems]]) (use lr in simp)
            then show ?thesis using ok Inr ks ex v vr xr Cons lr by (subst parse_members.simps) simp
          qed
        qed
      qed
    qed
  qed
qed

lemma parse_elements_consumes: "good_parser p \<Longrightarrow> consumes s (parse_elements p arr s)"
proof (induction s arbitrary: arr rule: measure_induct_rule [of length])
  case (less s)
  obtain v where v: "p s = Some v" "\<And>x r. v = Inr (x, r) \<Longrightarrow> length r < length s"
    using less.prems unfolding good_parser_def consumes_def by blast
  show ?case
  proof (cases v)
    case (Inl e) then show ?thesis using v by (subst parse_elements.simps) simp
  next
    case vr: (Inr xr)
    obtain x s1 where xr: "xr = (x, s1)" by (cases xr)
    show ?thesis
    proof (cases "skip_ws s1")
      case Nil then show ?thesis using v vr xr by (subst parse_elements.simps) simp
    next
      case (Cons c r)
      have lr: "length r < length s" using skip_ws_rest [OF Cons] v(2) [of x s1] vr xr by simp
      have "consumes s (parse_elements p (arr @ [x]) r)"
        by (rule consumes_mono [OF less.IH [OF lr less.prems]]) (use lr in simp)
      then show ?thesis using v vr xr Cons lr by (subst parse_elements.simps) simp
    qed
  qed
qed

lemma skip_after_expect:
  "expect c s = Inr s1 \<Longrightarrow> length (skip_ws s1) < length s" "expect c s = Inr s1 \<Longrightarrow> length (tl (skip_ws s1)) < length s"
  using expect_rest skip_ws_length [of s1] by fastforce+

lemma parse_object_consumes: "good_parser p \<Longrightarrow> consumes s (parse_object p s)"
proof (cases "expect (CHR 0x7B) s")
  case (Inr s1)
  assume "good_parser p"
  from parse_members_consumes [OF this] have "consumes s (parse_members p [] (skip_ws s1))"
    by (rule consumes_mono) (use skip_after_expect [OF Inr] in simp)
  then show ?thesis using Inr skip_after_expect [OF Inr] by (simp add: parse_object_def)
qed (simp add: parse_object_def)

lemma parse_array_consumes: "good_parser p \<Longrightarrow> consumes s (parse_array p s)"
proof (cases "expect (CHR ''['') s")
  case (Inr s1)
  assume "good_parser p"
  from parse_elements_consumes [OF this] have "consumes s (parse_elements p [] (skip_ws s1))"
    by (rule consumes_mono) (use skip_after_expect [OF Inr] in simp)
  then show ?thesis using Inr skip_after_expect [OF Inr] by (simp add: parse_array_def)
qed (simp add: parse_array_def)

lemma consumes_result: "(\<And>v r. res = Inr (v, r) \<Longrightarrow> length r < length s) \<Longrightarrow> consumes s (Some res)"
  by (simp add: consumes_def)

lemma parse_string_value_rest: "parse_string_value s = Inr (v, r) \<Longrightarrow> length r < length s"
  by (auto simp: parse_string_value_def split: sum.splits dest: parse_string_rest)

lemma parse_value_cases:
  assumes c: "skip_ws s = c # r" and d: "depth \<le> kMaxDepth"
  obtains "parse_value depth s = Some (parse_string_value (c # r))"
    | "parse_value depth s = parse_object (parse_value (depth + 1)) (c # r)"
    | "parse_value depth s = parse_array (parse_value (depth + 1)) (c # r)"
    | "parse_value depth s = Some (parse_bool (c # r))" | "parse_value depth s = Some (parse_null (c # r))"
    | "parse_value depth s = Some (parse_number (c # r))" | "parse_value depth s = Some (Inl ''invalid JSON value'')"
proof -
  have e: "parse_value depth s =
      (if c = CHR 0x22 then Some (parse_string_value (c # r))
       else if c = CHR 0x7B then parse_object (parse_value (depth + 1)) (c # r)
       else if c = CHR ''['' then parse_array (parse_value (depth + 1)) (c # r)
       else if c = CHR ''t'' \<or> c = CHR ''f'' then Some (parse_bool (c # r))
       else if c = CHR ''n'' then Some (parse_null (c # r))
       else if c = CHR ''-'' \<or> is_digit c then Some (parse_number (c # r))
       else Some (Inl ''invalid JSON value''))"
    using c d by (subst parse_value_code) (simp only: list.case not_less [symmetric] if_False)
  show thesis using e that by (metis (full_types))
qed

lemma parse_value_good: "good_parser (parse_value depth)"
proof (induction depth rule: depth_induct)
  case (step depth)
  show ?case unfolding good_parser_def
  proof
    fix s
    show "consumes s (parse_value depth s)"
    proof (cases "depth > kMaxDepth \<or> skip_ws s = []")
      case True then show ?thesis by (subst parse_value_code) auto
    next
      case False
      then obtain c r where c: "skip_ws s = c # r" "\<not> depth > kMaxDepth" by (cases "skip_ws s") auto
      then have le: "length (c # r) \<le> length s" using skip_ws_length [of s] by simp
      have ih: "good_parser (parse_value (depth + 1))" using step c(2) by simp
      have d: "depth \<le> kMaxDepth" using c(2) by simp
      have "consumes (c # r) (parse_value depth s)"
      proof (cases rule: parse_value_cases [OF c(1) d])
        case 1 then show ?thesis by (auto intro!: consumes_result dest: parse_string_value_rest)
      next
        case 2 then show ?thesis using parse_object_consumes [OF ih] by simp
      next
        case 3 then show ?thesis using parse_array_consumes [OF ih] by simp
      next
        case 4 then show ?thesis by (auto intro!: consumes_result dest: parse_bool_rest)
      next
        case 5 then show ?thesis by (auto intro!: consumes_result dest: parse_null_rest)
      next
        case 6 then show ?thesis by (auto intro!: consumes_result dest: parse_number_rest)
      qed simp
      then show ?thesis using le by (rule consumes_mono)
    qed
  qed
qed

lemma json_parse_defined: "\<exists>r. json_parse data = Some r"
proof -
  obtain r where "parse_value 0 data = Some r" using parse_value_good unfolding good_parser_def consumes_def by blast
  then show ?thesis by (cases r) (auto simp: json_parse_def split: prod.splits)
qed

text \<open>
  C25. The JSON parser returns on every input: whatever bytes a client sends as a request
  body, \<open>parse\<close> either yields a value or throws one of its errors.
\<close>

theorem json_parse_returns:
  "\<exists>res. json_parse input = Some res"
proof -
  obtain r where "parse_value 0 input = Some r"
    using parse_value_good unfolding good_parser_def consumes_def by blast
  then show ?thesis by (cases r) (auto simp: json_parse_def split: prod.splits)
qed

section \<open>The nesting limit\<close>

text \<open>How deep the values of a tree are nested; an empty array or object has no value inside.\<close>

fun json_depth :: "'n json_tree \<Rightarrow> nat" where
  "json_depth (JArray vs) = (if vs = [] then 0 else Suc (foldr max (map json_depth vs) 0))"
| "json_depth (JObject ms) = (if ms = [] then 0 else Suc (foldr max (map (json_depth \<circ> snd) ms) 0))"
| "json_depth _ = 0"

lemma foldr_max_le: "foldr max xs (a::nat) \<le> n \<longleftrightarrow> a \<le> n \<and> (\<forall>x \<in> set xs. x \<le> n)"
  by (induction xs) auto

text \<open>A value parsed at the given depth stays within the limit.\<close>

definition shallow :: "nat \<Rightarrow> json result option \<Rightarrow> bool" where
  "shallow depth res \<longleftrightarrow> (\<forall>v r. res = Some (Inr (v, r)) \<longrightarrow> depth + json_depth v \<le> kMaxDepth)"

lemma shallowD: "shallow depth res \<Longrightarrow> res = Some (Inr (v, r)) \<Longrightarrow> depth + json_depth v \<le> kMaxDepth"
  unfolding shallow_def by blast

lemma foldr_max_limit:
  "xs \<noteq> [] \<Longrightarrow> \<forall>x \<in> set xs. depth + 1 + f x \<le> n \<Longrightarrow> depth + Suc (foldr max (map f xs) 0) \<le> (n::nat)"
proof -
  assume ne: "xs \<noteq> []" and le: "\<forall>x \<in> set xs. depth + 1 + f x \<le> n"
  then obtain x where "x \<in> set xs" by (cases xs) auto
  then have "depth + 1 \<le> n" using le by fastforce
  moreover have "foldr max (map f xs) 0 \<le> n - (depth + 1)" using le by (fastforce simp: foldr_max_le)
  ultimately show ?thesis by simp
qed

lemma parse_members_shallow:
  "good_parser p \<Longrightarrow> (\<And>s. shallow (depth + 1) (p s)) \<Longrightarrow> \<forall>m \<in> set obj. depth + 1 + json_depth (snd m) \<le> kMaxDepth \<Longrightarrow>
   shallow depth (parse_members p obj s)"
proof (induction s arbitrary: obj rule: measure_induct_rule [of length])
  case (less s)
  show ?case unfolding shallow_def
  proof (intro allI impI)
    fix v r assume run: "parse_members p obj s = Some (Inr (v, r))"
    obtain key s1 s2 x s3 c rest where a: "parse_string (skip_ws s) = Inr (key, s1)" "expect (CHR '':'') s1 = Inr s2"
      "p s2 = Some (Inr (x, s3))" "skip_ws s3 = c # rest"
      "if c = CHR 0x7D then v = JObject (emplace key x obj) else c = CHR '','' \<and> parse_members p (emplace key x obj) rest = Some (Inr (v, r))"
      using run by (subst (asm) parse_members.simps) (auto split: if_splits sum.splits list.splits)
    have x: "depth + 1 + json_depth x \<le> kMaxDepth" by (rule shallowD [OF less.prems(2) a(3)])
    then have obj: "\<forall>m \<in> set (emplace key x obj). depth + 1 + json_depth (snd m) \<le> kMaxDepth" using less.prems(3) by (auto simp: emplace_def)
    have "length s3 < length s2" by (rule good_parserD [OF less.prems(1) a(3)])
    then have lr: "length rest < length s"
      using skip_ws_rest [OF a(4)] expect_rest [OF a(2)] parse_string_rest [OF a(1)] skip_ws_length [of s] by linarith
    show "depth + json_depth v \<le> kMaxDepth"
    proof (cases "c = CHR 0x7D")
      case True
      have "emplace key x obj \<noteq> []" by (auto simp: emplace_def)
      from foldr_max_limit [OF this obj] True a(5) show ?thesis by (auto simp: comp_def)
    next
      case False
      then show ?thesis using a(5) less.IH [OF lr less.prems(1,2) obj] by (simp add: shallow_def)
    qed
  qed
qed

lemma parse_elements_shallow:
  "good_parser p \<Longrightarrow> (\<And>s. shallow (depth + 1) (p s)) \<Longrightarrow> \<forall>x \<in> set arr. depth + 1 + json_depth x \<le> kMaxDepth \<Longrightarrow>
   shallow depth (parse_elements p arr s)"
proof (induction s arbitrary: arr rule: measure_induct_rule [of length])
  case (less s)
  show ?case unfolding shallow_def
  proof (intro allI impI)
    fix v r assume run: "parse_elements p arr s = Some (Inr (v, r))"
    obtain x s1 c rest where a: "p s = Some (Inr (x, s1))" "skip_ws s1 = c # rest"
      "if c = CHR '']'' then v = JArray (arr @ [x]) else c = CHR '','' \<and> parse_elements p (arr @ [x]) rest = Some (Inr (v, r))"
      using run by (subst (asm) parse_elements.simps) (auto split: if_splits sum.splits list.splits)
    have arr: "\<forall>y \<in> set (arr @ [x]). depth + 1 + json_depth y \<le> kMaxDepth" using less.prems(3) shallowD [OF less.prems(2) a(1)] by simp
    have "length s1 < length s" by (rule good_parserD [OF less.prems(1) a(1)])
    then have lr: "length rest < length s" using skip_ws_rest [OF a(2)] by linarith
    show "depth + json_depth v \<le> kMaxDepth"
    proof (cases "c = CHR '']''")
      case True
      have "arr @ [x] \<noteq> []" by simp
      from foldr_max_limit [OF this arr] True a(3) show ?thesis by simp
    next
      case False
      then show ?thesis using a(3) less.IH [OF lr less.prems(1,2) arr] by (simp add: shallow_def)
    qed
  qed
qed

lemma parse_value_shallow: "shallow depth (parse_value depth s)"
proof (induction depth arbitrary: s rule: depth_induct)
  case (step depth)
  show ?case
  proof (cases "depth > kMaxDepth")
    case True then show ?thesis by (subst parse_value_code) (simp add: shallow_def)
  next
    case False
    then have d: "depth \<le> kMaxDepth" by simp
    have m: "shallow depth (parse_members (parse_value (depth + 1)) [] s)" for s
      by (rule parse_members_shallow [OF parse_value_good step [OF d]]) simp
    have e: "shallow depth (parse_elements (parse_value (depth + 1)) [] s)" for s
      by (rule parse_elements_shallow [OF parse_value_good step [OF d]]) simp
    show ?thesis unfolding shallow_def
    proof (intro allI impI)
      fix v r assume run: "parse_value depth s = Some (Inr (v, r))"
      obtain c t where c: "skip_ws s = c # t" using run by (subst (asm) parse_value_code) (auto split: if_splits list.splits)
      consider "parse_object (parse_value (depth + 1)) (c # t) = Some (Inr (v, r))"
        | "parse_array (parse_value (depth + 1)) (c # t) = Some (Inr (v, r))" | "json_depth v = 0"
        by (cases rule: parse_value_cases [OF c d])
          (use run in \<open>auto simp: parse_string_value_def parse_bool_def parse_null_def parse_number_def
            split: if_splits sum.splits option.splits\<close>)
      then show "depth + json_depth v \<le> kMaxDepth"
      proof cases
        case 1
        then show ?thesis using m d by (auto simp: parse_object_def shallow_def split: sum.splits if_splits)
      next
        case 2
        then show ?thesis using e d by (auto simp: parse_array_def shallow_def split: sum.splits if_splits)
      next
        case 3 then show ?thesis using d by simp
      qed
    qed
  qed
qed

end
