(* ===== verification/RF_JsonPrint.thy ===== *)
theory RF_JsonPrint
  imports RF_JsonTotal RF_OpenAI
begin

text \<open>
  Printing and parsing: documents printed with the server's own escaping are read back by the
  parser exactly. A document carries the literal of each number.
\<close>

section \<open>Documents\<close>

type_synonym document = "string json_tree"

definition quoted :: "string \<Rightarrow> string" where
  "quoted s = CHR 0x22 # json_escape s @ [CHR 0x22]"

fun separated :: "string list \<Rightarrow> string" where
  "separated [] = []"
| "separated [x] = x"
| "separated (x # y # xs) = x @ '','' @ separated (y # xs)"

fun print_doc :: "document \<Rightarrow> string" where
  "print_doc JNull = ''null''"
| "print_doc (JBool b) = (if b then ''true'' else ''false'')"
| "print_doc (JNumber t) = t"
| "print_doc (JString s) = quoted s"
| "print_doc (JArray vs) = ''['' @ separated (map print_doc vs) @ '']''"
| "print_doc (JObject ms) = CHR 0x7B # separated (map (\<lambda>m. quoted (fst m) @ '':'' @ print_doc (snd m)) ms) @ [CHR 0x7D]"

text \<open>Literals are numbers of JSON within the range of double, and no key occurs twice.\<close>

fun doc_ok :: "document \<Rightarrow> bool" where
  "doc_ok (JNumber t) \<longleftrightarrow> scan_number t = Inr (t, []) \<and> stod t \<noteq> None"
| "doc_ok (JArray vs) \<longleftrightarrow> (\<forall>v \<in> set vs. doc_ok v)"
| "doc_ok (JObject ms) \<longleftrightarrow> distinct (map fst ms) \<and> (\<forall>m \<in> set ms. doc_ok (snd m))"
| "doc_ok _ \<longleftrightarrow> True"

definition doc_value :: "document \<Rightarrow> json" where
  "doc_value d = map_json_tree (\<lambda>t. the (stod t)) d"

section \<open>Strings\<close>

lemma hex_value_char: "d < 16 \<Longrightarrow> hex_value (hex_char d) = int d"
proof -
  assume "d < 16"
  then have "d \<in> set [0..<16]" by simp
  moreover have "\<forall>d \<in> set [0..<16]. hex_value (hex_char d) = int d" by code_simp
  ultimately show ?thesis by blast
qed

lemma hex4_small: "n < 32 \<Longrightarrow> hex4 n = [hex_char 0, hex_char 0, hex_char (n div 16), hex_char (n mod 16)]"
  by (simp add: hex4_def)

lemma hex4_word:
  assumes "n < 32"
  shows "push_bit 4 (word_of_int (int (n div 16))) OR word_of_int (int (n mod 16)) = (word_of_int (int n) :: 16 word)"
proof -
  have "n \<in> set [0..<32]" using assms by simp
  moreover have "\<forall>n \<in> set [0..<32]. push_bit 4 (int (n div 16)) OR int (n mod 16) = int n" by code_simp
  ultimately have "push_bit 4 (int (n div 16)) OR int (n mod 16) = int n" by blast
  then show ?thesis by transfer (simp add: take_bit_or)
qed

lemma control_escape:
  assumes n: "n < 32"
  shows "append_unicode_escape acc (hex4 n @ rest) = Inr (acc @ [char_of n], rest)"
proof -
  have d: "n div 16 < 16" "n mod 16 < 16" using n by auto
  have four: "4 = Suc (Suc (Suc (Suc 0)))" by simp
  have "hex_digits (Suc (Suc (Suc (Suc 0)))) 0 (hex4 n @ rest) = Inr (word_of_int (int n), rest)"
    using d hex4_word [OF n] by (simp add: hex4_small [OF n] hex_value_char)
  then have u: "parse_unicode_code_unit (hex4 n @ rest) = Inr (word_of_int (int n), rest)"
    unfolding four [symmetric] by (simp add: parse_unicode_code_unit_def hex4_small [OF n])
  define cp :: "32 word" where "cp = ucast (word_of_int (int n) :: 16 word)"
  have cp: "unat cp = n" using n by (simp add: cp_def unsigned_ucast_eq unsigned_of_int unsigned_of_nat take_bit_eq_mod)
  have range: "\<not> 0xD800 \<le> cp" "\<not> 0xDC00 \<le> cp" "cp \<le> 0x7F" using n by (simp_all add: word_le_nat_alt cp)
  have "append_unicode_escape acc (hex4 n @ rest) = Inr (append_utf8 acc cp, rest)"
    unfolding append_unicode_escape_def u Let_def sum.case prod.case cp_def [symmetric] using range by simp
  also have "append_utf8 acc cp = acc @ [char_of n]" using range(3) by (simp add: append_utf8_def byte_def cp)
  finally show ?thesis .
qed

lemma char_less: "c < d \<longleftrightarrow> (of_char c :: nat) < of_char d"
  by (simp add: less_char_def)

lemma string_body_escape: "string_body acc (escape_char c @ rest) = string_body (acc @ [c]) rest"
proof -
  have bs: "\<not> CHR 0x5C < CHR 0x20" by (simp add: char_less)
  consider "c = CHR 0x22" | "c = CHR 0x5C" | "c = CHR 0x0A" | "c = CHR 0x0D" | "c = CHR 0x09"
    | "c \<notin> {CHR 0x22, CHR 0x5C, CHR 0x0A, CHR 0x0D, CHR 0x09}" "c < CHR 0x20"
    | "c \<notin> {CHR 0x22, CHR 0x5C, CHR 0x0A, CHR 0x0D, CHR 0x09}" "\<not> c < CHR 0x20" by blast
  then show ?thesis
  proof cases
    case 6
    then have n: "(of_char c :: nat) < 32" by (simp add: char_less)
    have "escape_char c = CHR 0x5C # CHR ''u'' # hex4 (of_char c)" using 6 by (simp add: escape_char_def)
    then show ?thesis using control_escape [OF n, of acc rest] bs by (simp add: simple_escape_def)
  next
    case 7 then show ?thesis by (simp add: escape_char_def)
  qed (simp_all add: escape_char_def simple_escape_def bs)
qed

lemma string_body_quoted: "string_body acc (json_escape s @ CHR 0x22 # rest) = Inr (acc @ s, rest)"
  by (induction s arbitrary: acc) (simp_all add: json_escape_def string_body_escape)

lemma skip_ws_id: "s = [] \<or> \<not> is_ws (hd s) \<Longrightarrow> skip_ws s = s"
  by (cases s) (auto simp: skip_ws_def)

lemma ws_cons [simp]: "\<not> is_ws c \<Longrightarrow> skip_ws (c # s) = c # s"
  by (simp add: skip_ws_def)

lemma not_ws [simp]:
  "\<not> is_ws (CHR 0x22)" "\<not> is_ws (CHR 0x7B)" "\<not> is_ws (CHR 0x7D)" "\<not> is_ws (CHR ''['')" "\<not> is_ws (CHR '']'')"
  "\<not> is_ws (CHR '','')" "\<not> is_ws (CHR '':'')" "\<not> is_ws (CHR ''t'')" "\<not> is_ws (CHR ''f'')" "\<not> is_ws (CHR ''n'')"
  "\<not> is_ws (CHR ''-'')"
  by (simp_all add: is_ws_def)

lemma parse_string_quoted: "parse_string (quoted s @ rest) = Inr (s, rest)"
  by (simp add: parse_string_def quoted_def expect_def string_body_quoted)

section \<open>Numbers\<close>

lemma span_append:
  "rest = [] \<or> \<not> Q (hd rest) \<Longrightarrow> takeWhile Q (s @ rest) = takeWhile Q s \<and> dropWhile Q (s @ rest) = dropWhile Q s @ rest"
  by (induction s) (cases rest; auto)+

definition stops :: "string \<Rightarrow> bool" where
  "stops rest \<longleftrightarrow> rest = [] \<or> hd rest \<in> {CHR '','', CHR '']'', CHR 0x7D}"

lemma stops_digit: "stops rest \<Longrightarrow> rest = [] \<or> \<not> is_digit (hd rest)"
  by (auto simp: stops_def is_digit_def less_eq_char_def)

lemma digits_append:
  "stops rest \<Longrightarrow> takeWhile is_digit (s @ rest) = takeWhile is_digit s"
  "stops rest \<Longrightarrow> dropWhile is_digit (s @ rest) = dropWhile is_digit s @ rest"
  using span_append [of rest is_digit s] stops_digit [of rest] by auto

lemma stops_cons [simp]: "stops (CHR '','' # s)" "stops (CHR '']'' # s)" "stops (CHR 0x7D # s)" "stops []"
  by (simp_all add: stops_def)

lemma scan_digits_append:
  "scan_digits msg s = Inr (ds, r) \<Longrightarrow> stops rest \<Longrightarrow> scan_digits msg (s @ rest) = Inr (ds, r @ rest)"
  by (auto simp: scan_digits_def digits_append split: if_splits)

lemma scan_integer_append:
  assumes "scan_integer s = Inr (ds, r)" "stops rest"
  shows "scan_integer (s @ rest) = Inr (ds, r @ rest)"
proof (cases s)
  case Nil then show ?thesis using assms(1) by (simp add: scan_integer_def)
next
  case (Cons c s')
  have "s' @ rest \<noteq> [] \<and> is_digit (hd (s' @ rest)) \<longleftrightarrow> s' \<noteq> [] \<and> is_digit (hd s')"
    using stops_digit [OF assms(2)] by (cases s') auto
  then show ?thesis using assms(1) Cons digits_append [OF assms(2), of "c # s'"]
    by (auto simp: scan_integer_def split: if_splits)
qed

lemma scan_fraction_char: "c \<noteq> CHR ''.'' \<Longrightarrow> scan_fraction (c # s) = Inr ([], c # s)"
  by (auto simp: scan_fraction_def split: char.splits bool.splits)

lemma scan_fraction_append:
  assumes "scan_fraction s = Inr (fs, r)" "stops rest"
  shows "scan_fraction (s @ rest) = Inr (fs, r @ rest)"
proof (cases s)
  case Nil
  have "scan_fraction rest = Inr ([], rest)"
    using assms(2) by (cases rest) (auto simp: stops_def scan_fraction_def split: char.splits bool.splits)
  then show ?thesis using assms(1) Nil by (simp add: scan_fraction_def)
next
  case (Cons c s')
  show ?thesis
  proof (cases "c = CHR ''.''")
    case True
    then obtain ds where d: "scan_digits ''invalid JSON number fraction'' s' = Inr (ds, r)" "fs = CHR ''.'' # ds"
      using assms(1) Cons by (auto simp: scan_fraction_def split: sum.splits)
    from scan_digits_append [OF d(1) assms(2)] show ?thesis using d(2) Cons True by (simp add: scan_fraction_def)
  next
    case False
    then have "scan_fraction (c # s' @ rest) = Inr ([], c # s' @ rest)" "fs = []" "r = c # s'"
      using scan_fraction_char [OF False] assms(1) Cons by simp_all
    then show ?thesis using Cons by simp
  qed
qed

lemma scan_exponent_append:
  assumes "scan_exponent s = Inr (es, r)" "stops rest"
  shows "scan_exponent (s @ rest) = Inr (es, r @ rest)"
proof (cases s)
  case Nil
  have "scan_exponent rest = Inr ([], rest)" using assms(2) by (cases rest) (auto simp: stops_def scan_exponent_def)
  then show ?thesis using assms(1) Nil by (simp add: scan_exponent_def)
next
  case (Cons c s')
  show ?thesis
  proof (cases "c = CHR ''e'' \<or> c = CHR ''E''")
    case True
    let ?sgn = "if s' \<noteq> [] \<and> (hd s' = CHR ''+'' \<or> hd s' = CHR ''-'') then [hd s'] else []"
    obtain ds where d: "scan_digits ''invalid JSON number exponent'' (drop (length ?sgn) s') = Inr (ds, r)" "es = c # ?sgn @ ds"
      using assms(1) Cons True by (auto simp: scan_exponent_def Let_def split: sum.splits if_splits)
    have "s' \<noteq> []" using d(1) by (auto simp: scan_digits_def)
    then have "hd (s' @ rest) = hd s'" "s' @ rest \<noteq> []" "drop (length ?sgn) (s' @ rest) = drop (length ?sgn) s' @ rest"
      by (cases s'; simp)+
    then show ?thesis using d True Cons \<open>s' \<noteq> []\<close> scan_digits_append [OF d(1) assms(2)]
      by (auto simp: scan_exponent_def Let_def split: if_splits)
  next
    case False
    then have "scan_exponent (c # s' @ rest) = Inr ([], c # s' @ rest)" "es = []" "r = c # s'"
      using assms(1) Cons by (simp_all add: scan_exponent_def)
    then show ?thesis using Cons by simp
  qed
qed

lemma scan_number_append:
  assumes "scan_number s = Inr (text, r)" "stops rest"
  shows "scan_number (s @ rest) = Inr (text, r @ rest)"
proof -
  let ?sgn = "if s \<noteq> [] \<and> hd s = CHR ''-'' then ''-'' else []"
  obtain ds s1 fs s2 es where n: "scan_integer (drop (length ?sgn) s) = Inr (ds, s1)" "scan_fraction s1 = Inr (fs, s2)"
    "scan_exponent s2 = Inr (es, r)" "text = ?sgn @ ds @ fs @ es"
    using assms by (auto simp: scan_number_def Let_def split: sum.splits)
  have "s \<noteq> []" using n(1) by (auto simp: scan_integer_def)
  then have "s @ rest \<noteq> []" "hd (s @ rest) = hd s" "drop (length ?sgn) (s @ rest) = drop (length ?sgn) s @ rest"
    by (cases s; simp)+
  then show ?thesis
    using n(4) \<open>s \<noteq> []\<close> scan_integer_append [OF n(1) assms(2)] scan_fraction_append [OF n(2) assms(2)]
      scan_exponent_append [OF n(3) assms(2)]
    by (simp add: scan_number_def Let_def)
qed

section \<open>Values\<close>

text \<open>
  What a parser of the values inside an array or an object must do: read back each printed
  value of a set, up to the separator that follows.
\<close>

locale value_codec =
  fixes p :: "string \<Rightarrow> json result option"
    and ok :: "document \<Rightarrow> bool"
  assumes parse_print: "ok d \<Longrightarrow> stops rest \<Longrightarrow> p (print_doc d @ rest) = Some (Inr (doc_value d, rest))"
begin

lemma elements_print:
  "vs \<noteq> [] \<Longrightarrow> \<forall>v \<in> set vs. ok v \<Longrightarrow>
   parse_elements p arr (separated (map print_doc vs) @ CHR '']'' # rest) = Some (Inr (JArray (arr @ map doc_value vs), rest))"
proof (induction vs arbitrary: arr)
  case Nil then show ?case by simp
next
  case (Cons v vs)
  have v: "ok v" using Cons.prems by simp
  show ?case
  proof (cases vs)
    case Nil
    then show ?thesis using parse_print [OF v, of "CHR '']'' # rest"] by (subst parse_elements.simps) simp
  next
    case (Cons w ws)
    then have "parse_elements p (arr @ [doc_value v]) (separated (map print_doc vs) @ CHR '']'' # rest) =
        Some (Inr (JArray ((arr @ [doc_value v]) @ map doc_value vs), rest))"
      using Cons.prems by (intro Cons.IH) auto
    then show ?thesis using parse_print [OF v, of "CHR '','' # separated (map print_doc vs) @ CHR '']'' # rest"] Cons
      by (subst parse_elements.simps) simp
  qed
qed

lemma members_print:
  "ms \<noteq> [] \<Longrightarrow> \<forall>m \<in> set ms. ok (snd m) \<Longrightarrow> distinct (map fst obj @ map fst ms) \<Longrightarrow>
   parse_members p obj (separated (map (\<lambda>m. quoted (fst m) @ '':'' @ print_doc (snd m)) ms) @ CHR 0x7D # rest) =
     Some (Inr (JObject (obj @ map (\<lambda>m. (fst m, doc_value (snd m))) ms), rest))"
proof (induction ms arbitrary: obj)
  case Nil then show ?case by simp
next
  case (Cons m ms)
  let ?pr = "\<lambda>m. quoted (fst m) @ '':'' @ print_doc (snd m)"
  have v: "ok (snd m)" using Cons.prems by simp
  have key: "map_of obj (fst m) = None" using Cons.prems(3) by (auto simp: map_of_eq_None_iff)
  have head: "parse_members p obj (quoted (fst m) @ CHR '':'' # print_doc (snd m) @ c # t) =
      (if c = CHR 0x7D then Some (Inr (JObject (obj @ [(fst m, doc_value (snd m))]), t))
       else parse_members p (obj @ [(fst m, doc_value (snd m))]) t)" if "c = CHR 0x7D \<or> c = CHR '',''" for c t
  proof -
    have q: "skip_ws (quoted (fst m) @ u) = quoted (fst m) @ u" "quoted (fst m) @ u \<noteq> []" "hd (quoted (fst m) @ u) = CHR 0x22" for u
      by (simp_all add: quoted_def)
    have "p (print_doc (snd m) @ c # t) = Some (Inr (doc_value (snd m), c # t))" using that by (intro parse_print [OF v]) auto
    then show ?thesis using that key
      by (subst parse_members.simps) (auto simp: q parse_string_quoted expect_def emplace_def)
  qed
  show ?case
  proof (cases ms)
    case Nil then show ?thesis using head [of "CHR 0x7D" rest] by simp
  next
    case (Cons k ks)
    then have "parse_members p (obj @ [(fst m, doc_value (snd m))]) (separated (map ?pr ms) @ CHR 0x7D # rest) =
        Some (Inr (JObject ((obj @ [(fst m, doc_value (snd m))]) @ map (\<lambda>m. (fst m, doc_value (snd m))) ms), rest))"
      using Cons.prems by (intro Cons.IH) auto
    then show ?thesis using head [of "CHR '',''" "separated (map ?pr ms) @ CHR 0x7D # rest"] Cons by simp
  qed
qed

end

lemma number_start:
  assumes "scan_number t = Inr (t, [])"
  obtains c r where "t = c # r" "c = CHR ''-'' \<or> is_digit c"
proof (cases t)
  case Nil then show ?thesis using assms by (simp add: scan_number_def scan_integer_def)
next
  case (Cons c r)
  have "c = CHR ''-'' \<or> is_digit c"
  proof (rule ccontr)
    assume n: "\<not> (c = CHR ''-'' \<or> is_digit c)"
    then have "c \<noteq> CHR ''0''" by (auto simp: is_digit_def less_eq_char_def)
    then show False using assms n Cons by (simp add: scan_number_def scan_integer_def)
  qed
  then show ?thesis using that Cons by blast
qed

lemma digit_not:
  "is_digit c \<Longrightarrow> c \<noteq> CHR 0x22 \<and> c \<noteq> CHR 0x7B \<and> c \<noteq> CHR ''['' \<and> c \<noteq> CHR ''t'' \<and> c \<noteq> CHR ''f'' \<and> c \<noteq> CHR ''n'' \<and> c \<noteq> CHR '']'' \<and> c \<noteq> CHR 0x7D \<and> \<not> is_ws c"
  by (auto simp: is_digit_def less_eq_char_def is_ws_def)

lemma number_char:
  assumes "c = CHR ''-'' \<or> is_digit c"
  shows "\<not> is_ws c" "c \<noteq> CHR 0x22" "c \<noteq> CHR 0x7B" "c \<noteq> CHR ''[''" "c \<noteq> CHR ''t''" "c \<noteq> CHR ''f''" "c \<noteq> CHR ''n''"
    "c \<noteq> CHR '']''" "c \<noteq> CHR 0x7D"
  using assms digit_not [of c] by auto

text \<open>A printed value starts with none of the characters that the loops look for.\<close>

lemma print_doc_start:
  assumes "doc_ok d"
  obtains c r where "print_doc d = c # r" "\<not> is_ws c" "c \<noteq> CHR '']''" "c \<noteq> CHR 0x7D"
proof (cases d)
  case (JNumber t)
  then obtain c r where "t = c # r" "c = CHR ''-'' \<or> is_digit c" using assms number_start by auto
  then show ?thesis using that [of c r] number_char [of c] JNumber by simp
next
  case (JBool b) then show ?thesis using that by (cases b) simp_all
qed (use that in \<open>simp_all add: quoted_def\<close>)

lemma separated_start:
  assumes "x \<noteq> []"
  shows "\<exists>r. separated (x # xs) = hd x # r"
  using assms by (cases xs; cases x) simp_all

lemma parse_scalar:
  assumes d: "depth \<le> kMaxDepth" and ok: "doc_ok d" and s: "stops rest"
  shows "d = JNull \<Longrightarrow> parse_value depth (print_doc d @ rest) = Some (Inr (doc_value d, rest))"
    "d = JBool b \<Longrightarrow> parse_value depth (print_doc d @ rest) = Some (Inr (doc_value d, rest))"
    "d = JNumber t \<Longrightarrow> parse_value depth (print_doc d @ rest) = Some (Inr (doc_value d, rest))"
    "d = JString x \<Longrightarrow> parse_value depth (print_doc d @ rest) = Some (Inr (doc_value d, rest))"
proof -
  assume "d = JNull"
  then show "parse_value depth (print_doc d @ rest) = Some (Inr (doc_value d, rest))"
    using d by (subst parse_value_code) (simp add: parse_null_def doc_value_def)
next
  assume "d = JBool b"
  then show "parse_value depth (print_doc d @ rest) = Some (Inr (doc_value d, rest))"
    using d by (subst parse_value_code) (simp add: parse_bool_def doc_value_def)
next
  assume t: "d = JNumber t"
  then obtain c r where c: "t = c # r" "c = CHR ''-'' \<or> is_digit c" using ok number_start by auto
  have "scan_number (t @ rest) = Inr (t, [] @ rest)" by (rule scan_number_append) (use ok t s in auto)
  then have "parse_number (t @ rest) = Inr (JNumber (the (stod t)), rest)" using ok t by (auto simp: parse_number_def)
  then show "parse_value depth (print_doc d @ rest) = Some (Inr (doc_value d, rest))"
    using d t c(1) number_char [OF c(2)] c(2) by (subst parse_value_code) (simp add: doc_value_def)
next
  assume "d = JString x"
  then show "parse_value depth (print_doc d @ rest) = Some (Inr (doc_value d, rest))"
    using d by (subst parse_value_code) (simp add: quoted_def parse_string_value_def doc_value_def,
      simp add: parse_string_def expect_def string_body_quoted)
qed

lemma foldr_max_member: "x \<in> set xs \<Longrightarrow> f x \<le> foldr max (map f xs) (0::nat)"
  by (induction xs) auto

lemma array_print:
  assumes c: "value_codec (parse_value (depth + 1)) (\<lambda>v. v \<in> set vs)" and d: "depth \<le> kMaxDepth"
    and ok: "doc_ok (JArray vs)"
  shows "parse_value depth (print_doc (JArray vs) @ rest) = Some (Inr (doc_value (JArray vs), rest))"
proof -
  have start: "parse_value depth (CHR ''['' # s) = parse_array (parse_value (depth + 1)) (CHR ''['' # s)" for s
    using d by (subst parse_value_code) simp
  show ?thesis
  proof (cases vs)
    case Nil then show ?thesis by (simp add: start parse_array_def expect_def doc_value_def)
  next
    case (Cons v vs')
    have "doc_ok v" using ok Cons by simp
    then obtain ch r where v: "print_doc v = ch # r" "\<not> is_ws ch" "ch \<noteq> CHR '']''" "ch \<noteq> CHR 0x7D"
      by (rule print_doc_start)
    then obtain r' where "separated (map print_doc vs) = ch # r'" using separated_start [of "print_doc v"] Cons by force
    then show ?thesis using value_codec.elements_print [OF c, of vs "[]" rest] v Cons
      by (simp add: start parse_array_def expect_def doc_value_def del: separated.simps)
  qed
qed

lemma object_print:
  assumes c: "value_codec (parse_value (depth + 1)) (\<lambda>v. v \<in> snd ` set ms)" and d: "depth \<le> kMaxDepth"
    and ok: "doc_ok (JObject ms)"
  shows "parse_value depth (print_doc (JObject ms) @ rest) = Some (Inr (doc_value (JObject ms), rest))"
proof -
  have start: "parse_value depth (CHR 0x7B # s) = parse_object (parse_value (depth + 1)) (CHR 0x7B # s)" for s
    using d by (subst parse_value_code) simp
  let ?pr = "\<lambda>m. quoted (fst m) @ '':'' @ print_doc (snd m)"
  show ?thesis
  proof (cases ms)
    case Nil then show ?thesis by (simp add: start parse_object_def expect_def doc_value_def)
  next
    case (Cons m ms')
    obtain r' where s: "separated (map ?pr ms) = CHR 0x22 # r'"
      using separated_start [of "?pr m" "map ?pr ms'"] Cons by (auto simp: quoted_def)
    have "parse_members (parse_value (depth + 1)) [] (separated (map ?pr ms) @ CHR 0x7D # rest) =
        Some (Inr (JObject ([] @ map (\<lambda>m. (fst m, doc_value (snd m))) ms), rest))"
      using ok Cons by (intro value_codec.members_print [OF c]) auto
    moreover have "doc_value (JObject ms) = JObject (map (\<lambda>m. (fst m, doc_value (snd m))) ms)"
      by (simp add: doc_value_def map_prod_def case_prod_unfold)
    ultimately show ?thesis using s
      by (simp add: start parse_object_def expect_def)
  qed
qed

lemma parse_value_print:
  "doc_ok d \<Longrightarrow> depth + json_depth d \<le> kMaxDepth \<Longrightarrow> stops rest \<Longrightarrow>
   parse_value depth (print_doc d @ rest) = Some (Inr (doc_value d, rest))"
proof (induction d arbitrary: depth rest)
  case (JArray vs)
  have "value_codec (parse_value (depth + 1)) (\<lambda>v. v \<in> set vs)"
  proof (rule value_codec.intro)
    fix v and r :: string assume v: "v \<in> set vs" "stops r"
    have "depth + 1 + json_depth v \<le> kMaxDepth"
      using JArray.prems(2) v(1) foldr_max_member [OF v(1), of json_depth] by (auto split: if_splits)
    then show "parse_value (depth + 1) (print_doc v @ r) = Some (Inr (doc_value v, r))"
      using JArray.prems(1) v by (intro JArray.IH) auto
  qed
  then show ?case using JArray.prems by (intro array_print) simp_all
next
  case (JObject ms)
  have "value_codec (parse_value (depth + 1)) (\<lambda>v. v \<in> snd ` set ms)"
  proof (rule value_codec.intro)
    fix v and r :: string assume v: "v \<in> snd ` set ms" "stops r"
    then obtain m where m: "m \<in> set ms" "v = snd m" by auto
    have "depth + 1 + json_depth v \<le> kMaxDepth"
      using JObject.prems(2) m foldr_max_member [OF m(1), of "json_depth \<circ> snd"] by (auto split: if_splits)
    then show "parse_value (depth + 1) (print_doc v @ r) = Some (Inr (doc_value v, r))"
      using JObject.prems(1) m v(2) by (intro JObject.IH [of m]) (auto simp: snds.simps)
  qed
  then show ?case using JObject.prems by (intro object_print) simp_all
qed (simp_all add: parse_scalar del: print_doc.simps)

interpretation value_text: value_codec "parse_value depth" "\<lambda>d. doc_ok d \<and> depth + json_depth d \<le> kMaxDepth" for depth
  by (rule value_codec.intro) (simp add: parse_value_print)

lemma json_depth_value: "json_depth (doc_value d) = json_depth d"
proof (induction d)
  case (JArray vs)
  then have "map (json_depth \<circ> doc_value) vs = map json_depth vs" by simp
  then show ?case by (simp add: doc_value_def comp_def del: map_eq_conv)
next
  case (JObject ms)
  have "map ((json_depth \<circ> snd) \<circ> map_prod id doc_value) ms = map (json_depth \<circ> snd) ms"
    using JObject.IH by (auto simp: snds.simps)
  then show ?case by (simp add: doc_value_def comp_def del: map_eq_conv)
qed (simp_all add: doc_value_def)

lemma json_parse_print:
  assumes "doc_ok d" "json_depth d \<le> kMaxDepth"
  shows "json_parse (print_doc d) = Some (Inr (doc_value d))"
  using value_text.parse_print [of d 0 "[]"] assms by (simp add: json_parse_def skip_ws_def)

lemma json_parse_shallow:
  assumes "json_parse input = Some (Inr v)"
  shows "json_depth v \<le> kMaxDepth"
proof -
  obtain r where "parse_value 0 input = Some (Inr (v, r))"
    using assms by (auto simp: json_parse_def split: sum.splits if_splits)
  from shallowD [OF parse_value_shallow this] show ?thesis by simp
qed

text \<open>
  C26. The parser reads back every JSON document exactly, up to the nesting limit and no
  further: a document whose literals are JSON numbers and whose objects have no repeated key,
  printed with the server's escaping, is parsed to its value, with every byte of every string
  as it was, if and only if its values are nested at most \<open>kMaxDepth\<close> deep.
\<close>

theorem json_round_trip:
  assumes "doc_ok d"
  shows "json_parse (print_doc d) = Some (Inr (doc_value d)) \<longleftrightarrow> json_depth d \<le> kMaxDepth"
  using json_parse_print [OF assms] json_parse_shallow [of "print_doc d" "doc_value d"] json_depth_value [of d] by auto

theorem json_round_trip_witness:
  "json_parse (print_doc (JArray [JString [CHR 0x22, CHR 0x5C, CHR 0x01, CHR 0xC3, CHR 0xA9], JNull])) =
     Some (Inr (JArray [JString [CHR 0x22, CHR 0x5C, CHR 0x01, CHR 0xC3, CHR 0xA9], JNull]))"
  using json_round_trip [of "JArray [JString [CHR 0x22, CHR 0x5C, CHR 0x01, CHR 0xC3, CHR 0xA9], JNull]"]
  by (simp add: doc_value_def kMaxDepth_def)

end
