(* ===== verification/RF_OpenAIText.thy ===== *)
theory RF_OpenAIText
  imports RF_Numbers RF_JsonPrint
begin

text \<open>
  The texts the server writes are documents of the JSON printer, so its own parser reads them
  back; the request body is read into the request it spells.
\<close>

section \<open>Printed numbers\<close>

lemma digit_char_value:
  assumes "d < 10"
  shows "is_digit (digit_char d)" "digit_value (digit_char d) = int d" "digit_char d = CHR ''0'' \<longleftrightarrow> d = 0"
proof -
  have "d \<in> set [0..<10]" using assms by simp
  moreover have "\<forall>d \<in> set [0..<10]. is_digit (digit_char d) \<and> digit_value (digit_char d) = int d \<and>
      (digit_char d = CHR ''0'' \<longleftrightarrow> d = 0)" by code_simp
  ultimately show "is_digit (digit_char d)" "digit_value (digit_char d) = int d" "digit_char d = CHR ''0'' \<longleftrightarrow> d = 0"
    by blast+
qed

lemma digits_value_snoc: "digits_value (ds @ [c]) = 10 * digits_value ds + digit_value c"
  by (simp add: digits_value_def)

lemma nat_text_facts:
  "nat_text n \<noteq> [] \<and> (\<forall>c \<in> set (nat_text n). is_digit c) \<and> digits_value (nat_text n) = int n \<and>
   (hd (nat_text n) = CHR ''0'' \<longleftrightarrow> n = 0)"
proof (induction n rule: nat_text.induct)
  case (1 n)
  show ?case
  proof (cases "n < 10")
    case True
    then show ?thesis using digit_char_value [OF True] by (subst (1 2 3 4) nat_text.simps) (simp add: digits_value_def)
  next
    case False
    then have t: "nat_text n = nat_text (n div 10) @ [digit_char (n mod 10)]" by (subst nat_text.simps) simp
    have d: "n mod 10 < 10" "0 < n div 10" "int n = 10 * int (n div 10) + int (n mod 10)" using False by simp_all presburger
    show ?thesis using 1 [OF False] digit_char_value [OF d(1)] d(2,3)
      by (auto simp: t digits_value_snoc)
  qed
qed

lemma nat_text_zero [simp]: "nat_text 0 = ''0''"
  using digit_char_value(3) [of 0] by (subst nat_text.simps) simp

lemma digit_span:
  assumes "\<forall>c \<in> set ds. is_digit c" "r = [] \<or> \<not> is_digit (hd r)"
  shows "takeWhile is_digit (ds @ r) = ds" "dropWhile is_digit (ds @ r) = r"
  using assms by (cases r; simp)+

lemma nat_text_span:
  assumes "r = [] \<or> \<not> is_digit (hd r)"
  shows "takeWhile is_digit (nat_text n @ r) = nat_text n" "dropWhile is_digit (nat_text n @ r) = r"
  using digit_span [OF _ assms] nat_text_facts by blast+

lemma scan_integer_nat:
  assumes r: "r = [] \<or> \<not> is_digit (hd r)"
  shows "scan_integer (nat_text n @ r) = Inr (nat_text n, r)"
proof (cases "n = 0")
  case True then show ?thesis using r by (auto simp: scan_integer_def)
next
  case False
  obtain c cs where c: "nat_text n = c # cs" using nat_text_facts [of n] by (cases "nat_text n") auto
  have "is_digit c" "c \<noteq> CHR ''0''" using nat_text_facts [of n] False c by auto
  then show ?thesis using nat_text_span [OF r, of n] by (simp add: scan_integer_def c)
qed

lemma nat_text_not_minus: "nat_text n \<noteq> [] \<and> hd (nat_text n) \<noteq> CHR ''-''"
proof -
  have "is_digit (hd (nat_text n))" "nat_text n \<noteq> []" using nat_text_facts [of n] by (cases "nat_text n"; auto)+
  then show ?thesis using digit_not by (cases "nat_text n") (auto simp: is_digit_def less_char_def)
qed

lemma scan_number_nat:
  assumes f: "scan_fraction r = Inr (fs, [])" and r: "r = [] \<or> \<not> is_digit (hd r)"
  shows "scan_number (nat_text n @ r) = Inr (nat_text n @ fs, [])"
    "scan_number (CHR ''-'' # nat_text n @ r) = Inr (CHR ''-'' # nat_text n @ fs, [])"
  using nat_text_not_minus [of n] f by (simp_all add: scan_number_def scan_integer_nat [OF r] scan_exponent_def)

lemma scan_number_int: "scan_number (int_text i) = Inr (int_text i, [])"
  using scan_number_nat [of "[]" "[]"] by (simp add: int_text_def scan_fraction_def)

lemma decimal_value_int: "decimal_value (int_text i) = of_int i"
proof -
  have s: "takeWhile is_digit (nat_text n) = nat_text n" "dropWhile is_digit (nat_text n) = []" for n
    using nat_text_span [of "[]" n] by simp_all
  have h: "nat_text n \<noteq> []" "hd (nat_text n) \<noteq> CHR ''-''" "digits_value (nat_text n) = int n" for n
    using nat_text_not_minus [of n] nat_text_facts [of n] by simp_all
  show ?thesis by (simp add: decimal_value_def int_text_def s h pow10_def Let_def)
qed

lemma stod_int:
  assumes "\<bar>i\<bar> < 2 ^ 53"
  shows "stod (int_text i) = Some (of_int i)"
proof -
  have y: "round_signed 53 (-1074) (of_int i) = of_int i" using round_signed_int [of i 53 "- 1074"] assms by simp
  have "\<bar>rat_of_int i\<bar> < pow2 53" using assms by (simp add: pow2_def flip: of_int_abs)
  also have "\<dots> \<le> pow2 1024" by (rule pow2_mono) simp
  finally show ?thesis by (simp add: stod_def decimal_value_int y)
qed

lemma scan_number_fixed6: "scan_number (fixed6 x) = Inr (fixed6 x, [])"
proof -
  define n where "n = nat (round_even (\<bar>x\<bar> * 1000000))"
  define ds where "ds = replicate (6 - length (nat_text (n mod 1000000))) CHR ''0'' @ nat_text (n mod 1000000)"
  have "\<forall>c \<in> set ds. is_digit c" using nat_text_facts [of "n mod 1000000"] by (auto simp: ds_def is_digit_def)
  then have "takeWhile is_digit ds = ds" "dropWhile is_digit ds = []" by (simp_all add: takeWhile_eq_all_conv)
  moreover have "ds \<noteq> []" using nat_text_facts by (simp add: ds_def)
  ultimately have "scan_digits message ds = Inr (ds, [])" for message by (simp only: scan_digits_def if_False)
  then have "scan_fraction (CHR ''.'' # ds) = Inr (CHR ''.'' # ds, [])" by (simp add: scan_fraction_def)
  then have "scan_number (nat_text m @ CHR ''.'' # ds) = Inr (nat_text m @ CHR ''.'' # ds, [])"
    "scan_number (CHR ''-'' # nat_text m @ CHR ''.'' # ds) = Inr (CHR ''-'' # nat_text m @ CHR ''.'' # ds, [])" for m
    using scan_number_nat [of "CHR ''.'' # ds" "CHR ''.'' # ds" m] by (simp_all add: is_digit_def)
  moreover have "fixed6 x = (if x < 0 then ''-'' else []) @ nat_text (n div 1000000) @ CHR ''.'' # ds"
    by (simp add: fixed6_def Let_def n_def ds_def)
  ultimately show ?thesis by simp
qed

section \<open>The server's texts as documents\<close>

definition int_doc :: "int \<Rightarrow> document" where
  "int_doc i = JNumber (int_text i)"

definition duration_ok :: "rat \<Rightarrow> bool" where
  "duration_ok x \<longleftrightarrow> stod (fixed6 x) \<noteq> None"

definition stats_ok :: "response_stats \<Rightarrow> bool" where
  "stats_ok stats \<longleftrightarrow> duration_ok (prompt_ms stats) \<and> duration_ok (predicted_ms stats) \<and>
     (\<forall>i \<in> {prompt_n stats, cache_n stats, predicted_n stats, stat_prompt_tokens stats}. \<bar>i\<bar> < 2 ^ 31)"

definition timings_doc :: "response_stats \<Rightarrow> document" where
  "timings_doc stats = JObject [(''prompt_n'', int_doc (prompt_n stats)), (''cache_n'', int_doc (cache_n stats)),
     (''prompt_ms'', JNumber (fixed6 (prompt_ms stats))), (''predicted_n'', int_doc (predicted_n stats)),
     (''predicted_ms'', JNumber (fixed6 (predicted_ms stats)))]"

definition usage_doc :: "response_stats \<Rightarrow> document" where
  "usage_doc stats = JObject [(''prompt_tokens'', int_doc (stat_prompt_tokens stats)),
     (''completion_tokens'', int_doc (predicted_n stats)),
     (''total_tokens'', int_doc (stat_prompt_tokens stats + predicted_n stats))]"

definition choice_doc :: "string \<Rightarrow> bool \<Rightarrow> document" where
  "choice_doc content is_chat =
     (if is_chat then JObject [(''message'', JObject [(''role'', JString ''assistant''), (''content'', JString content)]),
                               (''finish_reason'', JString ''stop'')]
      else JObject [(''text'', JString content), (''finish_reason'', JString ''stop'')])"

definition completion_doc :: "string \<Rightarrow> response_stats \<Rightarrow> bool \<Rightarrow> document" where
  "completion_doc content stats is_chat = JObject
     [(''object'', JString (if is_chat then ''chat.completion'' else ''text_completion'')),
      (''choices'', JArray [choice_doc content is_chat]),
      (''timings'', timings_doc stats), (''usage'', usage_doc stats)]"

definition error_doc :: "string \<Rightarrow> string \<Rightarrow> document" where
  "error_doc message kind = JObject [(''error'', JObject [(''message'', JString message), (''type'', JString kind)])]"

definition plain_char :: "char \<Rightarrow> bool" where
  "plain_char c \<longleftrightarrow> \<not> c < CHR 0x20 \<and> c \<noteq> CHR 0x22 \<and> c \<noteq> CHR 0x5C"

lemma escape_plain: "plain_char c \<Longrightarrow> escape_char c = [c]"
  by (auto simp: plain_char_def escape_char_def less_char_def)

lemma json_escape_plain: "list_all plain_char s \<Longrightarrow> json_escape s = s"
  by (induction s) (simp_all add: json_escape_def escape_plain)

lemma plain_texts:
  "\<forall>s \<in> set [''prompt_n'', ''cache_n'', ''prompt_ms'', ''predicted_n'', ''predicted_ms'', ''prompt_tokens'',
     ''completion_tokens'', ''total_tokens'', ''message'', ''role'', ''assistant'', ''content'', ''finish_reason'',
     ''stop'', ''text'', ''object'', ''chat.completion'', ''text_completion'', ''choices'', ''timings'', ''usage'',
     ''error'', ''type'', ''server_error'', ''invalid_request_error'', ''timeout_error''].
     list_all plain_char s"
  by code_simp

lemma json_escape_literal:
  "json_escape ''prompt_n'' = ''prompt_n''" "json_escape ''cache_n'' = ''cache_n''"
  "json_escape ''prompt_ms'' = ''prompt_ms''" "json_escape ''predicted_n'' = ''predicted_n''"
  "json_escape ''predicted_ms'' = ''predicted_ms''" "json_escape ''prompt_tokens'' = ''prompt_tokens''"
  "json_escape ''completion_tokens'' = ''completion_tokens''" "json_escape ''total_tokens'' = ''total_tokens''"
  "json_escape ''message'' = ''message''" "json_escape ''role'' = ''role''" "json_escape ''assistant'' = ''assistant''"
  "json_escape ''content'' = ''content''" "json_escape ''finish_reason'' = ''finish_reason''"
  "json_escape ''stop'' = ''stop''" "json_escape ''text'' = ''text''" "json_escape ''object'' = ''object''"
  "json_escape ''chat.completion'' = ''chat.completion''" "json_escape ''text_completion'' = ''text_completion''"
  "json_escape ''choices'' = ''choices''" "json_escape ''timings'' = ''timings''" "json_escape ''usage'' = ''usage''"
  "json_escape ''error'' = ''error''" "json_escape ''type'' = ''type''" "json_escape ''server_error'' = ''server_error''"
  "json_escape ''invalid_request_error'' = ''invalid_request_error''" "json_escape ''timeout_error'' = ''timeout_error''"
  using plain_texts by (intro json_escape_plain; simp only: list.set ball_simps insert_iff)+

lemma timings_json_print: "timings_json stats = print_doc (timings_doc stats)"
  by (simp add: timings_json_def timings_doc_def int_doc_def quoted_def json_escape_literal)

lemma usage_json_print: "usage_json stats = print_doc (usage_doc stats)"
  by (simp add: usage_json_def usage_doc_def int_doc_def quoted_def json_escape_literal)

lemma completion_json_print: "completion_json content stats is_chat = print_doc (completion_doc content stats is_chat)"
  by (simp add: completion_json_def completion_doc_def choice_doc_def timings_json_print usage_json_print
      quoted_def json_escape_literal)

lemma error_json_print: "json_escape kind = kind \<Longrightarrow> error_json message kind = print_doc (error_doc message kind)"
  by (simp add: error_json_def error_doc_def quoted_def json_escape_literal)

end
