(* ===== verification/RF_OpenAIProps.thy ===== *)
theory RF_OpenAIProps
  imports RF_OpenAIText RF_WorkerRun
begin

text \<open>
  Reading back: a client that parses the answers finds the text and the counts in them, and
  the server reads from a request body the request that it spells.
\<close>

section \<open>Answers\<close>

lemma scan_literals [simp]:
  "scan_number (int_text i) = Inr (int_text i, [])" "scan_number (fixed6 x) = Inr (fixed6 x, [])"
  by (simp_all add: scan_number_int scan_number_fixed6)

lemma completion_doc_ok: "stats_ok stats \<Longrightarrow> doc_ok (completion_doc content stats is_chat)"
  by (auto simp: stats_ok_def duration_ok_def completion_doc_def choice_doc_def timings_doc_def usage_doc_def
      int_doc_def stod_int)

lemma completion_doc_depth: "json_depth (completion_doc content stats is_chat) \<le> 4"
  by (simp add: completion_doc_def choice_doc_def timings_doc_def usage_doc_def int_doc_def)

lemma error_json_parse:
  assumes "json_escape kind = kind"
  shows "json_parse (error_json message kind) =
     Some (Inr (JObject [(''error'', JObject [(''message'', JString message), (''type'', JString kind)])]))"
  using json_parse_print [of "error_doc message kind"] error_json_print [OF assms, of message]
  by (simp add: error_doc_def doc_value_def kMaxDepth_def)

definition answer_text :: "bool \<Rightarrow> json \<Rightarrow> string" where
  "answer_text is_chat v =
     (let choice = hd (as_array (json_member v ''choices'')) in
      if is_chat then as_string (json_member (json_member choice ''message'') ''content'')
      else as_string (json_member choice ''text''))"

definition answer_count :: "json \<Rightarrow> string \<Rightarrow> string \<Rightarrow> rat" where
  "answer_count v part key = as_number (json_member (json_member v part) key)"

lemma completion_parse:
  assumes "stats_ok stats"
  shows "json_parse (completion_json content stats is_chat) = Some (Inr (doc_value (completion_doc content stats is_chat)))"
proof -
  have "json_depth (completion_doc content stats is_chat) \<le> kMaxDepth"
    using completion_doc_depth [of content stats is_chat] by (simp add: kMaxDepth_def)
  from json_parse_print [OF completion_doc_ok [OF assms] this] show ?thesis by (simp add: completion_json_print)
qed

lemmas answer_docs = answer_text_def answer_count_def doc_value_def completion_doc_def choice_doc_def timings_doc_def
  usage_doc_def int_doc_def json_member_def

lemma answer_text_doc: "answer_text is_chat (doc_value (completion_doc content stats is_chat)) = content"
  by (simp add: answer_docs)

lemma completion_text_read:
  "stats_ok stats \<Longrightarrow> \<exists>v. json_parse (completion_json content stats is_chat) = Some (Inr v) \<and> answer_text is_chat v = content"
  by (simp add: completion_parse answer_text_doc)

text \<open>
  C27. A client reads in the answer exactly the text that was generated, whatever bytes it has,
  and the counts of the worker: the prompt, the part of it from the cache, the completion and
  their sum.
\<close>

theorem completion_reads_back:
  assumes "stats_ok stats"
  shows "\<exists>v. json_parse (completion_json content stats is_chat) = Some (Inr v) \<and>
    answer_text is_chat v = content \<and>
    answer_count v ''timings'' ''prompt_n'' = of_int (prompt_n stats) \<and>
    answer_count v ''timings'' ''cache_n'' = of_int (cache_n stats) \<and>
    answer_count v ''usage'' ''prompt_tokens'' = of_int (stat_prompt_tokens stats) \<and>
    answer_count v ''usage'' ''completion_tokens'' = of_int (predicted_n stats) \<and>
    answer_count v ''usage'' ''total_tokens'' = of_int (stat_prompt_tokens stats + predicted_n stats)"
proof (intro exI conjI)
  let ?v = "doc_value (completion_doc content stats is_chat)"
  show "json_parse (completion_json content stats is_chat) = Some (Inr ?v)" using assms by (rule completion_parse)
  show "answer_text is_chat ?v = content" by (rule answer_text_doc)
  have small: "\<bar>prompt_n stats\<bar> < 2 ^ 53" "\<bar>cache_n stats\<bar> < 2 ^ 53" "\<bar>stat_prompt_tokens stats\<bar> < 2 ^ 53"
    "\<bar>predicted_n stats\<bar> < 2 ^ 53" "\<bar>stat_prompt_tokens stats + predicted_n stats\<bar> < 2 ^ 53"
    using assms by (auto simp: stats_ok_def)
  show "answer_count ?v ''timings'' ''prompt_n'' = of_int (prompt_n stats)"
    "answer_count ?v ''timings'' ''cache_n'' = of_int (cache_n stats)"
    "answer_count ?v ''usage'' ''prompt_tokens'' = of_int (stat_prompt_tokens stats)"
    "answer_count ?v ''usage'' ''completion_tokens'' = of_int (predicted_n stats)"
    "answer_count ?v ''usage'' ''total_tokens'' = of_int (stat_prompt_tokens stats + predicted_n stats)"
    using small by (simp_all add: answer_docs stod_int)
qed

definition sample_stats :: response_stats where
  "sample_stats = \<lparr>prompt_n = 2, cache_n = 5, stat_prompt_tokens = 7, predicted_n = 3, prompt_ms = 0, predicted_ms = 0\<rparr>"

lemma duration_zero: "duration_ok 0"
proof -
  have d: "replicate 5 CHR ''0'' = ''00000''" by code_simp
  have z: "fixed6 0 = ''0.000000''" by (simp add: fixed6_def round_even_def d)
  have digits: "is_digit CHR ''0''" "\<not> is_digit CHR ''.''" "digit_value CHR ''0'' = 0" by code_simp+
  have "decimal_value (fixed6 0) = 0" by (simp add: z decimal_value_def digits digits_value_def)
  moreover have "\<not> pow2 e \<le> 0" for e using pow2_pos [of e] by linarith
  ultimately show ?thesis by (simp add: duration_ok_def stod_def round_signed_def)
qed

theorem completion_reads_back_witness:
  "\<exists>v. json_parse (completion_json [CHR 0x22, CHR 0x0A, CHR 0xE2] sample_stats True) = Some (Inr v) \<and>
     answer_text True v = [CHR 0x22, CHR 0x0A, CHR 0xE2] \<and> answer_count v ''usage'' ''total_tokens'' = 10"
proof -
  have "stats_ok sample_stats" by (simp add: stats_ok_def sample_stats_def duration_zero)
  from completion_reads_back [OF this, of "[CHR 0x22, CHR 0x0A, CHR 0xE2]" True] show ?thesis
    by (auto simp: sample_stats_def)
qed

section \<open>Requests\<close>

text \<open>The body that spells a request: its messages or else its prompt, the limit and the mode.\<close>

definition message_doc :: "chat_message \<Rightarrow> document" where
  "message_doc m = JObject [(''role'', JString (msg_role m)), (''content'', JString (msg_content m))]"

definition request_doc :: "inference_request \<Rightarrow> document" where
  "request_doc r = JObject
     [(if rq_messages r \<noteq> [] then (''messages'', JArray (map message_doc (rq_messages r))) else (''prompt'', JString (rq_prompt r))),
      (''max_tokens'', int_doc (rq_max_tokens r)), (''stream'', JBool (rq_stream r))]"

lemma foldr_max_const: "(\<And>x. x \<in> set xs \<Longrightarrow> f x = (1::nat)) \<Longrightarrow> foldr max (map f xs) 0 \<le> 1"
  by (induction xs) auto

lemma request_doc_depth: "json_depth (request_doc r) \<le> 3"
proof -
  have "foldr max (map (json_depth \<circ> message_doc) (rq_messages r)) 0 \<le> 1"
    by (rule foldr_max_const) (simp add: message_doc_def)
  then show ?thesis by (simp add: request_doc_def int_doc_def)
qed

lemma request_doc_ok: "0 \<le> rq_max_tokens r \<Longrightarrow> rq_max_tokens r \<le> 2147483647 \<Longrightarrow> doc_ok (request_doc r)"
  by (auto simp: request_doc_def int_doc_def stod_int message_doc_def)

lemma message_eta: "\<lparr>msg_role = msg_role m, msg_content = msg_content m\<rparr> = m"
  by (cases m) simp

lemma body_messages_doc:
  "json_member v ''messages'' = JArray (map (doc_value \<circ> message_doc) ms) \<Longrightarrow> body_messages v = ms"
  by (simp add: body_messages_def json_contains_def json_member_def message_doc_def doc_value_def comp_def message_eta)

lemma request_read:
  assumes "0 \<le> rq_max_tokens r" "rq_max_tokens r \<le> 2147483647" "rq_prompt r = [] \<or> rq_messages r = []"
  shows "parse_request_body (print_doc (request_doc r)) (r\<lparr>rq_prompt := [], rq_messages := [], rq_max_tokens := 4096\<rparr>) cfg =
     Some (Inr (r\<lparr>rq_temperature := cfg_temperature cfg, rq_top_p := cfg_top_p cfg\<rparr>))"
proof -
  let ?v = "doc_value (request_doc r)"
  have "json_depth (request_doc r) \<le> kMaxDepth" using request_doc_depth [of r] by (simp add: kMaxDepth_def)
  then have p: "json_parse (print_doc (request_doc r)) = Some (Inr ?v)"
    using request_doc_ok assms by (intro json_parse_print) auto
  have n: "stod (int_text (rq_max_tokens r)) = Some (of_int (rq_max_tokens r))" using assms by (intro stod_int) auto
  note unfold = request_doc_def int_doc_def doc_value_def json_contains_def json_member_def
  have m: "body_max_tokens ?v cfg = Inr (rq_max_tokens r)"
    using assms n by (auto simp: body_max_tokens_def unfold Let_def)
  have f: "body_float ?v ''temperature'' x = Some x" "body_float ?v ''top_p'' x = Some x" for x
    by (simp_all add: body_float_def unfold)
  have s: "json_contains ?v ''stream''" "json_type_of (json_member ?v ''stream'') = TBool"
    "as_bool (json_member ?v ''stream'') = rq_stream r"
    by (simp_all add: unfold)
  show ?thesis
  proof (cases "rq_messages r = []")
    case True
    then have "\<not> json_contains ?v ''messages''" "json_contains ?v ''prompt''" "json_member ?v ''prompt'' = JString (rq_prompt r)"
      by (simp_all add: unfold)
    then show ?thesis using True by (simp add: parse_request_body_def p m f s)
  next
    case False
    then have "json_contains ?v ''messages''" "json_member ?v ''messages'' = JArray (map (doc_value \<circ> message_doc) (rq_messages r))"
      by (simp_all add: unfold comp_def)
    then show ?thesis using False assms(3) body_messages_doc [of ?v "rq_messages r"]
      by (simp add: parse_request_body_def p m f s)
  qed
qed

text \<open>
  C28. The server reads from a body the request that it spells: every message in order with its
  role and its content, or else the prompt, byte for byte, and the limit and the mode; the
  options that the body leaves out are those of the configuration.
\<close>

theorem request_reads_back:
  assumes "0 \<le> rq_max_tokens r" "rq_max_tokens r \<le> 2147483647" "rq_prompt r = [] \<or> rq_messages r = []"
  shows "parse_request_body (print_doc (request_doc r)) (r\<lparr>rq_prompt := [], rq_messages := [], rq_max_tokens := 4096\<rparr>) cfg =
     Some (Inr (r\<lparr>rq_temperature := cfg_temperature cfg, rq_top_p := cfg_top_p cfg\<rparr>))"
  using assms by (rule request_read)

theorem request_reads_back_witness:
  "parse_request_body
     (print_doc (request_doc (sample_request 0 [] 5\<lparr>rq_messages := [\<lparr>msg_role = ''user'', msg_content = [CHR 0x22, CHR 0x5C]\<rparr>]\<rparr>)))
     (sample_request 0 [] 4096) default_config =
   Some (Inr (sample_request 0 [] 5\<lparr>rq_messages := [\<lparr>msg_role = ''user'', msg_content = [CHR 0x22, CHR 0x5C]\<rparr>],
     rq_temperature := float_0_7, rq_top_p := float_0_9\<rparr>))"
  using request_reads_back [of "sample_request 0 [] 5\<lparr>rq_messages := [\<lparr>msg_role = ''user'', msg_content = [CHR 0x22, CHR 0x5C]\<rparr>]\<rparr>" default_config]
  by (simp add: sample_request_def default_config_def)

text \<open>A value of the type \<open>float\<close>.\<close>

definition is_float :: "rat \<Rightarrow> bool" where
  "is_float y \<longleftrightarrow> representable 24 (-149) y \<and> \<bar>y\<bar> < pow2 128"

lemma is_float_fraction:
  assumes "\<bar>m\<bar> \<le> 2 ^ 24"
  shows "is_float (of_int m / 16777216)"
proof -
  have x: "(of_int m / 16777216 :: rat) = of_int m * pow2 (-24)" by (simp add: pow2_def)
  have "\<bar>rat_of_int m\<bar> \<le> 16777216" using assms by (simp flip: of_int_abs)
  then have "\<bar>of_int m / 16777216\<bar> \<le> (1 :: rat)" by simp
  also have "1 < pow2 128" by (simp add: pow2_def)
  finally have "\<bar>of_int m / 16777216\<bar> < pow2 128" .
  moreover have "representable 24 (-149) (of_int m * pow2 (-24))"
    using assms unfolding representable_def by (intro exI [of _ m] exI [of _ "-24"]) simp
  ultimately show ?thesis unfolding is_float_def x by simp
qed

lemma float_constants: "is_float float_0_9" "is_float float_0_7"
  using is_float_fraction [of 15099494] is_float_fraction [of 11744051] by (simp_all add: float_0_9_def float_0_7_def)

lemma to_float_type: "to_float x = Some y \<Longrightarrow> is_float y"
  using round_signed_representable [of 24 "- 149" x] by (auto simp: to_float_def is_float_def Let_def split: if_splits)

text \<open>
  The conversion to \<open>float\<close> is undefined from half a unit above the greatest number of the type
  on, and otherwise as exact as the type is.
\<close>

definition float_limit :: rat where
  "float_limit = 2 ^ 128 - 2 ^ 103"

lemma round_binary_error:
  assumes "0 < x"
  shows "\<bar>round_binary 24 (-149) x - x\<bar> \<le> max (x / 2 ^ 24) (1 / 2 ^ 150)"
proof -
  let ?b = "binary_exponent x"
  define e where "e = max (?b - 23) (-149)"
  have "round_binary 24 (-149) x = of_int (round_even (x / pow2 e)) * pow2 e"
    by (simp add: round_binary_def Let_def e_def)
  then have "round_binary 24 (-149) x - x = (of_int (round_even (x / pow2 e)) - x / pow2 e) * pow2 e" by (simp add: left_diff_distrib)
  then have "\<bar>round_binary 24 (-149) x - x\<bar> = \<bar>of_int (round_even (x / pow2 e)) - x / pow2 e\<bar> * pow2 e" by (simp add: abs_mult)
  also have "\<dots> \<le> 1 / 2 * pow2 e" by (rule mult_right_mono [OF round_even_error]) simp
  also have "\<dots> \<le> max (x / 2 ^ 24) (1 / 2 ^ 150)"
  proof (cases "?b - 23 \<le> -149")
    case True
    then have "e = -149" by (simp add: e_def)
    then have "1 / 2 * pow2 e = 1 / 2 ^ 150" by (simp add: pow2_def)
    then show ?thesis by simp
  next
    case False
    then have "e = ?b - 23" by (simp add: e_def)
    moreover have "pow2 ?b = pow2 (?b - 23) * pow2 (int 23)" by (simp flip: pow2_add)
    ultimately have "1 / 2 * pow2 e = pow2 ?b / 2 ^ 24" unfolding pow2_nat by simp
    moreover have "pow2 ?b / 2 ^ 24 \<le> x / 2 ^ 24" using binary_exponent_bracket [OF assms] by (intro divide_right_mono) simp_all
    ultimately show ?thesis by (simp only: max.coboundedI1)
  qed
  finally show ?thesis .
qed

lemma round_binary_limit:
  assumes x: "0 < x"
  shows "pow2 128 \<le> round_binary 24 (-149) x \<longleftrightarrow> float_limit \<le> x"
proof -
  let ?b = "binary_exponent x"
  have bracket: "pow2 ?b \<le> x" "x < pow2 (?b + 1)" using binary_exponent_bracket [OF x] by simp_all
  have p128: "pow2 128 = 2 ^ 128" "pow2 127 = 2 ^ 127" by (simp_all add: pow2_def)
  consider (low) "?b \<le> 126" | (top) "?b = 127" | (high) "128 \<le> ?b" by linarith
  then show ?thesis
  proof cases
    case low
    obtain m where m: "round_binary 24 (-149) x = of_int m * pow2 (max (?b - 23) (-149))" "0 \<le> m" "m \<le> 2 ^ 24"
      using round_binary_mantissa [OF x, of 24 "-149"] by auto
    have "of_int m * pow2 (max (?b - 23) (-149)) \<le> of_int (2 ^ 24) * pow2 103"
      using m(2,3) low by (intro mult_mono pow2_mono) (simp_all only: of_int_le_iff pow2_nonneg of_int_0_le_iff max.bounded_iff, simp_all)
    also have "of_int (2 ^ 24) * pow2 103 < pow2 128" by (simp add: pow2_def)
    finally have "\<not> pow2 128 \<le> round_binary 24 (-149) x" using m(1) by simp
    moreover have "pow2 (?b + 1) \<le> pow2 127" using low by (intro pow2_mono) simp
    then have "x < 2 ^ 127" using bracket(2) p128(2) by linarith
    then have "\<not> float_limit \<le> x" by (simp add: float_limit_def)
    ultimately show ?thesis by simp
  next
    case top
    let ?y = "x / pow2 104"
    have r: "round_binary 24 (-149) x = of_int (round_even ?y) * pow2 104" by (simp add: round_binary_def Let_def top)
    have p: "pow2 128 = of_int (2 ^ 24) * pow2 104" by (simp add: pow2_def)
    have "pow2 128 \<le> round_binary 24 (-149) x \<longleftrightarrow> of_int (2 ^ 24) * pow2 104 \<le> of_int (round_even ?y) * pow2 104"
      by (simp only: p r)
    also have "\<dots> \<longleftrightarrow> (2 ^ 24 :: rat) \<le> of_int (round_even ?y)" by simp
    also have "\<dots> \<longleftrightarrow> 16777216 \<le> round_even ?y" by simp
    also have "\<dots> \<longleftrightarrow> 16777215 + 1 / 2 \<le> ?y"
    proof
      assume "16777216 \<le> round_even ?y"
      then show "16777215 + 1 / 2 \<le> ?y" using round_even_error [of ?y] by linarith
    next
      assume y: "16777215 + 1 / 2 \<le> ?y"
      show "16777216 \<le> round_even ?y"
      proof (cases "?y < 16777216")
        case True
        moreover have "16777215 \<le> ?y" using y by linarith
        ultimately have "\<lfloor>?y\<rfloor> = 16777215" by (intro floor_unique) simp_all
        then show ?thesis using y by (simp add: round_even_def Let_def)
      next
        case False
        then have "16777216 \<le> \<lfloor>?y\<rfloor>" by (simp add: le_floor_iff)
        then show ?thesis by (auto simp: round_even_def Let_def)
      qed
    qed
    also have "\<dots> \<longleftrightarrow> (16777215 + 1 / 2) * pow2 104 \<le> x" by (rule pos_le_divide_eq) simp
    also have "\<dots> \<longleftrightarrow> float_limit \<le> x" by (simp add: float_limit_def pow2_def)
    finally show ?thesis .
  next
    case high
    let ?u = "pow2 (?b - 23)"
    have e: "max (?b - 23) (-149) = ?b - 23" using high by simp
    have "pow2 ?b = of_int (2 ^ 23) * ?u"
    proof -
      have "pow2 ?b = pow2 (int 23) * pow2 (?b - 23)" by (simp flip: pow2_add)
      then show ?thesis by (simp only: pow2_nat)
    qed
    then have "of_int (2 ^ 23) \<le> x / ?u" using bracket(1) by (simp only: pos_le_divide_eq pow2_pos)
    then have "2 ^ 23 \<le> \<lfloor>x / ?u\<rfloor>" by (simp only: le_floor_iff)
    then have "2 ^ 23 \<le> round_even (x / ?u)" by (auto simp: round_even_def Let_def)
    then have "of_int (2 ^ 23) * ?u \<le> of_int (round_even (x / ?u)) * ?u" by (intro mult_right_mono) (simp_all only: of_int_le_iff pow2_nonneg)
    then have "pow2 ?b \<le> round_binary 24 (-149) x"
      using \<open>pow2 ?b = of_int (2 ^ 23) * ?u\<close> by (simp add: round_binary_def Let_def e)
    moreover have "pow2 128 \<le> pow2 ?b" using high by (rule pow2_mono)
    moreover from this have "float_limit \<le> x" using bracket(1) p128(1) by (simp add: float_limit_def)
    ultimately show ?thesis by simp
  qed
qed

lemma to_float_limit:
  "to_float x = None \<longleftrightarrow> float_limit \<le> \<bar>x\<bar>"
proof -
  have r: "0 \<le> round_binary 24 (-149) y" if "0 < y" for y
    using round_binary_mantissa [OF that, of 24 "-149"] by auto
  have l: "0 < float_limit" by (simp add: float_limit_def)
  show ?thesis
  proof (cases "x = 0")
    case True
    then show ?thesis using l pow2_pos [of 128] by (simp add: to_float_def round_signed_def Let_def not_le)
  next
    case False
    have "\<bar>round_signed 24 (-149) x\<bar> = round_binary 24 (-149) \<bar>x\<bar>"
      using False r [of x] r [of "- x"] by (auto simp: round_signed_def)
    then show ?thesis using round_binary_limit [of "\<bar>x\<bar>"] False by (simp add: to_float_def Let_def)
  qed
qed

lemma to_float_error:
  assumes "to_float x = Some y"
  shows "\<bar>y - x\<bar> \<le> max (\<bar>x\<bar> / 2 ^ 24) (1 / 2 ^ 150)"
proof -
  have "y = round_signed 24 (-149) x" using assms by (simp add: to_float_def Let_def split: if_splits)
  moreover have "\<bar>round_signed 24 (-149) x - x\<bar> = \<bar>round_binary 24 (-149) \<bar>x\<bar> - \<bar>x\<bar>\<bar>" if "x \<noteq> 0"
    using that by (auto simp: round_signed_def abs_if)
  ultimately show ?thesis using round_binary_error [of "\<bar>x\<bar>"] by (cases "x = 0") (simp_all add: round_signed_def)
qed

text \<open>The number that a body gives for a key, and how the value of a request corresponds to it.\<close>

definition number_at :: "json \<Rightarrow> string \<Rightarrow> rat option" where
  "number_at body key =
     (if json_contains body key \<and> json_type_of (json_member body key) = TNumber then Some (as_number (json_member body key)) else None)"

definition read_as_float :: "json \<Rightarrow> string \<Rightarrow> rat \<Rightarrow> rat \<Rightarrow> bool" where
  "read_as_float body key otherwise y = (case number_at body key of
       None \<Rightarrow> y = otherwise
     | Some x \<Rightarrow> \<bar>x\<bar> < float_limit \<and> is_float y \<and> \<bar>y - x\<bar> \<le> max (\<bar>x\<bar> / 2 ^ 24) (1 / 2 ^ 150))"

lemma body_float_read: "body_float body key otherwise = Some y \<Longrightarrow> read_as_float body key otherwise y"
  using to_float_limit [of "as_number (json_member body key)"] to_float_type to_float_error
  by (auto simp: read_as_float_def number_at_def body_float_def simp flip: not_le split: if_splits)

lemma body_float_undefined: "body_float body key otherwise = None \<longleftrightarrow> (\<exists>x. number_at body key = Some x \<and> float_limit \<le> \<bar>x\<bar>)"
  by (simp add: body_float_def number_at_def to_float_limit)

lemma body_max_tokens_type:
  assumes "body_max_tokens body cfg = Inr n" "0 \<le> cfg_max_tokens cfg" "cfg_max_tokens cfg \<le> 2147483647"
  shows "0 \<le> n \<and> n \<le> 2147483647"
  using assms by (auto simp: body_max_tokens_def Let_def floor_le_iff le_floor_iff split: if_splits)

text \<open>
  C29. What any body can lead to, with a configured limit of tokens that is a non-negative
  \<open>int32_t\<close>. It is refused, with an error of the JSON parser or one of the two messages about
  \<open>max_tokens\<close>. Or it is accepted: then the limit of tokens is a non-negative \<open>int32_t\<close>, the
  temperature and the probability mass are the numbers of the body, which are in the range of
  \<open>float\<close>, to the precision of that type (or the configured ones where the body gives no number),
  and the number of the request and the messages it had are kept. Or its handling is undefined,
  because the code casts to \<open>float\<close> without a check: this is so exactly if the body is otherwise
  fine and one of the two numbers is out of the range, as in the other two cases none is.
\<close>

theorem request_body_outcome:
  assumes "0 \<le> cfg_max_tokens cfg" "cfg_max_tokens cfg \<le> 2147483647"
  shows "case parse_request_body body_text request cfg of
      Some (Inl e) \<Rightarrow> json_parse body_text = Some (Inl e) \<or>
        (\<exists>body. json_parse body_text = Some (Inr body) \<and> body_max_tokens body cfg = Inl e \<and>
          e \<in> {''max_tokens must be a number'', ''max_tokens must be a non-negative int32''})
    | Some (Inr r) \<Rightarrow> \<exists>body. json_parse body_text = Some (Inr body) \<and> body_max_tokens body cfg = Inr (rq_max_tokens r) \<and>
        0 \<le> rq_max_tokens r \<and> rq_max_tokens r \<le> 2147483647 \<and>
        read_as_float body ''temperature'' (cfg_temperature cfg) (rq_temperature r) \<and>
        read_as_float body ''top_p'' (cfg_top_p cfg) (rq_top_p r) \<and>
        rq_id r = rq_id request \<and> (\<exists>ms. rq_messages r = rq_messages request @ ms)
    | None \<Rightarrow> \<exists>body n x. json_parse body_text = Some (Inr body) \<and> body_max_tokens body cfg = Inr n \<and>
        (number_at body ''temperature'' = Some x \<or> number_at body ''top_p'' = Some x) \<and> float_limit \<le> \<bar>x\<bar>"
proof -
  obtain parsed where parsed: "json_parse body_text = Some parsed"
    using json_parse_defined by blast
  show ?thesis
  proof (cases parsed)
    case (Inl e)
    then show ?thesis using parsed by (simp add: parse_request_body_def)
  next
    case body: (Inr body)
    show ?thesis
    proof (cases "body_max_tokens body cfg")
      case (Inl e)
      then have "e \<in> {''max_tokens must be a number'', ''max_tokens must be a non-negative int32''}"
        by (auto simp: body_max_tokens_def Let_def split: if_splits)
      then show ?thesis using parsed body Inl by (simp add: parse_request_body_def)
    next
      case n: (Inr n)
      show ?thesis
      proof (cases "body_float body ''temperature'' (cfg_temperature cfg) = None \<or> body_float body ''top_p'' (cfg_top_p cfg) = None")
        case True
        then have "parse_request_body body_text request cfg = None"
          using parsed body n by (auto simp: parse_request_body_def Let_def bind_eq_None_conv)
        moreover have "\<exists>x. (number_at body ''temperature'' = Some x \<or> number_at body ''top_p'' = Some x) \<and> float_limit \<le> \<bar>x\<bar>"
          using True unfolding body_float_undefined by blast
        ultimately show ?thesis using parsed body n by auto
      next
        case False
        then obtain t p where tp: "body_float body ''temperature'' (cfg_temperature cfg) = Some t"
          "body_float body ''top_p'' (cfg_top_p cfg) = Some p" by auto
        obtain r where r: "parse_request_body body_text request cfg = Some (Inr r)" "rq_max_tokens r = n" "rq_temperature r = t" "rq_top_p r = p"
          "rq_id r = rq_id request" "\<exists>ms. rq_messages r = rq_messages request @ ms"
          using parsed body n tp by (auto simp: parse_request_body_def)
        then show ?thesis using parsed body n body_max_tokens_type [OF n assms] body_float_read [OF tp(1)] body_float_read [OF tp(2)] by simp
      qed
    qed
  qed
qed

theorem request_body_outcome_witness:
  "\<exists>r body. parse_request_body (print_doc (request_doc (sample_request 0 ''a'' 5))) (sample_request 0 [] 4096) default_config = Some (Inr r) \<and>
     json_parse (print_doc (request_doc (sample_request 0 ''a'' 5))) = Some (Inr body) \<and>
     rq_max_tokens r \<le> 2147483647 \<and> read_as_float body ''temperature'' float_0_7 (rq_temperature r)"
proof -
  have p: "parse_request_body (print_doc (request_doc (sample_request 0 ''a'' 5))) (sample_request 0 [] 4096) default_config =
      Some (Inr (sample_request 0 ''a'' 5\<lparr>rq_temperature := float_0_7, rq_top_p := float_0_9\<rparr>))"
    using request_read [of "sample_request 0 ''a'' 5" default_config] by (simp add: sample_request_def default_config_def)
  show ?thesis
    using request_body_outcome [of default_config "print_doc (request_doc (sample_request 0 ''a'' 5))" "sample_request 0 [] 4096"]
    unfolding p by (auto simp: default_config_def)
qed

end
