(* ===== verification/RF_StreamProps.thy ===== *)
theory RF_StreamProps
  imports RF_Stream RF_Utf8 RF_OpenAIProps "HOL-Library.Sublist"
begin

text \<open>
  What a streaming client receives, and that nothing touches the sink once the provider has
  returned.
\<close>

section \<open>The client's side\<close>

fun delivered_texts :: "sink_call list \<Rightarrow> string list" where
  "delivered_texts [] = []"
| "delivered_texts (Wrote text r # cs) = (if r then text # delivered_texts cs else delivered_texts cs)"
| "delivered_texts (Polled r # cs) = delivered_texts cs"

definition delivered :: "stream_state \<Rightarrow> string list" where
  "delivered st = delivered_texts (calls st)"

text \<open>A client reads the delta of the first choice of an event that is not the end mark.\<close>

definition delta_content :: "json \<Rightarrow> string" where
  "delta_content v =
     (case as_array (json_member v ''choices'') of
        [] \<Rightarrow> [] | choice # _ \<Rightarrow> as_string (json_member (json_member choice ''delta'') ''content''))"

definition event_content :: "string \<Rightarrow> string" where
  "event_content event =
     (if event = done_event then []
      else case json_parse (take (length event - 8) (drop 6 event)) of
             Some (Inr v) \<Rightarrow> delta_content v | _ \<Rightarrow> [])"

definition client_text :: "stream_state \<Rightarrow> string" where
  "client_text st = concat (map event_content (delivered st))"

lemma delivered_texts_append [simp]: "delivered_texts (cs @ ds) = delivered_texts cs @ delivered_texts ds"
  by (induction cs rule: delivered_texts.induct) simp_all

section \<open>The events as documents\<close>

definition chunk_doc :: "string \<Rightarrow> bool \<Rightarrow> response_stats option \<Rightarrow> document" where
  "chunk_doc content is_last stats = JObject
     ((''choices'', JArray [JObject [(''delta'', JObject [(''content'', JString content)]),
         (''finish_reason'', if is_last then JString ''stop'' else JNull)]]) #
      (case stats of
         Some s \<Rightarrow> if is_last then [(''timings'', timings_doc s), (''usage'', usage_doc s)] else [] | None \<Rightarrow> []))"

lemma json_escape_delta: "json_escape ''delta'' = ''delta''"
  by (rule json_escape_plain) code_simp

lemma chunk_json_print: "chunk_json content is_last stats = print_doc (chunk_doc content is_last stats)"
  by (cases stats) (simp_all add: chunk_json_def chunk_doc_def timings_json_print usage_json_print quoted_def
      json_escape_literal json_escape_delta)

lemma event_text: "take (length (''data: '' @ t @ newline2) - 8) (drop 6 (''data: '' @ t @ newline2)) = t"
  by (simp add: newline2_def)

lemma event_not_done: "t = CHR 0x7B # r \<Longrightarrow> ''data: '' @ t @ newline2 \<noteq> done_event"
  by (simp add: done_event_def newline2_def)

lemma event_content_json:
  assumes "json_parse t = Some (Inr v)" "t = CHR 0x7B # r"
  shows "event_content (''data: '' @ t @ newline2) = delta_content v"
  using event_not_done [OF assms(2)] by (simp only: event_content_def event_text assms(1) if_False option.case sum.case)

lemma chunk_content:
  assumes "\<forall>s. stats = Some s \<longrightarrow> stats_ok s"
  shows "event_content (chunk_event content is_last stats) = content"
proof -
  let ?d = "chunk_doc content is_last stats"
  have "doc_ok ?d" using assms
    by (auto simp: chunk_doc_def timings_doc_def usage_doc_def int_doc_def stats_ok_def duration_ok_def stod_int split: option.split)
  moreover have "json_depth ?d \<le> kMaxDepth"
    by (simp add: chunk_doc_def timings_doc_def usage_doc_def int_doc_def kMaxDepth_def split: option.split)
  ultimately have p: "json_parse (chunk_json content is_last stats) = Some (Inr (doc_value ?d))"
    by (simp add: json_parse_print chunk_json_print)
  have "\<exists>r. chunk_json content is_last stats = CHR 0x7B # r" by (simp add: chunk_json_def)
  then show ?thesis using event_content_json [OF p] unfolding chunk_event_def
    by (auto simp: delta_content_def chunk_doc_def doc_value_def json_member_def)
qed

lemma keep_alive_content: "event_content keep_alive_event = []"
proof -
  let ?d = "JObject [(''choices'', JArray [JObject [(''delta'', JObject []), (''finish_reason'', JNull)]])] :: document"
  let ?t = \<open>''{"choices":[{"delta":{},"finish_reason":null}]}''\<close>
  have d: "print_doc ?d = ?t" by (simp add: quoted_def json_escape_literal json_escape_delta)
  have "json_parse (print_doc ?d) = Some (Inr (doc_value ?d))" by (rule json_parse_print) (simp_all add: kMaxDepth_def)
  then have "json_parse ?t = Some (Inr (doc_value ?d))" by (simp only: d)
  from event_content_json [OF this] show ?thesis unfolding keep_alive_event_def
    by (simp add: delta_content_def doc_value_def json_member_def)
qed

lemma error_kind_plain: "json_escape (error_kind status) = error_kind status"
  by (simp add: error_kind_def json_escape_literal)

lemma error_content: "event_content (error_event message status) = []"
proof -
  have "\<exists>r. error_json message (error_kind status) = CHR 0x7B # r" by (simp add: error_json_def)
  then show ?thesis
    using event_content_json [OF error_json_parse [OF error_kind_plain, of message status]] unfolding error_event_def
    by (auto simp: delta_content_def json_member_def)
qed

lemma done_content: "event_content done_event = []"
  by (simp add: event_content_def)

section \<open>The split of the contents\<close>

lemma split_content_conserves:
  assumes "split_content carried token is_last = (content, incomplete)"
  shows "content @ incomplete = carried @ token" "is_last \<Longrightarrow> incomplete = []"
proof -
  define n where "n = complete_utf8_prefix_length (carried @ token)"
  have "(content, incomplete) =
      (if drop n (carried @ token) \<noteq> [] \<and> is_last then (take n (carried @ token) @ drop n (carried @ token), [])
       else (take n (carried @ token), drop n (carried @ token)))"
    using assms by (simp only: split_content_def Let_def n_def)
  then show "content @ incomplete = carried @ token" "is_last \<Longrightarrow> incomplete = []"
    by (auto simp del: take_append drop_append split: if_splits)
qed

lemma split_content_utf8:
  assumes s: "split_content carried token is_last = (content, incomplete)"
    and u: "utf8_text (carried @ token @ rest)" and l: "is_last \<Longrightarrow> rest = []"
  shows "utf8_text content \<and> utf8_text (incomplete @ rest)"
proof -
  have "utf8_text ((carried @ token) @ rest)" using u by simp
  then obtain a t where t: "carried @ token = a @ t" "utf8_text a" "utf8_begin t" "utf8_text (t @ rest)"
    by (rule utf8_text_split)
  have "split_content carried token is_last = (if t \<noteq> [] \<and> is_last then (a @ t, []) else (a, t))"
    using complete_prefix_text [OF t(2,3)] by (cases "t = []") (simp_all add: split_content_def Let_def t(1))
  then have "content = a @ t \<and> incomplete = [] \<and> rest = [] \<or> content = a \<and> incomplete = t"
    using s l by (auto split: if_splits)
  then show ?thesis using t utf8_text_append [OF t(2), of t] by auto
qed

section \<open>The callbacks keep the contents\<close>

fun piece_text :: "stream_event \<Rightarrow> string" where
  "piece_text (Piece t) = t"
| "piece_text (FinalPiece t _) = t"
| "piece_text _ = []"

definition tokens_of :: "stream_event list \<Rightarrow> string" where
  "tokens_of evs = concat (map piece_text evs)"

text \<open>The worker's protocol: pieces, then one final piece or one error, then nothing.\<close>

fun worker_protocol :: "stream_event list \<Rightarrow> bool" where
  "worker_protocol [] \<longleftrightarrow> True"
| "worker_protocol (Wake # evs) \<longleftrightarrow> worker_protocol evs"
| "worker_protocol (Piece _ # evs) \<longleftrightarrow> worker_protocol evs"
| "worker_protocol (_ # evs) \<longleftrightarrow> list_all ((=) Wake) evs"

definition stats_fine :: "stream_event \<Rightarrow> bool" where
  "stats_fine ev \<longleftrightarrow> (\<forall>t s. ev = FinalPiece t (Some s) \<longrightarrow> stats_ok s)"

definition final_event :: "stream_event \<Rightarrow> bool" where
  "final_event ev \<longleftrightarrow> (\<exists>t s. ev = FinalPiece t s)"

text \<open>
  The state after the pieces \<open>seen\<close>, with \<open>rest\<close> to come: the client has a begin of what was
  generated, in events of whole characters, and the carried bytes are what it misses.
\<close>

definition streamed :: "string \<Rightarrow> string \<Rightarrow> stream_state \<Rightarrow> bool" where
  "streamed seen rest st \<longleftrightarrow> prefix (client_text st) seen \<and> (\<forall>e \<in> set (delivered st). utf8_text (event_content e)) \<and>
     (\<not> ss_cancelled st \<longrightarrow> client_text st @ incomplete_utf8 st = seen \<and> utf8_text (incomplete_utf8 st @ rest))"

lemmas stream_ops = is_writable_def write_sink_def timed_write_def stop_stream_def

lemma streamed_cancelled: "streamed seen rest st \<Longrightarrow> ss_cancelled st \<Longrightarrow> streamed (seen @ t) rest' st"
  by (auto simp: streamed_def)

text \<open>A step that delivers events without content, or cancels, keeps it.\<close>

lemma streamed_silent:
  assumes "streamed seen rest st" "delivered st' = delivered st @ es" "\<forall>e \<in> set es. event_content e = []"
    and "ss_cancelled st' \<or> \<not> ss_cancelled st \<and> incomplete_utf8 st' = incomplete_utf8 st"
  shows "streamed seen rest st'"
proof -
  have "client_text st' = client_text st" using assms(2,3) by (simp add: client_text_def)
  moreover have "\<forall>e \<in> set es. utf8_text (event_content e)" using assms(3) by simp
  ultimately show ?thesis using assms unfolding streamed_def by auto
qed

lemma streamed_lost:
  assumes "streamed seen rest st" "delivered st' = delivered st" "ss_cancelled st'"
  shows "streamed (seen @ t) rest' st'"
  using assms unfolding streamed_def client_text_def by auto

text \<open>What one callback delivers: nothing, when it cancels, or the chunk and perhaps the end mark.\<close>

lemma on_token_cases:
  assumes c: "\<not> ss_cancelled st" and sp: "split_content (incomplete_utf8 st) token is_last = (content, incomplete)"
  obtains (lost) "delivered (stream_on_token perf sk token is_last stats st) = delivered st"
      "ss_cancelled (stream_on_token perf sk token is_last stats st)"
  | (sent) es where
      "delivered (stream_on_token perf sk token is_last stats st) = delivered st @ chunk_event content is_last stats # es"
      "\<forall>e \<in> set es. e = done_event" "incomplete_utf8 (stream_on_token perf sk token is_last stats st) = incomplete"
proof -
  let ?cs = "calls st @ [Polled True]" and ?chunk = "chunk_event content is_last stats"
  let ?ds = "?cs @ [Wrote ?chunk True]"
  consider (poll) "\<not> sink_is_writable sk (calls st)"
    | (chunk) "sink_is_writable sk (calls st)" "\<not> sink_write sk ?cs ?chunk"
    | (more) "sink_is_writable sk (calls st)" "sink_write sk ?cs ?chunk" "\<not> is_last"
    | (last) "sink_is_writable sk (calls st)" "sink_write sk ?cs ?chunk" "is_last" by blast
  then show thesis
  proof cases
    case poll then show ?thesis using c by (intro lost) (simp_all add: stream_on_token_def stream_ops delivered_def Let_def)
  next
    case chunk then show ?thesis using c sp
      by (intro lost) (simp_all add: stream_on_token_def stream_ops delivered_def Let_def)
  next
    case more then show ?thesis using c sp
      by (intro sent [of "[]"]) (simp_all add: stream_on_token_def stream_ops delivered_def Let_def)
  next
    case last then show ?thesis using c sp
      by (intro sent [of "if sink_write sk ?ds done_event then [done_event] else []"])
        (simp_all add: stream_on_token_def stream_ops delivered_def Let_def)
  qed
qed

lemma on_token_streamed:
  assumes s: "streamed seen (token @ rest) st" and l: "is_last \<Longrightarrow> rest = []"
    and stats: "\<forall>s. stats = Some s \<longrightarrow> stats_ok s"
  shows "streamed (seen @ token) rest (stream_on_token perf sk token is_last stats st)"
proof (cases "ss_cancelled st")
  case True
  then show ?thesis using streamed_cancelled [OF s] by (simp add: stream_on_token_def)
next
  case False
  obtain content incomplete where sp: "split_content (incomplete_utf8 st) token is_last = (content, incomplete)"
    by (cases "split_content (incomplete_utf8 st) token is_last")
  note c = split_content_conserves [OF sp]
  have b: "client_text st @ incomplete_utf8 st = seen" "utf8_text (incomplete_utf8 st @ token @ rest)"
    "\<forall>e \<in> set (delivered st). utf8_text (event_content e)"
    using s False by (simp_all add: streamed_def)
  note u = split_content_utf8 [OF sp b(2) l]
  let ?chunk = "chunk_event content is_last stats" and ?st' = "stream_on_token perf sk token is_last stats st"
  have ch: "event_content ?chunk = content" using stats by (rule chunk_content)
  have delivers: "streamed (seen @ token) rest st'"
    if d: "delivered st' = delivered st @ ?chunk # es" and es: "\<forall>e \<in> set es. e = done_event"
      and i: "incomplete_utf8 st' = incomplete" for st' es
  proof -
    have "concat (map event_content es) = []" using es by (induction es) (simp_all add: done_content)
    then have ct: "client_text st' = client_text st @ content" by (simp add: client_text_def d ch)
    have "(client_text st @ content) @ incomplete = seen @ token" using b(1) c(1) by (metis append_assoc)
    moreover from this have "prefix (client_text st @ content) (seen @ token)" by (intro prefixI [of _ _ incomplete]) simp
    ultimately show ?thesis using u b(3) es by (auto simp: streamed_def ct d i ch done_content)
  qed
  show ?thesis
  proof (rule on_token_cases [OF False sp, of perf sk stats])
    assume "delivered ?st' = delivered st" "ss_cancelled ?st'"
    then show ?thesis using streamed_lost [OF s] by simp
  qed (rule delivers)
qed

lemma on_error_streamed: "streamed seen rest st \<Longrightarrow> streamed seen rest (stream_on_error sk message status st)"
proof -
  assume s: "streamed seen rest st"
  let ?st' = "stream_on_error sk message status st"
  have "\<exists>es. delivered ?st' = delivered st @ es \<and> (\<forall>e \<in> set es. event_content e = []) \<and>
      (ss_cancelled ?st' \<or> \<not> ss_cancelled st \<and> incomplete_utf8 ?st' = incomplete_utf8 st)"
    by (auto simp: stream_on_error_def stream_ops Let_def delivered_def error_content done_content)
  then show ?thesis using streamed_silent [OF s] by blast
qed

lemma wake_streamed: "streamed seen rest st \<Longrightarrow> streamed seen rest (provider_wait sk st)"
proof -
  assume s: "streamed seen rest st"
  let ?st' = "provider_wait sk st"
  have "\<exists>es. delivered ?st' = delivered st @ es \<and> (\<forall>e \<in> set es. event_content e = []) \<and>
      (ss_cancelled ?st' \<or> \<not> ss_cancelled st \<and> incomplete_utf8 ?st' = incomplete_utf8 st)"
    by (auto simp: provider_wait_def stream_ops Let_def delivered_def keep_alive_content)
  then show ?thesis using streamed_silent [OF s] by blast
qed

lemma step_streamed:
  assumes "streamed seen (piece_text ev @ rest) st" "final_event ev \<Longrightarrow> rest = []" "stats_fine ev"
  shows "streamed (seen @ piece_text ev) rest (stream_step perf sk ev st)"
  using assms on_token_streamed on_error_streamed wake_streamed
  by (cases ev) (auto simp: stats_fine_def final_event_def)

lemma wakes_tokens: "list_all ((=) Wake) evs \<Longrightarrow> tokens_of evs = []"
  by (induction evs) (auto simp: tokens_of_def)

lemma wakes_protocol: "list_all ((=) Wake) evs \<Longrightarrow> worker_protocol evs"
  by (induction evs) auto

lemma protocol_Cons:
  assumes "worker_protocol (ev # evs)"
  shows "worker_protocol evs" "final_event ev \<Longrightarrow> tokens_of evs = []"
  using assms wakes_tokens wakes_protocol by (cases ev; simp add: final_event_def)+

lemma run_stream_Cons: "run_stream perf sk (ev # evs) st = run_stream perf sk evs (stream_step perf sk ev st)"
  by (simp add: run_stream_def)

lemma run_stream_append: "run_stream perf sk (evs1 @ evs2) st = run_stream perf sk evs2 (run_stream perf sk evs1 st)"
  by (simp add: run_stream_def)

lemma run_stream_Nil [simp]: "run_stream perf sk [] st = st"
  by (simp add: run_stream_def)

lemma run_streamed:
  "worker_protocol evs \<Longrightarrow> list_all stats_fine evs \<Longrightarrow> streamed seen (tokens_of evs) st \<Longrightarrow>
   streamed (seen @ tokens_of evs) [] (run_stream perf sk evs st)"
proof (induction evs arbitrary: seen st)
  case Nil then show ?case by (simp add: tokens_of_def)
next
  case (Cons ev evs)
  have t: "tokens_of (ev # evs) = piece_text ev @ tokens_of evs" by (simp add: tokens_of_def)
  have "streamed (seen @ piece_text ev) (tokens_of evs) (stream_step perf sk ev st)"
    using Cons.prems protocol_Cons [OF Cons.prems(1)] by (intro step_streamed) (simp_all add: t)
  then show ?case using Cons.IH [of "seen @ piece_text ev" "stream_step perf sk ev st"] Cons.prems protocol_Cons [OF Cons.prems(1)]
    by (simp add: t run_stream_Cons)
qed

section \<open>A sink that works\<close>

definition sink_ok :: "sink_env \<Rightarrow> bool" where
  "sink_ok sk \<longleftrightarrow> (\<forall>cs t. sink_is_writable sk cs \<and> sink_write sk cs t)"

lemma wakes_finished:
  "list_all ((=) Wake) evs \<Longrightarrow> ss_done st \<Longrightarrow> \<not> ss_cancelled st \<Longrightarrow> provider_returned st \<noteq> Some False \<Longrightarrow>
   let st' = run_stream perf sk evs st in
     ss_done st' \<and> \<not> ss_cancelled st' \<and> provider_returned st' \<noteq> Some False \<and> calls st' = calls st \<and>
     incomplete_utf8 st' = incomplete_utf8 st"
  by (induction evs arbitrary: st) (simp_all add: run_stream_Cons provider_wait_def Let_def)

lemma final_finishes:
  assumes "sink_ok sk" "\<not> ss_cancelled st"
  shows "let st' = stream_on_token perf sk token True stats st in
    ss_done st' \<and> \<not> ss_cancelled st' \<and> provider_returned st' = provider_returned st \<and> incomplete_utf8 st' = [] \<and>
    last (delivered st') = done_event"
proof -
  obtain content incomplete where sp: "split_content (incomplete_utf8 st) token True = (content, incomplete)"
    by (cases "split_content (incomplete_utf8 st) token True")
  have "incomplete = []" using split_content_conserves(2) [OF sp] by simp
  then show ?thesis using assms sp by (simp add: sink_ok_def stream_on_token_def stream_ops delivered_def Let_def)
qed

lemma live_step:
  assumes "sink_ok sk" "\<not> ss_cancelled st" "\<not> ss_done st" "provider_returned st = None"
    and "ev = Wake \<or> (\<exists>t. ev = Piece t)"
  shows "\<not> ss_cancelled (stream_step perf sk ev st) \<and> \<not> ss_done (stream_step perf sk ev st) \<and>
    provider_returned (stream_step perf sk ev st) = None"
proof (cases ev)
  case (Piece t)
  then show ?thesis using assms(1-4)
    by (cases "split_content (incomplete_utf8 st) t False") (simp add: sink_ok_def stream_on_token_def stream_ops Let_def)
next
  case Wake
  then show ?thesis using assms(1-4) by (simp add: sink_ok_def provider_wait_def stream_ops)
qed (use assms(5) in auto)

lemma live_run_finishes:
  "sink_ok sk \<Longrightarrow> worker_protocol evs \<Longrightarrow> list_ex final_event evs \<Longrightarrow>
   \<not> ss_cancelled st \<Longrightarrow> \<not> ss_done st \<Longrightarrow> provider_returned st = None \<Longrightarrow>
   let st' = run_stream perf sk evs st in
     ss_done st' \<and> \<not> ss_cancelled st' \<and> provider_returned st' \<noteq> Some False \<and> incomplete_utf8 st' = [] \<and>
     last (delivered st') = done_event"
proof (induction evs arbitrary: st)
  case (Cons ev evs)
  show ?case
  proof (cases ev)
    case (FinalPiece t stats)
    then have w: "list_all ((=) Wake) evs" using Cons.prems(2) by simp
    note f = final_finishes [OF Cons.prems(1,4), of perf t stats, unfolded Let_def]
    show ?thesis using wakes_finished [OF w, of "stream_on_token perf sk t True stats st" perf sk] f Cons.prems(6) FinalPiece
      by (simp add: run_stream_Cons Let_def delivered_def)
  next
    case (Problem m n)
    then show ?thesis using Cons.prems(2,3) by (auto simp: final_event_def list_all_iff list_ex_iff)
  next
    case (Piece t)
    then show ?thesis using Cons.IH [of "stream_step perf sk ev st"] live_step [OF Cons.prems(1,4-6), of ev perf] Cons.prems(1-3)
      by (simp add: run_stream_Cons final_event_def)
  next
    case Wake
    then show ?thesis using Cons.IH [of "stream_step perf sk ev st"] live_step [OF Cons.prems(1,4-6), of ev perf] Cons.prems(1-3)
      by (simp add: run_stream_Cons final_event_def)
  qed
qed simp

lemma new_streamed: "utf8_text t \<Longrightarrow> streamed [] t new_stream"
  by (simp add: streamed_def new_stream_def client_text_def delivered_def)

lemma new_stream_live: "\<not> ss_cancelled new_stream" "\<not> ss_done new_stream" "provider_returned new_stream = None"
  by (simp_all add: new_stream_def)

text \<open>
  C32. A streamed answer arrives as it was generated. However the pieces of the worker, the
  keep-alive events and the failures of the connection interleave, what the client has read is
  always a begin of the generated text, and each event holds whole characters of UTF-8, also
  where a character was generated in several pieces. When the connection works and the worker
  has ended the answer, the client has read all of it, the last event is the end mark, and the
  provider returns and ends the response.
\<close>

theorem stream_delivers:
  assumes "worker_protocol evs" "list_all stats_fine evs" "utf8_text (tokens_of evs)"
  shows "prefix (client_text (run_stream perf sk evs new_stream)) (tokens_of evs) \<and>
    list_all (\<lambda>e. utf8_text (event_content e)) (delivered (run_stream perf sk evs new_stream)) \<and>
    (sink_ok sk \<and> list_ex final_event evs \<longrightarrow>
      client_text (run_stream perf sk evs new_stream) = tokens_of evs \<and>
      last (delivered (run_stream perf sk evs new_stream)) = done_event \<and>
      provider_returned (run_stream perf sk (evs @ [Wake]) new_stream) = Some True)"
proof (intro conjI impI)
  let ?st = "run_stream perf sk evs new_stream"
  have s: "streamed (tokens_of evs) [] ?st"
    using run_streamed [OF assms(1,2), of "[]" new_stream perf sk] new_streamed [OF assms(3)] by simp
  then show "prefix (client_text ?st) (tokens_of evs)" "list_all (\<lambda>e. utf8_text (event_content e)) (delivered ?st)"
    by (simp_all add: streamed_def list_all_iff)
  assume "sink_ok sk \<and> list_ex final_event evs"
  then have f: "ss_done ?st \<and> \<not> ss_cancelled ?st \<and> provider_returned ?st \<noteq> Some False \<and> incomplete_utf8 ?st = [] \<and>
      last (delivered ?st) = done_event"
    using live_run_finishes [OF _ assms(1) _ new_stream_live] unfolding Let_def by blast
  then show "client_text ?st = tokens_of evs" using s by (simp add: streamed_def)
  show "last (delivered ?st) = done_event" using f by simp
  show "provider_returned (run_stream perf sk (evs @ [Wake]) new_stream) = Some True"
    using f by (auto simp: provider_wait_def run_stream_append run_stream_Cons)
qed

text \<open>The three bytes of a euro sign in two pieces, with keep-alive events between.\<close>

definition steady_sink :: sink_env where
  "steady_sink = \<lparr>sink_is_writable = (\<lambda>_. True), sink_write = (\<lambda>_ _. True)\<rparr>"

definition euro_events :: "stream_event list" where
  "euro_events = [Piece [CHR ''a'', CHR 0xE2], Wake, FinalPiece [CHR 0x82, CHR 0xAC] None]"

lemma euro_text: "utf8_text (tokens_of euro_events)"
  unfolding utf8_text_def
  by (rule exI [of _ "[''a'', [CHR 0xE2, CHR 0x82, CHR 0xAC]]"]) (simp add: utf8_char_def euro_events_def tokens_of_def)

theorem stream_delivers_witness:
  "client_text (run_stream False steady_sink euro_events new_stream) = [CHR ''a'', CHR 0xE2, CHR 0x82, CHR 0xAC] \<and>
   provider_returned (run_stream False steady_sink (euro_events @ [Wake]) new_stream) = Some True"
  using stream_delivers [OF _ _ euro_text, of False steady_sink]
  by (simp add: euro_events_def stats_fine_def final_event_def sink_ok_def steady_sink_def tokens_of_def)

section \<open>The sink after the provider\<close>

text \<open>Once the provider has returned, the stream is cancelled or the worker has ended the answer.\<close>

definition terminal_event :: "stream_event \<Rightarrow> bool" where
  "terminal_event ev \<longleftrightarrow> final_event ev \<or> (\<exists>m n. ev = Problem m n)"

definition stream_guarded :: "bool \<Rightarrow> stream_state \<Rightarrow> bool" where
  "stream_guarded ended st \<longleftrightarrow> (ss_done st \<or> provider_returned st \<noteq> None \<longrightarrow> ss_cancelled st \<or> ended)"

lemma stream_guarded_step:
  assumes "stream_guarded ended st"
  shows "stream_guarded (ended \<or> terminal_event ev) (stream_step perf sk ev st)"
proof (cases ev)
  case (Piece t)
  have "\<not> ss_done st \<and> provider_returned st = None \<Longrightarrow> \<not> ss_cancelled st \<Longrightarrow>
      \<not> ss_cancelled (stream_on_token perf sk t False None st) \<Longrightarrow>
      \<not> ss_done (stream_on_token perf sk t False None st) \<and> provider_returned (stream_on_token perf sk t False None st) = None"
    by (cases "split_content (incomplete_utf8 st) t False") (simp add: stream_on_token_def stream_ops Let_def split: if_splits)
  moreover have "ss_cancelled st \<Longrightarrow> stream_on_token perf sk t False None st = st" by (simp add: stream_on_token_def)
  ultimately show ?thesis using assms Piece unfolding stream_guarded_def
    by (cases "ss_cancelled st") auto
next
  case Wake
  then show ?thesis using assms by (auto simp: stream_guarded_def provider_wait_def stream_ops Let_def)
qed (simp_all add: stream_guarded_def terminal_event_def final_event_def)

lemma run_stream_guarded:
  "stream_guarded ended st \<Longrightarrow> stream_guarded (ended \<or> list_ex terminal_event evs) (run_stream perf sk evs st)"
proof (induction evs arbitrary: ended st)
  case (Cons ev evs)
  from Cons.IH [OF stream_guarded_step [OF Cons.prems, of ev perf sk]] show ?case by (simp add: run_stream_Cons disj_assoc)
qed simp

lemma protocol_ended: "worker_protocol (evs1 @ evs2) \<Longrightarrow> list_ex terminal_event evs1 \<Longrightarrow> list_all ((=) Wake) evs2"
  by (induction evs1 rule: worker_protocol.induct) (auto simp: terminal_event_def final_event_def)

lemma returned_still:
  assumes "provider_returned st \<noteq> None" "ss_cancelled st \<or> list_all ((=) Wake) evs"
  shows "run_stream perf sk evs st = st"
  using assms
proof (induction evs)
  case (Cons ev evs)
  have "stream_step perf sk ev st = st" using Cons.prems
    by (cases ev) (auto simp: stream_on_token_def stream_on_error_def provider_wait_def)
  then show ?case using Cons by (auto simp: run_stream_Cons)
qed simp

text \<open>
  C31. The sink is not used after the provider has returned, when it no longer exists: the
  callbacks hold a reference to it, and whatever the worker's protocol and the provider still
  do after the return, in any order, nothing of the stream changes any more.
\<close>

theorem sink_unused_after_return:
  assumes "worker_protocol (evs1 @ evs2)" "provider_returned (run_stream perf sk evs1 new_stream) \<noteq> None"
  shows "run_stream perf sk (evs1 @ evs2) new_stream = run_stream perf sk evs1 new_stream"
proof -
  let ?st = "run_stream perf sk evs1 new_stream"
  have "stream_guarded False new_stream" by (simp add: stream_guarded_def new_stream_live)
  from run_stream_guarded [OF this, of evs1 perf sk] have "ss_cancelled ?st \<or> list_ex terminal_event evs1"
    using assms(2) by (auto simp: stream_guarded_def)
  then have "ss_cancelled ?st \<or> list_all ((=) Wake) evs2" using protocol_ended [OF assms(1)] by blast
  then show ?thesis using returned_still [OF assms(2)] by (simp add: run_stream_append)
qed

definition broken_sink :: sink_env where
  "broken_sink = \<lparr>sink_is_writable = (\<lambda>cs. cs = []), sink_write = (\<lambda>_ _. True)\<rparr>"

theorem sink_unused_after_return_witness:
  "calls (run_stream False broken_sink ([Wake, Wake] @ [Piece ''a'', FinalPiece ''b'' None, Wake]) new_stream) =
     [Polled True, Wrote keep_alive_event True, Polled False]"
proof -
  have w: "run_stream False broken_sink [Wake, Wake] new_stream =
      new_stream\<lparr>ss_cancelled := True, provider_returned := Some False,
        calls := [Polled True, Wrote keep_alive_event True, Polled False]\<rparr>"
    by (simp add: run_stream_def provider_wait_def stream_ops broken_sink_def new_stream_def)
  show ?thesis
    using sink_unused_after_return [of "[Wake, Wake]" "[Piece ''a'', FinalPiece ''b'' None, Wake]" False broken_sink] by (simp add: w)
qed

end
