(* ===== verification/RF_ServerProps.thy ===== *)
theory RF_ServerProps
  imports RF_Server RF_StreamProps
begin

text \<open>
  What a client of the completion endpoints is answered: refusals that explain themselves, and
  one text for everything that the worker generated.
\<close>

definition response_error :: "response \<Rightarrow> (string \<times> string) option" where
  "response_error res =
     (case json_parse (content res) of
        Some (Inr v) \<Rightarrow> (let e = json_member v ''error'' in Some (as_string (json_member e ''message''), as_string (json_member e ''type'')))
      | _ \<Rightarrow> None)"

lemma response_error_json:
  assumes "json_escape kind = kind"
  shows "response_error (json_content (error_json message kind) res) = Some (message, kind)"
  by (simp add: response_error_def json_content_def set_content_def error_json_parse [OF assms] json_member_def)

lemma json_content_status [simp]: "status (json_content text res) = status res"
  by (simp add: json_content_def set_content_def)

lemma set_status_status [simp]: "status (set_status n res) = Some n"
  by (simp add: set_status_def)

lemma allow_origin_status [simp]: "status (allow_origin res) = status res"
  by (simp add: allow_origin_def set_header_def)

section \<open>Before the worker\<close>

lemma kinds_plain:
  "json_escape ''server_error'' = ''server_error''"
  "json_escape ''invalid_request_error'' = ''invalid_request_error''" "json_escape ''timeout_error'' = ''timeout_error''"
  by (rule json_escape_literal)+

text \<open>
  C33. A completion is refused exactly when the server drains, when the body is not a valid
  request, or when it has neither a prompt nor messages: with status 503 or 400 and a JSON text
  from which the client reads the reason, the parser's own message for an invalid body. Every
  other request goes to the worker as the body spells it, in the mode it asks for.
\<close>

theorem completion_refusals:
  assumes "handle_completion cfg srv i body = Some h"
  shows "case h of
      Answer r \<Rightarrow>
        (if \<not> is_accepting srv
         then status r = Some 503 \<and> response_error r = Some (''server is draining'', ''server_error'')
         else status r = Some 400 \<and>
           (case parse_request_body body (default_request i) cfg of
              Some (Inl e) \<Rightarrow> response_error r = Some (e, ''invalid_request_error'')
            | Some (Inr q) \<Rightarrow> rq_prompt q = [] \<and> rq_messages q = [] \<and>
                response_error r = Some (''no prompt or messages'', ''invalid_request_error'')
            | None \<Rightarrow> False))
    | Streaming q \<Rightarrow> is_accepting srv \<and> parse_request_body body (default_request i) cfg = Some (Inr q) \<and> rq_stream q \<and>
        \<not> (rq_prompt q = [] \<and> rq_messages q = [])
    | Collecting q \<Rightarrow> is_accepting srv \<and> parse_request_body body (default_request i) cfg = Some (Inr q) \<and> \<not> rq_stream q \<and>
        \<not> (rq_prompt q = [] \<and> rq_messages q = [])"
proof (cases "srv_accepting srv")
  case False
  then have "h = Answer (json_content (error_json ''server is draining'' ''server_error'') (set_status 503 no_response))"
    using assms by (simp add: handle_completion_def)
  then show ?thesis using False by (simp add: is_accepting_def response_error_json kinds_plain)
next
  case True
  then obtain parsed where p: "parse_request_body body (default_request i) cfg = Some parsed"
    using assms by (cases "parse_request_body body (default_request i) cfg") (auto simp: handle_completion_def)
  show ?thesis
  proof (cases parsed)
    case (Inl e)
    then have "h = Answer (json_content (error_json e ''invalid_request_error'') (set_status 400 no_response))"
      using assms True by (simp add: handle_completion_def p)
    then show ?thesis using True Inl by (simp add: is_accepting_def response_error_json kinds_plain p)
  next
    case (Inr q)
    consider (empty) "rq_prompt q = [] \<and> rq_messages q = []" | (stream) "\<not> (rq_prompt q = [] \<and> rq_messages q = [])" "rq_stream q"
      | (collect) "\<not> (rq_prompt q = [] \<and> rq_messages q = [])" "\<not> rq_stream q" by blast
    then show ?thesis
    proof cases
      case empty
      then have "h = Answer (json_content (error_json ''no prompt or messages'' ''invalid_request_error'') (set_status 400 no_response))"
        using assms True Inr by (simp add: handle_completion_def p)
      then show ?thesis using True Inr empty by (simp add: is_accepting_def response_error_json kinds_plain p)
    next
      case stream
      then have "h = Streaming q" using assms True Inr by (auto simp: handle_completion_def p)
      then show ?thesis using True Inr stream by (simp add: is_accepting_def p)
    next
      case collect
      then have "h = Collecting (q\<lparr>rq_stream := False\<rparr>)" using assms True Inr by (auto simp: handle_completion_def p)
      moreover have "q\<lparr>rq_stream := False\<rparr> = q" using collect by (cases q) simp
      ultimately show ?thesis using True Inr collect by (simp add: is_accepting_def p)
    qed
  qed
qed

lemma invalid_body: "json_parse body = Some (Inl e) \<Longrightarrow> parse_request_body body req cfg = Some (Inl e)"
  by (simp add: parse_request_body_def)

theorem completion_refusals_witness:
  "\<exists>r. handle_completion default_config new_server 0 [] = Some (Answer r) \<and> status r = Some 400 \<and>
     json_parse [] = Some (Inl (fst (the (response_error r))))"
proof -
  obtain e where e: "json_parse [] = Some (Inl e)"
    by (simp add: json_parse_def parse_value_code skip_ws_def kMaxDepth_def)
  then obtain r where r: "handle_completion default_config new_server 0 [] = Some (Answer r)"
    by (simp add: handle_completion_def new_server_def parse_request_body_def)
  have p: "parse_request_body [] (default_request 0) default_config = Some (Inl e)" using e by (rule invalid_body)
  show ?thesis using completion_refusals [OF r] r e
    by (simp add: p is_accepting_def new_server_def)
qed

section \<open>An answer in one piece\<close>

lemma run_collect_Cons: "run_collect (ev # evs) st = run_collect evs (collect_step ev st)"
  by (simp add: run_collect_def)

lemma run_collect_Nil [simp]: "run_collect [] st = st"
  by (simp add: run_collect_def)

lemma collect_wakes: "list_all ((=) Wake) evs \<Longrightarrow> run_collect evs st = st"
  by (induction evs) (auto simp: run_collect_Cons)

lemma tokens_Cons [simp]: "tokens_of (ev # evs) = piece_text ev @ tokens_of evs"
  by (simp add: tokens_of_def)

lemma collect_final:
  "worker_protocol evs \<Longrightarrow> list_ex final_event evs \<Longrightarrow> list_all stats_fine evs \<Longrightarrow> \<not> cl_cancelled st \<Longrightarrow>
   stats_ok (collected_stats st) \<Longrightarrow>
   let st' = run_collect evs st in
     cl_done st' \<and> error_status st' = error_status st \<and> full_response st' = full_response st @ tokens_of evs \<and>
     stats_ok (collected_stats st')"
proof (induction evs arbitrary: st)
  case (Cons ev evs)
  show ?case
  proof (cases ev)
    case (Piece t)
    then show ?thesis using Cons.IH [of "collect_step ev st"] Cons.prems
      by (simp add: run_collect_Cons collect_on_token_def final_event_def)
  next
    case (FinalPiece t s)
    then have w: "list_all ((=) Wake) evs" using Cons.prems by simp
    show ?thesis using Cons.prems FinalPiece
      by (cases s) (simp_all add: run_collect_Cons collect_wakes [OF w] wakes_tokens [OF w] collect_on_token_def stats_fine_def)
  next
    case (Problem m n)
    then show ?thesis using Cons.prems(1,2) by (auto simp: final_event_def list_all_iff list_ex_iff)
  next
    case Wake
    then show ?thesis using Cons.IH [of st] Cons.prems by (simp add: run_collect_Cons final_event_def)
  qed
qed simp

lemma collect_problem:
  "worker_protocol evs \<Longrightarrow> Problem m n \<in> set evs \<Longrightarrow> \<not> cl_cancelled st \<Longrightarrow>
   let st' = run_collect evs st in cl_done st' \<and> error_status st' = n \<and> error_message st' = m"
proof (induction evs arbitrary: st)
  case (Cons ev evs)
  show ?case
  proof (cases ev)
    case (Piece t)
    then show ?thesis using Cons.IH [of "collect_step ev st"] Cons.prems by (simp add: run_collect_Cons collect_on_token_def)
  next
    case (FinalPiece t s)
    then show ?thesis using Cons.prems by (auto simp: list_all_iff)
  next
    case (Problem m' n')
    then have w: "list_all ((=) Wake) evs" using Cons.prems by simp
    then have "m' = m" "n' = n" using Cons.prems(2) Problem by (auto simp: list_all_iff)
    then show ?thesis using Cons.prems(3) Problem by (simp add: run_collect_Cons collect_wakes [OF w] collect_on_error_def)
  next
    case Wake
    then show ?thesis using Cons.IH [of st] Cons.prems by (simp add: run_collect_Cons)
  qed
qed simp

lemma collect_pending: "\<not> list_ex terminal_event evs \<Longrightarrow> \<not> cl_done st \<Longrightarrow> \<not> cl_done (run_collect evs st)"
proof (induction evs arbitrary: st)
  case (Cons ev evs)
  have "\<not> cl_done (collect_step ev st)" using Cons.prems
    by (cases ev) (auto simp: terminal_event_def final_event_def collect_on_token_def)
  then show ?case using Cons by (simp add: run_collect_Cons)
qed simp

lemma new_collect_live: "\<not> cl_cancelled new_collect" "\<not> cl_done new_collect" "full_response new_collect = []"
    "error_status new_collect = 0" "stats_ok (collected_stats new_collect)"
  by (simp_all add: new_collect_def stats_ok_def duration_zero)

lemma collected_response:
  assumes "worker_protocol evs" "list_all stats_fine evs" "collect_response is_chat (run_collect evs new_collect) = (r, st)"
  shows "(list_ex final_event evs \<longrightarrow> status r = None \<and>
       (\<exists>v. json_parse (content r) = Some (Inr v) \<and> answer_text is_chat v = tokens_of evs)) \<and>
     (\<forall>m n. Problem m n \<in> set evs \<and> n \<noteq> 0 \<longrightarrow> status r = Some n \<and> response_error r = Some (m, error_kind n)) \<and>
     (\<not> list_ex terminal_event evs \<longrightarrow> status r = Some 504 \<and> cl_cancelled st \<and>
        response_error r = Some (''inference timeout'', ''timeout_error''))"
proof (intro conjI impI allI)
  let ?st = "run_collect evs new_collect"
  assume "list_ex final_event evs"
  then have f: "cl_done ?st" "error_status ?st = 0" "full_response ?st = tokens_of evs" "stats_ok (collected_stats ?st)"
    using collect_final [OF assms(1) _ assms(2), of new_collect] new_collect_live by (simp_all add: Let_def)
  then have r: "status r = None" "content r = completion_json (tokens_of evs) (collected_stats ?st) is_chat"
    using assms(3) by (auto simp: collect_response_def json_content_def set_content_def allow_origin_def set_header_def no_response_def)
  then show "status r = None" by simp
  show "\<exists>v. json_parse (content r) = Some (Inr v) \<and> answer_text is_chat v = tokens_of evs"
    using completion_text_read [OF f(4)] r(2) by simp
next
  fix m n
  let ?st = "run_collect evs new_collect"
  assume p: "Problem m n \<in> set evs \<and> n \<noteq> 0"
  have f: "cl_done ?st" "error_status ?st = n" "error_message ?st = m"
    using collect_problem [OF assms(1) conjunct1 [OF p], of new_collect] new_collect_live by (simp_all add: Let_def)
  have r: "r = json_content (error_json m (error_kind n)) (set_status n (allow_origin no_response))"
    using assms(3) f p by (auto simp: collect_response_def)
  show "status r = Some n" "response_error r = Some (m, error_kind n)"
    by (simp_all add: r response_error_json [OF error_kind_plain])
next
  let ?st = "run_collect evs new_collect"
  assume "\<not> list_ex terminal_event evs"
  then have "\<not> cl_done ?st" using collect_pending new_collect_live by blast
  then have r: "r = json_content (error_json ''inference timeout'' ''timeout_error'') (set_status 504 (allow_origin no_response))"
    "st = ?st\<lparr>cl_cancelled := True\<rparr>"
    using assms(3) by (auto simp: collect_response_def)
  show "status r = Some 504" "cl_cancelled st" "response_error r = Some (''inference timeout'', ''timeout_error'')"
    by (simp_all add: r response_error_json [OF kinds_plain(3)])
qed

text \<open>
  C34. An answer in one piece is complete and truthful: when the worker has ended the answer,
  the client reads from it exactly the text of all pieces; when the worker has reported an
  error, the status is the worker's and the client reads the worker's message; when neither has
  happened in time, the status is 504 and the request is marked as cancelled.
\<close>

theorem collected_answer:
  assumes "worker_protocol evs" "list_all stats_fine evs" "collect_response is_chat (run_collect evs new_collect) = (r, st)"
  shows "(list_ex final_event evs \<longrightarrow> status r = None \<and>
       (\<exists>v. json_parse (content r) = Some (Inr v) \<and> answer_text is_chat v = tokens_of evs)) \<and>
     (\<forall>m n. Problem m n \<in> set evs \<and> n \<noteq> 0 \<longrightarrow> status r = Some n \<and> response_error r = Some (m, error_kind n)) \<and>
     (\<not> list_ex terminal_event evs \<longrightarrow> status r = Some 504 \<and> cl_cancelled st \<and>
        response_error r = Some (''inference timeout'', ''timeout_error''))"
  by (rule collected_response [OF assms])

theorem collected_answer_witness:
  "\<exists>r st v. collect_response True (run_collect [Piece ''a'', Wake, FinalPiece [CHR 0x22] None] new_collect) = (r, st) \<and>
     status r = None \<and> json_parse (content r) = Some (Inr v) \<and> answer_text True v = [CHR ''a'', CHR 0x22]"
proof -
  let ?evs = "[Piece ''a'', Wake, FinalPiece [CHR 0x22] None]"
  obtain r st where r: "collect_response True (run_collect ?evs new_collect) = (r, st)" by fastforce
  show ?thesis using collected_answer [of ?evs True r st] r
    by (auto simp: stats_fine_def final_event_def tokens_of_def)
qed

end
