(* ===== verification/RF_EndToEnd.thy ===== *)
theory RF_EndToEnd
  imports RF_WorkerServes RF_WorkerProtocol RF_WorkerStats RF_ServerProps
begin

text \<open>
  The worker and the answers together: the callbacks of a request are recorded, the worker's
  calls are shown to follow the protocol that the streamed and the collected answer rely on,
  and each request is followed from its arrival to what its client reads.
\<close>

section \<open>The callbacks of a request as events\<close>

definition token_event :: "string \<Rightarrow> bool \<Rightarrow> response_stats option \<Rightarrow> stream_event" where
  "token_event p last_one stats = (if last_one then FinalPiece p stats else Piece p)"

text \<open>
  \<open>hist w i\<close> are the calls of \<open>on_token\<close> and \<open>on_error\<close> that request \<open>i\<close> has got in the world \<open>w\<close>;
  \<open>rs\<close> adds the measured times to the worker's counts.
\<close>

definition log_law ::
  "('kv, 'w) worker_env \<Rightarrow> ('w \<Rightarrow> inference_stats \<Rightarrow> response_stats) \<Rightarrow> ('w \<Rightarrow> nat \<Rightarrow> stream_event list) \<Rightarrow> bool" where
  "log_law env rs hist \<longleftrightarrow>
     (\<forall>i p b st w. hist (on_token env i p b st w) =
        (hist w)(i := hist w i @ [token_event p b (map_option (rs w) st)])) \<and>
     (\<forall>i msg code w. hist (on_error env i msg code w) = (hist w)(i := hist w i @ [Problem msg code])) \<and>
     (\<forall>i w. hist (on_cancel env i w) = hist w) \<and> (\<forall>i w. hist (snd (poll_cancelled env i w)) = hist w) \<and>
     (\<forall>smpl w. hist (free_sampler env smpl w) = hist w) \<and> (\<forall>smpl i w. hist (snd (sample env smpl i w)) = hist w) \<and>
     (\<forall>t p w. hist (snd (create_sampler env t p w)) = hist w) \<and>
     (\<forall>batch kv w. hist (snd (snd (llama_decode env batch kv w))) = hist w)"

text \<open>What an answer should be so far, and whether it can go on.\<close>

definition answer_fine :: "stream_event list \<Rightarrow> bool" where
  "answer_fine l \<longleftrightarrow> worker_protocol l \<and>
     list_all (\<lambda>ev. ev \<noteq> Wake \<and> (\<forall>m. ev \<noteq> Problem m 0)) l"

definition answer_open :: "stream_event list \<Rightarrow> bool" where
  "answer_open l \<longleftrightarrow> list_all (\<lambda>ev. \<exists>p. ev = Piece p) l"

lemma open_protocol: "answer_open l \<Longrightarrow> ev \<noteq> Wake \<Longrightarrow> worker_protocol (l @ [ev])"
  by (induction l) (cases ev; auto simp: answer_open_def)+

lemma open_fine: "answer_open l \<Longrightarrow> answer_fine l"
proof -
  have "answer_open l \<Longrightarrow> worker_protocol l" by (induction l) (auto simp: answer_open_def)
  then show "answer_open l \<Longrightarrow> answer_fine l"
    by (auto simp: answer_fine_def answer_open_def list_all_iff)
qed

lemma open_append:
  "answer_open l \<Longrightarrow> ev \<noteq> Wake \<Longrightarrow> (\<And>m. ev \<noteq> Problem m 0) \<Longrightarrow> answer_fine (l @ [ev])"
  using open_protocol [of l ev] open_fine [of l] by (simp add: answer_fine_def)

lemma log_callback_law:
  assumes law: "log_law env rs hist"
  shows "callback_law env (\<lambda>w i. answer_open (hist w i)) (\<lambda>w i. answer_fine (hist w i))"
  unfolding callback_law_def
proof (intro conjI allI impI)
  fix w i p st code and msg :: string and b
  have t: "hist (on_token env i p b st w) = (hist w)(i := hist w i @ [token_event p b (map_option (rs w) st)])" for b
    using law by (simp add: log_law_def)
  have e: "hist (on_error env i msg code w) = (hist w)(i := hist w i @ [Problem msg code])"
    using law by (simp add: log_law_def)
  show "answer_open (hist w i) \<Longrightarrow> answer_fine (hist w i)" by (rule open_fine)
  show "answer_open (hist w i) \<Longrightarrow> answer_open (hist (on_token env i p False st w) i)"
    by (simp add: t answer_open_def token_event_def)
  show "answer_open (hist w i) \<Longrightarrow> answer_fine (hist (on_token env i p True st w) i)"
    by (auto simp: t token_event_def intro!: open_append)
  show "answer_open (hist w i) \<Longrightarrow> answer_fine (hist (on_error env i msg code w) i)" if "code \<noteq> 0"
    using that by (auto simp: e intro!: open_append)
  show "keeps (\<lambda>w i. answer_open (hist w i)) (\<lambda>w i. answer_fine (hist w i)) {i} w (on_token env i p b st w)"
    "keeps (\<lambda>w i. answer_open (hist w i)) (\<lambda>w i. answer_fine (hist w i)) {i} w (on_error env i msg code w)"
    by (simp_all add: keeps_def t e)
qed (use law in \<open>simp_all add: keeps_def log_law_def\<close>)

section \<open>The worker follows the protocol\<close>

lemma run_follows:
  assumes law: "log_law env rs hist"
    and run: "run_events env evs (new_worker cfg kv0 w) = Some s"
    and d: "distinct (map rq_id (arrivals evs))" and empty: "\<And>i. hist w i = []"
  shows "answer_fine (hist (cw (wcore s)) i) \<and> (i \<in># worker_ids s \<longrightarrow> answer_open (hist (cw (wcore s)) i))"
proof -
  let ?O = "\<lambda>w i. answer_open (hist w i)" and ?F = "\<lambda>w i. answer_fine (hist w i)"
  have "count (mset (map rq_id (arrivals evs))) i \<le> 1" for i using d by (metis distinct_count_atmost_1 order.refl zero_le)
  moreover have "answer_open []" "answer_fine []" by (simp_all add: answer_open_def answer_fine_def)
  ultimately have "following ?O ?F (cw (wcore (new_worker cfg kv0 w))) (mset (map rq_id (arrivals evs)) + worker_ids (new_worker cfg kv0 w))"
    by (simp add: following_def new_worker_def worker_ids_def vector_ids_def empty)
  from run_events_following [OF log_callback_law [OF law] run _ this]
  have "following ?O ?F (cw (wcore s)) (worker_ids s)" by (simp add: new_worker_def)
  then show ?thesis by (simp add: following_def)
qed

text \<open>
  C19. The worker's calls follow the protocol that the answers rely on: in every run, each
  request gets pieces, then at most one last piece or one error, and nothing after it; a request
  that the worker still holds has got pieces only, and one that never arrived nothing.
\<close>

theorem answers_follow_protocol:
  assumes "log_law env rs hist" "\<And>i. hist w i = []"
    and "run_events env evs (new_worker cfg kv0 w) = Some s" "distinct (map rq_id (arrivals evs))"
  shows "worker_protocol (hist (cw (wcore s)) i) \<and> Wake \<notin> set (hist (cw (wcore s)) i) \<and>
    (i \<in># worker_ids s \<longrightarrow> \<not> list_ex terminal_event (hist (cw (wcore s)) i))"
  using run_follows [OF assms(1,3,4,2), of i]
  by (auto simp: answer_fine_def answer_open_def list_all_iff list_ex_iff terminal_event_def final_event_def)

section \<open>What the client gets\<close>

text \<open>Keep-alive wakes between the calls change nothing of the protocol.\<close>

lemma wakes_filter: "list_all ((=) Wake) [e \<leftarrow> evs. e \<noteq> Wake] \<Longrightarrow> list_all ((=) Wake) evs"
  by (auto simp: list_all_iff)

lemma protocol_filter: "worker_protocol [e \<leftarrow> evs. e \<noteq> Wake] \<Longrightarrow> worker_protocol evs"
proof (induction evs)
  case (Cons ev evs)
  then show ?case by (cases ev) (auto intro: wakes_filter split: if_splits)
qed simp

lemma tokens_filter: "tokens_of [e \<leftarrow> evs. e \<noteq> Wake] = tokens_of evs"
  by (induction evs) (auto simp: tokens_of_def)

lemma problem_finishes:
  assumes "sink_ok sk" "\<not> ss_cancelled st"
  shows "let st' = stream_on_error sk m n st in
    ss_done st' \<and> \<not> ss_cancelled st' \<and> provider_returned st' = provider_returned st \<and>
    delivered st' = delivered st @ [error_event m n, done_event]"
  using assms by (simp add: sink_ok_def stream_on_error_def stream_ops delivered_def Let_def)

lemma live_run_fails:
  "sink_ok sk \<Longrightarrow> worker_protocol evs \<Longrightarrow> Problem m n \<in> set evs \<Longrightarrow>
   \<not> ss_cancelled st \<Longrightarrow> \<not> ss_done st \<Longrightarrow> provider_returned st = None \<Longrightarrow>
   let st' = run_stream perf sk evs st in
     ss_done st' \<and> \<not> ss_cancelled st' \<and> provider_returned st' \<noteq> Some False \<and>
     last (delivered st') = done_event \<and> error_event m n \<in> set (delivered st')"
proof (induction evs arbitrary: st)
  case (Cons ev evs)
  have wakes: "Problem m n \<notin> set evs" if "list_all ((=) Wake) evs" using that by (auto simp: list_all_iff)
  show ?case
  proof (cases ev)
    case (FinalPiece t stats)
    then show ?thesis using Cons.prems(2,3) wakes by simp
  next
    case (Problem m' n')
    then have w: "list_all ((=) Wake) evs" "m' = m" "n' = n" using Cons.prems(2,3) wakes by auto
    note f = problem_finishes [OF Cons.prems(1,4), of m n, unfolded Let_def]
    show ?thesis using wakes_finished [OF w(1), of "stream_on_error sk m n st" perf sk] f Cons.prems(6) Problem w(2,3)
      by (simp add: run_stream_Cons Let_def delivered_def)
  next
    case (Piece t)
    then show ?thesis using Cons.IH [of "stream_step perf sk ev st"] live_step [OF Cons.prems(1,4-6), of ev perf] Cons.prems(1-3)
      by (simp add: run_stream_Cons)
  next
    case Wake
    then show ?thesis using Cons.IH [of "stream_step perf sk ev st"] live_step [OF Cons.prems(1,4-6), of ev perf] Cons.prems(1-3)
      by (simp add: run_stream_Cons)
  qed
qed simp

text \<open>
  What a streaming client gets for the calls \<open>l\<close>, on every connection that works and however the
  keep-alive events fall: all of the text, or the error; then the end mark and a proper end.
\<close>

definition stream_answered :: "stream_event list \<Rightarrow> bool" where
  "stream_answered l \<longleftrightarrow> (\<forall>perf sk evs. sink_ok sk \<and> [e \<leftarrow> evs. e \<noteq> Wake] = l \<longrightarrow>
     provider_returned (run_stream perf sk (evs @ [Wake]) new_stream) = Some True \<and>
     last (delivered (run_stream perf sk evs new_stream)) = done_event \<and>
     (if list_ex final_event l
      then utf8_text (tokens_of l) \<longrightarrow> client_text (run_stream perf sk evs new_stream) = tokens_of l
      else \<exists>m n. Problem m n \<in> set l \<and> error_event m n \<in> set (delivered (run_stream perf sk evs new_stream))))"

text \<open>What a client gets that waits for the answer in one piece: the text, or status and message.\<close>

definition text_answered :: "stream_event list \<Rightarrow> bool" where
  "text_answered l \<longleftrightarrow> (\<forall>is_chat r st. collect_response is_chat (run_collect l new_collect) = (r, st) \<longrightarrow>
     (if list_ex final_event l
      then status r = None \<and> (\<exists>v. json_parse (content r) = Some (Inr v) \<and> answer_text is_chat v = tokens_of l)
      else \<exists>m n. Problem m n \<in> set l \<and> status r = Some n \<and> response_error r = Some (m, error_kind n)))"

lemma ended_problem:
  assumes "list_ex terminal_event l" "\<not> list_ex final_event l" "answer_fine l"
  obtains m n where "Problem m n \<in> set l" "n \<noteq> 0"
proof -
  obtain e where e: "e \<in> set l" "terminal_event e" using assms(1) by (auto simp: list_ex_iff)
  then obtain m n where "e = Problem m n" using assms(2) by (auto simp: terminal_event_def list_ex_iff)
  then show thesis using that e(1) assms(3) by (auto simp: answer_fine_def list_all_iff)
qed

lemma finished_stream: "ss_done st \<Longrightarrow> \<not> ss_cancelled st \<Longrightarrow> provider_returned st \<noteq> Some False \<Longrightarrow>
  provider_returned (provider_wait sk st) = Some True"
  by (auto simp: provider_wait_def)

lemma ended_stream:
  assumes f: "answer_fine l" "list_all stats_fine l" and t: "list_ex terminal_event l"
  shows "stream_answered l"
  unfolding stream_answered_def
proof (intro allI impI)
  fix perf sk evs assume a: "sink_ok sk \<and> [e \<leftarrow> evs. e \<noteq> Wake] = l"
  then have sk: "sink_ok sk" and l: "l = [e \<leftarrow> evs. e \<noteq> Wake]" by simp_all
  have p: "worker_protocol evs" using f(1) l by (auto simp: answer_fine_def intro: protocol_filter)
  let ?st = "run_stream perf sk evs new_stream"
  have wake: "run_stream perf sk (evs @ [Wake]) new_stream = provider_wait sk ?st"
    by (simp add: run_stream_append run_stream_Cons)
  show "provider_returned (run_stream perf sk (evs @ [Wake]) new_stream) = Some True \<and>
     last (delivered ?st) = done_event \<and>
     (if list_ex final_event l then utf8_text (tokens_of l) \<longrightarrow> client_text ?st = tokens_of l
      else \<exists>m n. Problem m n \<in> set l \<and> error_event m n \<in> set (delivered ?st))"
  proof (cases "list_ex final_event l")
    case True
    then have fin: "list_ex final_event evs" using l by (auto simp: list_ex_iff)
    have r: "ss_done ?st \<and> \<not> ss_cancelled ?st \<and> provider_returned ?st \<noteq> Some False \<and> incomplete_utf8 ?st = [] \<and>
        last (delivered ?st) = done_event"
      using live_run_finishes [OF sk p fin new_stream_live, of perf] by (simp add: Let_def)
    have stats: "list_all stats_fine evs" using f(2) l by (auto simp: list_all_iff stats_fine_def)
    have "client_text ?st = tokens_of l" if u: "utf8_text (tokens_of l)"
    proof -
      have "tokens_of l = tokens_of evs" by (simp add: l tokens_filter)
      with u run_streamed [OF p stats, of "[]" new_stream perf sk] new_streamed [of "tokens_of evs"] r
      show ?thesis by (simp add: streamed_def)
    qed
    then show ?thesis using True r finished_stream by (simp add: wake)
  next
    case False
    obtain m n where mn: "Problem m n \<in> set l" by (rule ended_problem [OF t False f(1)])
    then have "Problem m n \<in> set evs" using l by auto
    from live_run_fails [OF sk p this new_stream_live, of perf] have r: "ss_done ?st \<and> \<not> ss_cancelled ?st \<and>
        provider_returned ?st \<noteq> Some False \<and> last (delivered ?st) = done_event \<and> error_event m n \<in> set (delivered ?st)"
      by (simp add: Let_def)
    then show ?thesis using False mn finished_stream by (auto simp: wake)
  qed
qed

lemma ended_text:
  assumes f: "answer_fine l" "list_all stats_fine l" and t: "list_ex terminal_event l"
  shows "text_answered l"
  unfolding text_answered_def
proof (intro allI impI)
  fix is_chat r st assume c: "collect_response is_chat (run_collect l new_collect) = (r, st)"
  have p: "worker_protocol l" "list_all stats_fine l" using f by (simp_all add: answer_fine_def)
  note all = collected_response [OF p c]
  show "if list_ex final_event l
      then status r = None \<and> (\<exists>v. json_parse (content r) = Some (Inr v) \<and> answer_text is_chat v = tokens_of l)
      else \<exists>m n. Problem m n \<in> set l \<and> status r = Some n \<and> response_error r = Some (m, error_kind n)"
  proof (cases "list_ex final_event l")
    case True then show ?thesis using all by simp
  next
    case False
    obtain m n where "Problem m n \<in> set l" "n \<noteq> 0" by (rule ended_problem [OF t False f(1)])
    then show ?thesis using all False by auto
  qed
qed

section \<open>From arrival to answer\<close>

lemma staying_answer_law:
  assumes law: "log_law env rs hist" and stays: "\<And>w. \<not> fst (poll_cancelled env i w)"
  shows "answer_law env (\<lambda>w j. j = i \<longrightarrow> list_ex terminal_event (hist w i))"
proof -
  let ?A = "\<lambda>w j. j = i \<longrightarrow> list_ex terminal_event (hist w i)"
  have t: "hist (on_token env j p b st w) = (hist w)(j := hist w j @ [token_event p b (map_option (rs w) st)])" for j p b st w
    using law by (simp add: log_law_def)
  have e: "hist (on_error env j msg code w) = (hist w)(j := hist w j @ [Problem msg code])" for j msg code w
    using law by (simp add: log_law_def)
  have "\<forall>j w w'. poll_cancelled env j w = (True, w') \<longrightarrow> ?A (on_cancel env j w') j" using stays by (metis fst_conv)
  moreover have "?A (on_error env j msg code w) j" "?A (on_token env j p True st w) j" for j msg code w p st
    by (auto simp: t e token_event_def terminal_event_def final_event_def)
  moreover have "kept ?A w (on_error env j msg code w)" "kept ?A w (on_token env j p b st w)" for j msg code w p b st
    by (auto simp: kept_def t e)
  ultimately show ?thesis using law by (auto simp: answer_law_def log_law_def kept_def)
qed

lemma arrivals_append [simp]: "arrivals (evs @ evs') = arrivals evs @ arrivals evs'"
  by (induction evs rule: arrivals.induct) simp_all

lemma arrivals_iterates [simp]: "arrivals (replicate k Iterate) = []"
  by (induction k) simp_all

lemma served_client_ends:
  assumes law: "log_law env rs hist" and run: "run_events env evs (new_worker cfg kv0 w) = Some s"
    and armed: "\<forall>req \<in> set (arrivals evs). rq_cancel_armed req"
    and rest: "active s = []" "prefilling s = []" "queue s = []"
    and i: "i \<in> rq_id ` set (arrivals evs)" "\<And>w. \<not> fst (poll_cancelled env i w)"
  shows "list_ex terminal_event (hist (cw (wcore s)) i)"
proof -
  let ?A = "\<lambda>w j. j = i \<longrightarrow> list_ex terminal_event (hist w i)"
  have start: "all_live ?A (new_worker cfg kv0 w)" "worker_ids (new_worker cfg kv0 w) = {#}"
    by (simp_all add: all_live_def new_worker_def going_def worker_ids_def vector_ids_def)
  from run_events_settled [OF staying_answer_law [OF law i(2)] start(1) armed run]
  have "\<forall>j \<in># mset (map rq_id (arrivals evs)). ?A (cw (wcore s)) j"
    using rest by (auto simp: settled_def start(2) worker_ids_def vector_ids_def)
  then show ?thesis using i(1) by auto
qed

text \<open>
  \<open>rs\<close> takes over the worker's counts, whatever they are, and adds the two measured times; the
  times are ones whose digits can be read back as a number. The counts are in range because those
  of the worker are.
\<close>

definition measured :: "('w \<Rightarrow> inference_stats \<Rightarrow> response_stats) \<Rightarrow> bool" where
  "measured rs \<longleftrightarrow> (\<forall>w st. inference_stats.truncate (rs w st) = st \<and>
     duration_ok (prompt_ms (rs w st)) \<and> duration_ok (predicted_ms (rs w st)))"

lemma measured_ok:
  assumes "measured rs" "counts_ok env st" "env_n_ctx env < 2 ^ 31"
  shows "stats_ok (rs w st)"
proof -
  have "inference_stats.truncate (rs w st) = st" "duration_ok (prompt_ms (rs w st))" "duration_ok (predicted_ms (rs w st))"
    using assms(1) by (simp_all add: measured_def)
  moreover from this(1) have "prompt_n (rs w st) = prompt_n st" "cache_n (rs w st) = cache_n st"
    "stat_prompt_tokens (rs w st) = stat_prompt_tokens st" "predicted_n (rs w st) = predicted_n st"
    by (metis inference_stats.select_convs inference_stats.truncate_def)+
  ultimately show ?thesis using assms(2,3) by (auto simp: stats_ok_def counts_ok_def)
qed

lemma run_stats_fine:
  assumes law: "log_law env rs hist" "measured rs" and env: "env_n_ctx env < 2 ^ 31"
    and kv: "kv_laws (env_ops env) cells" "decode_law env cells" "\<And>q i. cells kv0 q i = None" and empty: "\<And>i. hist w i = []"
    and run: "run_events env evs (new_worker cfg kv0 w) = Some s"
  shows "list_all stats_fine (hist (cw (wcore s)) i)"
proof -
  let ?Q = "\<lambda>w. \<forall>i. list_all stats_fine (hist w i)"
  have "counted_law env ?Q"
    using law(1) measured_ok [OF law(2) _ env] by (auto simp: counted_law_def log_law_def stats_fine_def token_event_def)
  from run_events_counted [OF this kv(2) new_worker_inv [OF kv(1,3)] run] empty
  show ?thesis by (simp add: new_worker_def all_counts_def)
qed

text \<open>
  C20. With at least three sequence ids, every client that stays is answered. From any state of a
  run, once no more requests arrive, finitely many iterations of the worker bring every request
  that has arrived to its end: its callbacks make up one well-formed answer, and the client reads
  it, whether it streams, with the keep-alive events at any points between the pieces, or waits
  for the whole. Other clients may leave, and the decoder and the sampler may do what they like.
  The reported statistics are the worker's own counts and the measured times. (The command line
  takes \<open>--max-seq 2\<close> and \<open>3\<close> too, which leave fewer ids than the hypothesis asks for.)
\<close>

theorem every_client_answered:
  assumes "kv_laws (env_ops env) cells" "decode_law env cells" "\<And>q i. cells kv0 q i = None" "1 \<le> env_n_batch env"
    and "env_n_seq_max env = max_sequences cfg" "4 \<le> max_sequences cfg" "env_n_ctx env < 2 ^ 31"
    and law: "log_law env rs hist" "measured rs" "\<And>i. hist w i = []"
    and run: "run_events env evs (new_worker cfg kv0 w) = Some s" "distinct (map rq_id (arrivals evs))"
    and armed: "\<forall>req \<in> set (arrivals evs). rq_cancel_armed req"
    and i: "i \<in> rq_id ` set (arrivals evs)" "\<And>w. \<not> fst (poll_cancelled env i w)"
  shows "\<exists>k s'. run_events env (replicate k Iterate) s = Some s' \<and> worker_protocol (hist (cw (wcore s')) i) \<and>
    stream_answered (hist (cw (wcore s')) i) \<and> text_answered (hist (cw (wcore s')) i)"
proof -
  have inv: "worker_inv (served cfg (env_ops env) cells) s"
    using run_events_ok [OF refl assms(2) new_worker_inv [OF assms(1,3)]] run(1) by (metis option.inject)
  have "room env (active (new_worker cfg kv0 w)) (prefilling (new_worker cfg kv0 w))" by (simp add: room_def new_worker_def)
  from run_events_room [OF this run(1)] have r: "room env (active s) (prefilling s)" .
  have "2 \<le> env_n_seq_max env" using assms(5,6) by simp
  from serves_ok [OF refl assms(2,4,6) this inv r] obtain k s' where
    s': "run_events env (replicate k Iterate) s = Some s'" "active s' = []" "prefilling s' = []" "queue s' = []" by blast
  have all: "run_events env (evs @ replicate k Iterate) (new_worker cfg kv0 w) = Some s'"
    using run(1) s'(1) by (simp add: run_events_append)
  let ?l = "hist (cw (wcore s')) i"
  have f: "answer_fine ?l" using run_follows [OF law(1) all _ law(3)] run(2) by simp
  have st: "list_all stats_fine ?l" by (rule run_stats_fine [OF law(1,2) assms(7,1-3) law(3) all])
  have "list_ex terminal_event ?l" by (rule served_client_ends [OF law(1) all _ s'(2-4) _ i(2)]) (use armed i(1) in simp_all)
  then show ?thesis using s'(1) f ended_stream [OF f st] ended_text [OF f st] by (auto simp: answer_fine_def)
qed

section \<open>A recorded world\<close>

text \<open>A world that is the record itself.\<close>

type_synonym record_world = "(nat \<times> stream_event) list"

definition calls_for :: "record_world \<Rightarrow> nat \<Rightarrow> stream_event list" where
  "calls_for w i = map snd [e \<leftarrow> w. fst e = i]"

text \<open>The worker's counts, and no time measured.\<close>

definition instant_stats :: "inference_stats \<Rightarrow> response_stats" where
  "instant_stats st = \<lparr>prompt_n = prompt_n st, cache_n = cache_n st, stat_prompt_tokens = stat_prompt_tokens st,
     predicted_n = predicted_n st, prompt_ms = 0, predicted_ms = 0\<rparr>"

definition recording_env :: "(inference_stats \<Rightarrow> response_stats) \<Rightarrow> (kv_table, record_world) worker_env" where
  "recording_env rs = \<lparr>env_ops = table_ops, env_n_ctx = 32, env_n_batch = 4, env_n_seq_max = 4,
     tokenize = map (\<lambda>c. if c = CHR ''a'' then 1 else 2), apply_chat_template = (\<lambda>ms. concat (map snd ms)),
     llama_decode = table_decode, create_sampler = (\<lambda>_ _ w. (0, w)), free_sampler = (\<lambda>_ w. w),
     sample = (\<lambda>_ _ w. (if length w \<ge> 3 then 0 else 2, w)), is_eog = (\<lambda>t. t = 0), token_piece = (\<lambda>_. ''x''),
     poll_cancelled = (\<lambda>_ w. (False, w)), on_cancel = (\<lambda>_ w. w),
     on_token = (\<lambda>i p b st w. w @ [(i, token_event p b (map_option rs st))]),
     on_error = (\<lambda>i msg code w. w @ [(i, Problem msg code)])\<rparr>"

abbreviation recording_worker :: "(kv_table, record_world) worker_state" where
  "recording_worker \<equiv> new_worker (sample_config 4) empty_table []"

lemma recording_law: "log_law (recording_env rs) (\<lambda>_. rs) calls_for"
  by (simp add: log_law_def recording_env_def table_decode_def calls_for_def fun_eq_iff)

lemma instant_measured: "measured (\<lambda>_. instant_stats)"
  by (simp add: measured_def instant_stats_def duration_zero inference_stats.truncate_def)

theorem answers_follow_protocol_witness:
  "\<exists>s. run_events (recording_env instant_stats) [Arrive (sample_request 7 ''aba'' 2), Iterate, Iterate] recording_worker = Some s \<and>
    map piece_text (calls_for (cw (wcore s)) 7) = [''x'', ''x''] \<and>
    worker_protocol (calls_for (cw (wcore s)) 7) \<and> Wake \<notin> set (calls_for (cw (wcore s)) 7)"
proof -
  let ?evs = "[Arrive (sample_request 7 ''aba'' 2), Iterate, Iterate]"
  have "map_option (\<lambda>s. map piece_text (calls_for (cw (wcore s)) 7)) (run_events (recording_env rs) ?evs recording_worker) = Some [''x'', ''x'']" for rs
    by code_simp
  then obtain s where s: "run_events (recording_env instant_stats) ?evs recording_worker = Some s"
    "map piece_text (calls_for (cw (wcore s)) 7) = [''x'', ''x'']" by fastforce
  from answers_follow_protocol [OF recording_law _ s(1), of 7] s show ?thesis
    by (simp add: sample_request_def calls_for_def)
qed

theorem every_client_answered_witness:
  "\<exists>s. run_events (recording_env instant_stats) [Arrive (sample_request 7 ''aba'' 2), Iterate, Arrive (sample_request 8 ''ab'' 1)] recording_worker = Some s \<and>
    (\<exists>k s'. run_events (recording_env instant_stats) (replicate k Iterate) s = Some s' \<and> worker_protocol (calls_for (cw (wcore s')) 8) \<and>
      stream_answered (calls_for (cw (wcore s')) 8) \<and> text_answered (calls_for (cw (wcore s')) 8))"
proof -
  let ?evs = "[Arrive (sample_request 7 ''aba'' 2), Iterate, Arrive (sample_request 8 ''ab'' 1)]"
  let ?env = "recording_env instant_stats"
  have e: "kv_laws (env_ops ?env) table_cells" "1 \<le> env_n_batch ?env" "env_n_seq_max ?env = max_sequences (sample_config 4)"
    "4 \<le> max_sequences (sample_config 4)" "decode_law ?env table_cells"
    by (simp_all add: recording_env_def table_laws sample_config_def table_decode_law)
  have z: "\<And>q i. table_cells empty_table q i = None" by (simp add: table_cells_def empty_table_def)
  have "worker_inv (served (sample_config 4) (env_ops ?env) table_cells) recording_worker"
    by (rule new_worker_inv [OF e(1)]) (simp add: table_cells_def empty_table_def)
  then obtain s where s: "run_events ?env ?evs recording_worker = Some s" using run_events_ok [OF refl e(5)] by blast
  have "\<exists>k s'. run_events ?env (replicate k Iterate) s = Some s' \<and> worker_protocol (calls_for (cw (wcore s')) 8) \<and>
      stream_answered (calls_for (cw (wcore s')) 8) \<and> text_answered (calls_for (cw (wcore s')) 8)"
    by (rule every_client_answered [OF e(1,5) _ e(2-4) _ recording_law instant_measured _ s])
      (simp_all add: sample_request_def recording_env_def calls_for_def z)
  with s show ?thesis by blast
qed

end
