(* ===== verification/RF_Main.thy ===== *)
theory RF_Main
  imports RF_Json RF_Config RF_Server
begin

text \<open>
  The command line (src/main.cpp): the options, the values read with the C library's number
  parsers, the log level, and the condition on which the shutdown stops to wait.
\<close>

section \<open>The C library's number parsers\<close>

definition is_space :: "char \<Rightarrow> bool" where
  "is_space c \<longleftrightarrow> c = CHR '' '' \<or> CHR 0x09 \<le> c \<and> c \<le> CHR 0x0D"

definition skip_space :: "string \<Rightarrow> string" where
  "skip_space s = dropWhile is_space s"

text \<open>An optional sign.\<close>

definition split_sign :: "string \<Rightarrow> bool \<times> string" where
  "split_sign s =
     (if s \<noteq> [] \<and> hd s = CHR ''-'' then (True, tl s)
      else if s \<noteq> [] \<and> hd s = CHR ''+'' then (False, tl s) else (False, s))"

text \<open>\<open>atoi\<close>: a value outside of \<open>int\<close> is undefined.\<close>

definition atoi :: "string \<Rightarrow> int option" where
  "atoi s = (let (neg, t) = split_sign (skip_space s); n = digits_value (takeWhile is_digit t);
                 i = (if neg then - n else n) in
     if - 2147483648 \<le> i \<and> i \<le> 2147483647 then Some i else None)"

definition strtoull :: "string \<Rightarrow> nat" where
  "strtoull s = (let (neg, t) = split_sign (skip_space s); n = digits_value (takeWhile is_digit t) in
     if n \<ge> 2 ^ 64 then 2 ^ 64 - 1 else if neg then nat (- n mod 2 ^ 64) else nat n)"

text \<open>\<open>strtof\<close>: also hexadecimal numbers, infinities and \<open>nan\<close>; no number at all is 0.\<close>

datatype c_float = Finite rat | Infinite bool | NotANumber

definition lower_char :: "char \<Rightarrow> char" where
  "lower_char c = (if CHR ''A'' \<le> c \<and> c \<le> CHR ''Z'' then char_of (of_char c + 32 :: nat) else c)"

definition starts_ci :: "string \<Rightarrow> string \<Rightarrow> bool" where
  "starts_ci w s \<longleftrightarrow> map lower_char (take (length w) s) = w"

definition hex_digit :: "char \<Rightarrow> bool" where
  "hex_digit c \<longleftrightarrow> is_digit c \<or> CHR ''a'' \<le> lower_char c \<and> lower_char c \<le> CHR ''f''"

definition hex_digits_value :: "string \<Rightarrow> int" where
  "hex_digits_value ds = foldl (\<lambda>n c. 16 * n + (if is_digit c then digit_value c else of_char (lower_char c) - 87)) 0 ds"

text \<open>The digits before and after the point, and the rest.\<close>

definition float_digits :: "(char \<Rightarrow> bool) \<Rightarrow> string \<Rightarrow> string \<times> string \<times> string" where
  "float_digits p s = (let a = takeWhile p s; r = dropWhile p s in
     if r \<noteq> [] \<and> hd r = CHR ''.'' then (a, takeWhile p (tl r), dropWhile p (tl r)) else (a, [], r))"

text \<open>The exponent after the letter; it counts only with a digit.\<close>

definition float_exponent :: "char \<Rightarrow> string \<Rightarrow> int" where
  "float_exponent letter r =
     (if r \<noteq> [] \<and> lower_char (hd r) = letter then
        (let (neg, t) = split_sign (tl r); n = digits_value (takeWhile is_digit t) in if neg then - n else n)
      else 0)"

definition round_float :: "bool \<Rightarrow> rat \<Rightarrow> c_float" where
  "round_float neg x =
     (let y = round_signed 24 (-149) x in
      if y \<ge> pow2 128 then Infinite neg else Finite (if neg then - y else y))"

definition strtof :: "string \<Rightarrow> c_float" where
  "strtof s =
     (let (neg, t) = split_sign (skip_space s); h = drop 2 t;
          (hi, hf, hr) = float_digits hex_digit h; (di, df, dr) = float_digits is_digit t in
      if starts_ci ''inf'' t then Infinite neg
      else if starts_ci ''nan'' t then NotANumber
      else if starts_ci ''0x'' t \<and> hi @ hf \<noteq> [] then
        round_float neg (of_int (hex_digits_value (hi @ hf)) * pow2 (float_exponent CHR ''p'' hr - 4 * int (length hf)))
      else if di @ df \<noteq> [] then
        round_float neg (of_int (digits_value (di @ df)) * pow10 (float_exponent CHR ''e'' dr - int (length df)))
      else Finite 0)"

section \<open>Options\<close>

text \<open>
  The watermark of the command line is a \<open>float\<close> and may be not a number, so the options keep it as
  it is: \<open>watermark\<close> stands for the member \<open>kv_high_watermark\<close> of the structure while the options
  are read, and the finite number in \<open>kv_high_watermark\<close> is set from it when the server starts.
\<close>

record cli_config = config +
  watermark :: c_float

definition default_cli :: cli_config where
  "default_cli = config.extend default_config (\<lparr>watermark = Finite float_0_9\<rparr>)"

text \<open>
  The configuration of a server that starts with these options. With a watermark that is not a
  number its first look at the memory pressure converts a product that is not a number to an
  integer, which is undefined.
\<close>

definition started_config :: "cli_config \<Rightarrow> config option" where
  "started_config c =
     (case watermark c of Finite x \<Rightarrow> Some (config.truncate c\<lparr>kv_high_watermark := x\<rparr>) | _ \<Rightarrow> None)"

datatype cli_result = Usage | Parsed cli_config

definition value_options :: "string list" where
  "value_options = [''-m'', ''--model'', ''-c'', ''--ctx-size'', ''-ngl'', ''--n-gpu-layers'', ''--host'', ''--port'',
     ''--max-seq'', ''--admit-window-ms'', ''--request-timeout'', ''--shutdown-timeout'', ''--max-body-bytes'',
     ''--kv-high-watermark'', ''-b'', ''--batch-size'', ''--admin-token'', ''--log-level'']"

text \<open>The comparisons of a \<open>float\<close> with the bounds; with a NaN both are false.\<close>

definition at_most_zero :: "c_float \<Rightarrow> bool" where
  "at_most_zero v = (case v of Finite x \<Rightarrow> x \<le> 0 | Infinite neg \<Rightarrow> neg | NotANumber \<Rightarrow> False)"

definition above_one :: "c_float \<Rightarrow> bool" where
  "above_one v = (case v of Finite x \<Rightarrow> x > 1 | Infinite neg \<Rightarrow> \<not> neg | NotANumber \<Rightarrow> False)"

definition set_watermark :: "c_float \<Rightarrow> cli_config \<Rightarrow> cli_result" where
  "set_watermark v c = (if at_most_zero v \<or> above_one v then Usage else Parsed (c\<lparr>watermark := v\<rparr>))"

text \<open>One option with its value; \<open>None\<close> is undefined behaviour of \<open>atoi\<close>.\<close>

definition set_option :: "string \<Rightarrow> string \<Rightarrow> cli_config \<Rightarrow> cli_result option" where
  "set_option arg v c =
     (if arg = ''-m'' \<or> arg = ''--model'' then Some (Parsed (c\<lparr>model_path := v\<rparr>))
      else if arg = ''-c'' \<or> arg = ''--ctx-size'' then do { n \<leftarrow> atoi v; Some (Parsed (c\<lparr>n_ctx := n\<rparr>)) }
      else if arg = ''-ngl'' \<or> arg = ''--n-gpu-layers'' then do { n \<leftarrow> atoi v; Some (Parsed (c\<lparr>n_gpu_layers := n\<rparr>)) }
      else if arg = ''--host'' then Some (Parsed (c\<lparr>host := v\<rparr>))
      else if arg = ''--port'' then do { n \<leftarrow> atoi v; Some (Parsed (c\<lparr>port := n\<rparr>)) }
      else if arg = ''--max-seq'' then do { n \<leftarrow> atoi v; Some (Parsed (c\<lparr>max_sequences := n\<rparr>)) }
      else if arg = ''--admit-window-ms'' then do { n \<leftarrow> atoi v; Some (Parsed (c\<lparr>admit_window_ms := max 0 n\<rparr>)) }
      else if arg = ''--request-timeout'' then do { n \<leftarrow> atoi v; Some (Parsed (c\<lparr>request_timeout_seconds := max 1 n\<rparr>)) }
      else if arg = ''--shutdown-timeout'' then do { n \<leftarrow> atoi v; Some (Parsed (c\<lparr>shutdown_timeout_seconds := max 0 n\<rparr>)) }
      else if arg = ''--max-body-bytes'' then Some (Parsed (c\<lparr>max_body_bytes := strtoull v\<rparr>))
      else if arg = ''--kv-high-watermark'' then Some (set_watermark (strtof v) c)
      else if arg = ''-b'' \<or> arg = ''--batch-size'' then do { n \<leftarrow> atoi v; Some (Parsed (c\<lparr>n_batch := n\<rparr>)) }
      else if arg = ''--admin-token'' then Some (Parsed (c\<lparr>admin_token := v\<rparr>))
      else if arg = ''--log-level'' then Some (Parsed (c\<lparr>log_level := v\<rparr>))
      else Some Usage)"

fun parse_options :: "string list \<Rightarrow> cli_config \<Rightarrow> cli_result option" where
  "parse_options [] c = Some (Parsed c)"
| "parse_options (arg # rest) c =
     (if arg \<in> set value_options \<and> rest \<noteq> [] then
        (case set_option arg (hd rest) c of
           None \<Rightarrow> None | Some Usage \<Rightarrow> Some Usage | Some (Parsed c') \<Rightarrow> parse_options (tl rest) c')
      else if arg = ''--no-prefix-cache'' then parse_options rest (c\<lparr>prefix_cache_enabled := False\<rparr>)
      else if arg = ''--debug-metrics'' then parse_options rest (c\<lparr>debug_metrics := True\<rparr>)
      else Some Usage)"

text \<open>The arguments after the program's name: \<open>Usage\<close> is the exit with status 1.\<close>

definition main_options :: "string list \<Rightarrow> cli_result option" where
  "main_options args =
     do { r \<leftarrow> parse_options args default_cli;
          Some (case r of Usage \<Rightarrow> Usage | Parsed c \<Rightarrow> if model_path c = [] then Usage else Parsed c) }"

section \<open>Log level\<close>

datatype severity = DEBUG | INFO | WARN | ERROR

fun severity_number :: "severity \<Rightarrow> nat" where
  "severity_number DEBUG = 0"
| "severity_number INFO = 1"
| "severity_number WARN = 2"
| "severity_number ERROR = 3"

instantiation severity :: linorder
begin

definition less_eq_severity :: "severity \<Rightarrow> severity \<Rightarrow> bool" where
  "less_eq_severity a b \<longleftrightarrow> severity_number a \<le> severity_number b"

definition less_severity :: "severity \<Rightarrow> severity \<Rightarrow> bool" where
  "less_severity a b \<longleftrightarrow> severity_number a < severity_number b"

instance
proof
  fix a b c :: severity
  show "a < b \<longleftrightarrow> a \<le> b \<and> \<not> b \<le> a" by (auto simp: less_eq_severity_def less_severity_def)
  show "a \<le> a" by (simp add: less_eq_severity_def)
  show "a \<le> b \<Longrightarrow> b \<le> c \<Longrightarrow> a \<le> c" by (simp add: less_eq_severity_def)
  show "a \<le> b \<Longrightarrow> b \<le> a \<Longrightarrow> a = b" by (cases a; cases b) (simp_all add: less_eq_severity_def)
  show "a \<le> b \<or> b \<le> a" by (auto simp: less_eq_severity_def)
qed

end

definition log_threshold :: "config \<Rightarrow> severity" where
  "log_threshold cfg =
     (if log_level cfg = ''debug'' then DEBUG else if log_level cfg = ''warn'' then WARN
      else if log_level cfg = ''error'' then ERROR else INFO)"

text \<open>Whether a message is written, and the word of its level.\<close>

definition log_written :: "severity \<Rightarrow> severity \<Rightarrow> bool" where
  "log_written threshold level \<longleftrightarrow> \<not> level < threshold"

definition level_text :: "severity \<Rightarrow> string" where
  "level_text level = (case level of DEBUG \<Rightarrow> ''DEBUG'' | WARN \<Rightarrow> ''WARN '' | ERROR \<Rightarrow> ''ERROR'' | INFO \<Rightarrow> ''INFO '')"

section \<open>Shutdown\<close>

definition pending_count :: "('kv, 'w) worker_state \<Rightarrow> nat" where
  "pending_count ws = length (queue ws)"

definition is_idle :: "('kv, 'w) worker_state \<Rightarrow> bool" where
  "is_idle ws \<longleftrightarrow> pending_count ws = 0 \<and> generating ws = 0"

text \<open>The wait ends when the worker is idle or the time of \<open>--shutdown-timeout\<close> is over.\<close>

definition drain_waits :: "('kv, 'w) worker_state \<Rightarrow> bool \<Rightarrow> bool" where
  "drain_waits ws before_deadline \<longleftrightarrow> \<not> is_idle ws \<and> before_deadline"

end
