(* ===== verification/RF_MainProps.thy ===== *)
theory RF_MainProps
  imports RF_Main RF_OpenAIProps
begin

text \<open>
  What the options can be when the server starts, and two conditions that the program does not
  check as it means to.
\<close>

section \<open>The options are in range\<close>

definition int32 :: "int \<Rightarrow> bool" where
  "int32 i \<longleftrightarrow> - 2147483648 \<le> i \<and> i \<le> 2147483647"

definition fraction :: "c_float \<Rightarrow> bool" where
  "fraction v \<longleftrightarrow> (case v of Finite x \<Rightarrow> 0 < x \<and> x \<le> 1 \<and> is_float x | _ \<Rightarrow> False)"

definition cli_ok :: "cli_config \<Rightarrow> bool" where
  "cli_ok c \<longleftrightarrow> 0 \<le> admit_window_ms c \<and> 1 \<le> request_timeout_seconds c \<and> 0 \<le> shutdown_timeout_seconds c \<and>
     (fraction (watermark c) \<or> watermark c = NotANumber) \<and> max_body_bytes c < 2 ^ 64 \<and>
     int32 (n_ctx c) \<and> int32 (n_gpu_layers c) \<and> int32 (port c) \<and> int32 (max_sequences c) \<and> int32 (n_batch c) \<and>
     int32 (admit_window_ms c) \<and> int32 (request_timeout_seconds c) \<and> int32 (shutdown_timeout_seconds c)"

lemma atoi_int32: "atoi s = Some n \<Longrightarrow> int32 n"
  by (auto simp: atoi_def int32_def Let_def split: prod.splits if_splits)

lemma max_int32: "int32 n \<Longrightarrow> int32 m \<Longrightarrow> int32 (max m n)"
  by (simp add: int32_def max_def)

lemma strtoull_range: "strtoull s < 2 ^ 64"
proof -
  obtain neg t where t: "split_sign (skip_space s) = (neg, t)" by (cases "split_sign (skip_space s)")
  define n where "n = digits_value (takeWhile is_digit t)"
  have "strtoull s = (if n \<ge> 2 ^ 64 then 2 ^ 64 - 1 else if neg then nat (- n mod 2 ^ 64) else nat n)"
    by (simp add: strtoull_def t n_def)
  moreover have "- n mod 2 ^ 64 < 2 ^ 64" by (rule pos_mod_bound) simp
  ultimately show ?thesis by (auto simp: nat_less_iff)
qed

lemma round_float_type: "round_float neg x = Finite y \<Longrightarrow> y > 0 \<Longrightarrow> y \<le> 1 \<Longrightarrow> is_float y"
proof -
  assume r: "round_float neg x = Finite y" "y > 0" "y \<le> 1"
  let ?z = "round_signed 24 (-149) x"
  have rep: "representable 24 (-149) ?z" using round_signed_representable [of 24 "- 149" x] by simp
  have neg: "representable 24 (-149) (- ?z)" using rep unfolding representable_def
    by (metis abs_minus_cancel mult_minus_left of_int_minus)
  have "y = ?z \<or> y = - ?z" using r(1) by (auto simp: round_float_def Let_def split: if_splits)
  moreover have "\<bar>y\<bar> < pow2 128"
  proof -
    have "\<bar>y\<bar> \<le> pow2 0" using r by (simp add: pow2_def)
    also have "pow2 0 < pow2 128" by (simp add: pow2_def)
    finally show ?thesis .
  qed
  ultimately show ?thesis using rep neg by (auto simp: is_float_def)
qed

lemma strtof_type: "strtof s = Finite y \<Longrightarrow> y > 0 \<Longrightarrow> y \<le> 1 \<Longrightarrow> is_float y"
  using round_float_type by (auto simp: strtof_def Let_def split: prod.splits if_splits)

definition option_ok :: "cli_result option \<Rightarrow> bool" where
  "option_ok r \<longleftrightarrow> (\<forall>c. r = Some (Parsed c) \<longrightarrow> cli_ok c)"

lemma option_ok_if: "option_ok r \<Longrightarrow> option_ok s \<Longrightarrow> option_ok (if b then r else s)"
  by simp

lemma option_ok_number: "(\<And>n. int32 n \<Longrightarrow> cli_ok (f n)) \<Longrightarrow> option_ok (do { n \<leftarrow> atoi v; Some (Parsed (f n)) })"
  using atoi_int32 by (auto simp: option_ok_def bind_eq_Some_conv)

lemma option_ok_parsed: "cli_ok c \<Longrightarrow> option_ok (Some (Parsed c))" "option_ok (Some Usage)"
  by (simp_all add: option_ok_def)

lemma set_watermark_ok: "cli_ok c \<Longrightarrow> option_ok (Some (set_watermark (strtof v) c))"
  using strtof_type [of v]
  by (cases "strtof v") (auto simp: option_ok_def set_watermark_def cli_ok_def fraction_def at_most_zero_def above_one_def)

lemma set_option_ok: "cli_ok c \<Longrightarrow> option_ok (set_option arg v c)"
  unfolding set_option_def
  by (intro option_ok_if option_ok_number option_ok_parsed set_watermark_ok)
    (use strtoull_range [of v] in \<open>simp_all add: cli_ok_def int32_def\<close>)

lemma parse_options_ok: "parse_options args c = Some (Parsed c') \<Longrightarrow> cli_ok c \<Longrightarrow> cli_ok c'"
proof (induction args c rule: parse_options.induct)
  case (1 c) then show ?case by simp
next
  case (2 arg rest c)
  consider (valued) "arg \<in> set value_options \<and> rest \<noteq> []"
    | (cache) "\<not> (arg \<in> set value_options \<and> rest \<noteq> [])" "arg = ''--no-prefix-cache''"
    | (debug) "\<not> (arg \<in> set value_options \<and> rest \<noteq> [])" "arg \<noteq> ''--no-prefix-cache''" "arg = ''--debug-metrics''"
    using "2.prems"(1) by (simp only: parse_options.simps split: if_split_asm) auto
  then show ?case
  proof cases
    case valued
    then obtain d where d: "set_option arg (hd rest) c = Some (Parsed d)" "parse_options (tl rest) d = Some (Parsed c')"
      using "2.prems"(1) by (simp only: parse_options.simps if_True simp_thms)
        (auto split: option.splits cli_result.splits)
    show ?thesis using "2.IH"(1) [OF valued d(1) refl d(2)] set_option_ok [OF "2.prems"(2), of arg "hd rest"] d(1)
      by (simp add: option_ok_def)
  next
    case cache
    have "parse_options rest (c\<lparr>prefix_cache_enabled := False\<rparr>) = Some (Parsed c')"
      using "2.prems"(1) unfolding parse_options.simps if_not_P [OF cache(1)] if_P [OF cache(2)] .
    then show ?thesis using "2.IH"(2) [OF cache] "2.prems"(2) by (simp add: cli_ok_def)
  next
    case debug
    have "parse_options rest (c\<lparr>debug_metrics := True\<rparr>) = Some (Parsed c')"
      using "2.prems"(1) unfolding parse_options.simps if_not_P [OF debug(1)] if_not_P [OF debug(2)] if_P [OF debug(3)] .
    then show ?thesis using "2.IH"(3) [OF debug] "2.prems"(2) by (simp add: cli_ok_def)
  qed
qed

lemma default_cli_ok: "cli_ok default_cli"
  using float_constants by (simp add: cli_ok_def fraction_def default_cli_def config.defs default_config_def int32_def float_0_9_def)

text \<open>
  C35. When the command line is accepted, a model is named, every number is in the range of its
  type, the request timeout is at least one second, the other waits are not negative, and the
  watermark is a fraction of type \<open>float\<close>, positive and at most one, or it is not a number: that is
  the one value out of range that the check of the bounds lets through.
\<close>

theorem options_in_range:
  assumes "main_options args = Some (Parsed c)"
  shows "model_path c \<noteq> [] \<and> cli_ok c"
proof -
  obtain c' where "parse_options args default_cli = Some (Parsed c')" "c = c'" "model_path c' \<noteq> []"
    using assms by (cases "parse_options args default_cli") (auto simp: main_options_def split: cli_result.split_asm if_split_asm)
  then show ?thesis using parse_options_ok default_cli_ok by blast
qed

lemma strtof_nan: "strtof ''nan'' = NotANumber"
  by (simp add: strtof_def skip_space_def is_space_def split_sign_def starts_ci_def lower_char_def float_digits_def
      hex_digit_def is_digit_def)

theorem options_in_range_witness:
  "\<exists>c. main_options [''-m'', ''a'', ''--admit-window-ms'', ''-5''] = Some (Parsed c) \<and> model_path c \<noteq> [] \<and> cli_ok c"
proof -
  have a: "atoi ''-5'' = Some (- 5)" by code_simp
  have "\<exists>c. main_options [''-m'', ''a'', ''--admit-window-ms'', ''-5''] = Some (Parsed c)"
    by (simp add: main_options_def value_options_def set_option_def a)
  then show ?thesis using options_in_range by blast
qed

section \<open>Unchecked conditions\<close>

text \<open>
  A watermark that is not a number passes the comparison with its bounds, and the server starts
  with it; the conversion of its product with the context size to an integer is then undefined.
\<close>

lemma nan_watermark_accepted:
  "\<exists>c. main_options [''-m'', ''a'', ''--kv-high-watermark'', ''nan''] = Some (Parsed c) \<and>
     watermark c = NotANumber \<and> started_config c = None"
  by (simp add: main_options_def value_options_def set_option_def set_watermark_def strtof_nan at_most_zero_def above_one_def started_config_def)

text \<open>
  The worker counts as idle while a prompt is still in prefill: the shutdown does not wait for it.
\<close>

lemma idle_during_prefill:
  "map_option (\<lambda>s. prefilling s \<noteq> [] \<and> \<not> drain_waits s True)
     (run_events (sample_env (\<lambda>_ _. False)) [Arrive (sample_request 0 ''ababab'' 3), Iterate] sample_worker) = Some True"
  by code_simp

end
