(* ===== verification/RF_Bridge.thy ===== *)
theory RF_Bridge
  imports RF_Server
begin

text \<open>
  The bridge to llama.cpp (src/llama_bridge.cpp): the parameters it creates the model and the
  context with, the two-step calls with a buffer, and its own fallbacks. The functions of
  llama.cpp are arguments.
\<close>

section \<open>Construction\<close>

record context_params =
  ctx_n_ctx :: int
  ctx_n_batch :: int
  ctx_n_ubatch :: int
  ctx_n_seq_max :: int
  kv_unified :: bool

definition bridge_context_params :: "config \<Rightarrow> context_params" where
  "bridge_context_params cfg = \<lparr>ctx_n_ctx = n_ctx cfg, ctx_n_batch = n_batch cfg, ctx_n_ubatch = n_batch cfg,
     ctx_n_seq_max = max_sequences cfg, kv_unified = True\<rparr>"

definition open_bridge ::
  "(string \<Rightarrow> int \<Rightarrow> 'm option) \<Rightarrow> ('m \<Rightarrow> context_params \<Rightarrow> 'c option) \<Rightarrow> config \<Rightarrow> string + 'm \<times> 'c" where
  "open_bridge load init cfg =
     (case load (model_path cfg) (n_gpu_layers cfg) of
        None \<Rightarrow> Inl (''Failed to load model: '' @ model_path cfg)
      | Some model \<Rightarrow>
          (case init model (bridge_context_params cfg) of
             None \<Rightarrow> Inl ''Failed to create llama context''
           | Some ctx \<Rightarrow> Inr (model, ctx)))"

section \<open>Tokens\<close>

text \<open>
  A C function that fills a buffer returns a number and what it has written from the begin of
  the buffer on; \<open>std::vector::resize\<close> cuts or fills up with zeros, and fails for a negative size.
\<close>

definition overwrite :: "'a list \<Rightarrow> 'a list \<Rightarrow> 'a list" where
  "overwrite written buf = written @ drop (length written) buf"

definition resize :: "nat \<Rightarrow> 'a \<Rightarrow> 'a list \<Rightarrow> 'a list" where
  "resize n zero buf = take n buf @ replicate (n - length buf) zero"

definition bridge_tokenize ::
  "(string \<Rightarrow> nat \<Rightarrow> bool \<Rightarrow> int \<times> token list) \<Rightarrow> string \<Rightarrow> bool \<Rightarrow> string + token list" where
  "bridge_tokenize llama_tokenize text add_bos =
     (let cap = length text + 16;
          (n, written) = llama_tokenize text cap add_bos;
          toks = overwrite written (replicate cap 0) in
      if n < 0 then
        (let toks = resize (nat (- n)) 0 toks;
             (n2, written2) = llama_tokenize text (length toks) add_bos;
             toks = overwrite written2 toks in
         if n2 < 0 then Inl ''vector::_M_default_append'' else Inr (resize (nat n2) 0 toks))
      else Inr (resize (nat n) 0 toks))"

section \<open>Chat\<close>

definition chatml_message :: "string \<times> string \<Rightarrow> string" where
  "chatml_message m = ''<|im_start|>'' @ fst m @ [CHR 0x0A] @ snd m @ ''<|im_end|>'' @ [CHR 0x0A]"

definition chatml :: "(string \<times> string) list \<Rightarrow> string" where
  "chatml messages = concat (map chatml_message messages) @ ''<|im_start|>assistant'' @ [CHR 0x0A]"

text \<open>
  The first call measures the text with no buffer; the second writes into a buffer of that size.
  The call takes C strings, so it sees roles and contents up to a byte zero.
\<close>

definition c_str :: "string \<Rightarrow> string" where
  "c_str s = takeWhile (\<lambda>c. c \<noteq> CHR 0x00) s"

definition bridge_chat_template ::
  "(string option \<Rightarrow> (string \<times> string) list \<Rightarrow> nat \<Rightarrow> int \<times> string) \<Rightarrow> string option \<Rightarrow> (string \<times> string) list \<Rightarrow> string" where
  "bridge_chat_template llama_chat tmpl messages =
     (let chat = map (map_prod c_str c_str) messages; n = fst (llama_chat tmpl chat 0) in
      if n > 0 then overwrite (snd (llama_chat tmpl chat (nat n))) (replicate (nat n) CHR 0x00)
      else chatml messages)"

section \<open>Samplers and names\<close>

datatype sampler_stage = TempStage rat | TopPStage rat nat | DistStage nat

datatype sampler_plan = GreedySampler | SamplerChain "sampler_stage list"

definition sampler_for :: "rat \<Rightarrow> rat \<Rightarrow> sampler_plan" where
  "sampler_for temperature top_p =
     (if temperature \<le> 0 then GreedySampler
      else SamplerChain [TempStage temperature, TopPStage top_p 1, DistStage 0])"

text \<open>
  The value of a metadata key is written to a buffer of 256 bytes, zero-terminated; the number
  is the length of the whole value, or negative. Reading more than the buffer is undefined.
\<close>

definition model_name :: "(string \<Rightarrow> nat \<Rightarrow> int \<times> string) option \<Rightarrow> config \<Rightarrow> string option" where
  "model_name meta_val cfg =
     (case meta_val of
        None \<Rightarrow> Some ''unknown''
      | Some val_str \<Rightarrow>
          (let (n, written) = val_str ''general.name'' 256; buf = overwrite written (replicate 256 CHR 0x00) in
           if n > 0 then (if n \<le> 256 then Some (take (nat n) buf) else None)
           else Some (after_last CHR ''/'' (model_path cfg))))"

section \<open>What the bridge returns\<close>

text \<open>
  The contract of \<open>llama_tokenize\<close>: it writes the tokens when they fit, and otherwise returns
  their number negated.
\<close>

definition tokenizer_law :: "(string \<Rightarrow> nat \<Rightarrow> bool \<Rightarrow> int \<times> token list) \<Rightarrow> (string \<Rightarrow> bool \<Rightarrow> token list) \<Rightarrow> bool" where
  "tokenizer_law llama_tokenize spec \<longleftrightarrow>
     (\<forall>text cap bos. if length (spec text bos) \<le> cap then llama_tokenize text cap bos = (int (length (spec text bos)), spec text bos)
        else fst (llama_tokenize text cap bos) = - int (length (spec text bos)) \<and>
             length (snd (llama_tokenize text cap bos)) \<le> cap)"

text \<open>The text of a prompt is tokenised as a whole, also when the first buffer was too short.\<close>

lemma bridge_tokenize_ok:
  assumes "tokenizer_law llama_tokenize spec"
  shows "bridge_tokenize llama_tokenize text bos = Inr (spec text bos)"
proof (cases "length (spec text bos) \<le> length text + 16")
  case True
  then have "llama_tokenize text (length text + 16) bos = (int (length (spec text bos)), spec text bos)"
    using assms by (simp add: tokenizer_law_def)
  then show ?thesis using True by (simp add: bridge_tokenize_def overwrite_def resize_def)
next
  case False
  obtain written where w: "llama_tokenize text (length text + 16) bos = (- int (length (spec text bos)), written)"
    "length written \<le> length text + 16"
    using assms False unfolding tokenizer_law_def by (metis prod.collapse)
  have l: "length (resize (length (spec text bos)) 0 (overwrite written (replicate (length text + 16) 0))) = length (spec text bos)"
    using False w(2) by (simp add: resize_def overwrite_def)
  have "llama_tokenize text (length (spec text bos)) bos = (int (length (spec text bos)), spec text bos)"
    using assms by (simp add: tokenizer_law_def)
  then show ?thesis using False w l by (simp add: bridge_tokenize_def Let_def) (simp add: overwrite_def resize_def)
qed

end
