(* ===== verification/RF_TreeJson.thy ===== *)
theory RF_TreeJson
  imports RF_RadixLookup RF_JsonPrint RF_Server
begin

text \<open>
  The dump of the radix tree (src/radix_tree.cpp, \<open>node_to_json\<close> and \<open>to_json\<close>) and the endpoint
  that returns it.
\<close>

definition ids_json :: "seq_id set \<Rightarrow> string" where
  "ids_json ids = separated (map int_text (sorted_list_of_set ids))"

text \<open>The text of one node around the texts of its children; \<open>depth\<close> counts the tokens to its end.\<close>

definition node_text :: "radix_node \<Rightarrow> int \<Rightarrow> string list \<Rightarrow> string" where
  \<open>node_text nd depth kids =
     ''{"token_count":'' @ nat_text (length (tokens nd)) @ '',"cumulative_tokens":'' @ int_text depth @
     '',"ref_count":'' @ int_text (ref_count nd) @ '',"canonical_len":'' @ int_text (canonical_len nd) @
     '',"last_access_tick":'' @ nat_text (last_access_tick nd) @ '',"seq_ids":['' @ ids_json (seq_ids nd) @
     ''],"ready_seq_ids":['' @ ids_json (ready_seq_ids nd) @ ''],"children":['' @ separated kids @ '']}''\<close>

text \<open>\<open>node_to_json\<close> on each node of a list in turn; the loop over the children is the first recursive call.\<close>

partial_function (option) nodes_to_json :: "radix_tree \<Rightarrow> int \<Rightarrow> addr list \<Rightarrow> string list option" where
  "nodes_to_json t cumulative_tokens nodes =
     (case nodes of
        [] \<Rightarrow> Some []
      | n # rest \<Rightarrow>
          do { nd \<leftarrow> heap t n;
               kids \<leftarrow> nodes_to_json t (cumulative_tokens + int (length (tokens nd))) (map snd (children nd));
               others \<leftarrow> nodes_to_json t cumulative_tokens rest;
               Some (node_text nd (cumulative_tokens + int (length (tokens nd))) kids # others) })"

declare nodes_to_json.simps [code]

definition to_json :: "radix_tree \<Rightarrow> string option" where
  \<open>to_json t =
     do { active_seqs \<leftarrow> active_sequence_count t;
          roots \<leftarrow> nodes_to_json t 0 [root_addr];
          Some (''{"tick":'' @ nat_text (tick t) @ '',"active_sequences":'' @ int_text active_seqs @
                '',"root":'' @ concat roots @ ''}'') }\<close>

definition admin_tree_dump :: "config \<Rightarrow> string \<Rightarrow> radix_tree \<Rightarrow> response \<Rightarrow> response option" where
  "admin_tree_dump cfg authorization t res =
     (case check_admin_auth cfg authorization res of
        (False, res) \<Rightarrow> Some res
      | (True, res) \<Rightarrow> do { text \<leftarrow> to_json t; Some (json_content text (allow_origin res)) })"

section \<open>The dump returns\<close>

lemma nodes_to_json_ok:
  assumes wf: "wf_shape t P"
    and "\<forall>n \<in> set ns. heap t n \<noteq> None" "\<forall>n \<in> set ns. card (below t P n) < k"
  shows "\<exists>texts. nodes_to_json t c ns = Some texts \<and> length texts = length ns"
  using assms(2,3)
proof (induction k arbitrary: ns c)
  case 0
  then have "ns = []" by (cases ns) auto
  then show ?case by (simp add: nodes_to_json.simps)
next
  case (Suc k)
  note outer = Suc.IH
  from Suc.prems show ?case
  proof (induction ns)
    case Nil show ?case by (simp add: nodes_to_json.simps)
  next
    case (Cons n rest)
    obtain nd where n: "heap t n = Some nd" using Cons.prems(1) by auto
    let ?cs = "map snd (children nd)"
    have "\<forall>m \<in> set ?cs. heap t m \<noteq> None" using child_in_heap [OF wf n] by fastforce
    moreover have "\<forall>m \<in> set ?cs. card (below t P m) < k"
    proof
      fix m assume "m \<in> set ?cs"
      then have "card (below t P m) < card (below t P n)" using below_child_smaller [OF wf n] by simp
      then show "card (below t P m) < k" using Cons.prems(2) by auto
    qed
    ultimately obtain kids where kids: "nodes_to_json t (c + int (length (tokens nd))) ?cs = Some kids"
      using outer by blast
    obtain others where "nodes_to_json t c rest = Some others" "length others = length rest"
      using Cons.IH Cons.prems by auto
    then show ?case using n kids by (subst nodes_to_json.simps) simp
  qed
qed

lemma to_json_ok:
  assumes "wf_shape t P"
  shows "\<exists>text. to_json t = Some text"
proof -
  obtain r where r: "heap t root_addr = Some r" using wf_rootD [OF assms] by metis
  obtain texts where "nodes_to_json t 0 [root_addr] = Some texts"
    using nodes_to_json_ok [OF assms, of "[root_addr]" "Suc (card (below t P root_addr))" 0] r by auto
  then show ?thesis by (simp add: to_json_def active_sequence_count_ok [OF assms])
qed

end
