(* ===== verification/RF_Spike.thy ===== *)
theory RF_Spike
  imports RF_Main RF_Bridge
begin

text \<open>
  The experiment on reusing the KV memory of text chunks (src/tools/chunk_spike.cpp), first part:
  its options, its data file, the scores of an answer, and the variants it compares.
\<close>

section \<open>Exceptions\<close>

text \<open>
  The program throws \<open>std::runtime_error\<close> and catches it in \<open>main\<close>. \<open>None\<close> is undefined
  behaviour, as everywhere; \<open>Some (Inl message)\<close> is an exception.
\<close>

type_synonym 'a outcome = "(string + 'a) option"

abbreviation fail :: "string \<Rightarrow> 'a outcome" where
  "fail message \<equiv> Some (Inl message)"

abbreviation yields :: "'a \<Rightarrow> 'a outcome" where
  "yields x \<equiv> Some (Inr x)"

definition proceed :: "'a outcome \<Rightarrow> ('a \<Rightarrow> 'b outcome) \<Rightarrow> 'b outcome" where
  "proceed m f = (case m of None \<Rightarrow> None | Some (Inl message) \<Rightarrow> fail message | Some (Inr x) \<Rightarrow> f x)"

lemma proceed_simps [simp]:
  "proceed None f = None" "proceed (fail message) f = fail message" "proceed (yields x) f = f x"
  by (simp_all add: proceed_def)

lemma proceed_yields: "proceed m f = yields y \<longleftrightarrow> (\<exists>x. m = yields x \<and> f x = yields y)"
  by (simp add: proceed_def split: option.split sum.split)

lemma proceed_Some: "proceed m f = Some r \<longleftrightarrow>
    (\<exists>message. m = fail message \<and> r = Inl message) \<or> (\<exists>x. m = yields x \<and> f x = Some r)"
  by (auto simp: proceed_def split: option.split sum.split)

lemma mapped_yields: "map_option (map_sum id f) m = yields y \<longleftrightarrow> (\<exists>x. m = yields x \<and> f x = y)"
  by (cases m) (auto simp: map_sum_def split: sum.split)

section \<open>Splitting\<close>

text \<open>\<open>std::getline\<close> with a separator: the part before it, and what follows; at the end it fails.\<close>

definition getline :: "char \<Rightarrow> string \<Rightarrow> (string \<times> string) option" where
  "getline separator s = (if s = [] then None
     else Some (takeWhile (\<lambda>c. c \<noteq> separator) s, drop 1 (dropWhile (\<lambda>c. c \<noteq> separator) s)))"

lemma getline_shorter: "getline separator s = Some (part, rest) \<Longrightarrow> length rest < length s"
proof -
  assume g: "getline separator s = Some (part, rest)"
  then have r: "s \<noteq> []" "rest = drop 1 (dropWhile (\<lambda>c. c \<noteq> separator) s)" by (auto simp: getline_def split: if_splits)
  show ?thesis using r(1) length_dropWhile_le [of "\<lambda>c. c \<noteq> separator" s]
    by (cases s) (auto simp: r(2) intro: le_less_trans [OF diff_le_self])
qed

function parts :: "char \<Rightarrow> string \<Rightarrow> string list" where
  "parts separator s = (case getline separator s of None \<Rightarrow> [] | Some (part, rest) \<Rightarrow> part # parts separator rest)"
  by pat_completeness auto
termination
  by (relation "measure (\<lambda>(_, s). length s)") (auto dest: getline_shorter)

declare parts.simps [simp del]

definition split_text :: "string \<Rightarrow> char \<Rightarrow> string list" where
  "split_text s separator = [part \<leftarrow> parts separator s. part \<noteq> []]"

section \<open>Options\<close>

record spike_options =
  so_model_path :: string
  so_data_path :: string
  so_output_path :: string
  so_count :: nat
  so_gpu_layers :: int
  so_variants :: "string list"

definition default_variants :: string where
  "default_variants = ''full,naive,prefixed,prefixed+r8,prefixed+r16,prefixed+r32,prefixed+r64,naive+r16,prefixed+rALL''"

definition default_spike :: spike_options where
  "default_spike = \<lparr>so_model_path = [], so_data_path = ''data/hotpot_dev_100.jsonl'', so_output_path = [],
     so_count = 100, so_gpu_layers = 99, so_variants = split_text default_variants (CHR '','')\<rparr>"

text \<open>
  \<open>std::stoul\<close> and \<open>std::stoi\<close> throw when there is no digit or the number is out of range, with
  their name as the message; a minus sign in front of an unsigned number wraps.
\<close>

definition stoul :: "string \<Rightarrow> string + nat" where
  "stoul s = (let (neg, t) = split_sign (skip_space s); ds = takeWhile is_digit t; n = digits_value ds in
     if ds = [] \<or> n \<ge> 2 ^ 64 then Inl ''stoul'' else Inr (if neg then nat (- n mod 2 ^ 64) else nat n))"

definition stoi :: "string \<Rightarrow> string + int" where
  "stoi s = (let (neg, t) = split_sign (skip_space s); ds = takeWhile is_digit t;
                 n = (if neg then - digits_value ds else digits_value ds) in
     if ds = [] \<or> n < - 2147483648 \<or> n > 2147483647 then Inl ''stoi'' else Inr n)"

datatype spike_command = SpikeUsage | SpikeRun spike_options

definition set_spike_option :: "string \<Rightarrow> string \<Rightarrow> spike_options \<Rightarrow> string + spike_options" where
  "set_spike_option argument v o1 =
     (if argument = ''-m'' \<or> argument = ''--model'' then Inr (o1\<lparr>so_model_path := v\<rparr>)
      else if argument = ''--data'' then Inr (o1\<lparr>so_data_path := v\<rparr>)
      else if argument = ''--out'' then Inr (o1\<lparr>so_output_path := v\<rparr>)
      else if argument = ''--n'' then map_sum id (\<lambda>n. o1\<lparr>so_count := n\<rparr>) (stoul v)
      else if argument = ''--variants'' then Inr (o1\<lparr>so_variants := split_text v (CHR '','')\<rparr>)
      else map_sum id (\<lambda>n. o1\<lparr>so_gpu_layers := n\<rparr>) (stoi v))"

fun spike_arguments :: "string list \<Rightarrow> spike_options \<Rightarrow> string + spike_command" where
  "spike_arguments [] o1 = Inr (SpikeRun o1)"
| "spike_arguments (argument # rest) o1 =
     (if argument \<in> {''-m'', ''--model'', ''--data'', ''--out'', ''--n'', ''--variants'', ''-ngl'', ''--gpu-layers''} then
        (case rest of
           [] \<Rightarrow> Inl (''missing value for '' @ argument)
         | v # rest' \<Rightarrow>
             (case set_spike_option argument v o1 of Inl e \<Rightarrow> Inl e | Inr o2 \<Rightarrow> spike_arguments rest' o2))
      else if argument = ''-h'' \<or> argument = ''--help'' then Inr SpikeUsage
      else Inl (''unknown argument: '' @ argument))"

definition spike_main_options :: "string list \<Rightarrow> string + spike_command" where
  "spike_main_options arguments =
     (case spike_arguments arguments default_spike of
        Inr (SpikeRun o1) \<Rightarrow>
          if so_model_path o1 = [] then Inl ''-m MODEL.gguf is required''
          else if so_output_path o1 = [] then Inl ''--out FILE is required''
          else if so_variants o1 = [] then Inl ''at least one variant is required''
          else Inr (SpikeRun o1)
      | r \<Rightarrow> r)"

section \<open>The data file\<close>

record spike_item =
  it_id :: string
  it_question :: string
  it_answer :: string
  it_chunks :: "string list"
  it_gold :: "bool list"
  it_bm25 :: "rat list"

definition read_item :: "string \<Rightarrow> spike_item outcome" where
  "read_item line = proceed (json_parse line) (\<lambda>j.
     let item = \<lparr>it_id = as_string (json_member j ''id''), it_question = as_string (json_member j ''question''),
                 it_answer = as_string (json_member j ''answer''),
                 it_chunks = map as_string (as_array (json_member j ''chunks'')),
                 it_gold = map as_bool (as_array (json_member j ''gold'')),
                 it_bm25 = map as_number (as_array (json_member j ''bm25''))\<rparr> in
     if it_id item = [] \<or> length (it_chunks item) \<noteq> 10 \<or> length (it_gold item) \<noteq> length (it_chunks item) \<or>
        length (it_bm25 item) \<noteq> length (it_chunks item)
     then fail ''invalid input item (expected id and 10 chunks with gold and bm25 arrays)''
     else yields item)"

fun read_lines :: "nat \<Rightarrow> string list \<Rightarrow> spike_item list outcome" where
  "read_lines 0 _ = yields []"
| "read_lines (Suc n) [] = yields []"
| "read_lines (Suc n) (line # lines) =
     (if line = [] then read_lines (Suc n) lines
      else proceed (read_item line) (\<lambda>item. proceed (read_lines n lines) (\<lambda>items. yields (item # items))))"

text \<open>\<open>None\<close> as the text: the file cannot be opened.\<close>

definition read_items :: "string \<Rightarrow> string option \<Rightarrow> nat \<Rightarrow> spike_item list outcome" where
  "read_items path file_text n =
     (case file_text of
        None \<Rightarrow> fail (''cannot open data file: '' @ path)
      | Some text \<Rightarrow>
          proceed (read_lines n (parts (CHR 0x0A) text)) (\<lambda>items.
            if length items \<noteq> n then fail ''data file contains fewer items than --n'' else yields items))"

section \<open>Scores\<close>

text \<open>\<open>std::ispunct\<close> and \<open>std::tolower\<close> in the C locale, and the words that \<open>>>\<close> reads.\<close>

definition is_punct :: "char \<Rightarrow> bool" where
  "is_punct c \<longleftrightarrow> CHR 0x21 \<le> c \<and> c \<le> CHR 0x2F \<or> CHR 0x3A \<le> c \<and> c \<le> CHR 0x40 \<or>
     CHR 0x5B \<le> c \<and> c \<le> CHR 0x60 \<or> CHR 0x7B \<le> c \<and> c \<le> CHR 0x7E"

function text_words :: "string \<Rightarrow> string list" where
  "text_words s = (let r = skip_space s in
     if r = [] then [] else takeWhile (\<lambda>c. \<not> is_space c) r # text_words (dropWhile (\<lambda>c. \<not> is_space c) r))"
  by pat_completeness auto
termination
proof (relation "measure length")
  fix s r assume r: "r = skip_space s" "r \<noteq> []"
  then have "\<not> is_space (hd r)" by (metis hd_dropWhile skip_space_def)
  then have "length (dropWhile (\<lambda>c. \<not> is_space c) r) < length r" using r(2) by (cases r) (simp_all add: length_dropWhile_le le_imp_less_Suc)
  also have "length r \<le> length s" using r(1) by (simp add: skip_space_def length_dropWhile_le)
  finally show "(dropWhile (\<lambda>c. \<not> is_space c) r, s) \<in> measure length" by simp
qed simp

declare text_words.simps [simp del]

fun join_words :: "string list \<Rightarrow> string" where
  "join_words [] = []"
| "join_words [w] = w"
| "join_words (w # ws) = w @ CHR '' '' # join_words ws"

definition normalize_answer :: "string \<Rightarrow> string" where
  "normalize_answer answer =
     (let cleaned = map lower_char [c \<leftarrow> answer. \<not> is_punct c] in
      join_words [w \<leftarrow> text_words cleaned. w \<noteq> ''a'' \<and> w \<noteq> ''an'' \<and> w \<noteq> ''the''])"

text \<open>Doubles are the rational numbers they stand for; each operation rounds.\<close>

definition dbl :: "rat \<Rightarrow> rat" where
  "dbl x = round_signed 53 (-1074) x"

definition flt :: "rat \<Rightarrow> rat" where
  "flt x = round_signed 24 (-149) x"

text \<open>The counts of the words, and how many of the predicted words they cover.\<close>

definition count_words :: "string list \<Rightarrow> string \<Rightarrow> int option" where
  "count_words ws = fold (\<lambda>w counts. counts(w \<mapsto> (case counts w of None \<Rightarrow> 0 | Some n \<Rightarrow> n) + 1)) ws Map.empty"

fun shared_words :: "string list \<Rightarrow> (string \<Rightarrow> int option) \<Rightarrow> int \<Rightarrow> int" where
  "shared_words [] counts n = n"
| "shared_words (w # ws) counts n =
     (case counts w of
        Some k \<Rightarrow> if k > 0 then shared_words ws (counts(w \<mapsto> k - 1)) (n + 1) else shared_words ws counts n
      | None \<Rightarrow> shared_words ws counts n)"

definition token_f1 :: "string \<Rightarrow> string \<Rightarrow> rat" where
  "token_f1 prediction gold =
     (let predicted = split_text (normalize_answer prediction) (CHR '' '');
          expected = split_text (normalize_answer gold) (CHR '' '') in
      if predicted = [] \<or> expected = [] then (if predicted = [] \<and> expected = [] then 1 else 0)
      else
        let shared = shared_words predicted (count_words expected) 0;
            precision = dbl (of_int shared / of_nat (length predicted));
            recall = dbl (of_int shared / of_nat (length expected)) in
        if shared = 0 then 0 else dbl (dbl (dbl (2 * precision) * recall) / dbl (precision + recall)))"

text \<open>\<open>std::max_element\<close>: the first of the largest; the distance to it is 0 for an empty vector.\<close>

fun max_element :: "rat list \<Rightarrow> nat \<Rightarrow> nat \<Rightarrow> rat \<Rightarrow> nat" where
  "max_element [] i best x = best"
| "max_element (y # ys) i best x = (if x < y then max_element ys (Suc i) i y else max_element ys (Suc i) best x)"

definition argmax :: "rat list \<Rightarrow> int" where
  "argmax logits = (case logits of [] \<Rightarrow> 0 | x # xs \<Rightarrow> int (max_element xs 1 0 x))"

text \<open>
  \<open>exp_d\<close> and \<open>log_d\<close> are the functions of the C library on doubles. The first maximum is read from
  the empty vector, or an element behind the end, only with undefined behaviour.
\<close>

definition sum_dbl :: "(nat \<Rightarrow> rat) \<Rightarrow> nat \<Rightarrow> rat" where
  "sum_dbl f n = fold (\<lambda>i acc. dbl (acc + f i)) [0..<n] 0"

definition kl_divergence :: "(rat \<Rightarrow> rat) \<Rightarrow> (rat \<Rightarrow> rat) \<Rightarrow> rat list \<Rightarrow> rat list \<Rightarrow> rat option" where
  "kl_divergence exp_d log_d reference candidate =
     (if reference = [] \<or> candidate = [] \<or> length candidate < length reference then None
      else
        let ref_max = reference ! nat (argmax reference); candidate_max = candidate ! nat (argmax candidate);
            n = length reference;
            ref_sum = sum_dbl (\<lambda>i. exp_d (flt (reference ! i - ref_max))) n;
            candidate_sum = sum_dbl (\<lambda>i. exp_d (flt (candidate ! i - candidate_max))) n;
            ref_log_z = dbl (ref_max + log_d ref_sum);
            candidate_log_z = dbl (candidate_max + log_d candidate_sum);
            log_p = (\<lambda>i. dbl (reference ! i - ref_log_z)); log_q = (\<lambda>i. dbl (candidate ! i - candidate_log_z)) in
        Some (sum_dbl (\<lambda>i. dbl (exp_d (log_p i) * dbl (log_p i - log_q i))) n))"

definition max_abs_difference :: "rat list \<Rightarrow> rat list \<Rightarrow> rat option" where
  "max_abs_difference lhs rhs =
     (if length rhs < length lhs then None
      else Some (fold (\<lambda>i m. max m \<bar>flt (lhs ! i - rhs ! i)\<bar>) [0..<length lhs] 0))"

text \<open>Of no values the mean is 0/0, not a number, and the median reads before the begin.\<close>

definition mean :: "rat list \<Rightarrow> rat option" where
  "mean xs = (if xs = [] then None else Some (dbl (fold (\<lambda>x acc. dbl (acc + x)) xs 0 / of_nat (length xs))))"

definition median :: "rat list \<Rightarrow> rat option" where
  "median xs =
     (if xs = [] then None
      else let sorted = sort xs; middle = length xs div 2 in
        Some (if even (length xs) then dbl (dbl (sorted ! (middle - 1) + sorted ! middle) / 2) else sorted ! middle))"

section \<open>Variants\<close>

record variant_spec =
  vs_full :: bool
  vs_prefixed :: bool
  vs_head :: int
  vs_all :: bool
  vs_top_k :: int
  vs_gold :: bool

definition no_variant :: variant_spec where
  "no_variant = \<lparr>vs_full = False, vs_prefixed = False, vs_head = 0, vs_all = False, vs_top_k = 0, vs_gold = False\<rparr>"

definition variant_part :: "string \<Rightarrow> string \<Rightarrow> variant_spec \<Rightarrow> string + variant_spec" where
  "variant_part variant part spec =
     (let r = (if part = ''rALL'' then Inr (spec\<lparr>vs_all := True\<rparr>)
               else if part = ''gold'' then Inr (spec\<lparr>vs_gold := True\<rparr>)
               else if length part > 1 \<and> hd part = CHR ''r'' then map_sum id (\<lambda>n. spec\<lparr>vs_head := n\<rparr>) (stoi (drop 1 part))
               else if length part > 3 \<and> take 3 part = ''top'' then map_sum id (\<lambda>n. spec\<lparr>vs_top_k := n\<rparr>) (stoi (drop 3 part))
               else Inl (''unknown variant part '' @ [CHR 0x27] @ part @ [CHR 0x27] @ '' in '' @ variant)) in
      case r of
        Inl e \<Rightarrow> Inl e
      | Inr spec' \<Rightarrow>
          if vs_head spec' < 0 \<or> vs_top_k spec' < 0 then Inl (''negative amount in variant '' @ variant) else Inr spec')"

fun variant_parts :: "string \<Rightarrow> string list \<Rightarrow> variant_spec \<Rightarrow> string + variant_spec" where
  "variant_parts variant [] spec = Inr spec"
| "variant_parts variant (part # rest) spec =
     (case variant_part variant part spec of Inl e \<Rightarrow> Inl e | Inr spec' \<Rightarrow> variant_parts variant rest spec')"

definition parse_variant :: "string \<Rightarrow> string + variant_spec" where
  "parse_variant variant =
     (if variant = ''full'' then Inr (no_variant\<lparr>vs_full := True\<rparr>)
      else case split_text variant (CHR ''+'') of
        [] \<Rightarrow> Inl (''unknown variant: '' @ variant)
      | base # rest \<Rightarrow>
          if base \<noteq> ''naive'' \<and> base \<noteq> ''prefixed'' then Inl (''unknown variant: '' @ variant)
          else variant_parts variant rest (no_variant\<lparr>vs_prefixed := (base = ''prefixed'')\<rparr>))"

text \<open>\<open>std::stable_sort\<close> by descending score keeps the order of equal scores.\<close>

definition selected_chunks :: "spike_item \<Rightarrow> variant_spec \<Rightarrow> bool list" where
  "selected_chunks item spec =
     (let selected = (if vs_gold spec then it_gold item else replicate (length (it_chunks item)) False) in
      if vs_top_k spec > 0 then
        (let order = sort_key (\<lambda>i. - it_bm25 item ! i) [0..<length (it_chunks item)] in
         fold (\<lambda>i sel. sel[i := True]) (take (nat (vs_top_k spec)) order) selected)
      else selected)"

end
