(* ===== verification/RF_SpikeRun.thy ===== *)
theory RF_SpikeRun
  imports RF_Spike
begin

text \<open>
  The experiment on reusing the KV memory of text chunks (src/tools/chunk_spike.cpp), second part:
  how a prompt is put together in the KV memory from chunks that were computed before, shifted to
  their place, and from chunks that are computed again. llama.cpp is a parameter; \<open>'c\<close> is its
  context, \<open>'b\<close> a byte of a serialized state, which the program never looks into. Readings of the
  clock are arguments.
\<close>

section \<open>llama.cpp\<close>

record ('c, 'b) llama_api =
  api_tokenize :: "string \<Rightarrow> nat \<Rightarrow> bool \<Rightarrow> int \<times> token list"
  api_detokenize :: "token list \<Rightarrow> nat \<Rightarrow> int \<times> string"
  api_decode :: "batch_entry list \<Rightarrow> 'c \<Rightarrow> int \<times> 'c"
  api_logits :: "'c \<Rightarrow> rat list option"
  api_seq_rm :: "seq_id \<Rightarrow> int \<Rightarrow> int \<Rightarrow> 'c \<Rightarrow> bool \<times> 'c"
  api_seq_cp :: "seq_id \<Rightarrow> seq_id \<Rightarrow> int \<Rightarrow> int \<Rightarrow> 'c \<Rightarrow> 'c"
  api_seq_add :: "seq_id \<Rightarrow> int \<Rightarrow> int \<Rightarrow> int \<Rightarrow> 'c \<Rightarrow> 'c"
  api_state_size :: "seq_id \<Rightarrow> 'c \<Rightarrow> nat"
  api_state_get :: "seq_id \<Rightarrow> nat \<Rightarrow> 'c \<Rightarrow> 'b list"
  api_state_set :: "'b list \<Rightarrow> seq_id \<Rightarrow> 'c \<Rightarrow> nat \<times> 'c"
  api_is_eog :: "token \<Rightarrow> bool"

definition prefix_seq :: seq_id where "prefix_seq = 0"
definition target_seq :: seq_id where "target_seq = 1"
definition temporary_seq :: seq_id where "temporary_seq = 2"
definition scratch_seq :: seq_id where "scratch_seq = 3"

section \<open>Texts and tokens\<close>

definition spike_tokenize :: "(string \<Rightarrow> nat \<Rightarrow> bool \<Rightarrow> int \<times> token list) \<Rightarrow> string \<Rightarrow> bool \<Rightarrow> token list outcome" where
  "spike_tokenize llama_tokenize text add_special =
     (let cap = length text + 32;
          (n, written) = llama_tokenize text cap add_special;
          toks = overwrite written (replicate cap 0) in
      if n < 0 then
        (let toks = resize (nat (- n)) 0 toks;
             (n2, written2) = llama_tokenize text (length toks) add_special;
             toks = overwrite written2 toks in
         if n2 < 0 then fail ''tokenization failed'' else yields (resize (nat n2) 0 toks))
      else yields (resize (nat n) 0 toks))"

text \<open>A text that is longer than the buffer would be read behind its end.\<close>

definition spike_detokenize :: "(token list \<Rightarrow> nat \<Rightarrow> int \<times> string) \<Rightarrow> token list \<Rightarrow> string outcome" where
  "spike_detokenize llama_detokenize toks =
     (if toks = [] then yields []
      else
        let cap = length toks * 16 + 256;
            (n, written) = llama_detokenize toks cap;
            out = overwrite written (replicate cap CHR 0x00);
            (n, out) = (if n < 0 then
                          (let out = resize (nat (- n)) CHR 0x00 out; (n2, written2) = llama_detokenize toks (length out) in
                           (n2, overwrite written2 out))
                        else (n, out)) in
        if n < 0 then fail ''detokenization failed''
        else if nat n > length out then None else yields (take (nat n) out))"

section \<open>Sequences\<close>

definition spike_batch :: "token list \<Rightarrow> seq_id \<Rightarrow> int \<Rightarrow> batch_entry list" where
  "spike_batch toks s pos =
     map (\<lambda>i. \<lparr>b_token = toks ! i, b_pos = pos + int i, b_seq = s, b_logits = (i = length toks - 1)\<rparr>) [0..<length toks]"

definition spike_decode :: "('c, 'b) llama_api \<Rightarrow> token list \<Rightarrow> seq_id \<Rightarrow> int \<Rightarrow> 'c \<Rightarrow> 'c outcome" where
  "spike_decode api toks s pos c =
     (if toks = [] then yields c
      else let (st, c1) = api_decode api (spike_batch toks s pos) c in
        if st \<noteq> 0 then fail (''llama_decode failed with status '' @ int_text st @ '' at position '' @ int_text pos)
        else yields c1)"

definition current_logits :: "('c, 'b) llama_api \<Rightarrow> 'c \<Rightarrow> rat list outcome" where
  "current_logits api c =
     (case api_logits api c of None \<Rightarrow> fail ''llama.cpp did not return logits'' | Some l \<Rightarrow> yields l)"

definition remove_sequence :: "('c, 'b) llama_api \<Rightarrow> seq_id \<Rightarrow> 'c \<Rightarrow> 'c outcome" where
  "remove_sequence api s c =
     (let (ok, c1) = api_seq_rm api s (-1) (-1) c in
      if ok then yields c1 else fail ''could not remove sequence from KV memory'')"

record 'b blob =
  blob_data :: "'b list"
  blob_tokens :: int

definition snapshot :: "('c, 'b) llama_api \<Rightarrow> seq_id \<Rightarrow> int \<Rightarrow> 'c \<Rightarrow> 'b blob outcome" where
  "snapshot api s token_count c =
     (let size = api_state_size api s c in
      if size = 0 then fail ''empty state blob''
      else let written = api_state_get api s size c in
        if length written \<noteq> size then fail ''state snapshot size mismatch''
        else yields \<lparr>blob_data = written, blob_tokens = token_count\<rparr>)"

definition restore :: "('c, 'b) llama_api \<Rightarrow> 'b blob \<Rightarrow> seq_id \<Rightarrow> 'c \<Rightarrow> 'c outcome" where
  "restore api blob s c =
     proceed (remove_sequence api s c) (\<lambda>c1.
       let (n, c2) = api_state_set api (blob_data blob) s c1 in
       if n \<noteq> length (blob_data blob) then fail ''state restore size mismatch'' else yields c2)"

section \<open>The cached chunks\<close>

record 'b item_cache =
  ic_naive :: "'b blob list"
  ic_prefixed :: "'b blob list"
  ic_naive_bytes :: nat
  ic_prefixed_bytes :: nat
  ic_precompute_ms :: rat

text \<open>Each chunk alone, and each chunk behind the prefix; both are computed in the scratch sequence.\<close>

definition precompute_chunk ::
  "('c, 'b) llama_api \<Rightarrow> token list \<Rightarrow> token list \<Rightarrow> 'c \<Rightarrow> ('b blob \<times> 'b blob \<times> 'c) outcome" where
  "precompute_chunk api pre chunk c =
     proceed (spike_decode api chunk scratch_seq 0 c) (\<lambda>c1.
     proceed (snapshot api scratch_seq (int (length chunk)) c1) (\<lambda>naive.
     proceed (remove_sequence api scratch_seq c1) (\<lambda>c2.
     proceed (spike_decode api chunk scratch_seq (int (length pre)) (api_seq_cp api prefix_seq scratch_seq (-1) (-1) c2)) (\<lambda>c3.
     proceed (snapshot api scratch_seq (int (length chunk)) c3) (\<lambda>prefixed.
     proceed (remove_sequence api scratch_seq c3) (\<lambda>c4. yields (naive, prefixed, c4)))))))"

fun precompute_loop ::
  "('c, 'b) llama_api \<Rightarrow> token list \<Rightarrow> token list list \<Rightarrow> 'c \<Rightarrow> ('b blob list \<times> 'b blob list \<times> 'c) outcome" where
  "precompute_loop api pre [] c = yields ([], [], c)"
| "precompute_loop api pre (chunk # chunks) c =
     proceed (precompute_chunk api pre chunk c) (\<lambda>(naive, prefixed, c1).
     proceed (precompute_loop api pre chunks c1) (\<lambda>(naives, prefixeds, c2).
       yields (naive # naives, prefixed # prefixeds, c2)))"

definition blob_bytes :: "'b blob list \<Rightarrow> nat" where
  "blob_bytes blobs = sum_list (map (length \<circ> blob_data) blobs)"

definition precompute_chunks ::
  "('c, 'b) llama_api \<Rightarrow> rat \<Rightarrow> token list \<Rightarrow> token list list \<Rightarrow> 'c \<Rightarrow> ('b item_cache \<times> 'c) outcome" where
  "precompute_chunks api elapsed pre chunks c =
     proceed (precompute_loop api pre chunks c) (\<lambda>(naives, prefixeds, c1).
       yields (\<lparr>ic_naive = naives, ic_prefixed = prefixeds, ic_naive_bytes = blob_bytes naives,
                ic_prefixed_bytes = blob_bytes prefixeds, ic_precompute_ms = elapsed\<rparr>, c1))"

text \<open>
  The tail of a cached chunk is imported into the temporary sequence, without the prefix and the
  recomputed head, shifted to its place and given to the target.
\<close>

definition remove_range :: "('c, 'b) llama_api \<Rightarrow> string \<Rightarrow> int \<Rightarrow> int \<Rightarrow> 'c \<Rightarrow> 'c outcome" where
  "remove_range api message p0 p1 c =
     (let (ok, c1) = api_seq_rm api temporary_seq p0 p1 c in if ok then yields c1 else fail message)"

definition attach_tail ::
  "('c, 'b) llama_api \<Rightarrow> 'b blob \<Rightarrow> bool \<Rightarrow> int \<Rightarrow> int \<Rightarrow> int \<Rightarrow> 'c \<Rightarrow> 'c outcome" where
  "attach_tail api blob has_prefix prefix_tokens recomputed final_position c =
     proceed (restore api blob temporary_seq c) (\<lambda>c1.
     let blob_start = (if has_prefix then prefix_tokens else 0) in
     proceed (if recomputed > 0
              then remove_range api ''could not remove recomputed cached head'' blob_start (blob_start + recomputed) c1
              else yields c1) (\<lambda>c2.
     proceed (if has_prefix
              then remove_range api ''could not remove prefix from imported chunk blob'' 0 prefix_tokens c2
              else yields c2) (\<lambda>c3.
     let tail_start = blob_start + recomputed;
         c4 = (if tail_start < blob_start + blob_tokens blob
               then api_seq_cp api temporary_seq target_seq (-1) (-1)
                      (api_seq_add api temporary_seq tail_start (-1) (final_position + recomputed - tail_start) c3)
               else c3) in
     remove_sequence api temporary_seq c4)))"

definition probe_blob :: "('c, 'b) llama_api \<Rightarrow> 'b blob \<Rightarrow> int \<Rightarrow> token \<Rightarrow> 'c \<Rightarrow> (rat list \<times> 'c) outcome" where
  "probe_blob api blob next_position probe_token c =
     proceed (restore api blob temporary_seq c) (\<lambda>c1.
     proceed (spike_decode api [probe_token] temporary_seq next_position c1) (\<lambda>c2.
     proceed (current_logits api c2) (\<lambda>l.
     proceed (remove_sequence api temporary_seq c2) (\<lambda>c3. yields (l, c3)))))"

section \<open>A variant\<close>

text \<open>
  The state of the loop over the chunks: tokens to recompute wait in \<open>pending\<close>, from position
  \<open>pending_at\<close> on, until a cached tail has to be attached behind them.
\<close>

record 'c assembly =
  as_ctx :: 'c
  pending :: "token list"
  pending_at :: int
  position :: int
  computed :: int
  decode_calls :: int

definition enqueue_tokens :: "token list \<Rightarrow> int \<Rightarrow> 'c assembly \<Rightarrow> 'c assembly" where
  "enqueue_tokens toks from_pos st =
     st\<lparr>pending_at := (if pending st = [] then from_pos else pending_at st), pending := pending st @ toks\<rparr>"

definition flush :: "('c, 'b) llama_api \<Rightarrow> 'c assembly \<Rightarrow> 'c assembly outcome" where
  "flush api st =
     (if pending st = [] then yields st
      else proceed (spike_decode api (pending st) target_seq (pending_at st) (as_ctx st)) (\<lambda>c.
        yields (st\<lparr>as_ctx := c, decode_calls := decode_calls st + 1, pending := []\<rparr>)))"

definition recomputed_head :: "variant_spec \<Rightarrow> bool \<Rightarrow> nat \<Rightarrow> nat \<Rightarrow> int" where
  "recomputed_head spec chosen index n_tokens =
     (if vs_full spec \<or> vs_all spec \<or> chosen then int n_tokens
      else if index \<noteq> 0 then min (vs_head spec) (int n_tokens) else 0)"

definition place_chunk ::
  "('c, 'b) llama_api \<Rightarrow> variant_spec \<Rightarrow> bool list \<Rightarrow> 'b blob list \<Rightarrow> int \<Rightarrow> nat \<Rightarrow> token list \<Rightarrow>
     'c assembly \<Rightarrow> 'c assembly outcome" where
  "place_chunk api spec selected blobs prefix_tokens index chunk st =
     (if \<not> (vs_full spec \<or> vs_all spec) \<and> length selected \<le> index then None
      else
        let size = int (length chunk);
            recomputed = recomputed_head spec (selected ! index) index (length chunk);
            st1 = (if recomputed > 0
                   then (enqueue_tokens (take (nat recomputed) chunk) (position st) st)\<lparr>computed := computed st + recomputed\<rparr>
                   else st) in
        proceed (if recomputed < size then
                   proceed (flush api st1) (\<lambda>st2.
                     if length blobs \<le> index then None
                     else proceed (attach_tail api (blobs ! index) (vs_prefixed spec) prefix_tokens recomputed (position st) (as_ctx st2))
                       (\<lambda>c. yields (st2\<lparr>as_ctx := c\<rparr>)))
                 else yields st1)
          (\<lambda>st3. yields (st3\<lparr>position := position st + size\<rparr>)))"

fun assemble ::
  "('c, 'b) llama_api \<Rightarrow> variant_spec \<Rightarrow> bool list \<Rightarrow> 'b blob list \<Rightarrow> int \<Rightarrow> nat \<Rightarrow> token list list \<Rightarrow>
     'c assembly \<Rightarrow> 'c assembly outcome" where
  "assemble api spec selected blobs prefix_tokens index [] st = yields st"
| "assemble api spec selected blobs prefix_tokens index (chunk # chunks) st =
     proceed (place_chunk api spec selected blobs prefix_tokens index chunk st)
       (assemble api spec selected blobs prefix_tokens (Suc index) chunks)"

text \<open>The answer is generated greedily, with at most 32 tokens.\<close>

fun greedy_tokens ::
  "('c, 'b) llama_api \<Rightarrow> seq_id \<Rightarrow> nat \<Rightarrow> int \<Rightarrow> rat list \<Rightarrow> 'c \<Rightarrow> (token list \<times> 'c) outcome" where
  "greedy_tokens api s 0 next_position logits c = yields ([], c)"
| "greedy_tokens api s (Suc steps) next_position logits c =
     (let tok = argmax logits in
      if api_is_eog api tok then yields ([], c)
      else proceed (spike_decode api [tok] s next_position c) (\<lambda>c1.
           proceed (current_logits api c1) (\<lambda>l.
           proceed (greedy_tokens api s steps (next_position + 1) l c1) (\<lambda>(toks, c2). yields (tok # toks, c2)))))"

definition greedy_answer ::
  "('c, 'b) llama_api \<Rightarrow> seq_id \<Rightarrow> int \<Rightarrow> rat list \<Rightarrow> 'c \<Rightarrow> (string \<times> 'c) outcome" where
  "greedy_answer api s next_position initial_logits c =
     proceed (greedy_tokens api s 32 next_position initial_logits c) (\<lambda>(toks, c1).
     proceed (spike_detokenize (api_detokenize api) toks) (\<lambda>text. yields (text, c1)))"

record spike_times =
  ttft_ms :: rat
  attach_ms :: rat
  recompute_ms :: rat
  suffix_ms :: rat

record spike_result =
  r_variant :: string
  r_kl :: rat
  r_top1 :: bool
  r_em :: rat
  r_f1 :: rat
  r_agree_full :: bool
  r_tokens_computed :: int
  r_decode_calls :: int
  r_answer :: string
  r_logits :: "rat list"
  r_times :: spike_times

text \<open>The prompt of a variant in the target sequence: prefix, chunks, and the suffix with the rest.\<close>

definition decode_ending :: "('c, 'b) llama_api \<Rightarrow> token list \<Rightarrow> 'c assembly \<Rightarrow> 'c assembly outcome" where
  "decode_ending api ending st =
     (let st1 = enqueue_tokens ending (position st) st in
      proceed (spike_decode api (pending st1) target_seq (pending_at st1) (as_ctx st1)) (\<lambda>c2.
        yields (st1\<lparr>as_ctx := c2, pending := [], decode_calls := decode_calls st1 + 1\<rparr>)))"

definition compose_prompt ::
  "('c, 'b) llama_api \<Rightarrow> variant_spec \<Rightarrow> bool list \<Rightarrow> 'b blob list \<Rightarrow> token list \<Rightarrow> token list list \<Rightarrow> token list \<Rightarrow>
     'c \<Rightarrow> 'c assembly outcome" where
  "compose_prompt api spec selected blobs pre chunks ending c =
     proceed (remove_sequence api target_seq c) (\<lambda>c1.
     proceed (assemble api spec selected blobs (int (length pre)) 0 chunks
         \<lparr>as_ctx = api_seq_cp api prefix_seq target_seq (-1) (-1) c1, pending = [], pending_at = int (length pre),
          position = int (length pre), computed = int (length ending), decode_calls = 0\<rparr>) (decode_ending api ending))"

definition run_variant ::
  "('c, 'b) llama_api \<Rightarrow> (rat \<Rightarrow> rat) \<Rightarrow> (rat \<Rightarrow> rat) \<Rightarrow> spike_times \<Rightarrow> spike_item \<Rightarrow> token list \<Rightarrow> token list list \<Rightarrow>
     token list \<Rightarrow> 'b item_cache \<Rightarrow> string \<Rightarrow> rat list \<Rightarrow> string \<Rightarrow> 'c \<Rightarrow> (spike_result \<times> 'c) outcome" where
  "run_variant api exp_d log_d measured item pre chunks ending cache variant full_logits full_answer c =
     proceed (Some (parse_variant variant)) (\<lambda>spec.
     let blobs = (if vs_prefixed spec then ic_prefixed cache else ic_naive cache) in
     proceed (compose_prompt api spec (selected_chunks item spec) blobs pre chunks ending c) (\<lambda>st.
     proceed (current_logits api (as_ctx st)) (\<lambda>l.
     proceed (if full_logits = [] then yields 0 else map_option Inr (kl_divergence exp_d log_d full_logits l)) (\<lambda>kl.
     proceed (greedy_answer api target_seq (position st + int (length ending)) l (as_ctx st)) (\<lambda>(answer, c1).
     proceed (remove_sequence api target_seq c1) (\<lambda>c2.
       yields (\<lparr>r_variant = variant, r_kl = kl, r_top1 = (full_logits = [] \<or> argmax full_logits = argmax l),
                r_em = (if normalize_answer answer = normalize_answer (it_answer item) then 1 else 0),
                r_f1 = token_f1 answer (it_answer item),
                r_agree_full = (full_answer = [] \<or> normalize_answer answer = normalize_answer full_answer),
                r_tokens_computed = computed st, r_decode_calls = decode_calls st, r_answer = answer,
                r_logits = l, r_times = measured\<rparr>, c2)))))))"

end
