(* ===== verification/RF_SpikeLayout.thy ===== *)
theory RF_SpikeLayout
  imports RF_SpikeRun
begin

text \<open>
  What the experiment's operations do to the KV memory: a cell is a token together with the tokens
  it was computed behind, so that cells which were computed in another context than the one they
  are used in can be told from those that were not.
\<close>

section \<open>Cells\<close>

type_synonym chunk_cell = "token \<times> token list"
type_synonym cell_row = "int \<Rightarrow> chunk_cell option"

text \<open>A row that holds \<open>cs\<close> from position \<open>p\<close> on and nothing else.\<close>

definition seg :: "int \<Rightarrow> chunk_cell list \<Rightarrow> cell_row" where
  "seg p cs = (\<lambda>i. if p \<le> i \<and> i < p + int (length cs) then Some (cs ! nat (i - p)) else None)"

lemma seg_Nil [simp]: "seg p [] = Map.empty"
  by (rule ext) (simp add: seg_def)

lemma seg_append: "seg p cs ++ seg (p + int (length cs)) ds = seg p (cs @ ds)"
  by (rule ext) (auto simp: seg_def map_add_def nth_append nat_diff_distrib' diff_less_eq intro!: arg_cong [of _ _ "nth ds"])

lemma seg_shift: "(\<lambda>i. seg p cs (i - d)) = seg (p + d) cs"
  by (rule ext) (simp add: seg_def algebra_simps)

lemma seg_apart: "seg p cs i = None \<or> seg (p + int (length cs)) ds i = None"
  by (simp add: seg_def)

lemma seg_tail: "(\<lambda>i. if i < p + int k then None else seg p cs i) = seg (p + int k) (drop k cs)" if "k \<le> length cs"
  using that by (intro ext) (auto simp: seg_def nat_diff_distrib intro!: arg_cong [of _ _ "nth cs"])

lemma seg_above: "seg p cs i \<noteq> None \<Longrightarrow> p \<le> i"
  by (simp add: seg_def split: if_splits)

text \<open>Tokens that are decoded behind the tokens \<open>hist\<close>.\<close>

fun computed_behind :: "token list \<Rightarrow> token list \<Rightarrow> chunk_cell list" where
  "computed_behind hist [] = []"
| "computed_behind hist (t # ts) = (t, hist) # computed_behind (hist @ [t]) ts"

lemma computed_behind_append: "computed_behind hist (xs @ ys) = computed_behind hist xs @ computed_behind (hist @ xs) ys"
  by (induction xs arbitrary: hist) simp_all

lemma computed_behind_tokens [simp]: "map fst (computed_behind hist ts) = ts"
  by (induction ts arbitrary: hist) simp_all

lemma computed_behind_length [simp]: "length (computed_behind hist ts) = length ts"
  by (induction ts arbitrary: hist) simp_all

lemma computed_behind_take: "take k (computed_behind hist ts) = computed_behind hist (take k ts)"
  by (induction ts arbitrary: hist k) (simp, case_tac k, simp_all)

section \<open>What the program relies on\<close>

text \<open>
  The documented behaviour of llama.cpp's memory. \<open>stored\<close> is what a serialized state holds.
  Copying gives the cells of a sequence a second owner, and a shift moves a cell for all its
  owners, so a shift keeps its promise only for a sequence that is not \<open>aliased\<close>; a state that was
  just imported has fresh cells.
\<close>

type_synonym 'c cell_view = "'c \<Rightarrow> seq_id \<Rightarrow> cell_row"

definition remove_law :: "('c, 'b) llama_api \<Rightarrow> 'c cell_view \<Rightarrow> ('c \<Rightarrow> seq_id \<Rightarrow> bool) \<Rightarrow> bool" where
  "remove_law api cells aliased \<longleftrightarrow> (\<forall>s p0 p1 c c'. 0 \<le> s \<longrightarrow> api_seq_rm api s p0 p1 c = (True, c') \<longrightarrow>
     cells c' = (cells c)(s := (\<lambda>i. if (p0 < 0 \<or> p0 \<le> i) \<and> (p1 < 0 \<or> i < p1) then None else cells c s i)) \<and>
     (\<forall>q. aliased c' q \<longrightarrow> aliased c q))"

definition copy_law :: "('c, 'b) llama_api \<Rightarrow> 'c cell_view \<Rightarrow> bool" where
  "copy_law api cells \<longleftrightarrow> (\<forall>src dst c. src \<noteq> dst \<longrightarrow> (\<forall>i. cells c src i = None \<or> cells c dst i = None) \<longrightarrow>
     cells (api_seq_cp api src dst (-1) (-1) c) = (cells c)(dst := cells c dst ++ cells c src))"

definition shift_law :: "('c, 'b) llama_api \<Rightarrow> 'c cell_view \<Rightarrow> ('c \<Rightarrow> seq_id \<Rightarrow> bool) \<Rightarrow> bool" where
  "shift_law api cells aliased \<longleftrightarrow> (\<forall>s p0 d c. \<not> aliased c s \<longrightarrow> (\<forall>i. cells c s i \<noteq> None \<longrightarrow> p0 \<le> i \<and> 0 \<le> i + d) \<longrightarrow>
     cells (api_seq_add api s p0 (-1) d c) = (cells c)(s := (\<lambda>i. cells c s (i - d))))"

definition save_law :: "('c, 'b) llama_api \<Rightarrow> 'c cell_view \<Rightarrow> ('b list \<Rightarrow> cell_row) \<Rightarrow> bool" where
  "save_law api cells stored \<longleftrightarrow> (\<forall>s c. api_state_size api s c \<noteq> 0 \<longrightarrow>
     length (api_state_get api s (api_state_size api s c) c) = api_state_size api s c \<longrightarrow>
     stored (api_state_get api s (api_state_size api s c) c) = cells c s)"

definition load_law ::
  "('c, 'b) llama_api \<Rightarrow> 'c cell_view \<Rightarrow> ('c \<Rightarrow> seq_id \<Rightarrow> bool) \<Rightarrow> ('b list \<Rightarrow> cell_row) \<Rightarrow> bool" where
  "load_law api cells aliased stored \<longleftrightarrow> (\<forall>data s c c'. api_state_set api data s c = (length data, c') \<longrightarrow>
     cells c s = Map.empty \<longrightarrow> cells c' = (cells c)(s := stored data) \<and> \<not> aliased c' s)"

definition append_law :: "('c, 'b) llama_api \<Rightarrow> 'c cell_view \<Rightarrow> bool" where
  "append_law api cells \<longleftrightarrow> (\<forall>toks s pos p cs c c'. api_decode api (spike_batch toks s pos) c = (0, c') \<longrightarrow> toks \<noteq> [] \<longrightarrow>
     cells c s = seg p cs \<longrightarrow> pos = p + int (length cs) \<longrightarrow>
     cells c' = (cells c)(s := seg p (cs @ computed_behind (map fst cs) toks)))"

definition memory_laws ::
  "('c, 'b) llama_api \<Rightarrow> 'c cell_view \<Rightarrow> ('c \<Rightarrow> seq_id \<Rightarrow> bool) \<Rightarrow> ('b list \<Rightarrow> cell_row) \<Rightarrow> bool" where
  "memory_laws api cells aliased stored \<longleftrightarrow>
     remove_law api cells aliased \<and> copy_law api cells \<and> shift_law api cells aliased \<and> save_law api cells stored \<and>
     load_law api cells aliased stored \<and> append_law api cells"

lemma rm_cells:
  "memory_laws api cells aliased stored \<Longrightarrow> 0 \<le> s \<Longrightarrow> api_seq_rm api s p0 p1 c = (True, c') \<Longrightarrow>
   cells c' = (cells c)(s := (\<lambda>i. if (p0 < 0 \<or> p0 \<le> i) \<and> (p1 < 0 \<or> i < p1) then None else cells c s i)) \<and>
   (\<forall>q. aliased c' q \<longrightarrow> aliased c q)"
  unfolding memory_laws_def remove_law_def by blast

lemma cp_cells:
  "memory_laws api cells aliased stored \<Longrightarrow> src \<noteq> dst \<Longrightarrow> (\<And>i. cells c src i = None \<or> cells c dst i = None) \<Longrightarrow>
   cells (api_seq_cp api src dst (-1) (-1) c) = (cells c)(dst := cells c dst ++ cells c src)"
  unfolding memory_laws_def copy_law_def by blast

lemma add_cells:
  "memory_laws api cells aliased stored \<Longrightarrow> \<not> aliased c s \<Longrightarrow>
   (\<And>i. cells c s i \<noteq> None \<Longrightarrow> p0 \<le> i \<and> 0 \<le> i + d) \<Longrightarrow>
   cells (api_seq_add api s p0 (-1) d c) = (cells c)(s := (\<lambda>i. cells c s (i - d)))"
  unfolding memory_laws_def shift_law_def by blast

lemma get_cells:
  "memory_laws api cells aliased stored \<Longrightarrow> snapshot api s n c = yields b \<Longrightarrow>
   stored (blob_data b) = cells c s \<and> blob_tokens b = n"
  unfolding memory_laws_def save_law_def snapshot_def by (auto simp: Let_def split: if_splits)

lemma set_cells:
  "memory_laws api cells aliased stored \<Longrightarrow> api_state_set api data s c = (length data, c') \<Longrightarrow> cells c s = Map.empty \<Longrightarrow>
   cells c' = (cells c)(s := stored data) \<and> \<not> aliased c' s"
  unfolding memory_laws_def load_law_def by blast

lemma decode_cells:
  assumes "memory_laws api cells aliased stored"
    and "spike_decode api toks s pos c = yields c'" "cells c s = seg p cs" "toks \<noteq> [] \<Longrightarrow> pos = p + int (length cs)"
  shows "cells c' = (cells c)(s := seg p (cs @ computed_behind (map fst cs) toks))"
proof (cases "toks = []")
  case True
  then show ?thesis using assms(2,3) by (simp add: spike_decode_def flip: assms(3))
next
  case False
  then have "api_decode api (spike_batch toks s pos) c = (0, c')"
    using assms(2) by (auto simp: spike_decode_def split: prod.splits if_splits)
  then show ?thesis using assms(1) False assms(3,4) unfolding memory_laws_def append_law_def by blast
qed

lemma seq_nonneg: "0 \<le> prefix_seq" "0 \<le> target_seq" "0 \<le> temporary_seq" "0 \<le> scratch_seq"
  by (simp_all add: prefix_seq_def target_seq_def temporary_seq_def scratch_seq_def)

lemma removed_cells:
  assumes "memory_laws api cells aliased stored" "remove_sequence api s c = yields c'" "0 \<le> s"
  shows "cells c' = (cells c)(s := Map.empty)"
  using assms(2) by (auto simp: remove_sequence_def split: prod.splits if_splits dest!: rm_cells [OF assms(1,3)])

lemma restored_cells:
  assumes laws: "memory_laws api cells aliased stored" and r: "restore api b s c = yields c'" "0 \<le> s"
  shows "cells c' = (cells c)(s := stored (blob_data b)) \<and> \<not> aliased c' s"
proof -
  obtain c1 where c1: "remove_sequence api s c = yields c1"
    and load: "(let (n, c2) = api_state_set api (blob_data b) s c1 in
      if n \<noteq> length (blob_data b) then fail ''state restore size mismatch'' else yields c2) = yields c'"
    using r(1) by (auto simp: restore_def proceed_yields)
  have "api_state_set api (blob_data b) s c1 = (length (blob_data b), c')"
    using load by (cases "api_state_set api (blob_data b) s c1") (simp split: if_splits)
  from set_cells [OF laws this] removed_cells [OF laws c1 r(2)] show ?thesis by simp
qed

section \<open>The cached tail\<close>

lemma removed_range:
  assumes "memory_laws api cells aliased stored" "remove_range api message p0 p1 c = yields c'" "0 \<le> p0" "0 \<le> p1"
  shows "cells c' = (cells c)(temporary_seq := (\<lambda>i. if p0 \<le> i \<and> i < p1 then None else cells c temporary_seq i)) \<and>
    (aliased c' temporary_seq \<longrightarrow> aliased c temporary_seq)"
  using assms(2-4) by (auto simp: remove_range_def split: prod.splits if_splits dest!: rm_cells [OF assms(1) seq_nonneg(3)])

text \<open>
  A blob of the cells \<open>body\<close>, behind the \<open>lead\<close> if it was computed behind the prefix: the body
  without its first \<open>r\<close> cells ends up behind the target's cells.
\<close>

lemma attach_tail_cells:
  assumes laws: "memory_laws api cells aliased stored"
    and run: "attach_tail api blob has_prefix (int plen) (int r) pos c = yields c'"
    and blob: "stored (blob_data blob) = seg 0 (lead @ body)" "length lead = (if has_prefix then plen else 0)"
      "blob_tokens blob = int (length body)" "r \<le> length body"
    and target: "cells c target_seq = seg 0 cs" "pos + int r = int (length cs)"
  shows "cells c' = (cells c)(target_seq := seg 0 (cs @ drop r body), temporary_seq := Map.empty)"
proof -
  let ?start = "int (length lead)"
  let ?tail = "\<lambda>i. if i < ?start + int r then None else seg 0 (lead @ body) i"
  have start: "(if has_prefix then int plen else 0) = ?start" using blob(2) by simp
  obtain c1 c2 c3 where c1: "restore api blob temporary_seq c = yields c1"
    and c2: "(if 0 < int r then remove_range api ''could not remove recomputed cached head'' ?start (?start + int r) c1 else yields c1) = yields c2"
    and c3: "(if has_prefix then remove_range api ''could not remove prefix from imported chunk blob'' 0 (int plen) c2 else yields c2) = yields c3"
    and c': "remove_sequence api temporary_seq
       (if ?start + int r < ?start + blob_tokens blob
        then api_seq_cp api temporary_seq target_seq (-1) (-1)
               (api_seq_add api temporary_seq (?start + int r) (-1) (pos + int r - (?start + int r)) c3)
        else c3) = yields c'"
    using run unfolding attach_tail_def Let_def start proceed_yields by blast
  note r1 = restored_cells [OF laws c1 seq_nonneg(3)]
  have r2: "cells c2 = (cells c)(temporary_seq := (\<lambda>i. if ?start \<le> i \<and> i < ?start + int r then None else seg 0 (lead @ body) i)) \<and>
      \<not> aliased c2 temporary_seq"
  proof (cases "r = 0")
    case True
    have "(\<lambda>i. if ?start \<le> i \<and> i < ?start + int r then None else seg 0 (lead @ body) i) = seg 0 (lead @ body)"
      using True by (intro ext) auto
    then show ?thesis using True c2 r1 by (simp add: blob(1))
  next
    case False
    have row: "cells c1 temporary_seq = seg 0 (lead @ body)" using r1 by (simp add: blob(1))
    show ?thesis using False c2 r1 removed_range [OF laws, of _ ?start "?start + int r" c1 c2] unfolding row by simp
  qed
  have cut: "(\<lambda>i. if 0 \<le> i \<and> i < ?start then None else if ?start \<le> i \<and> i < ?start + int r then None else seg 0 (lead @ body) i) = ?tail"
    "lead = [] \<Longrightarrow> (\<lambda>i. if ?start \<le> i \<and> i < ?start + int r then None else seg 0 (lead @ body) i) = ?tail"
    by (auto simp: fun_eq_iff seg_def)
  have r3: "cells c3 = (cells c)(temporary_seq := ?tail) \<and> \<not> aliased c3 temporary_seq"
  proof (cases has_prefix)
    case True
    have row: "cells c2 temporary_seq = (\<lambda>i. if ?start \<le> i \<and> i < ?start + int r then None else seg 0 (lead @ body) i)"
      using r2 by simp
    have "plen = length lead" using True blob(2) by simp
    then show ?thesis using True c3 r2 removed_range [OF laws, of _ 0 "int plen" c2 c3] unfolding row cut(1) [symmetric] by auto
  next
    case False
    then show ?thesis using c3 r2 blob(2) cut(2) by auto
  qed
  have tail: "?tail = seg (?start + int r) (drop r body)"
    using seg_tail [of "length lead + r" "lead @ body" 0] blob(4) by simp
  note all = r3 [unfolded tail]
  show ?thesis
  proof (cases "r < length body")
    case True
    let ?d = "pos + int r - (?start + int r)"
    define c4 where "c4 = api_seq_add api temporary_seq (?start + int r) (-1) ?d c3"
    have fin: "remove_sequence api temporary_seq (api_seq_cp api temporary_seq target_seq (-1) (-1) c4) = yields c'"
      using c' True blob(3) unfolding c4_def by simp
    have in_range: "?start + int r \<le> i \<and> 0 \<le> i + ?d" if "cells c3 temporary_seq i \<noteq> None" for i
      using that seg_above [of "?start + int r" "drop r body" i] target(2) all by simp
    have "cells c4 = (cells c3)(temporary_seq := (\<lambda>i. cells c3 temporary_seq (i - ?d)))"
      unfolding c4_def by (rule add_cells [OF laws]) (use all in_range in auto)
    then have c4: "cells c4 = (cells c)(temporary_seq := seg (int (length cs)) (drop r body))"
      using all target(2) by (simp add: seg_shift)
    have apart: "cells c4 temporary_seq i = None \<or> cells c4 target_seq i = None" for i
      using seg_apart [of 0 cs i "drop r body"] target(1) by (auto simp: c4 temporary_seq_def target_seq_def)
    have "temporary_seq \<noteq> target_seq" by (simp add: temporary_seq_def target_seq_def)
    from cp_cells [OF laws this apart] removed_cells [OF laws fin seq_nonneg(3)]
    show ?thesis using seg_append [of 0 cs "drop r body"] \<open>temporary_seq \<noteq> target_seq\<close>
      by (simp add: c4 target(1) fun_eq_iff)
  next
    case False
    then show ?thesis using removed_cells [OF laws c' seq_nonneg(3)] all blob(3,4) target(1) by (auto simp: fun_upd_idem temporary_seq_def target_seq_def)
  qed
qed

end
