(* ===== verification/RF_SpikeAssembly.thy ===== *)
theory RF_SpikeAssembly
  imports RF_SpikeLayout
begin

text \<open>
  How the experiment puts a prompt together: the cells that a variant is meant to have, and that
  the loop over the chunks, with its buffer of tokens to recompute, lays out exactly those.
\<close>

section \<open>The plan of a variant\<close>

text \<open>A chunk as it is cached: computed alone, or behind the prefix.\<close>

definition chunk_cells :: "variant_spec \<Rightarrow> token list \<Rightarrow> token list \<Rightarrow> chunk_cell list" where
  "chunk_cells spec pre chunk = computed_behind (if vs_prefixed spec then pre else []) chunk"

text \<open>
  The chunks from number \<open>i\<close> on, behind the tokens \<open>hist\<close>: of each chunk the head is computed in
  its place, behind everything before it, and the rest is the cached one.
\<close>

fun planned_cells ::
  "variant_spec \<Rightarrow> bool list \<Rightarrow> token list \<Rightarrow> token list \<Rightarrow> nat \<Rightarrow> token list list \<Rightarrow> chunk_cell list" where
  "planned_cells spec selected pre hist i [] = []"
| "planned_cells spec selected pre hist i (chunk # chunks) =
     (let r = nat (recomputed_head spec (selected ! i) i (length chunk)) in
      computed_behind hist (take r chunk) @ drop r (chunk_cells spec pre chunk) @
      planned_cells spec selected pre (hist @ chunk) (Suc i) chunks)"

fun recomputed_total :: "variant_spec \<Rightarrow> bool list \<Rightarrow> nat \<Rightarrow> token list list \<Rightarrow> int" where
  "recomputed_total spec selected i [] = 0"
| "recomputed_total spec selected i (chunk # chunks) =
     recomputed_head spec (selected ! i) i (length chunk) + recomputed_total spec selected (Suc i) chunks"

definition good_blob :: "('b list \<Rightarrow> cell_row) \<Rightarrow> variant_spec \<Rightarrow> token list \<Rightarrow> 'b blob \<Rightarrow> token list \<Rightarrow> bool" where
  "good_blob stored spec pre blob chunk \<longleftrightarrow>
     stored (blob_data blob) = seg 0 ((if vs_prefixed spec then computed_behind [] pre else []) @ chunk_cells spec pre chunk) \<and>
     blob_tokens blob = int (length chunk)"

lemma chunk_cells_simps [simp]:
  "length (chunk_cells spec pre chunk) = length chunk" "map fst (chunk_cells spec pre chunk) = chunk"
  by (simp_all add: chunk_cells_def)

lemma head_bounds:
  assumes "0 \<le> vs_head spec"
  shows "0 \<le> recomputed_head spec b i n \<and> recomputed_head spec b i n \<le> int n"
  using assms by (simp add: recomputed_head_def)

lemma planned_tokens: "map fst (planned_cells spec selected pre hist i chunks) = concat chunks"
proof (induction chunks arbitrary: hist i)
  case (Cons chunk chunks)
  have "take r chunk @ map fst (drop r (chunk_cells spec pre chunk)) = chunk" for r
    by (simp flip: drop_map)
  then show ?case by (simp add: Let_def Cons.IH flip: append_assoc)
qed simp

lemma planned_length: "length (planned_cells spec selected pre hist i chunks) = length (concat chunks)"
  by (metis length_map planned_tokens)

text \<open>A variant that recomputes everything is the prompt computed in one go.\<close>

lemma planned_all:
  assumes "vs_full spec \<or> vs_all spec"
  shows "planned_cells spec selected pre hist i chunks = computed_behind hist (concat chunks)"
proof (induction chunks arbitrary: hist i)
  case (Cons chunk chunks)
  have "recomputed_head spec (selected ! i) i (length chunk) = int (length chunk)" using assms by (auto simp: recomputed_head_def)
  then show ?case by (simp add: Cons.IH computed_behind_append)
qed simp

lemma total_bounds:
  assumes "0 \<le> vs_head spec"
  shows "0 \<le> recomputed_total spec selected i chunks \<and> recomputed_total spec selected i chunks \<le> int (length (concat chunks))"
proof (induction chunks arbitrary: i)
  case (Cons chunk chunks)
  show ?case using head_bounds [OF assms, of "selected ! i" i "length chunk"] Cons.IH [of "Suc i"] by simp
qed simp

section \<open>The loop\<close>

text \<open>
  The cells laid out so far, with those that the pending tokens will get. Only the target changes:
  the temporary sequence, into which a cached chunk is imported, is empty again after each chunk.
\<close>

definition laid_out :: "'c cell_view \<Rightarrow> 'c \<Rightarrow> 'c assembly \<Rightarrow> chunk_cell list \<Rightarrow> bool" where
  "laid_out cells c0 st plan \<longleftrightarrow> (\<exists>cs.
     (\<forall>q. q \<noteq> target_seq \<longrightarrow> cells (as_ctx st) q = cells c0 q) \<and>
     cells (as_ctx st) target_seq = seg 0 cs \<and> plan = cs @ computed_behind (map fst cs) (pending st) \<and>
     (pending st \<noteq> [] \<longrightarrow> pending_at st = int (length cs)))"

lemma enqueue_laid:
  assumes "laid_out cells c0 st plan" "p = int (length plan)"
  shows "laid_out cells c0 (enqueue_tokens toks p st) (plan @ computed_behind (map fst plan) toks)"
proof -
  obtain cs where "\<forall>q. q \<noteq> target_seq \<longrightarrow> cells (as_ctx st) q = cells c0 q"
    "cells (as_ctx st) target_seq = seg 0 cs" "plan = cs @ computed_behind (map fst cs) (pending st)"
    "pending st \<noteq> [] \<longrightarrow> pending_at st = int (length cs)" using assms(1) unfolding laid_out_def by blast
  then show ?thesis using assms(2) by (auto simp: laid_out_def enqueue_tokens_def computed_behind_append intro!: exI [of _ cs])
qed

lemma decoded_laid:
  assumes laws: "memory_laws api cells aliased stored"
    and run: "spike_decode api (pending st) target_seq (pending_at st) (as_ctx st) = yields c"
    and laid: "laid_out cells c0 st plan"
  shows "laid_out cells c0 (st\<lparr>as_ctx := c, pending := [], decode_calls := n\<rparr>) plan"
proof -
  obtain cs where cs: "\<forall>q. q \<noteq> target_seq \<longrightarrow> cells (as_ctx st) q = cells c0 q"
    "cells (as_ctx st) target_seq = seg 0 cs" "plan = cs @ computed_behind (map fst cs) (pending st)"
    "pending st \<noteq> [] \<longrightarrow> pending_at st = int (length cs)" using laid unfolding laid_out_def by blast
  have "cells c = (cells (as_ctx st))(target_seq := seg 0 plan)"
    using decode_cells [OF laws run cs(2)] cs(3,4) by simp
  then show ?thesis using cs(1) by (auto simp: laid_out_def)
qed

lemma flush_laid:
  assumes "memory_laws api cells aliased stored" "flush api st = yields st'" "laid_out cells c0 st plan"
  shows "laid_out cells c0 st' plan \<and> pending st' = [] \<and> position st' = position st \<and> computed st' = computed st"
proof (cases "pending st = []")
  case False
  then obtain c where c: "spike_decode api (pending st) target_seq (pending_at st) (as_ctx st) = yields c"
    "st' = st\<lparr>as_ctx := c, decode_calls := decode_calls st + 1, pending := []\<rparr>"
    using assms(2) by (auto simp: flush_def proceed_yields)
  have "st' = st\<lparr>as_ctx := c, pending := [], decode_calls := decode_calls st + 1\<rparr>" using c(2) by simp
  then show ?thesis using decoded_laid [OF assms(1) c(1) assms(3), of "decode_calls st + 1"] by simp
qed (use assms in \<open>simp add: flush_def\<close>)

lemma attach_laid:
  assumes laws: "memory_laws api cells aliased stored"
    and run: "attach_tail api blob (vs_prefixed spec) (int (length pre)) (int r) p (as_ctx st) = yields c"
    and blob: "good_blob stored spec pre blob chunk" "r \<le> length chunk"
    and laid: "laid_out cells c0 st plan" "pending st = []" "p + int r = int (length plan)" and empty: "cells c0 temporary_seq = Map.empty"
  shows "laid_out cells c0 (st\<lparr>as_ctx := c\<rparr>) (plan @ drop r (chunk_cells spec pre chunk))"
proof -
  have cs: "\<forall>q. q \<noteq> target_seq \<longrightarrow> cells (as_ctx st) q = cells c0 q"
    "cells (as_ctx st) target_seq = seg 0 plan" using laid(1,2) by (auto simp: laid_out_def)
  have "cells c = (cells (as_ctx st))(target_seq := seg 0 (plan @ drop r (chunk_cells spec pre chunk)), temporary_seq := Map.empty)"
    by (rule attach_tail_cells [OF laws run _ _ _ _ cs(2) laid(3)]) (use blob in \<open>auto simp: good_blob_def\<close>)
  then show ?thesis using cs(1) laid(2) empty by (auto simp: laid_out_def target_seq_def temporary_seq_def)
qed

lemma place_chunk_laid:
  assumes laws: "memory_laws api cells aliased stored" and head: "0 \<le> vs_head spec"
    and run: "place_chunk api spec selected blobs (int (length pre)) i chunk st = yields st'"
    and blob: "good_blob stored spec pre (blobs ! i) chunk"
    and laid: "laid_out cells c0 st plan" "position st = int (length plan)" and empty: "cells c0 temporary_seq = Map.empty"
  shows "laid_out cells c0 st' (plan @ planned_cells spec selected pre (map fst plan) i [chunk]) \<and>
    position st' = position st + int (length chunk) \<and> computed st' = computed st + recomputed_head spec (selected ! i) i (length chunk)"
proof -
  let ?r = "recomputed_head spec (selected ! i) i (length chunk)"
  define r where "r = nat ?r"
  have r: "?r = int r" "r \<le> length chunk" using head_bounds [OF head, of "selected ! i" i "length chunk"] by (auto simp: r_def)
  define st1 where "st1 = (if ?r > 0 then (enqueue_tokens (take (nat ?r) chunk) (position st) st)\<lparr>computed := computed st + ?r\<rparr> else st)"
  have st1: "laid_out cells c0 st1 (plan @ computed_behind (map fst plan) (take r chunk)) \<and> computed st1 = computed st + ?r"
    using enqueue_laid [OF laid, of "take r chunk"] laid(1) r by (auto simp: st1_def laid_out_def enqueue_tokens_def)
  obtain st3 where st3: "(if ?r < int (length chunk) then proceed (flush api st1) (\<lambda>st2.
         if length blobs \<le> i then None
         else proceed (attach_tail api (blobs ! i) (vs_prefixed spec) (int (length pre)) ?r (position st) (as_ctx st2))
           (\<lambda>c. yields (st2\<lparr>as_ctx := c\<rparr>))) else yields st1) = yields st3"
    "st' = st3\<lparr>position := position st + int (length chunk)\<rparr>"
    using run unfolding place_chunk_def Let_def st1_def [symmetric] by (auto simp: proceed_yields split: if_split_asm)
  have "laid_out cells c0 st3 (plan @ planned_cells spec selected pre (map fst plan) i [chunk]) \<and> computed st3 = computed st + ?r"
  proof (cases "?r < int (length chunk)")
    case True
    then obtain st2 c where st2: "flush api st1 = yields st2" "st3 = st2\<lparr>as_ctx := c\<rparr>"
      "attach_tail api (blobs ! i) (vs_prefixed spec) (int (length pre)) (int r) (position st) (as_ctx st2) = yields c"
      using st3(1) r(1) by (auto simp: proceed_yields split: if_split_asm)
    have f: "laid_out cells c0 st2 (plan @ computed_behind (map fst plan) (take r chunk)) \<and> pending st2 = [] \<and> computed st2 = computed st + ?r"
      using flush_laid [OF laws st2(1)] st1 by auto
    have "position st + int r = int (length (plan @ computed_behind (map fst plan) (take r chunk)))"
      using laid(2) r(2) by simp
    from attach_laid [OF laws st2(3) blob r(2) _ _ this empty] f st2(2) show ?thesis by (simp add: r(1))
  next
    case False
    then have "r = length chunk" "st3 = st1" using r st3(1) by auto
    then show ?thesis using st1 r(1) by simp
  qed
  then show ?thesis using st3(2) by (simp add: laid_out_def)
qed

lemma planned_cells_snoc: "planned_cells spec selected pre hist i (chunk # chunks) =
    planned_cells spec selected pre hist i [chunk] @ planned_cells spec selected pre (hist @ chunk) (Suc i) chunks"
  by (simp add: Let_def)

lemma assemble_laid:
  assumes "memory_laws api cells aliased stored" "0 \<le> vs_head spec" "cells c0 temporary_seq = Map.empty"
  shows "assemble api spec selected blobs (int (length pre)) i chunks st = yields st' \<Longrightarrow>
    list_all2 (good_blob stored spec pre) (drop i blobs) chunks \<Longrightarrow>
    laid_out cells c0 st plan \<Longrightarrow> position st = int (length plan) \<Longrightarrow>
    laid_out cells c0 st' (plan @ planned_cells spec selected pre (map fst plan) i chunks) \<and>
    position st' = position st + int (length (concat chunks)) \<and> computed st' = computed st + recomputed_total spec selected i chunks"
proof (induction chunks arbitrary: i st plan)
  case (Cons chunk chunks)
  obtain st1 where st1: "place_chunk api spec selected blobs (int (length pre)) i chunk st = yields st1"
    "assemble api spec selected blobs (int (length pre)) (Suc i) chunks st1 = yields st'"
    using Cons.prems(1) by (auto simp: proceed_yields)
  obtain b bs where b: "drop i blobs = b # bs" "good_blob stored spec pre b chunk" "list_all2 (good_blob stored spec pre) bs chunks"
    using Cons.prems(2) by (auto simp: list_all2_Cons2)
  have blob: "good_blob stored spec pre (blobs ! i) chunk" "list_all2 (good_blob stored spec pre) (drop (Suc i) blobs) chunks"
    using b by (metis nth_via_drop) (metis b(1,3) drop_Suc list.sel(3) tl_drop)
  note one = place_chunk_laid [OF assms(1,2) st1(1) blob(1) Cons.prems(3,4) assms(3)]
  let ?plan = "plan @ planned_cells spec selected pre (map fst plan) i [chunk]"
  have "position st1 = int (length ?plan)" using one Cons.prems(4) by (simp add: planned_length del: planned_cells.simps)
  moreover have "map fst ?plan = map fst plan @ chunk" using planned_tokens [of spec selected pre "map fst plan" i "[chunk]"] by simp
  ultimately show ?case using Cons.IH [OF st1(2) blob(2), of ?plan] one
    by (simp add: planned_cells_snoc [of spec selected pre "map fst plan" i chunk chunks] del: planned_cells.simps)
qed simp

end
