(* ===== verification/RF_SpikeDemo.thy ===== *)
theory RF_SpikeDemo
  imports RF_SpikeLayout
begin

text \<open>
  A small memory that satisfies the laws: each sequence is a list of cells with their positions, a
  serialized state is that list, and a decode looks at most 64 positions back and fails beyond that.
\<close>

type_synonym demo_row = "(int \<times> chunk_cell) list"
type_synonym demo_memory = "(seq_id \<Rightarrow> demo_row) \<times> rat list option"

definition demo_cells :: "demo_memory \<Rightarrow> seq_id \<Rightarrow> cell_row" where
  "demo_cells c s = map_of (fst c s)"

definition demo_stored :: "demo_row list \<Rightarrow> cell_row" where
  "demo_stored data = map_of (hd data)"

fun tokens_before :: "cell_row \<Rightarrow> int \<Rightarrow> nat \<Rightarrow> token list option" where
  "tokens_before row pos 0 = None"
| "tokens_before row pos (Suc n) =
     (case row (pos - 1) of None \<Rightarrow> Some [] | Some (t, _) \<Rightarrow> map_option (\<lambda>ts. ts @ [t]) (tokens_before row (pos - 1) n))"

definition demo_decode :: "(cell_row \<Rightarrow> rat list) \<Rightarrow> batch_entry list \<Rightarrow> demo_memory \<Rightarrow> int \<times> demo_memory" where
  "demo_decode lm batch c =
     (case batch of
        [] \<Rightarrow> (0, c)
      | b # _ \<Rightarrow>
          (case tokens_before (map_of (fst c (b_seq b))) (b_pos b) 64 of
             None \<Rightarrow> (1, c)
           | Some hist \<Rightarrow>
               let row = zip (map b_pos batch) (computed_behind hist (map b_token batch)) @ fst c (b_seq b) in
               (0, (fst c)(b_seq b := row), Some (lm (map_of row)))))"

definition demo_api :: "(cell_row \<Rightarrow> rat list) \<Rightarrow> (demo_memory, demo_row) llama_api" where
  "demo_api lm = \<lparr>
     api_tokenize = (\<lambda>s cap _. if cap < length s then (- int (length s), []) else (int (length s), map of_char s)),
     api_detokenize = (\<lambda>ts _. (int (length ts), replicate (length ts) (CHR ''x''))),
     api_decode = demo_decode lm, api_logits = snd,
     api_seq_rm = (\<lambda>s p0 p1 c. (True, (fst c)(s := [e \<leftarrow> fst c s. \<not> ((p0 < 0 \<or> p0 \<le> fst e) \<and> (p1 < 0 \<or> fst e < p1))]), snd c)),
     api_seq_cp = (\<lambda>src dst _ _ c. ((fst c)(dst := fst c src @ fst c dst), snd c)),
     api_seq_add = (\<lambda>s p0 p1 d c. ((fst c)(s := map (\<lambda>e. (fst e + d, snd e)) (fst c s)), snd c)),
     api_state_size = (\<lambda>_ _. 1), api_state_get = (\<lambda>s _ c. [fst c s]),
     api_state_set = (\<lambda>data s c. (length data, (fst c)(s := hd data), snd c)),
     api_is_eog = (\<lambda>t. t = 0)\<rparr>"

abbreviation unaliased :: "demo_memory \<Rightarrow> seq_id \<Rightarrow> bool" where
  "unaliased \<equiv> \<lambda>_ _. False"

lemma tokens_before_seg:
  "tokens_before (seg p cs) (p + int k) n = Some ts \<Longrightarrow> k \<le> length cs \<Longrightarrow> ts = map fst (take k cs)"
proof (induction n arbitrary: k ts)
  case (Suc n)
  show ?case
  proof (cases k)
    case 0 then show ?thesis using Suc.prems by (simp add: seg_def)
  next
    case (Suc m)
    then have at: "seg p cs (p + int k - 1) = Some (cs ! m)" using Suc.prems(2) by (simp add: seg_def)
    then obtain us where "tokens_before (seg p cs) (p + int m) n = Some us" "ts = us @ [fst (cs ! m)]"
      using Suc.prems(1) Suc by (auto split: prod.splits simp: add.commute)
    then show ?thesis using Suc.IH [of m us] Suc.prems(2) Suc by (simp add: take_Suc_conv_app_nth)
  qed
qed simp

lemma extended_seg: "map_of (zip (map (\<lambda>i. p + int (length cs) + int i) [0..<length ds]) ds @ row) = seg p (cs @ ds)"
  if "map_of row = seg p cs"
proof (rule ext)
  fix i
  let ?ps = "map (\<lambda>i. p + int (length cs) + int i) [0..<length ds]"
  have d: "distinct ?ps" by (simp add: distinct_map inj_on_def)
  show "map_of (zip ?ps ds @ row) i = seg p (cs @ ds) i"
  proof (cases "p + int (length cs) \<le> i \<and> i < p + int (length cs) + int (length ds)")
    case True
    define k where "k = nat (i - p - int (length cs))"
    have k: "k < length ds" "i = ?ps ! k" using True by (auto simp: k_def)
    have "map_of (zip ?ps ds) i = Some (ds ! k)" using map_of_zip_nth [of ?ps ds k] d k by simp
    moreover have "int k = i - p - int (length cs)" using True by (simp add: k_def)
    then have "nat (i - p) = length cs + k" by linarith
    ultimately show ?thesis using True by (auto simp: map_add_def seg_def nth_append)
  next
    case False
    then have none: "map_of (zip ?ps ds) i = None" by (auto simp: map_of_eq_None_iff dest!: set_zip_leftD)
    have "seg p (cs @ ds) i = seg p cs i" using False by (auto simp: seg_def nth_append)
    then show ?thesis unfolding map_of_append map_add_def none that by simp
  qed
qed

lemma spike_batch_Cons: "toks \<noteq> [] \<Longrightarrow> \<exists>b bs. spike_batch toks s pos = b # bs \<and> b_seq b = s \<and> b_pos b = pos"
  by (cases toks) (simp_all add: spike_batch_def upt_conv_Cons del: upt_Suc)

lemma spike_batch_lists: "map b_token (spike_batch toks s pos) = toks" "map b_pos (spike_batch toks s pos) = map (\<lambda>i. pos + int i) [0..<length toks]"
  by (simp_all add: spike_batch_def o_def map_nth)

lemma demo_decoded:
  assumes "demo_decode lm (spike_batch toks s pos) c = (0, c')" "toks \<noteq> []"
  obtains hist row where "tokens_before (demo_cells c s) pos 64 = Some hist" "c' = ((fst c)(s := row), Some (lm (map_of row)))"
    "row = zip (map (\<lambda>i. pos + int i) [0..<length toks]) (computed_behind hist toks) @ fst c s"
proof -
  obtain b bs where b: "spike_batch toks s pos = b # bs" "b_seq b = s" "b_pos b = pos" using spike_batch_Cons [OF assms(2)] by blast
  note lists = spike_batch_lists [of toks s pos, unfolded b(1)]
  show thesis using assms(1) that unfolding demo_decode_def b(1) list.case b(2,3) lists
    by (auto simp: demo_cells_def Let_def split: option.splits)
qed

lemma map_of_kept: "map_of [e \<leftarrow> row. \<not> P (fst e)] = (\<lambda>i. if P i then None else map_of row i)"
  by (induction row) (auto simp: fun_eq_iff)

lemma map_of_shifted: "map_of (map (\<lambda>e. (fst e + d, snd e)) row) = (\<lambda>i::int. map_of row (i - d))"
  by (induction row) (auto simp: fun_eq_iff)

lemma demo_cells_upd: "demo_cells ((fst c)(s := row), x) = (demo_cells c)(s := map_of row)"
  by (auto simp: demo_cells_def fun_eq_iff)

lemma demo_laws: "memory_laws (demo_api lm) demo_cells unaliased demo_stored"
proof -
  have "append_law (demo_api lm) demo_cells"
    unfolding append_law_def
  proof (intro allI impI)
    fix toks s pos p cs c c'
    assume "api_decode (demo_api lm) (spike_batch toks s pos) c = (0, c')" "toks \<noteq> []"
      and row: "demo_cells c s = seg p cs" "pos = p + int (length cs)"
    then obtain hist row' where h: "tokens_before (demo_cells c s) pos 64 = Some hist" "c' = ((fst c)(s := row'), Some (lm (map_of row')))"
      "row' = zip (map (\<lambda>i. pos + int i) [0..<length toks]) (computed_behind hist toks) @ fst c s"
      by (auto simp: demo_api_def elim: demo_decoded)
    have "hist = map fst cs" using tokens_before_seg [of p cs "length cs" 64 hist] h(1) row by simp
    moreover have "map_of row' = seg p (cs @ computed_behind hist toks)"
      using extended_seg [of "fst c s" p cs "computed_behind hist toks"] row by (simp add: h(3) demo_cells_def)
    ultimately show "demo_cells c' = (demo_cells c)(s := seg p (cs @ computed_behind (map fst cs) toks))"
      by (simp add: h(2) demo_cells_upd)
  qed
  moreover have "remove_law (demo_api lm) demo_cells unaliased"
    unfolding remove_law_def
  proof (intro allI impI)
    fix s and p0 p1 :: int and c c'
    let ?P = "\<lambda>i. (p0 < 0 \<or> p0 \<le> i) \<and> (p1 < 0 \<or> i < p1)"
    assume "api_seq_rm (demo_api lm) s p0 p1 c = (True, c')"
    then have c': "c' = ((fst c)(s := [e \<leftarrow> fst c s. \<not> ?P (fst e)]), snd c)" by (simp add: demo_api_def)
    show "demo_cells c' = (demo_cells c)(s := (\<lambda>i. if ?P i then None else demo_cells c s i)) \<and> (\<forall>q. unaliased c' q \<longrightarrow> unaliased c q)"
      unfolding c' demo_cells_upd map_of_kept [of ?P] demo_cells_def [of c s] by simp
  qed
  moreover have "shift_law (demo_api lm) demo_cells unaliased"
    by (auto simp: shift_law_def demo_api_def demo_cells_upd map_of_shifted) (simp add: demo_cells_def)
  moreover have "copy_law (demo_api lm) demo_cells"
    by (auto simp: copy_law_def demo_api_def demo_cells_upd) (simp add: demo_cells_def)
  moreover have "save_law (demo_api lm) demo_cells demo_stored" "load_law (demo_api lm) demo_cells unaliased demo_stored"
    by (auto simp: save_law_def load_law_def demo_api_def demo_cells_upd demo_stored_def demo_cells_def)
  ultimately show ?thesis by (simp add: memory_laws_def)
qed

end
