(* ===== verification/RF_SpikePrompt.thy ===== *)
theory RF_SpikePrompt
  imports RF_SpikeAssembly RF_SpikeDemo
begin

text \<open>
  The prompts of the experiment: the cached chunks are what they should be, each variant lays out
  its plan, and the variant that recomputes everything equals the reference.
\<close>

section \<open>Nothing is undefined\<close>

definition defined :: "'a option \<Rightarrow> bool" where
  "defined m \<longleftrightarrow> m \<noteq> None"

lemma defined_simps [simp]: "defined (Some x)" "\<not> defined None"
  by (simp_all add: defined_def)

lemma defined_proceed: "defined (proceed m f) \<longleftrightarrow> defined m \<and> (\<forall>x. m = yields x \<longrightarrow> defined (f x))"
  by (auto simp: defined_def proceed_def split: option.split sum.split)

lemma operations_defined [simp]:
  "defined (spike_decode api toks s pos c)" "defined (remove_sequence api s c)" "defined (snapshot api s n c)"
  "defined (remove_range api message p0 p1 c)" "defined (current_logits api c)"
  by (simp_all add: spike_decode_def remove_sequence_def snapshot_def remove_range_def current_logits_def Let_def
      split: prod.split option.split)

lemma steps_defined [simp]:
  "defined (restore api b s c)" "defined (attach_tail api b hp n r p c)" "defined (flush api st)"
  by (simp_all add: restore_def attach_tail_def flush_def defined_proceed Let_def split: prod.split)

lemma assemble_defined:
  "i + length chunks \<le> length selected \<Longrightarrow> i + length chunks \<le> length blobs \<Longrightarrow>
   defined (assemble api spec selected blobs n i chunks st)"
proof (induction chunks arbitrary: i st)
  case (Cons chunk chunks)
  have "defined (place_chunk api spec selected blobs n i chunk st)"
    using Cons.prems by (simp add: place_chunk_def defined_proceed Let_def)
  then show ?case using Cons by (simp add: defined_proceed)
qed simp

lemma compose_defined:
  assumes "length chunks \<le> length selected" "length chunks \<le> length blobs"
  shows "defined (compose_prompt api spec selected blobs pre chunks ending c)"
  using assms by (simp add: compose_prompt_def decode_ending_def defined_proceed Let_def assemble_defined)

section \<open>The cached chunks\<close>

lemma fun_upd_same_empty: "f s = Map.empty \<Longrightarrow> g = f(s := x) \<Longrightarrow> g(s := Map.empty) = f"
  by (simp add: fun_upd_idem)

lemma precompute_chunk_good:
  assumes laws: "memory_laws api cells aliased stored"
    and pre: "cells c prefix_seq = seg 0 (computed_behind [] pre)" and empty: "cells c scratch_seq = Map.empty"
    and run: "precompute_chunk api pre chunk c = yields (naive, prefixed, c')"
  shows "stored (blob_data naive) = seg 0 (computed_behind [] chunk) \<and> blob_tokens naive = int (length chunk) \<and>
    stored (blob_data prefixed) = seg 0 (computed_behind [] (pre @ chunk)) \<and> blob_tokens prefixed = int (length chunk) \<and>
    cells c' = cells c"
proof -
  let ?cp = "api_seq_cp api prefix_seq scratch_seq (-1) (-1)"
  obtain c1 c2 c3 where c1: "spike_decode api chunk scratch_seq 0 c = yields c1"
      "snapshot api scratch_seq (int (length chunk)) c1 = yields naive"
    and c2: "remove_sequence api scratch_seq c1 = yields c2"
    and c3: "spike_decode api chunk scratch_seq (int (length pre)) (?cp c2) = yields c3"
      "snapshot api scratch_seq (int (length chunk)) c3 = yields prefixed"
    and c4: "remove_sequence api scratch_seq c3 = yields c'"
    using run unfolding precompute_chunk_def proceed_yields by blast
  have ne: "prefix_seq \<noteq> scratch_seq" by (simp add: prefix_seq_def scratch_seq_def)
  have d1: "cells c1 = (cells c)(scratch_seq := seg 0 (computed_behind [] chunk))"
    using decode_cells [OF laws c1(1), of 0 "[]"] empty by simp
  have d2: "cells c2 = cells c" using removed_cells [OF laws c2 seq_nonneg(4)] by (simp add: d1 fun_upd_idem empty)
  have "cells (?cp c2) = (cells c)(scratch_seq := seg 0 (computed_behind [] pre))"
    using cp_cells [OF laws ne, of c2] by (simp add: d2 empty pre)
  then have d3: "cells c3 = (cells c)(scratch_seq := seg 0 (computed_behind [] (pre @ chunk)))"
    using decode_cells [OF laws c3(1), of 0 "computed_behind [] pre"] by (simp add: computed_behind_append)
  have "cells c' = cells c" using removed_cells [OF laws c4 seq_nonneg(4)] by (simp add: d3 fun_upd_idem empty)
  then show ?thesis using get_cells [OF laws c1(2)] get_cells [OF laws c3(2)] by (simp add: d1 d3)
qed

lemma precompute_loop_good:
  assumes laws: "memory_laws api cells aliased stored"
  shows "precompute_loop api pre chunks c = yields (naives, prefixeds, c') \<Longrightarrow>
    cells c prefix_seq = seg 0 (computed_behind [] pre) \<Longrightarrow> cells c scratch_seq = Map.empty \<Longrightarrow>
    list_all2 (good_blob stored spec pre) (if vs_prefixed spec then prefixeds else naives) chunks \<and> cells c' = cells c"
proof (induction chunks arbitrary: c naives prefixeds)
  case (Cons chunk chunks)
  obtain n p c1 ns ps where one: "precompute_chunk api pre chunk c = yields (n, p, c1)"
    and rest: "precompute_loop api pre chunks c1 = yields (ns, ps, c')" "naives = n # ns" "prefixeds = p # ps"
    using Cons.prems(1) by (auto simp: proceed_yields)
  note g = precompute_chunk_good [OF laws Cons.prems(2,3) one]
  have "list_all2 (good_blob stored spec pre) (if vs_prefixed spec then ps else ns) chunks \<and> cells c' = cells c1"
    using Cons.IH [OF rest(1)] g Cons.prems(2,3) by simp
  moreover have "good_blob stored spec pre (if vs_prefixed spec then p else n) chunk"
    using g by (simp add: good_blob_def chunk_cells_def computed_behind_append)
  ultimately show ?case using g rest(2,3) by (simp split: if_splits)
qed simp

lemma precomputed:
  assumes "memory_laws api cells aliased stored" "precompute_chunks api ms pre chunks c = yields (cache, c')"
    and "cells c prefix_seq = seg 0 (computed_behind [] pre)" "cells c scratch_seq = Map.empty"
  shows "list_all2 (good_blob stored spec pre) (if vs_prefixed spec then ic_prefixed cache else ic_naive cache) chunks \<and> cells c' = cells c"
proof -
  obtain ns ps where "precompute_loop api pre chunks c = yields (ns, ps, c')" "ic_naive cache = ns" "ic_prefixed cache = ps"
    using assms(2) by (auto simp: precompute_chunks_def proceed_yields)
  with precompute_loop_good [OF assms(1) this(1) assms(3,4), of spec] show ?thesis by (auto split: if_splits)
qed

section \<open>The prompt\<close>

lemma composed:
  assumes laws: "memory_laws api cells aliased stored" and head: "0 \<le> vs_head spec"
    and pre: "cells c prefix_seq = seg 0 (computed_behind [] pre)" and empty: "cells c temporary_seq = Map.empty"
    and blobs: "list_all2 (good_blob stored spec pre) blobs chunks"
    and run: "compose_prompt api spec selected blobs pre chunks ending c = yields st"
  shows "cells (as_ctx st) target_seq =
      seg 0 (computed_behind [] pre @ planned_cells spec selected pre pre 0 chunks @ computed_behind (pre @ concat chunks) ending) \<and>
    (\<forall>q. q \<noteq> target_seq \<longrightarrow> cells (as_ctx st) q = cells c q) \<and>
    position st = int (length (pre @ concat chunks)) \<and>
    computed st = int (length ending) + recomputed_total spec selected 0 chunks"
proof -
  obtain c1 st1 c2 where c1: "remove_sequence api target_seq c = yields c1"
    and st1: "assemble api spec selected blobs (int (length pre)) 0 chunks
         \<lparr>as_ctx = api_seq_cp api prefix_seq target_seq (-1) (-1) c1, pending = [], pending_at = int (length pre),
          position = int (length pre), computed = int (length ending), decode_calls = 0\<rparr> = yields st1"
      (is "assemble _ _ _ _ _ _ _ ?st0 = _")
    and c2: "spike_decode api (pending (enqueue_tokens ending (position st1) st1)) target_seq
        (pending_at (enqueue_tokens ending (position st1) st1)) (as_ctx (enqueue_tokens ending (position st1) st1)) = yields c2"
    and st: "st = (enqueue_tokens ending (position st1) st1)\<lparr>as_ctx := c2, pending := [],
        decode_calls := decode_calls (enqueue_tokens ending (position st1) st1) + 1\<rparr>"
    using run by (auto simp: compose_prompt_def decode_ending_def proceed_yields Let_def)
  have ne: "prefix_seq \<noteq> target_seq" by (simp add: prefix_seq_def target_seq_def)
  have d1: "cells c1 = (cells c)(target_seq := Map.empty)" by (rule removed_cells [OF laws c1 seq_nonneg(2)])
  have "cells (api_seq_cp api prefix_seq target_seq (-1) (-1) c1) = (cells c)(target_seq := seg 0 (computed_behind [] pre))"
    using cp_cells [OF laws ne, of c1] ne by (simp add: d1 pre)
  then have "laid_out cells c ?st0 (computed_behind [] pre)" by (simp add: laid_out_def)
  from assemble_laid [OF laws head empty st1 _ this] blobs
  have a: "laid_out cells c st1 (computed_behind [] pre @ planned_cells spec selected pre pre 0 chunks) \<and>
      position st1 = int (length (pre @ concat chunks)) \<and> computed st1 = int (length ending) + recomputed_total spec selected 0 chunks"
    (is "laid_out _ _ _ ?plan \<and> _") by simp
  have "laid_out cells c (enqueue_tokens ending (position st1) st1) (?plan @ computed_behind (map fst ?plan) ending)"
    by (rule enqueue_laid) (use a in \<open>simp_all add: planned_length\<close>)
  from decoded_laid [OF laws c2 this] have "laid_out cells c st (?plan @ computed_behind (map fst ?plan) ending)" by (simp add: st)
  moreover have "pending st = []" "position st = position st1" "computed st = computed st1" by (simp_all add: st enqueue_tokens_def)
  ultimately show ?thesis using a by (simp add: laid_out_def planned_tokens)
qed

lemma variant_part_head: "variant_part variant part spec = Inr spec' \<Longrightarrow> 0 \<le> vs_head spec' \<and> 0 \<le> vs_top_k spec'"
  by (auto simp: variant_part_def Let_def split: sum.splits if_splits)

lemma variant_parts_head: "variant_parts variant rest spec = Inr spec' \<Longrightarrow> 0 \<le> vs_head spec \<Longrightarrow> 0 \<le> vs_head spec'"
  by (induction rest arbitrary: spec) (auto split: sum.splits dest: variant_part_head)

lemma parsed_head: "parse_variant variant = Inr spec \<Longrightarrow> 0 \<le> vs_head spec"
  by (auto simp: parse_variant_def no_variant_def split: if_splits list.splits dest!: variant_parts_head)

lemma selected_length: "length (it_gold item) = length (it_chunks item) \<Longrightarrow> length (selected_chunks item spec) = length (it_chunks item)"
proof -
  have f: "length (fold (\<lambda>i sel. sel[i := True]) is sel) = length sel" for "is" and sel :: "bool list"
    by (induction "is" arbitrary: sel) simp_all
  show "length (it_gold item) = length (it_chunks item) \<Longrightarrow> ?thesis" by (simp add: selected_chunks_def f Let_def)
qed

section \<open>Completion\<close>

text \<open>
  A memory in which nothing fails as long as a sequence has at most \<open>n\<close> cells: sequences can be
  removed, states are written and read in full, and a batch that fits is decoded.
\<close>

definition roomy :: "('c, 'b) llama_api \<Rightarrow> 'c cell_view \<Rightarrow> nat \<Rightarrow> bool" where
  "roomy api cells n \<longleftrightarrow>
     (\<forall>s p0 p1 c. fst (api_seq_rm api s p0 p1 c)) \<and>
     (\<forall>s c. api_state_size api s c \<noteq> 0 \<and> length (api_state_get api s (api_state_size api s c) c) = api_state_size api s c) \<and>
     (\<forall>data s c. fst (api_state_set api data s c) = length data) \<and>
     (\<forall>toks s p cs c. cells c s = seg p cs \<longrightarrow> length cs + length toks \<le> n \<longrightarrow>
        fst (api_decode api (spike_batch toks s (p + int (length cs))) c) = 0)"

lemma roomy_steps:
  assumes "roomy api cells n"
  shows "\<exists>c'. remove_sequence api s c = yields c'" "\<exists>c'. remove_range api message p0 p1 c = yields c'"
    "\<exists>b. snapshot api s m c = yields b" "\<exists>c'. restore api blob s c = yields c'"
proof -
  have rm: "fst (api_seq_rm api s p0 p1 c)" for s p0 p1 c using assms by (simp add: roomy_def)
  show r: "\<exists>c'. remove_sequence api s c = yields c'" for s c
    using rm [of s "-1" "-1" c] by (auto simp: remove_sequence_def split: prod.splits)
  show "\<exists>c'. remove_range api message p0 p1 c = yields c'"
    using rm [of temporary_seq p0 p1 c] by (auto simp: remove_range_def split: prod.splits)
  show "\<exists>b. snapshot api s m c = yields b" using assms by (simp add: snapshot_def roomy_def Let_def)
  obtain c1 where c1: "remove_sequence api s c = yields c1" using r by blast
  have "fst (api_state_set api (blob_data blob) s c1) = length (blob_data blob)" using assms by (simp add: roomy_def)
  then show "\<exists>c'. restore api blob s c = yields c'" by (auto simp: restore_def c1 split: prod.splits)
qed

lemma roomy_decode:
  assumes "roomy api cells n" "cells c s = seg p cs" "toks \<noteq> [] \<Longrightarrow> pos = p + int (length cs)" "length cs + length toks \<le> n"
  shows "\<exists>c'. spike_decode api toks s pos c = yields c'"
proof (cases "toks = []")
  case False
  then have "fst (api_decode api (spike_batch toks s pos) c) = 0" using assms by (simp add: roomy_def)
  then show ?thesis by (auto simp: spike_decode_def split: prod.splits)
qed (simp add: spike_decode_def)

lemma roomy_attach:
  assumes "roomy api cells n"
  shows "\<exists>c'. attach_tail api blob hp m r p c = yields c'"
proof -
  obtain c1 where c1: "restore api blob temporary_seq c = yields c1" using roomy_steps [OF assms] by blast
  obtain c2 where c2: "(if r > 0 then remove_range api ''could not remove recomputed cached head'' (if hp then m else 0) ((if hp then m else 0) + r) c1
      else yields c1) = yields c2" using roomy_steps(2) [OF assms] by (cases "r > 0") (simp, blast, simp)
  obtain c3 where c3: "(if hp then remove_range api ''could not remove prefix from imported chunk blob'' 0 m c2 else yields c2) = yields c3"
    using roomy_steps(2) [OF assms] by (cases hp) (simp, blast, simp)
  show ?thesis unfolding attach_tail_def Let_def c1 proceed_simps c2 c3 using roomy_steps(1) [OF assms] by blast
qed

lemma laid_decode:
  assumes "roomy api cells n" "laid_out cells c0 st plan" "length plan \<le> n"
  shows "\<exists>c. spike_decode api (pending st) target_seq (pending_at st) (as_ctx st) = yields c"
proof -
  obtain cs where "cells (as_ctx st) target_seq = seg 0 cs" "plan = cs @ computed_behind (map fst cs) (pending st)"
    "pending st \<noteq> [] \<longrightarrow> pending_at st = int (length cs)" using assms(2) unfolding laid_out_def by blast
  then show ?thesis using assms(3) by (intro roomy_decode [OF assms(1)]) auto
qed

lemma place_completes:
  assumes laws: "memory_laws api cells aliased stored" "roomy api cells n" and head: "0 \<le> vs_head spec"
    and "i < length selected" "i < length blobs"
    and laid: "laid_out cells c0 st plan" "position st = int (length plan)" "length plan + length chunk \<le> n"
  shows "\<exists>st'. place_chunk api spec selected blobs m i chunk st = yields st'"
proof -
  let ?r = "recomputed_head spec (selected ! i) i (length chunk)"
  define st1 where "st1 = (if ?r > 0 then (enqueue_tokens (take (nat ?r) chunk) (position st) st)\<lparr>computed := computed st + ?r\<rparr> else st)"
  have "laid_out cells c0 st1 (plan @ computed_behind (map fst plan) (take (nat ?r) chunk))"
    using enqueue_laid [OF laid(1,2), of "take (nat ?r) chunk"] laid(1) by (auto simp: st1_def laid_out_def enqueue_tokens_def)
  moreover have "length (plan @ computed_behind (map fst plan) (take (nat ?r) chunk)) \<le> n" using laid(3) by simp
  ultimately obtain c where "spike_decode api (pending st1) target_seq (pending_at st1) (as_ctx st1) = yields c"
    using laid_decode [OF laws(2)] by blast
  then obtain st2 where st2: "flush api st1 = yields st2" by (cases "pending st1 = []") (simp_all add: flush_def)
  obtain c3 where "attach_tail api (blobs ! i) (vs_prefixed spec) m ?r (position st) (as_ctx st2) = yields c3"
    using roomy_attach [OF laws(2)] by blast
  then show ?thesis using assms(4,5) st2 unfolding place_chunk_def Let_def st1_def [symmetric] by simp
qed

lemma assemble_completes:
  assumes laws: "memory_laws api cells aliased stored" "roomy api cells n" and head: "0 \<le> vs_head spec"
    and empty: "cells c0 temporary_seq = Map.empty"
  shows "i + length chunks \<le> length selected \<Longrightarrow> list_all2 (good_blob stored spec pre) (drop i blobs) chunks \<Longrightarrow>
    laid_out cells c0 st plan \<Longrightarrow> position st = int (length plan) \<Longrightarrow> length plan + length (concat chunks) \<le> n \<Longrightarrow>
    \<exists>st'. assemble api spec selected blobs (int (length pre)) i chunks st = yields st'"
proof (induction chunks arbitrary: i st plan)
  case (Cons chunk chunks)
  obtain b bs where b: "drop i blobs = b # bs" "good_blob stored spec pre b chunk" "list_all2 (good_blob stored spec pre) bs chunks"
    using Cons.prems(2) by (auto simp: list_all2_Cons2)
  have i: "i < length blobs" using b(1) by (metis drop_all list.distinct(1) not_le_imp_less)
  have blob: "good_blob stored spec pre (blobs ! i) chunk" "list_all2 (good_blob stored spec pre) (drop (Suc i) blobs) chunks"
    using b by (metis nth_via_drop) (metis b(1,3) drop_Suc list.sel(3) tl_drop)
  obtain st1 where st1: "place_chunk api spec selected blobs (int (length pre)) i chunk st = yields st1"
    using place_completes [OF laws head _ i Cons.prems(3,4), of selected chunk "int (length pre)"] Cons.prems(1,5) by auto
  note one = place_chunk_laid [OF laws(1) head st1 blob(1) Cons.prems(3,4) empty]
  let ?plan = "plan @ planned_cells spec selected pre (map fst plan) i [chunk]"
  have "position st1 = int (length ?plan)" "length ?plan + length (concat chunks) \<le> n" "Suc i + length chunks \<le> length selected"
    using one Cons.prems(1,4,5) by (simp_all add: planned_length del: planned_cells.simps)
  from Cons.IH [OF this(3) blob(2) _ this(1,2)] one st1 show ?case by simp
qed simp

lemma compose_completes:
  assumes laws: "memory_laws api cells aliased stored" "roomy api cells n" and head: "0 \<le> vs_head spec"
    and pre: "cells c prefix_seq = seg 0 (computed_behind [] pre)" and empty: "cells c temporary_seq = Map.empty"
    and blobs: "list_all2 (good_blob stored spec pre) blobs chunks" "length chunks \<le> length selected"
    and fits: "length (pre @ concat chunks @ ending) \<le> n"
  shows "\<exists>st. compose_prompt api spec selected blobs pre chunks ending c = yields st"
proof -
  obtain c1 where c1: "remove_sequence api target_seq c = yields c1" using roomy_steps(1) [OF laws(2)] by blast
  let ?st0 = "\<lparr>as_ctx = api_seq_cp api prefix_seq target_seq (-1) (-1) c1, pending = [], pending_at = int (length pre),
          position = int (length pre), computed = int (length ending), decode_calls = 0\<rparr>"
  have ne: "prefix_seq \<noteq> target_seq" by (simp add: prefix_seq_def target_seq_def)
  have d1: "cells c1 = (cells c)(target_seq := Map.empty)" by (rule removed_cells [OF laws(1) c1 seq_nonneg(2)])
  have "cells (api_seq_cp api prefix_seq target_seq (-1) (-1) c1) = (cells c)(target_seq := seg 0 (computed_behind [] pre))"
    using cp_cells [OF laws(1) ne, of c1] ne by (simp add: d1 pre)
  then have l0: "laid_out cells c ?st0 (computed_behind [] pre)" by (simp add: laid_out_def)
  obtain st1 where st1: "assemble api spec selected blobs (int (length pre)) 0 chunks ?st0 = yields st1"
    using assemble_completes [OF laws head empty _ _ l0, of 0 chunks selected pre blobs] blobs fits by auto
  from assemble_laid [OF laws(1) head empty st1 _ l0] blobs(1)
  have a: "laid_out cells c st1 (computed_behind [] pre @ planned_cells spec selected pre pre 0 chunks) \<and>
      position st1 = int (length (pre @ concat chunks))" (is "laid_out _ _ _ ?plan \<and> _") by simp
  have "laid_out cells c (enqueue_tokens ending (position st1) st1) (?plan @ computed_behind (map fst ?plan) ending)"
    by (rule enqueue_laid) (use a in \<open>simp_all add: planned_length\<close>)
  from laid_decode [OF laws(2) this] fits obtain c2 where
    "spike_decode api (pending (enqueue_tokens ending (position st1) st1)) target_seq
        (pending_at (enqueue_tokens ending (position st1) st1)) (as_ctx (enqueue_tokens ending (position st1) st1)) = yields c2"
    by (auto simp: planned_length simp del: length_concat)
  then show ?thesis by (simp add: compose_prompt_def decode_ending_def c1 st1 Let_def)
qed

lemma precompute_completes:
  assumes laws: "memory_laws api cells aliased stored" "roomy api cells n"
  shows "cells c prefix_seq = seg 0 (computed_behind [] pre) \<Longrightarrow> cells c scratch_seq = Map.empty \<Longrightarrow>
    length pre + length (concat chunks) \<le> n \<Longrightarrow> \<exists>ns ps c'. precompute_loop api pre chunks c = yields (ns, ps, c')"
proof (induction chunks arbitrary: c)
  case (Cons chunk chunks)
  let ?cp = "api_seq_cp api prefix_seq scratch_seq (-1) (-1)"
  have ne: "prefix_seq \<noteq> scratch_seq" by (simp add: prefix_seq_def scratch_seq_def)
  obtain c1 where c1: "spike_decode api chunk scratch_seq 0 c = yields c1"
    using roomy_decode [OF laws(2), of c scratch_seq 0 "[]" chunk 0] Cons.prems by auto
  obtain naive where naive: "snapshot api scratch_seq (int (length chunk)) c1 = yields naive" using roomy_steps(3) [OF laws(2)] by blast
  obtain c2 where c2: "remove_sequence api scratch_seq c1 = yields c2" using roomy_steps(1) [OF laws(2)] by blast
  have "cells c1 = (cells c)(scratch_seq := seg 0 (computed_behind [] chunk))"
    using decode_cells [OF laws(1) c1, of 0 "[]"] Cons.prems(2) by simp
  then have d2: "cells c2 = cells c" using removed_cells [OF laws(1) c2 seq_nonneg(4)] Cons.prems(2) by (simp add: fun_upd_idem)
  have d3: "cells (?cp c2) scratch_seq = seg 0 (computed_behind [] pre)"
    using cp_cells [OF laws(1) ne, of c2] Cons.prems(1,2) by (simp add: d2)
  obtain c3 where c3: "spike_decode api chunk scratch_seq (int (length pre)) (?cp c2) = yields c3"
    using roomy_decode [OF laws(2) d3, of chunk "int (length pre)"] Cons.prems(3) by auto
  obtain prefixed where prefixed: "snapshot api scratch_seq (int (length chunk)) c3 = yields prefixed" using roomy_steps(3) [OF laws(2)] by blast
  obtain c4 where c4: "remove_sequence api scratch_seq c3 = yields c4" using roomy_steps(1) [OF laws(2)] by blast
  have one: "precompute_chunk api pre chunk c = yields (naive, prefixed, c4)"
    by (simp add: precompute_chunk_def c1 naive c2 c3 prefixed c4)
  have "cells c4 = cells c" using precompute_chunk_good [OF laws(1) Cons.prems(1,2) one] by simp
  then show ?case using Cons.IH [of c4] Cons.prems one by auto
qed simp

definition prompt_plan :: "variant_spec \<Rightarrow> bool list \<Rightarrow> token list \<Rightarrow> token list list \<Rightarrow> token list \<Rightarrow> chunk_cell list" where
  "prompt_plan spec selected pre chunks ending =
     computed_behind [] pre @ planned_cells spec selected pre pre 0 chunks @ computed_behind (pre @ concat chunks) ending"

text \<open>
  C36. For every variant and every choice of chunks to recompute, the target sequence holds in the
  end exactly one cell per token of prefix, chunks and suffix, at its position: the recomputed
  tokens were computed behind all tokens before them, the others come from the cached chunk,
  computed alone or behind the prefix. The prefix and all other sequences are as before, also the
  temporary one into which the cached chunks are imported, which is empty before and after; and
  the count of computed tokens is exact. Nothing on the way is undefined, and nothing fails if the
  memory has room for the prompt.
\<close>

theorem prompt_assembled:
  assumes "memory_laws api cells aliased stored" "parse_variant variant = Inr spec"
    and "precompute_chunks api ms pre chunks c = yields (cache, c1)"
    and "cells c prefix_seq = seg 0 (computed_behind [] pre)" "cells c scratch_seq = Map.empty"
    and "cells c2 prefix_seq = cells c prefix_seq" "length selected = length chunks" "cells c2 temporary_seq = Map.empty"
  shows "\<exists>r. compose_prompt api spec selected (if vs_prefixed spec then ic_prefixed cache else ic_naive cache) pre chunks ending c2 = Some r \<and>
    (\<forall>n. roomy api cells n \<and> length (pre @ concat chunks @ ending) \<le> n \<longrightarrow> (\<exists>st. r = Inr st)) \<and>
    (\<forall>st. r = Inr st \<longrightarrow>
       cells (as_ctx st) target_seq = seg 0 (prompt_plan spec selected pre chunks ending) \<and>
       map fst (prompt_plan spec selected pre chunks ending) = pre @ concat chunks @ ending \<and>
       (\<forall>q. q \<noteq> target_seq \<longrightarrow> cells (as_ctx st) q = cells c2 q) \<and>
       position st = int (length (pre @ concat chunks)) \<and>
       computed st = int (length ending) + recomputed_total spec selected 0 chunks)"
proof -
  let ?blobs = "if vs_prefixed spec then ic_prefixed cache else ic_naive cache"
  have blobs: "list_all2 (good_blob stored spec pre) ?blobs chunks"
    using precomputed [OF assms(1,3,4,5), of spec] by simp
  then obtain r where r: "compose_prompt api spec selected ?blobs pre chunks ending c2 = Some r"
    using compose_defined [of chunks selected ?blobs] assms(7) list_all2_lengthD [OF blobs] by (fastforce simp: defined_def)
  have pre: "cells c2 prefix_seq = seg 0 (computed_behind [] pre)" using assms(4,6) by simp
  have "\<exists>st. r = Inr st" if "roomy api cells n" "length (pre @ concat chunks @ ending) \<le> n" for n
    using compose_completes [OF assms(1) that(1) parsed_head [OF assms(2)] pre assms(8) blobs _ that(2), of selected] assms(7) r by simp
  moreover note composed [OF assms(1) parsed_head [OF assms(2)] pre assms(8) blobs]
  ultimately show ?thesis using r by (auto simp: planned_tokens prompt_plan_def)
qed

section \<open>A prompt in the small memory\<close>

lemma tokens_before_defined: "k < n \<Longrightarrow> k \<le> length cs \<Longrightarrow> tokens_before (seg p cs) (p + int k) n \<noteq> None"
proof (induction n arbitrary: k)
  case (Suc n)
  show ?case
  proof (cases k)
    case 0 then show ?thesis by (simp add: seg_def)
  next
    case (Suc m)
    then have "tokens_before (seg p cs) (p + int m) n \<noteq> None" using Suc.IH [of m] Suc.prems by simp
    then show ?thesis using Suc by (auto simp: add.commute split: option.split prod.split)
  qed
qed simp

lemma demo_roomy: "roomy (demo_api lm) demo_cells 63"
proof -
  have "fst (api_decode (demo_api lm) (spike_batch toks s (p + int (length cs))) c) = 0"
    if "demo_cells c s = seg p cs" "length cs + length toks \<le> 63" for toks s p cs c
  proof (cases "toks = []")
    case True then show ?thesis by (simp add: demo_api_def demo_decode_def spike_batch_def)
  next
    case False
    then obtain b bs where b: "spike_batch toks s (p + int (length cs)) = b # bs" "b_seq b = s" "b_pos b = p + int (length cs)"
      using spike_batch_Cons [OF False] by blast
    have "tokens_before (map_of (fst c s)) (p + int (length cs)) 64 \<noteq> None"
      using tokens_before_defined [of "length cs" 64 cs p] that by (simp add: demo_cells_def)
    then show ?thesis by (auto simp: demo_api_def demo_decode_def b Let_def)
  qed
  then show ?thesis by (simp add: roomy_def demo_api_def)
qed

definition demo_context :: "token list \<Rightarrow> demo_memory" where
  "demo_context pre = ((\<lambda>_. [])(prefix_seq := zip (map int [0..<length pre]) (computed_behind [] pre)), None)"

lemma demo_context_cells:
  "demo_cells (demo_context pre) prefix_seq = seg 0 (computed_behind [] pre)"
  "s \<noteq> prefix_seq \<Longrightarrow> demo_cells (demo_context pre) s = Map.empty"
  using extended_seg [of "[]" 0 "[]" "computed_behind [] pre"] by (simp_all add: demo_context_def demo_cells_def)

theorem prompt_assembled_witness:
  "\<exists>cache c1 st. precompute_chunks (demo_api (\<lambda>_. [])) 0 [7, 8] [[1, 2, 3], [4, 5]] (demo_context [7, 8]) = yields (cache, c1) \<and>
    parse_variant ''prefixed+r1'' = Inr (no_variant\<lparr>vs_prefixed := True, vs_head := 1\<rparr>) \<and>
    compose_prompt (demo_api (\<lambda>_. [])) (no_variant\<lparr>vs_prefixed := True, vs_head := 1\<rparr>) [False, False] (ic_prefixed cache) [7, 8]
      [[1, 2, 3], [4, 5]] [6] c1 = yields st \<and>
    demo_cells (as_ctx st) temporary_seq = Map.empty \<and>
    demo_cells (as_ctx st) target_seq = seg 0 [(7, []), (8, [7]), (1, [7, 8]), (2, [7, 8, 1]), (3, [7, 8, 1, 2]),
      (4, [7, 8, 1, 2, 3]), (5, [7, 8, 4]), (6, [7, 8, 1, 2, 3, 4, 5])] \<and> computed st = 2"
proof -
  define spec where "spec = no_variant\<lparr>vs_prefixed := True, vs_head := 1\<rparr>"
  define pre chunks ending selected where lists: "pre = [7, 8::token]" "chunks = [[1, 2, 3], [4, 5::token]]" "ending = [6::token]"
    "selected = [False, False]"
  let ?api = "demo_api (\<lambda>_. [])"
  have "parse_variant ''prefixed+r1'' = Inr (no_variant\<lparr>vs_prefixed := True, vs_head := 1\<rparr>)" by code_simp
  then have p: "parse_variant ''prefixed+r1'' = Inr spec" by (simp add: spec_def)
  have e: "demo_cells (demo_context pre) scratch_seq = Map.empty"
    by (rule demo_context_cells) (simp add: prefix_seq_def scratch_seq_def)
  have sizes: "length pre + length (concat chunks) \<le> 63" "length selected = length chunks" "length (pre @ concat chunks @ ending) \<le> 63"
    by (simp_all add: lists)
  obtain ns ps c1 where l: "precompute_loop ?api pre chunks (demo_context pre) = yields (ns, ps, c1)"
    using precompute_completes [OF demo_laws demo_roomy demo_context_cells(1) e sizes(1)] by blast
  then obtain cache where c: "precompute_chunks ?api 0 pre chunks (demo_context pre) = yields (cache, c1)"
    by (simp add: precompute_chunks_def)
  have same: "demo_cells c1 prefix_seq = demo_cells (demo_context pre) prefix_seq"
    using precomputed [OF demo_laws c demo_context_cells(1) e, of spec] by simp
  have "demo_cells (demo_context pre) temporary_seq = Map.empty"
    by (rule demo_context_cells) (simp add: prefix_seq_def temporary_seq_def)
  then have t: "demo_cells c1 temporary_seq = Map.empty"
    using precomputed [OF demo_laws c demo_context_cells(1) e, of spec] by simp
  obtain r where r: "compose_prompt ?api spec selected (if vs_prefixed spec then ic_prefixed cache else ic_naive cache) pre chunks ending c1 = Some r"
    "\<exists>st. r = Inr st" "\<forall>st. r = Inr st \<longrightarrow> demo_cells (as_ctx st) target_seq = seg 0 (prompt_plan spec selected pre chunks ending) \<and>
       demo_cells (as_ctx st) temporary_seq = demo_cells c1 temporary_seq \<and> computed st = int (length ending) + recomputed_total spec selected 0 chunks"
    using prompt_assembled [OF demo_laws p c demo_context_cells(1) e same sizes(2) t, of ending]
    by (elim exE conjE, intro that) (assumption, use demo_roomy sizes(3) in fast, simp add: temporary_seq_def target_seq_def)
  then obtain st where st: "compose_prompt ?api spec selected (ic_prefixed cache) pre chunks ending c1 = yields st"
    "demo_cells (as_ctx st) target_seq = seg 0 (prompt_plan spec selected pre chunks ending)" "demo_cells (as_ctx st) temporary_seq = Map.empty"
    "computed st = int (length ending) + recomputed_total spec selected 0 chunks" using t by (auto simp: spec_def)
  have "prompt_plan spec selected pre chunks ending =
      [(7, []), (8, [7]), (1, [7, 8]), (2, [7, 8, 1]), (3, [7, 8, 1, 2]), (4, [7, 8, 1, 2, 3]), (5, [7, 8, 4]), (6, [7, 8, 1, 2, 3, 4, 5])]"
    "int (length ending) + recomputed_total spec selected 0 chunks = 2"
    by (simp_all add: prompt_plan_def lists spec_def no_variant_def recomputed_head_def chunk_cells_def)
  with c p st show ?thesis unfolding lists spec_def by metis
qed

section \<open>Recomputing everything\<close>

lemma assemble_all:
  assumes "vs_full spec \<or> vs_all spec"
  shows "i + length chunks \<le> length selected \<Longrightarrow> assemble api spec selected blobs n i chunks st =
    yields (st\<lparr>pending := pending st @ concat chunks,
       pending_at := (if pending st = [] \<and> concat chunks \<noteq> [] then position st else pending_at st),
       position := position st + int (length (concat chunks)), computed := computed st + int (length (concat chunks))\<rparr>)"
proof (induction chunks arbitrary: i st)
  case (Cons chunk chunks)
  have r: "recomputed_head spec (selected ! i) i (length chunk) = int (length chunk)" using assms by (auto simp: recomputed_head_def)
  have "place_chunk api spec selected blobs n i chunk st =
     yields (st\<lparr>pending := pending st @ chunk, pending_at := (if pending st = [] \<and> chunk \<noteq> [] then position st else pending_at st),
       position := position st + int (length chunk), computed := computed st + int (length chunk)\<rparr>)"
    using Cons.prems by (auto simp: place_chunk_def r Let_def enqueue_tokens_def)
  then show ?case using Cons.prems
    by (cases "pending st = []"; cases "chunk = []") (simp_all add: Cons.IH add.assoc del: length_concat Nil_eq_concat_conv concat_eq_Nil_conv)
qed simp

lemma compose_all:
  assumes "vs_full spec \<or> vs_all spec" "length chunks \<le> length selected"
  shows "compose_prompt api spec selected blobs pre chunks ending c =
    proceed (remove_sequence api target_seq c) (\<lambda>c1.
    proceed (spike_decode api (concat chunks @ ending) target_seq (int (length pre)) (api_seq_cp api prefix_seq target_seq (-1) (-1) c1)) (\<lambda>c2.
      yields \<lparr>as_ctx = c2, pending = [], pending_at = int (length pre), position = int (length (pre @ concat chunks)),
         computed = int (length ending) + int (length (concat chunks)), decode_calls = 1\<rparr>))"
proof -
  have a: "assemble api spec selected blobs (int (length pre)) 0 chunks
       \<lparr>as_ctx = c1, pending = [], pending_at = int (length pre), position = int (length pre), computed = n, decode_calls = 0\<rparr> =
     yields \<lparr>as_ctx = c1, pending = concat chunks, pending_at = int (length pre),
       position = int (length pre) + int (length (concat chunks)), computed = n + int (length (concat chunks)), decode_calls = 0\<rparr>"
    for c1 n by (simp add: assemble_all [OF assms(1)] assms(2) del: length_concat)
  have e: "enqueue_tokens ending (int (length pre) + int (length (concat chunks)))
       \<lparr>as_ctx = c1, pending = concat chunks, pending_at = int (length pre), position = p, computed = n, decode_calls = 0\<rparr> =
     \<lparr>as_ctx = c1, pending = concat chunks @ ending, pending_at = int (length pre), position = p, computed = n, decode_calls = 0\<rparr>"
    for c1 p n by (cases "concat chunks = []") (simp_all add: enqueue_tokens_def del: length_concat concat_eq_Nil_conv)
  show ?thesis by (simp add: compose_prompt_def decode_ending_def a e Let_def del: length_concat)
qed

text \<open>
  The variant prefixed+rALL, which the experiment runs as a check of itself, makes in the same
  context exactly the calls that the reference makes, whatever was cached and whichever chunks are
  selected: it clears the target, copies the prefix and decodes all the rest in one call.
\<close>

theorem rall_calls_as_full:
  assumes "parse_variant ''full'' = Inr full" "parse_variant ''prefixed+rALL'' = Inr rall"
    and "length chunks \<le> length selected" "length chunks \<le> length selected'"
  shows "compose_prompt api rall selected' blobs' pre chunks ending c = compose_prompt api full selected blobs pre chunks ending c"
proof -
  have "parse_variant ''full'' = Inr (no_variant\<lparr>vs_full := True\<rparr>)" by code_simp
  then have "vs_full full \<or> vs_all full" using assms(1) by auto
  moreover have "parse_variant ''prefixed+rALL'' = Inr (no_variant\<lparr>vs_prefixed := True, vs_all := True\<rparr>)" by code_simp
  then have "vs_full rall \<or> vs_all rall" using assms(2) by auto
  ultimately show ?thesis by (simp only: compose_all [OF _ assms(3)] compose_all [OF _ assms(4)])
qed

end
