(* ===== verification/RF_SpikeReport.thy ===== *)
theory RF_SpikeReport
  imports RF_SpikeRun
begin

text \<open>
  The experiment on reusing the KV memory of text chunks (src/tools/chunk_spike.cpp), third part:
  the line written for each result, the aggregates, and the run over all items and variants.
\<close>

section \<open>Printing\<close>

text \<open>
  A double as \<open>std::ostream\<close> writes it with a precision and without a format (\<open>%g\<close>): so many
  significant digits without trailing zeros, with an exponent when it is below -4 or too large.
\<close>

definition decimal_exponent :: "rat \<Rightarrow> int" where
  "decimal_exponent x = (let (p, q) = quotient_of x;
       e = int (length (nat_text (nat p))) - int (length (nat_text (nat q))) in
     if pow10 e \<le> x then e else e - 1)"

definition strip_zeros :: "string \<Rightarrow> string" where
  "strip_zeros ds = rev (dropWhile (\<lambda>c. c = CHR ''0'') (rev ds))"

definition with_point :: "string \<Rightarrow> string" where
  "with_point ds = (if strip_zeros ds = [] then [] else CHR ''.'' # strip_zeros ds)"

definition exponent_text :: "int \<Rightarrow> string" where
  "exponent_text e = (let ds = nat_text (nat \<bar>e\<bar>) in
     (if e < 0 then ''e-'' else ''e+'') @ (if length ds < 2 then CHR ''0'' # ds else ds))"

definition significant :: "nat \<Rightarrow> rat \<Rightarrow> int \<times> int" where
  "significant precision x =
     (let e = decimal_exponent x; m = round_even (x / pow10 (e - int (precision - 1))) in
      if m \<ge> 10 ^ precision then (m div 10, e + 1) else (m, e))"

definition general_text :: "nat \<Rightarrow> rat \<Rightarrow> string" where
  "general_text precision x =
     (if x = 0 then ''0''
      else let (m, e) = significant precision \<bar>x\<bar>; ds = nat_text (nat m) in
        (if x < 0 then ''-'' else []) @
        (if e < - 4 \<or> e \<ge> int precision then hd ds # with_point (tl ds) @ exponent_text e
         else if e \<ge> 0 then take (nat e + 1) ds @ with_point (drop (nat e + 1) ds)
         else CHR ''0'' # with_point (replicate (nat (- e) - 1) CHR ''0'' @ ds)))"

text \<open>Four decimals, as \<open>std::fixed\<close> writes them.\<close>

definition fixed4 :: "rat \<Rightarrow> string" where
  "fixed4 x = (let n = nat (round_even (\<bar>x\<bar> * 10000)); frac = nat_text (n mod 10000) in
     (if x < 0 then ''-'' else []) @ nat_text (n div 10000) @ ''.'' @ replicate (4 - length frac) CHR ''0'' @ frac)"

definition spike_escape_char :: "char \<Rightarrow> string" where
  "spike_escape_char c =
     (if c = CHR 0x22 then [CHR 0x5C, CHR 0x22]
      else if c = CHR 0x5C then [CHR 0x5C, CHR 0x5C]
      else if c = CHR 0x08 then [CHR 0x5C, CHR ''b'']
      else if c = CHR 0x0C then [CHR 0x5C, CHR ''f'']
      else if c = CHR 0x0A then [CHR 0x5C, CHR ''n'']
      else if c = CHR 0x0D then [CHR 0x5C, CHR ''r'']
      else if c = CHR 0x09 then [CHR 0x5C, CHR ''t'']
      else if c < CHR 0x20 then CHR 0x5C # CHR ''u'' # hex4 (of_char c)
      else [c])"

definition spike_json_escape :: "string \<Rightarrow> string" where
  "spike_json_escape s = concat (map spike_escape_char s)"

definition bool_text :: "bool \<Rightarrow> string" where
  "bool_text b = (if b then ''true'' else ''false'')"

definition write_result :: "spike_item \<Rightarrow> spike_result \<Rightarrow> 'b item_cache \<Rightarrow> int \<Rightarrow> rat \<Rightarrow> string" where
  \<open>write_result item result cache total_chunk_tokens independence =
     (let bytes = (if take 8 (r_variant result) = ''prefixed'' then ic_prefixed_bytes cache else ic_naive_bytes cache);
          g = general_text 12 in
      ''{"id":"'' @ spike_json_escape (it_id item) @ ''","variant":"'' @ spike_json_escape (r_variant result) @
      ''","kl":'' @ g (r_kl result) @ '',"top1":'' @ bool_text (r_top1 result) @ '',"em":'' @ g (r_em result) @
      '',"f1":'' @ g (r_f1 result) @ '',"agree_with_full":'' @ bool_text (r_agree_full result) @
      '',"ttft_ms":'' @ g (ttft_ms (r_times result)) @ '',"tokens_computed":'' @ int_text (r_tokens_computed result) @
      '',"decode_calls":'' @ int_text (r_decode_calls result) @ '',"attach_ms":'' @ g (attach_ms (r_times result)) @
      '',"recompute_ms":'' @ g (recompute_ms (r_times result)) @ '',"suffix_ms":'' @ g (suffix_ms (r_times result)) @
      '',"chunk_precompute_ms":'' @ g (ic_precompute_ms cache) @
      '',"blob_bytes_per_chunk_token":'' @ g (dbl (of_nat bytes / of_int (max 1 total_chunk_tokens))) @
      '',"independence_max_abs":'' @ g independence @ '',"answer":"'' @ spike_json_escape (r_answer result) @ ''"}'' @ [CHR 0x0A])\<close>

section \<open>Aggregates\<close>

record aggregate =
  ag_em :: "rat list"
  ag_f1 :: "rat list"
  ag_agreement :: "rat list"
  ag_top1 :: "rat list"
  ag_kl :: "rat list"
  ag_ttft :: "rat list"
  ag_tokens :: "int list"
  ag_decode_calls :: "int list"

definition new_aggregate :: aggregate where
  "new_aggregate = \<lparr>ag_em = [], ag_f1 = [], ag_agreement = [], ag_top1 = [], ag_kl = [], ag_ttft = [],
     ag_tokens = [], ag_decode_calls = []\<rparr>"

definition add_result :: "spike_result \<Rightarrow> aggregate \<Rightarrow> aggregate" where
  "add_result result a =
     a\<lparr>ag_em := ag_em a @ [r_em result], ag_f1 := ag_f1 a @ [r_f1 result],
       ag_agreement := ag_agreement a @ [if r_agree_full result then 1 else 0],
       ag_top1 := ag_top1 a @ [if r_top1 result then 1 else 0], ag_kl := ag_kl a @ [r_kl result],
       ag_ttft := ag_ttft a @ [ttft_ms (r_times result)], ag_tokens := ag_tokens a @ [r_tokens_computed result],
       ag_decode_calls := ag_decode_calls a @ [r_decode_calls result]\<rparr>"

definition sum_ints :: "int list \<Rightarrow> rat" where
  "sum_ints ns = fold (\<lambda>n acc. dbl (acc + of_int n)) ns 0"

text \<open>Without any item the row prints values that are not numbers and reads outside of the vector.\<close>

definition aggregate_row :: "string \<Rightarrow> aggregate \<Rightarrow> string option" where
  "aggregate_row variant a =
     do { em \<leftarrow> mean (ag_em a); f1 \<leftarrow> mean (ag_f1 a); agreement \<leftarrow> mean (ag_agreement a); top1 \<leftarrow> mean (ag_top1 a);
          kl \<leftarrow> mean (ag_kl a); ttft \<leftarrow> median (ag_ttft a);
          average \<leftarrow> (if ag_tokens a = [] then None else Some (dbl (sum_ints (ag_tokens a) / of_nat (length (ag_tokens a)))));
          Some (variant @ '' | '' @ fixed4 em @ '' | '' @ fixed4 f1 @ '' | '' @ fixed4 agreement @ '' | '' @ fixed4 top1 @
            '' | '' @ fixed4 kl @ '' | '' @ fixed4 ttft @ '' | '' @ fixed4 average @ '' | '' @
            fixed4 (dbl (sum_ints (ag_decode_calls a) / of_nat (max 1 (length (ag_decode_calls a))))) @ [CHR 0x0A]) }"

fun aggregate_rows :: "string list \<Rightarrow> (string \<Rightarrow> aggregate) \<Rightarrow> string option" where
  "aggregate_rows [] aggregates = Some []"
| "aggregate_rows (v # vs) aggregates =
     do { row \<leftarrow> aggregate_row v (aggregates v); rest \<leftarrow> aggregate_rows vs aggregates; Some (row @ rest) }"

definition print_aggregates :: "string list \<Rightarrow> (string \<Rightarrow> aggregate) \<Rightarrow> string option" where
  "print_aggregates variants aggregates =
     map_option (\<lambda>rows. ''variant | EM | F1 | agree-with-full | top1 | mean KL | median TTFT ms | tokens computed | decode calls''
       @ CHR 0x0A # rows) (aggregate_rows variants aggregates)"

section \<open>An item\<close>

definition sanity_limit :: rat where
  "sanity_limit = dbl (1 / 1000)"

definition prompt_prefix :: string where
  "prompt_prefix = ''<|im_start|>system'' @ [CHR 0x0A] @
     ''Answer the question using the documents. Reply with a short answer only.<|im_end|>'' @ [CHR 0x0A] @
     ''<|im_start|>user'' @ [CHR 0x0A] @ ''Documents:'' @ [CHR 0x0A]"

definition chunk_text :: "nat \<Rightarrow> string \<Rightarrow> string" where
  "chunk_text index chunk = ''['' @ nat_text (index + 1) @ ''] '' @ chunk @ [CHR 0x0A]"

definition question_text :: "string \<Rightarrow> string" where
  "question_text question = ''Question: '' @ question @ ''<|im_end|>'' @ [CHR 0x0A] @ ''<|im_start|>assistant'' @ [CHR 0x0A]"

fun tokenize_chunks ::
  "(string \<Rightarrow> nat \<Rightarrow> bool \<Rightarrow> int \<times> token list) \<Rightarrow> nat \<Rightarrow> string list \<Rightarrow> token list list outcome" where
  "tokenize_chunks llama_tokenize index [] = yields []"
| "tokenize_chunks llama_tokenize index (chunk # chunks) =
     proceed (spike_tokenize llama_tokenize (chunk_text index chunk) False) (\<lambda>toks.
     proceed (tokenize_chunks llama_tokenize (Suc index) chunks) (\<lambda>rest. yields (toks # rest)))"

text \<open>
  What an item's variants have in common: the tokens, the cached chunks, and the measured
  independence of an import from the cached chunk.
\<close>

record 'b item_data =
  id_chunks :: "token list list"
  id_suffix :: "token list"
  id_cache :: "'b item_cache"
  id_total :: int
  id_independence :: rat

definition check_independence ::
  "('c, 'b) llama_api \<Rightarrow> token list \<Rightarrow> token list list \<Rightarrow> token list \<Rightarrow> 'b item_cache \<Rightarrow> 'c \<Rightarrow> (rat \<times> 'c) outcome" where
  "check_independence api pre chunks ending cache c =
     (if ending = [] \<or> chunks = [] \<or> ic_prefixed cache = [] then None
      else
        let blob = hd (ic_prefixed cache); plen = int (length pre); end_pos = int (length pre + length (hd chunks)) in
        proceed (probe_blob api blob end_pos (hd ending) c) (\<lambda>(before, c1).
        proceed (attach_tail api blob True plen 0 (plen + 7) (api_seq_cp api prefix_seq target_seq (-1) (-1) c1)) (\<lambda>c2.
        proceed (remove_sequence api target_seq c2) (\<lambda>c3.
        proceed (probe_blob api blob end_pos (hd ending) c3) (\<lambda>(after, c4).
          case max_abs_difference before after of None \<Rightarrow> None | Some d \<Rightarrow> yields (d, c4))))))"

definition prepare_item ::
  "('c, 'b) llama_api \<Rightarrow> rat \<Rightarrow> token list \<Rightarrow> spike_item \<Rightarrow> 'c \<Rightarrow> ('b item_data \<times> 'c) outcome" where
  "prepare_item api elapsed pre item c =
     proceed (tokenize_chunks (api_tokenize api) 0 (it_chunks item)) (\<lambda>chunks.
     proceed (spike_tokenize (api_tokenize api) (question_text (it_question item)) False) (\<lambda>ending.
     proceed (precompute_chunks api elapsed pre chunks c) (\<lambda>(cache, c1).
     proceed (check_independence api pre chunks ending cache c1) (\<lambda>(independence, c2).
       yields (\<lparr>id_chunks = chunks, id_suffix = ending, id_cache = cache,
                id_total = sum_list (map (int \<circ> length) chunks), id_independence = independence\<rparr>, c2)))))"

text \<open>The other variants, each compared with the reference; \<open>clock\<close> are the readings of the clock.\<close>

fun run_variants ::
  "('c, 'b) llama_api \<Rightarrow> (rat \<Rightarrow> rat) \<Rightarrow> (rat \<Rightarrow> rat) \<Rightarrow> (string \<Rightarrow> spike_times) \<Rightarrow> spike_item \<Rightarrow> token list \<Rightarrow>
     'b item_data \<Rightarrow> spike_result \<Rightarrow> string list \<Rightarrow> (string \<times> spike_result) list \<Rightarrow> 'c \<Rightarrow>
     ((string \<times> spike_result) list \<times> 'c) outcome" where
  "run_variants api exp_d log_d clock item pre data full [] results c = yields (results, c)"
| "run_variants api exp_d log_d clock item pre data full (variant # variants) results c =
     (if variant = ''full'' then run_variants api exp_d log_d clock item pre data full variants results c
      else
        proceed (run_variant api exp_d log_d (clock variant) item pre (id_chunks data) (id_suffix data) (id_cache data)
                   variant (r_logits full) (r_answer full) c) (\<lambda>(result, c1).
          if variant = ''prefixed+rALL'' \<and> r_kl result > sanity_limit
          then fail (''rALL sanity failed for '' @ it_id item @ '': KL='' @ general_text 6 (r_kl result))
          else run_variants api exp_d log_d clock item pre data full variants (emplace variant result results) c1))"

text \<open>The reference also counts the tokens of the shared prefix.\<close>

definition run_reference ::
  "('c, 'b) llama_api \<Rightarrow> (rat \<Rightarrow> rat) \<Rightarrow> (rat \<Rightarrow> rat) \<Rightarrow> (string \<Rightarrow> spike_times) \<Rightarrow> spike_item \<Rightarrow> token list \<Rightarrow>
     'b item_data \<Rightarrow> 'c \<Rightarrow> (spike_result \<times> 'c) outcome" where
  "run_reference api exp_d log_d clock item pre data c =
     proceed (run_variant api exp_d log_d (clock ''full'') item pre (id_chunks data) (id_suffix data) (id_cache data) ''full'' [] [] c)
       (\<lambda>(full, c1). yields (full\<lparr>r_tokens_computed := r_tokens_computed full + int (length pre)\<rparr>, c1))"

fun report_variants ::
  "spike_item \<Rightarrow> 'b item_data \<Rightarrow> (string \<times> spike_result) list \<Rightarrow> string list \<Rightarrow> (string \<Rightarrow> aggregate) \<Rightarrow>
     (string \<times> (string \<Rightarrow> aggregate)) outcome" where
  "report_variants item data results [] aggregates = yields ([], aggregates)"
| "report_variants item data results (variant # variants) aggregates =
     (case map_of results variant of
        None \<Rightarrow> fail ''map::at''
      | Some result \<Rightarrow>
          proceed (report_variants item data results variants (aggregates(variant := add_result result (aggregates variant))))
            (\<lambda>(text, aggregates'). yields (write_result item result (id_cache data) (id_total data) (id_independence data) @ text, aggregates')))"

definition run_item ::
  "('c, 'b) llama_api \<Rightarrow> (rat \<Rightarrow> rat) \<Rightarrow> (rat \<Rightarrow> rat) \<Rightarrow> rat \<Rightarrow> (string \<Rightarrow> spike_times) \<Rightarrow> token list \<Rightarrow> string list \<Rightarrow>
     spike_item \<Rightarrow> (string \<Rightarrow> aggregate) \<Rightarrow> 'c \<Rightarrow> (string \<times> (string \<Rightarrow> aggregate) \<times> 'c) outcome" where
  "run_item api exp_d log_d elapsed clock pre variants item aggregates c =
     proceed (prepare_item api elapsed pre item c) (\<lambda>(data, c1).
     proceed (run_reference api exp_d log_d clock item pre data c1) (\<lambda>(full, c2).
     proceed (run_variants api exp_d log_d clock item pre data full variants [(''full'', full)] c2) (\<lambda>(results, c3).
     proceed (report_variants item data results variants aggregates) (\<lambda>(text, aggregates').
       yields (text, aggregates', c3)))))"

section \<open>The program\<close>

text \<open>The times of each item come from a list of readings.\<close>

fun run_items ::
  "('c, 'b) llama_api \<Rightarrow> (rat \<Rightarrow> rat) \<Rightarrow> (rat \<Rightarrow> rat) \<Rightarrow> (nat \<Rightarrow> rat \<times> (string \<Rightarrow> spike_times)) \<Rightarrow> token list \<Rightarrow> string list \<Rightarrow>
     nat \<Rightarrow> spike_item list \<Rightarrow> (string \<Rightarrow> aggregate) \<Rightarrow> 'c \<Rightarrow> (string \<times> (string \<Rightarrow> aggregate)) outcome" where
  "run_items api exp_d log_d clocks pre variants i [] aggregates c = yields ([], aggregates)"
| "run_items api exp_d log_d clocks pre variants i (item # items) aggregates c =
     proceed (run_item api exp_d log_d (fst (clocks i)) (snd (clocks i)) pre variants item aggregates c) (\<lambda>(text, aggregates', c1).
     proceed (run_items api exp_d log_d clocks pre variants (Suc i) items aggregates' c1) (\<lambda>(rest, aggregates'').
       yields (text @ rest, aggregates'')))"

definition spike_context_params :: context_params where
  "spike_context_params = \<lparr>ctx_n_ctx = 8192, ctx_n_batch = 8192, ctx_n_ubatch = 8192, ctx_n_seq_max = 4, kv_unified = True\<rparr>"

text \<open>
  What \<open>main\<close> asks the system for: the data file, the model, its context (with a flag that says
  whether its memory can shift), and whether the output file can be opened.
\<close>

record ('m, 'c) spike_system =
  sys_read :: "string \<Rightarrow> string option"
  sys_load :: "string \<Rightarrow> int \<Rightarrow> 'm option"
  sys_init :: "'m \<Rightarrow> context_params \<Rightarrow> ('c \<times> bool) option"
  sys_writable :: "string \<Rightarrow> bool"

datatype spike_end = SpikeHelp | SpikeDone string string

definition spike_main ::
  "('c, 'b) llama_api \<Rightarrow> (rat \<Rightarrow> rat) \<Rightarrow> (rat \<Rightarrow> rat) \<Rightarrow> (nat \<Rightarrow> rat \<times> (string \<Rightarrow> spike_times)) \<Rightarrow> ('m, 'c) spike_system \<Rightarrow>
     string list \<Rightarrow> spike_end outcome" where
  "spike_main api exp_d log_d clocks sys arguments =
     proceed (Some (spike_main_options arguments)) (\<lambda>command.
       case command of
         SpikeUsage \<Rightarrow> yields SpikeHelp
       | SpikeRun o1 \<Rightarrow>
           proceed (read_items (so_data_path o1) (sys_read sys (so_data_path o1)) (so_count o1)) (\<lambda>items.
             case sys_load sys (so_model_path o1) (so_gpu_layers o1) of
               None \<Rightarrow> fail (''failed to load model: '' @ so_model_path o1)
             | Some model \<Rightarrow>
                 (case sys_init sys model spike_context_params of
                    None \<Rightarrow> fail ''failed to create context''
                  | Some (c, can_shift) \<Rightarrow>
                      if \<not> can_shift then fail (''the model'' @ [CHR 0x27] @ ''s llama.cpp memory implementation cannot shift KV positions'')
                      else if \<not> sys_writable sys (so_output_path o1) then fail (''cannot write output file: '' @ so_output_path o1)
                      else
                        proceed (spike_tokenize (api_tokenize api) prompt_prefix True) (\<lambda>pre.
                        proceed (spike_decode api pre prefix_seq 0 c) (\<lambda>c1.
                        proceed (run_items api exp_d log_d clocks pre (so_variants o1) 0 items (\<lambda>_. new_aggregate) c1) (\<lambda>(text, aggregates).
                          case print_aggregates (so_variants o1) aggregates of
                            None \<Rightarrow> None | Some table \<Rightarrow> yields (SpikeDone text table)))))))"

text \<open>
  How the process ends: what it writes to the error stream, and its status. The handler of
  \<open>main\<close> takes down the backend only; the context and the model, which an exception from the
  preparation of the data or from a run leaves behind, end with the process.
\<close>

definition spike_exit :: "spike_end outcome \<Rightarrow> (string \<times> int) option" where
  "spike_exit result = (case result of
     None \<Rightarrow> None
   | Some (Inl message) \<Rightarrow> Some (''chunk_spike: '' @ message @ [CHR 0x0A], 1)
   | Some (Inr _) \<Rightarrow> Some ([], 0))"

end
