(* ===== verification/RF_SpikeScores.thy ===== *)
theory RF_SpikeScores
  imports RF_Spike RF_Numbers
begin

text \<open>
  The scores of the experiment: what a normalized answer is, that the counted words are the
  intersection of two bags of words, and how far the score computed with doubles is from the exact
  one.
\<close>

section \<open>Normalized answers\<close>

text \<open>The words of an answer, in lower case, without punctuation and articles.\<close>

definition normal_words :: "string \<Rightarrow> string list" where
  "normal_words answer =
     [w \<leftarrow> text_words (map lower_char [c \<leftarrow> answer. \<not> is_punct c]). w \<noteq> ''a'' \<and> w \<noteq> ''an'' \<and> w \<noteq> ''the'']"

definition clean_word :: "string \<Rightarrow> bool" where
  "clean_word w \<longleftrightarrow> w \<noteq> [] \<and> (\<forall>c \<in> set w. \<not> is_space c)"

lemma text_words_Nil [simp]: "text_words [] = []"
  by (subst text_words.simps) (simp add: skip_space_def)

lemma text_words_space: "is_space c \<Longrightarrow> text_words (c # s) = text_words s"
  by (subst (1 2) text_words.simps) (simp add: skip_space_def)

lemma text_words_word:
  assumes "clean_word w" "rest = [] \<or> is_space (hd rest)"
  shows "text_words (w @ rest) = w # text_words rest"
proof -
  have w: "\<not> is_space (hd w)" "w \<noteq> []" "\<forall>c \<in> set w. \<not> is_space c" using assms(1) by (auto simp: clean_word_def)
  have skip: "skip_space (w @ rest) = w @ rest" using w by (cases w) (simp_all add: skip_space_def)
  have "takeWhile (\<lambda>c. \<not> is_space c) (w @ rest) = w \<and> dropWhile (\<lambda>c. \<not> is_space c) (w @ rest) = rest"
    using w(3) assms(2) by (cases rest) (simp_all add: takeWhile_append2 dropWhile_append2)
  then show ?thesis using w(2) by (subst text_words.simps) (simp add: skip Let_def)
qed

lemma text_words_clean: "\<forall>w \<in> set (text_words s). clean_word w"
proof (induction s rule: text_words.induct)
  case (1 s)
  let ?r = "skip_space s"
  show ?case
  proof (cases "?r = []")
    case True then show ?thesis by (subst text_words.simps) simp
  next
    case False
    then have "\<not> is_space (hd ?r)" by (metis hd_dropWhile skip_space_def)
    then have "clean_word (takeWhile (\<lambda>c. \<not> is_space c) ?r)"
      using False by (cases ?r) (auto simp: clean_word_def dest: set_takeWhileD)
    then show ?thesis using 1 [OF refl False] False by (subst text_words.simps) (simp add: Let_def)
  qed
qed

lemma text_words_chars: "w \<in> set (text_words s) \<Longrightarrow> set w \<subseteq> set s"
proof (induction s rule: text_words.induct)
  case (1 s)
  let ?r = "skip_space s"
  have r: "set ?r \<subseteq> set s" by (auto simp: skip_space_def dest: set_dropWhileD)
  show ?case
  proof (cases "?r = []")
    case True then show ?thesis using "1.prems" by (subst (asm) text_words.simps) simp
  next
    case False
    then have "w = takeWhile (\<lambda>c. \<not> is_space c) ?r \<or> w \<in> set (text_words (dropWhile (\<lambda>c. \<not> is_space c) ?r))"
      using "1.prems" by (subst (asm) text_words.simps) (simp add: Let_def)
    then show ?thesis using "1.IH" [OF refl False] r by (auto dest: set_takeWhileD set_dropWhileD)
  qed
qed

lemma join_words_Cons: "ws \<noteq> [] \<Longrightarrow> join_words (w # ws) = w @ CHR '' '' # join_words ws"
  by (cases ws) simp_all

lemma text_words_join: "\<forall>w \<in> set ws. clean_word w \<Longrightarrow> text_words (join_words ws) = ws"
proof (induction ws)
  case (Cons w ws)
  have sp: "is_space (CHR '' '')" by (simp add: is_space_def)
  show ?case
  proof (cases "ws = []")
    case True then show ?thesis using Cons.prems text_words_word [of w "[]"] by simp
  next
    case False
    then show ?thesis using Cons text_words_word [of w "CHR '' '' # join_words ws"]
      by (simp add: join_words_Cons sp text_words_space)
  qed
qed simp

lemma parts_Nil [simp]: "parts c [] = []"
  by (subst parts.simps) (simp add: getline_def)

lemma parts_word:
  assumes "w \<noteq> []" "c \<notin> set w"
  shows "parts c w = [w]" "parts c (w @ c # rest) = w # parts c rest"
proof -
  have "takeWhile (\<lambda>x. x \<noteq> c) w = w" and "dropWhile (\<lambda>x. x \<noteq> c) w = []"
    using assms(2) by (auto simp: takeWhile_eq_all_conv)
  then show "parts c w = [w]" using assms(1) unfolding parts.simps [of c w] getline_def by (simp only:) simp
  have "\<forall>x \<in> set w. x \<noteq> c" using assms(2) by auto
  then have "takeWhile (\<lambda>x. x \<noteq> c) (w @ c # rest) = w \<and> dropWhile (\<lambda>x. x \<noteq> c) (w @ c # rest) = c # rest"
    by (simp add: takeWhile_append2 dropWhile_append2)
  then show "parts c (w @ c # rest) = w # parts c rest" by (subst parts.simps) (simp add: getline_def)
qed

lemma clean_word_split: "clean_word w \<Longrightarrow> w \<noteq> [] \<and> CHR '' '' \<notin> set w"
  by (auto simp: clean_word_def is_space_def)

lemma parts_join: "\<forall>w \<in> set ws. clean_word w \<Longrightarrow> parts (CHR '' '') (join_words ws) = ws"
proof (induction ws)
  case (Cons w ws)
  then show ?case using clean_word_split [of w] by (cases "ws = []") (simp_all add: join_words_Cons parts_word)
qed simp

lemma normal_words_clean: "\<forall>w \<in> set (normal_words answer). clean_word w"
  using text_words_clean by (auto simp: normal_words_def)

lemma normalize_words: "normalize_answer answer = join_words (normal_words answer)"
  by (simp add: normalize_answer_def normal_words_def Let_def)

lemma split_normalized: "split_text (normalize_answer answer) (CHR '' '') = normal_words answer"
proof -
  have "[w \<leftarrow> normal_words answer. w \<noteq> []] = normal_words answer"
    using normal_words_clean [of answer] by (auto simp: filter_id_conv clean_word_def)
  then show ?thesis using parts_join [OF normal_words_clean] by (simp add: split_text_def normalize_words)
qed

lemma lower_char_clean: "\<not> is_punct c \<Longrightarrow> \<not> is_punct (lower_char c) \<and> lower_char (lower_char c) = lower_char c"
proof (cases "CHR ''A'' \<le> c \<and> c \<le> CHR ''Z''")
  case True
  then have n: "(65::nat) \<le> of_char c" "of_char c \<le> (90::nat)" by (simp_all add: less_eq_char_def)
  then have "of_char (lower_char c) = (of_char c + 32 :: nat)" using True by (simp add: lower_char_def)
  then show ?thesis using n by (auto simp: is_punct_def lower_char_def [of "lower_char c"] less_eq_char_def)
next
  case False
  then have "lower_char c = c" by (auto simp: lower_char_def)
  then show "\<not> is_punct c \<Longrightarrow> ?thesis" by simp
qed

lemma join_words_chars: "set (join_words ws) \<subseteq> insert (CHR '' '') (\<Union>w \<in> set ws. set w)"
  by (induction ws rule: join_words.induct) auto

text \<open>Normalizing again changes nothing.\<close>

lemma normalize_idempotent: "normalize_answer (normalize_answer answer) = normalize_answer answer"
proof -
  let ?clean = "map lower_char [c \<leftarrow> answer. \<not> is_punct c]" and ?n = "normalize_answer answer"
  have clean: "\<not> is_punct c \<and> lower_char c = c" if "c \<in> set ?clean" for c using that lower_char_clean by auto
  have "set w \<subseteq> set ?clean" if "w \<in> set (normal_words answer)" for w
    using that text_words_chars [of w ?clean] by (auto simp: normal_words_def)
  then have "(\<Union>w \<in> set (normal_words answer). set w) \<subseteq> set ?clean" by (rule UN_least)
  then have "set ?n \<subseteq> insert (CHR '' '') (set ?clean)" using join_words_chars [of "normal_words answer"] unfolding normalize_words by blast
  moreover have "\<not> is_punct (CHR '' '') \<and> lower_char (CHR '' '') = CHR '' ''" by code_simp
  ultimately have same: "\<not> is_punct c \<and> lower_char c = c" if "c \<in> set ?n" for c using that clean by blast
  then have "map lower_char [c \<leftarrow> ?n. \<not> is_punct c] = ?n" by (simp add: filter_id_conv map_idI)
  moreover have "text_words ?n = normal_words answer" using text_words_join [OF normal_words_clean] by (simp add: normalize_words)
  ultimately have "normal_words ?n = normal_words answer" by (simp add: normal_words_def [of ?n]) (simp add: normal_words_def)
  then show ?thesis by (simp add: normalize_words)
qed

section \<open>Shared words\<close>

definition counts_bag :: "(string \<Rightarrow> int option) \<Rightarrow> string multiset \<Rightarrow> bool" where
  "counts_bag counts M \<longleftrightarrow> (\<forall>w. (case counts w of None \<Rightarrow> 0 | Some n \<Rightarrow> n) = int (count M w))"

lemma count_words_bag: "counts_bag (count_words ws) (mset ws)"
proof -
  let ?f = "\<lambda>w counts. counts(w \<mapsto> (case counts w of None \<Rightarrow> 0 | Some n \<Rightarrow> n) + 1)"
  have "counts_bag counts M \<Longrightarrow> counts_bag (fold ?f ws counts) (M + mset ws)" for counts M
  proof (induction ws arbitrary: counts M)
    case (Cons w ws)
    have "counts_bag (?f w counts) (add_mset w M)" using Cons.prems by (auto simp: counts_bag_def)
    from Cons.IH [OF this] show ?case by simp
  qed simp
  from this [of Map.empty "{#}"] show ?thesis by (simp add: count_words_def counts_bag_def)
qed

lemma shared_words_bag: "counts_bag counts M \<Longrightarrow> shared_words ws counts n = n + int (size (mset ws \<inter># M))"
proof (induction ws arbitrary: counts M n)
  case (Cons w ws)
  show ?case
  proof (cases "w \<in># M")
    case True
    then obtain M' where M: "M = add_mset w M'" by (meson multi_member_split)
    have w: "counts w = Some (int (count M' w) + 1)" using Cons.prems by (auto simp: counts_bag_def M split: option.splits dest: spec [of _ w])
    have "counts_bag (counts(w \<mapsto> int (count M' w))) M'" using Cons.prems by (auto simp: counts_bag_def M split: if_splits)
    then have "shared_words ws (counts(w \<mapsto> int (count M' w))) (n + 1) = n + 1 + int (size (mset ws \<inter># M'))"
      by (rule Cons.IH)
    moreover have "shared_words (w # ws) counts n = shared_words ws (counts(w \<mapsto> int (count M' w))) (n + 1)"
      unfolding shared_words.simps w option.case by simp
    ultimately show ?thesis by (simp only:) (simp add: M)
  next
    case False
    then have "count M w = 0" by (simp add: not_in_iff)
    moreover have "(case counts w of None \<Rightarrow> 0 | Some n \<Rightarrow> n) = int (count M w)"
      using Cons.prems unfolding counts_bag_def by blast
    ultimately have "counts w = None \<or> counts w = Some 0" by (cases "counts w") simp_all
    moreover have "mset (w # ws) \<inter># M = mset ws \<inter># M"
      using False by (simp add: multiset_eq_iff not_in_iff)
    ultimately show ?thesis using Cons.IH [OF Cons.prems] by (auto simp del: mset.simps)
  qed
qed simp

section \<open>How exact a score is\<close>

text \<open>A double in the normal range is within one part in two to the 53 of the number it rounds.\<close>

lemma dbl_error:
  assumes "pow2 (- 1022) \<le> x"
  shows "\<bar>dbl x - x\<bar> \<le> x / 2 ^ 53"
proof -
  have x: "0 < x" using assms pow2_pos [of "- 1022"] by linarith
  let ?b = "binary_exponent x"
  have bracket: "pow2 ?b \<le> x" "x < pow2 (?b + 1)" using binary_exponent_bracket [OF x] by simp_all
  have "- 1022 \<le> ?b"
  proof (rule ccontr)
    assume "\<not> - 1022 \<le> ?b"
    then have "pow2 (?b + 1) \<le> pow2 (- 1022)" by (intro pow2_mono) simp
    then show False using assms bracket(2) by linarith
  qed
  then have e: "max (?b - 52) (- 1074) = ?b - 52" by simp
  let ?u = "pow2 (?b - 52)"
  have "dbl x = of_int (round_even (x / ?u)) * ?u"
    using x by (simp add: dbl_def round_signed_def round_binary_def Let_def e)
  then have "dbl x - x = (of_int (round_even (x / ?u)) - x / ?u) * ?u" by (simp add: left_diff_distrib)
  then have "\<bar>dbl x - x\<bar> = \<bar>of_int (round_even (x / ?u)) - x / ?u\<bar> * ?u" by (simp add: abs_mult)
  also have "\<dots> \<le> 1 / 2 * ?u" by (rule mult_right_mono [OF round_even_error]) simp
  also have "\<dots> = pow2 ?b / 2 ^ 53"
  proof -
    have "pow2 ?b = pow2 (?b - 52) * pow2 (int 52)" by (simp flip: pow2_add)
    then show ?thesis unfolding pow2_nat by simp
  qed
  also have "\<dots> \<le> x / 2 ^ 53" using bracket(1) by (simp add: divide_right_mono)
  finally show ?thesis .
qed

text \<open>The factor one rounding may change a number by, and numbers a few roundings apart.\<close>

definition grain :: rat where
  "grain = 2 ^ 53 / (2 ^ 53 - 1)"

definition close :: "nat \<Rightarrow> rat \<Rightarrow> rat \<Rightarrow> bool" where
  "close k a x \<longleftrightarrow> 0 < x \<and> x / grain ^ k \<le> a \<and> a \<le> x * grain ^ k"

lemma grain_bounds [simp]: "0 < grain" "1 \<le> grain"
  by (simp_all add: grain_def)

lemma grain_power [simp]: "0 < grain ^ k" "1 \<le> grain ^ k" "0 \<le> grain ^ k"
  by (simp_all add: one_le_power less_imp_le)

lemma grain_eighth: "grain ^ 7 \<le> 1 + 1 / 2 ^ 50"
  by (simp add: grain_def power_divide)

lemma close_positive: "close k a x \<Longrightarrow> 0 < a"
  using divide_pos_pos [of x "grain ^ k"] grain_power(1) [of k] unfolding close_def by linarith

lemma close_refl: "0 < x \<Longrightarrow> close 0 x x"
  by (simp add: close_def)

lemma close_trans:
  assumes "close k a b" "close l b x"
  shows "close (k + l) a x"
proof -
  have "x / grain ^ (k + l) = x / grain ^ l / grain ^ k" by (simp add: power_add mult.commute)
  also have "\<dots> \<le> b / grain ^ k" using assms(2) by (intro divide_right_mono) (simp_all add: close_def)
  also have "\<dots> \<le> a" using assms(1) by (simp add: close_def)
  finally have low: "x / grain ^ (k + l) \<le> a" .
  have "a \<le> b * grain ^ k" using assms(1) by (simp add: close_def)
  also have "\<dots> \<le> x * grain ^ l * grain ^ k" using assms(2) by (simp add: close_def mult_right_mono)
  also have "\<dots> = x * grain ^ (k + l)" by (simp add: power_add mult.assoc mult.commute)
  finally show ?thesis using low assms(2) by (simp add: close_def)
qed

lemma close_mult:
  assumes "close k a x" "close l b y"
  shows "close (k + l) (a * b) (x * y)"
proof -
  have pos: "0 < x" "0 < y" "0 < a" "0 < b" using assms close_positive by (auto simp: close_def)
  have "x / grain ^ k * (y / grain ^ l) \<le> a * b"
    using assms pos by (intro mult_mono) (simp_all add: close_def less_imp_le)
  moreover have "a * b \<le> x * grain ^ k * (y * grain ^ l)"
    using assms pos by (intro mult_mono) (simp_all add: close_def)
  ultimately show ?thesis using pos by (simp add: close_def power_add mult_ac)
qed

lemma close_inverse:
  assumes "close k a x"
  shows "close k (1 / a) (1 / x)"
proof -
  have pos: "0 < x" "0 < a" using assms close_positive by (auto simp: close_def)
  have low: "x / grain ^ k \<le> a" and high: "a \<le> x * grain ^ k" using assms by (simp_all add: close_def)
  have "1 / (x * grain ^ k) \<le> 1 / a" using pos high by (intro divide_left_mono) simp_all
  moreover have "1 / a \<le> 1 / (x / grain ^ k)" using pos low by (intro divide_left_mono) simp_all
  ultimately show ?thesis using pos by (simp add: close_def)
qed

lemma close_divide: "close k a x \<Longrightarrow> close l b y \<Longrightarrow> close (k + l) (a / b) (x / y)"
  using close_mult [of k a x l "1 / b" "1 / y"] close_inverse [of l b y] by simp

lemma close_weaken:
  assumes "close k a x" "k \<le> l"
  shows "close l a x"
proof -
  have g: "grain ^ k \<le> grain ^ l" using assms(2) by (simp add: power_increasing)
  have "x / grain ^ l \<le> x / grain ^ k" using assms(1) g by (intro divide_left_mono) (simp_all add: close_def)
  moreover have "x * grain ^ k \<le> x * grain ^ l" using assms(1) g by (simp add: close_def)
  ultimately show ?thesis using assms(1) unfolding close_def by linarith
qed

lemma close_add:
  assumes "close k a x" "close k b y"
  shows "close k (a + b) (x + y)"
  using assms by (simp add: close_def add_divide_distrib distrib_right)

lemma close_dbl:
  assumes "close k a x" "k \<le> 7" "pow2 (- 1021) \<le> x"
  shows "close (k + 1) (dbl a) x"
proof -
  have a: "x / grain ^ k \<le> a" using assms(1) by (simp add: close_def)
  have x: "0 < x" using assms(1) by (simp add: close_def)
  have "grain ^ k \<le> grain ^ 7" using assms(2) by (intro power_increasing) simp_all
  then have "grain ^ k \<le> 2" using grain_eighth by (simp add: order.trans)
  then have "x / 2 \<le> x / grain ^ k" using x by (intro divide_left_mono) simp_all
  moreover have "pow2 (- 1022) = pow2 (- 1021) / 2"
    using pow2_add [of "- 1022" 1] by (simp add: pow2_def [of 1])
  ultimately have "pow2 (- 1022) \<le> a" using a assms(3) by linarith
  from dbl_error [OF this] have d: "a - a / 2 ^ 53 \<le> dbl a" "dbl a \<le> a + a / 2 ^ 53" by linarith+
  have pos: "0 < a" using assms(1) by (rule close_positive)
  have "a / grain = a - a / 2 ^ 53" by (simp add: grain_def field_simps)
  moreover have "a + a / 2 ^ 53 \<le> a * grain" using pos by (simp add: grain_def field_simps)
  ultimately have "close 1 (dbl a) a" using d pos unfolding close_def power_one_right by linarith
  from close_trans [OF this assms(1)] show ?thesis by (simp add: add.commute)
qed

lemma close_error:
  assumes "close 7 a x"
  shows "\<bar>a - x\<bar> \<le> x / 2 ^ 50"
proof -
  have x: "0 < x" and low: "x / grain ^ 7 \<le> a" and high: "a \<le> x * grain ^ 7" using assms by (simp_all add: close_def)
  have "x * grain ^ 7 \<le> x * (1 + 1 / 2 ^ 50)" using x grain_eighth by (intro mult_left_mono) simp_all
  moreover have "x * (1 - 1 / 2 ^ 50) \<le> x / grain ^ 7"
  proof -
    have "(1 - 1 / 2 ^ 50) * grain ^ 7 \<le> (1 :: rat)" by (simp add: grain_def power_divide)
    then have "1 - 1 / 2 ^ 50 \<le> 1 / grain ^ 7" by (simp add: pos_le_divide_eq)
    from mult_left_mono [OF this, of x] show ?thesis using x by simp
  qed
  ultimately have "x * (1 - 1 / 2 ^ 50) \<le> a" and "a \<le> x * (1 + 1 / 2 ^ 50)" using low high by linarith+
  then have "x - x / 2 ^ 50 \<le> a" and "a \<le> x + x / 2 ^ 50" unfolding right_diff_distrib distrib_left by simp_all
  then show ?thesis by linarith
qed

text \<open>The exact score: twice the shared words over all words.\<close>

definition exact_f1 :: "string list \<Rightarrow> string list \<Rightarrow> rat" where
  "exact_f1 predicted expected =
     (if predicted = [] \<and> expected = [] then 1
      else 2 * of_nat (size (mset predicted \<inter># mset expected)) / of_nat (length predicted + length expected))"

lemma pow2_small: "pow2 (- 1021) \<le> pow2 (- 32)"
  by (rule pow2_mono) simp

lemma fraction_normal:
  assumes "1 \<le> a" "0 < b" "b \<le> 2 ^ 32"
  shows "pow2 (- 1021) \<le> a / b"
proof -
  have "pow2 (- 32) = 1 / 2 ^ 32" by (simp add: pow2_def)
  also have "\<dots> \<le> 1 / b" using assms by (intro divide_left_mono) simp_all
  also have "\<dots> \<le> a / b" using assms by (intro divide_right_mono) simp_all
  finally show ?thesis using pow2_small by linarith
qed

lemma token_f1_close:
  assumes p: "0 < p" "p < (2::rat) ^ 31" and q: "0 < q" "q < (2::rat) ^ 31" and s: "1 \<le> s"
  shows "close 7 (dbl (dbl (dbl (2 * dbl (s / p)) * dbl (s / q)) / dbl (dbl (s / p) + dbl (s / q)))) (2 * s / (p + q))"
proof -
  have pos: "0 < s / p" "0 < s / q" using p q s by simp_all
  have np: "pow2 (- 1021) \<le> s / p" and nq: "pow2 (- 1021) \<le> s / q" using p q s by (intro fraction_normal; simp)+
  have pr: "close 1 (dbl (s / p)) (s / p)" using close_dbl [OF close_refl [OF pos(1)] _ np] by simp
  have re: "close 1 (dbl (s / q)) (s / q)" using close_dbl [OF close_refl [OF pos(2)] _ nq] by simp
  have two: "close 2 (dbl (2 * dbl (s / p))) (2 * (s / p))"
    using close_dbl [OF close_mult [OF close_refl [of 2] pr]] np pos(1) by (simp add: numeral_2_eq_2)
  have product: "pow2 (- 1021) \<le> 2 * (s / p) * (s / q)"
  proof -
    have "1 / 2 ^ 31 \<le> s / p" "1 / 2 ^ 31 \<le> s / q" using p q s by (auto intro: frac_le)
    then have "1 / 2 ^ 31 * (1 / 2 ^ 31) \<le> s / p * (s / q)" using less_imp_le [OF pos(1)] by (intro mult_mono) simp_all
    moreover have "pow2 (- 1021) \<le> pow2 (- 61)" "pow2 (- 61) = 2 * (1 / 2 ^ 31 * (1 / 2 ^ 31))"
      by (rule pow2_mono, simp) (simp add: pow2_def)
    ultimately show ?thesis unfolding mult.assoc by linarith
  qed
  have up: "close 4 (dbl (dbl (2 * dbl (s / p)) * dbl (s / q))) (2 * (s / p) * (s / q))"
    using close_dbl [OF close_mult [OF two re] _ product] by simp
  have down: "close 2 (dbl (dbl (s / p) + dbl (s / q))) (s / p + s / q)"
    using close_dbl [OF close_add [OF pr re]] np pos by (simp add: numeral_2_eq_2)
  have exact: "2 * (s / p) * (s / q) / (s / p + s / q) = 2 * s / (p + q)"
  proof -
    have n: "p \<noteq> 0" "q \<noteq> 0" "s \<noteq> 0" "p + q \<noteq> 0" using p q s by simp_all
    then have "s / p + s / q = s * (p + q) / (p * q)" by (simp add: field_simps)
    then have "2 * (s / p) * (s / q) = 2 * s / (p + q) * (s / p + s / q)" using n by simp
    then show ?thesis using pos by (metis add_pos_pos less_irrefl nonzero_mult_div_cancel_right)
  qed
  have "pow2 (- 1021) \<le> 2 * s / (p + q)" using p q s by (intro fraction_normal) simp_all
  then show ?thesis using close_dbl [OF close_divide [OF up down]] unfolding exact by simp
qed

lemma shared_words_size: "shared_words ws (count_words vs) 0 = int (size (mset ws \<inter># mset vs))"
  using shared_words_bag [OF count_words_bag] by simp

text \<open>
  C37. The score of an answer is, up to one part in two to the 50, twice the number of words it
  shares with the expected answer, counted with their repetitions, over the number of words of
  both: two empty answers are a perfect match, answers without a common word score exactly zero.
\<close>

theorem token_f1_accurate:
  assumes "length (normal_words prediction) < 2 ^ 31" "length (normal_words gold) < 2 ^ 31"
  shows "\<bar>token_f1 prediction gold - exact_f1 (normal_words prediction) (normal_words gold)\<bar>
    \<le> exact_f1 (normal_words prediction) (normal_words gold) / 2 ^ 50"
proof -
  let ?p = "normal_words prediction" and ?g = "normal_words gold"
  let ?s = "size (mset ?p \<inter># mset ?g)"
  show ?thesis
  proof (cases "?p = [] \<or> ?g = [] \<or> ?s = 0")
    case True
    then have "token_f1 prediction gold = exact_f1 ?p ?g"
      by (auto simp: token_f1_def split_normalized exact_f1_def shared_words_size Let_def)
    then show ?thesis by (simp add: exact_f1_def)
  next
    case False
    then have "0 < ?s" by (simp only: neq0_conv de_Morgan_disj)
    then have "1 \<le> ?s" by linarith
    then have "(of_nat 1 :: rat) \<le> of_nat ?s" by (rule of_nat_mono)
    then have "1 \<le> (of_nat ?s :: rat)" by (simp only: of_nat_1)
    moreover have "(of_nat (length ?p) :: rat) < 2 ^ 31" "(of_nat (length ?g) :: rat) < 2 ^ 31"
      using assms by (metis of_nat_less_iff of_nat_numeral of_nat_power)+
    ultimately have "close 7 (token_f1 prediction gold) (exact_f1 ?p ?g)"
      using False token_f1_close [of "of_nat (length ?p)" "of_nat (length ?g)" "of_nat ?s"]
      by (simp add: token_f1_def split_normalized exact_f1_def shared_words_size Let_def)
    then show ?thesis by (rule close_error)
  qed
qed

theorem token_f1_accurate_witness:
  "\<bar>token_f1 ''The cat, sat'' ''a cat'' - exact_f1 [''cat'', ''sat''] [''cat'']\<bar> \<le> exact_f1 [''cat'', ''sat''] [''cat''] / 2 ^ 50"
proof -
  have n: "normal_words ''The cat, sat'' = [''cat'', ''sat'']" "normal_words ''a cat'' = [''cat'']" by code_simp+
  show ?thesis using token_f1_accurate [of "''The cat, sat''" "''a cat''"] unfolding n by simp
qed

end
