(* ===== verification/RF_Decimal.thy ===== *)
theory RF_Decimal
  imports RF_SpikeScores RF_SpikeReport RF_OpenAIText
begin

text \<open>
  Printed doubles: what \<open>%g\<close> writes is a number of JSON, and its value is the double rounded to
  the digits that are written.
\<close>

section \<open>Literals\<close>

text \<open>Digits before the point, digits behind it, and an exponent.\<close>

definition literal :: "string \<Rightarrow> string \<Rightarrow> int option \<Rightarrow> string" where
  "literal ds fs expo = ds @ (if fs = [] then [] else CHR ''.'' # fs) @ (case expo of None \<Rightarrow> [] | Some e \<Rightarrow> exponent_text e)"

definition all_digits :: "string \<Rightarrow> bool" where
  "all_digits ds \<longleftrightarrow> (\<forall>c \<in> set ds. is_digit c)"

definition whole_part :: "string \<Rightarrow> bool" where
  "whole_part ds \<longleftrightarrow> ds \<noteq> [] \<and> all_digits ds \<and> (ds = ''0'' \<or> hd ds \<noteq> CHR ''0'')"

lemma not_digits [simp]: "\<not> is_digit (CHR ''.'')" "\<not> is_digit (CHR ''e'')" "\<not> is_digit (CHR ''-'')" "\<not> is_digit (CHR ''+'')"
  by (simp_all add: is_digit_def)

lemma digits_split:
  assumes "all_digits ds" "r = [] \<or> \<not> is_digit (hd r)"
  shows "takeWhile is_digit (ds @ r) = ds" "dropWhile is_digit (ds @ r) = r"
  using digit_span [of ds r] assms by (simp_all add: all_digits_def)

lemma scan_digits_all:
  assumes "all_digits ds" "ds \<noteq> []" "r = [] \<or> \<not> is_digit (hd r)"
  shows "scan_digits msg (ds @ r) = Inr (ds, r)"
  using digits_split [OF assms(1,3)] assms(2) by (simp add: scan_digits_def)

definition exponent_digits :: "int \<Rightarrow> string" where
  "exponent_digits e = (let ds = nat_text (nat \<bar>e\<bar>) in if length ds < 2 then CHR ''0'' # ds else ds)"

lemma exponent_text_parts: "exponent_text e = CHR ''e'' # (if e < 0 then CHR ''-'' else CHR ''+'') # exponent_digits e"
  by (simp add: exponent_text_def exponent_digits_def Let_def)

lemma exponent_digits: "all_digits (exponent_digits e)" "exponent_digits e \<noteq> []" "digits_value (exponent_digits e) = \<bar>e\<bar>"
proof -
  have n: "nat_text (nat \<bar>e\<bar>) \<noteq> []" "\<forall>c \<in> set (nat_text (nat \<bar>e\<bar>)). is_digit c" "digits_value (nat_text (nat \<bar>e\<bar>)) = \<bar>e\<bar>"
    using nat_text_facts [of "nat \<bar>e\<bar>"] by simp_all
  have z: "digits_value (CHR ''0'' # ds) = digits_value ds" "is_digit (CHR ''0'')" for ds
    by (simp_all add: digits_value_def digit_value_def is_digit_def)
  show "all_digits (exponent_digits e)" "exponent_digits e \<noteq> []" "digits_value (exponent_digits e) = \<bar>e\<bar>"
    using n z by (auto simp: exponent_digits_def all_digits_def Let_def)
qed

lemma scan_written_exponent: "scan_exponent (exponent_text e) = Inr (exponent_text e, [])"
  using scan_digits_all [OF exponent_digits(1,2), of "[]" _ e] by (simp add: scan_exponent_def exponent_text_parts)

lemma scan_expo: "scan_exponent (case expo of None \<Rightarrow> [] | Some e \<Rightarrow> exponent_text e) =
    Inr (case expo of None \<Rightarrow> [] | Some e \<Rightarrow> exponent_text e, [])"
  by (cases expo) (simp_all add: scan_written_exponent, simp add: scan_exponent_def)

lemma expo_head: "r = (case expo of None \<Rightarrow> [] | Some e \<Rightarrow> exponent_text e) \<Longrightarrow> r = [] \<or> hd r = CHR ''e''"
  by (cases expo) (simp_all add: exponent_text_parts)

lemma scan_fraction_literal:
  assumes "all_digits fs" "r = [] \<or> hd r = CHR ''e''"
  shows "scan_fraction ((if fs = [] then [] else CHR ''.'' # fs) @ r) = Inr (if fs = [] then [] else CHR ''.'' # fs, r)"
proof (cases "fs = []")
  case True
  then show ?thesis using assms(2) scan_fraction_char [of "CHR ''e''"] by (cases r) (auto simp: scan_fraction_def)
next
  case False
  have "r = [] \<or> \<not> is_digit (hd r)" using assms(2) by auto
  from scan_digits_all [OF assms(1) False this] show ?thesis using False by (simp add: scan_fraction_def)
qed

lemma scan_whole:
  assumes "whole_part ds" "r = [] \<or> \<not> is_digit (hd r)"
  shows "scan_integer (ds @ r) = Inr (ds, r)"
proof (cases "ds = ''0''")
  case True then show ?thesis using assms(2) by (auto simp: scan_integer_def)
next
  case False
  obtain c cs where c: "ds = c # cs" using assms(1) by (cases ds) (auto simp: whole_part_def)
  have "is_digit c" "c \<noteq> CHR ''0''" "all_digits ds" using assms(1) False c by (auto simp: whole_part_def all_digits_def)
  then show ?thesis using digits_split [OF _ assms(2), of ds] by (simp add: scan_integer_def c)
qed

lemma scan_number_literal:
  assumes ds: "whole_part ds" and fs: "all_digits fs"
  shows "scan_number (literal ds fs expo) = Inr (literal ds fs expo, [])"
    and "scan_number (CHR ''-'' # literal ds fs expo) = Inr (CHR ''-'' # literal ds fs expo, [])"
proof -
  define r where "r = (case expo of None \<Rightarrow> [] | Some e \<Rightarrow> exponent_text e)"
  let ?f = "if fs = [] then [] else CHR ''.'' # fs"
  have r: "r = [] \<or> hd r = CHR ''e''" "scan_exponent r = Inr (r, [])" using expo_head scan_expo by (auto simp: r_def)
  have "?f @ r = [] \<or> \<not> is_digit (hd (?f @ r))" using r(1) by auto
  note int = scan_whole [OF ds this] and frac = scan_fraction_literal [OF fs r(1)]
  have "ds \<noteq> []" "is_digit (hd ds)" using ds by (cases ds; auto simp: whole_part_def all_digits_def)+
  then have h: "ds @ ?f @ r \<noteq> []" "hd (ds @ ?f @ r) \<noteq> CHR ''-''" by (cases ds; auto)+
  have l: "literal ds fs expo = ds @ ?f @ r" by (simp only: literal_def r_def)
  show "scan_number (literal ds fs expo) = Inr (literal ds fs expo, [])"
    unfolding l scan_number_def Let_def using h by (simp only: simp_thms if_False drop_0 list.size int frac r(2) sum.case prod.case append_Nil) 
  show "scan_number (CHR ''-'' # literal ds fs expo) = Inr (CHR ''-'' # literal ds fs expo, [])"
    unfolding l scan_number_def Let_def by (simp only: list.sel simp_thms if_True list.size drop_Suc_Cons drop_0 plus_nat.add_Suc plus_nat.add_0 add_Suc int frac r(2) sum.case prod.case append_Cons append_Nil list.distinct One_nat_def)
qed

section \<open>The value of a literal\<close>

lemma digits_value_append: "digits_value (as @ bs) = digits_value as * 10 ^ length bs + digits_value bs"
  by (induction bs rule: rev_induct) (simp_all add: digits_value_snoc digits_value_def [of "[]"] algebra_simps flip: append_assoc)

lemma digits_value_zeros: "digits_value (replicate k CHR ''0'') = 0"
  by (induction k) (simp_all add: digits_value_def digit_value_def)

definition literal_value :: "string \<Rightarrow> string \<Rightarrow> int option \<Rightarrow> rat" where
  "literal_value ds fs expo = of_int (digits_value (ds @ fs)) * pow10 ((case expo of None \<Rightarrow> 0 | Some e \<Rightarrow> e) - int (length fs))"

lemma decimal_value_literal:
  assumes ds: "whole_part ds" and fs: "all_digits fs"
  shows "decimal_value (literal ds fs expo) = literal_value ds fs expo"
    and "decimal_value (CHR ''-'' # literal ds fs expo) = - literal_value ds fs expo"
proof -
  define r where "r = (case expo of None \<Rightarrow> [] | Some e \<Rightarrow> exponent_text e)"
  let ?f = "if fs = [] then [] else CHR ''.'' # fs"
  have r: "r = [] \<or> hd r = CHR ''e''" using expo_head by (auto simp: r_def)
  have "?f @ r = [] \<or> \<not> is_digit (hd (?f @ r))" using r(1) by auto
  from digits_split [OF _ this, of ds] have d: "takeWhile is_digit (ds @ ?f @ r) = ds" "dropWhile is_digit (ds @ ?f @ r) = ?f @ r"
    using ds by (simp_all add: whole_part_def)
  have "r = [] \<or> \<not> is_digit (hd r)" using r by auto
  from digits_split [OF fs this] have f: "takeWhile is_digit (fs @ r) = fs" "dropWhile is_digit (fs @ r) = r" by simp_all
  have "ds \<noteq> []" "is_digit (hd ds)" using ds by (cases ds; auto simp: whole_part_def all_digits_def)+
  then have h: "ds @ ?f @ r \<noteq> []" "hd (ds @ ?f @ r) \<noteq> CHR ''-''" by (cases ds; auto)+
  have l: "literal ds fs expo = ds @ ?f @ r" by (simp only: literal_def r_def)
  have "decimal_value (ds @ ?f @ r) = literal_value ds fs expo"
  proof (cases expo)
    case None
    then have "r = []" by (simp add: r_def)
    moreover have tw: "takeWhile is_digit ds = ds" "takeWhile is_digit fs = fs"
      using ds fs by (simp_all add: whole_part_def all_digits_def takeWhile_eq_all_conv)
    ultimately show ?thesis using h d f None by (cases "fs = []") (simp_all add: decimal_value_def literal_value_def Let_def tw)
  next
    case (Some e)
    then have "r = CHR ''e'' # (if e < 0 then CHR ''-'' else CHR ''+'') # exponent_digits e" by (simp add: r_def exponent_text_parts)
    then show ?thesis using h d f Some exponent_digits [of e]
      by (cases "fs = []"; cases "e < 0") (simp_all add: decimal_value_def literal_value_def Let_def)
  qed
  then show pos: "decimal_value (literal ds fs expo) = literal_value ds fs expo" unfolding l .
  have "decimal_value (CHR ''-'' # s) = - decimal_value s" if "s \<noteq> []" "hd s \<noteq> CHR ''-''" for s
    using that unfolding decimal_value_def by (simp add: Let_def)
  then show "decimal_value (CHR ''-'' # literal ds fs expo) = - literal_value ds fs expo" using pos h unfolding l by simp
qed

text \<open>Zeros at the end of the fraction do not count.\<close>

lemma strip_zeros_split: "\<exists>k. ds = strip_zeros ds @ replicate k CHR ''0''"
proof -
  let ?z = "\<lambda>c. c = CHR ''0''"
  have "rev ds = takeWhile ?z (rev ds) @ dropWhile ?z (rev ds)" by simp
  moreover have "takeWhile ?z (rev ds) = replicate (length (takeWhile ?z (rev ds))) CHR ''0''"
    by (rule replicate_length_same [symmetric]) (auto dest: set_takeWhileD)
  ultimately have "ds = rev (dropWhile ?z (rev ds)) @ rev (replicate (length (takeWhile ?z (rev ds))) CHR ''0'')"
    by (metis rev_append rev_rev_ident)
  then show ?thesis by (auto simp: strip_zeros_def)
qed

lemma pow10_add: "pow10 (a + b) = pow10 a * pow10 b"
proof -
  have "pow10 e = 10 powi e" for e by (simp add: pow10_def power_int_def inverse_eq_divide power_one_over)
  then show ?thesis by (simp add: power_int_add)
qed

lemma pow10_pos [simp]: "0 < pow10 e"
  by (simp add: pow10_def)

lemma pow10_nat: "pow10 (int k) = 10 ^ k"
  by (simp add: pow10_def)

lemma literal_value_strip: "literal_value ds (strip_zeros fs) expo = literal_value ds fs expo"
proof -
  obtain k where k: "fs = strip_zeros fs @ replicate k CHR ''0''" using strip_zeros_split by blast
  let ?s = "strip_zeros fs" and ?e = "case expo of None \<Rightarrow> 0 | Some e \<Rightarrow> e"
  have "digits_value (ds @ fs) = digits_value (ds @ ?s) * 10 ^ k"
    by (subst k) (simp only: append_assoc [symmetric] digits_value_append [of "ds @ ?s"] digits_value_zeros length_replicate add_0_right)
  moreover have "length fs = length ?s + k" by (subst k) simp
  moreover have "pow10 (?e - int (length ?s)) = 10 ^ k * pow10 (?e - int (length ?s + k))"
    using pow10_add [of "int k" "?e - int (length ?s + k)"] by (simp add: pow10_nat)
  ultimately show ?thesis unfolding literal_value_def by (simp add: mult_ac)
qed

section \<open>Significant digits\<close>

lemma nat_text_length: "0 < n \<Longrightarrow> 10 ^ (length (nat_text n) - 1) \<le> n \<and> n < 10 ^ length (nat_text n)"
proof (induction n rule: nat_text.induct)
  case (1 n)
  show ?case
  proof (cases "n < 10")
    case True then show ?thesis using "1.prems" by (subst (1 2) nat_text.simps) simp
  next
    case False
    then have t: "length (nat_text n) = Suc (length (nat_text (n div 10)))" by (subst nat_text.simps) simp
    have pos: "0 < n div 10" using False by simp
    from "1.IH" [OF False pos] have b: "10 ^ (length (nat_text (n div 10)) - 1) \<le> n div 10" "n div 10 < 10 ^ length (nat_text (n div 10))" by simp_all
    obtain k where k: "length (nat_text (n div 10)) = Suc k" using nat_text_facts [of "n div 10"] by (cases "nat_text (n div 10)") auto
    have "10 * 10 ^ k \<le> n" "n < 10 * 10 ^ Suc k" using b unfolding k by simp_all
    then show ?thesis unfolding t k by simp
  qed
qed

lemma decimal_exponent_bracket:
  assumes "0 < x"
  shows "pow10 (decimal_exponent x) \<le> x \<and> x < pow10 (decimal_exponent x + 1)"
proof -
  obtain p q where pq: "quotient_of x = (p, q)" by (cases "quotient_of x")
  have x: "x = of_int p / of_int q" "0 < q" using quotient_of_div [OF pq] quotient_of_denom_pos [OF pq] by auto
  then have p: "0 < p" using assms by (simp add: zero_less_divide_iff)
  define k where "k = length (nat_text (nat p))"
  define l where "l = length (nat_text (nat q))"
  have kl: "0 < k" "0 < l" using nat_text_facts by (auto simp: k_def l_def)
  have bound: "(10::rat) ^ (n - 1) \<le> of_int i \<and> of_int i < (10::rat) ^ n" if "0 < i" "n = length (nat_text (nat i))" for i n
  proof -
    have "10 ^ (n - 1) \<le> nat i \<and> nat i < 10 ^ n" using nat_text_length [of "nat i"] that by simp
    then have "int (10 ^ (n - 1)) \<le> i \<and> i < int (10 ^ n)" using that(1) by linarith
    then have "of_int (int (10 ^ (n - 1))) \<le> (of_int i :: rat) \<and> of_int i < (of_int (int (10 ^ n)) :: rat)"
      by (simp only: of_int_le_iff of_int_less_iff)
    then show ?thesis by simp
  qed
  have P: "pow10 (int k - 1) \<le> of_int p" "of_int p < pow10 (int k)"
    using bound [OF p k_def] pow10_nat [of "k - 1"] kl by (simp_all add: pow10_nat of_nat_diff)
  have Q: "pow10 (int l - 1) \<le> of_int q" "of_int q < pow10 (int l)"
    using bound [OF x(2) l_def] pow10_nat [of "l - 1"] kl by (simp_all add: pow10_nat of_nat_diff)
  have xq: "x * of_int q = of_int p" using x by simp
  have "pow10 (int k - int l - 1) * of_int q \<le> pow10 (int k - int l - 1) * pow10 (int l)"
    using Q(2) by (intro mult_left_mono) (simp_all add: less_imp_le)
  also have "\<dots> = pow10 (int k - 1)" by (simp flip: pow10_add)
  also have "\<dots> \<le> x * of_int q" using P(1) xq by simp
  finally have low: "pow10 (int k - int l - 1) \<le> x" using x(2) by simp
  have "x * of_int q < pow10 (int k)" using P(2) xq by simp
  also have "\<dots> = pow10 (int k - int l + 1) * pow10 (int l - 1)" by (simp flip: pow10_add)
  also have "\<dots> \<le> pow10 (int k - int l + 1) * of_int q" using Q(1) by (intro mult_left_mono) (simp_all add: less_imp_le)
  finally have high: "x < pow10 (int k - int l + 1)" using x(2) by simp
  have e: "decimal_exponent x = (if pow10 (int k - int l) \<le> x then int k - int l else int k - int l - 1)"
    by (simp add: decimal_exponent_def pq k_def l_def Let_def)
  show ?thesis using low high by (simp add: e)
qed

lemma round_even_ge: "of_int n \<le> x \<Longrightarrow> n \<le> round_even x"
proof -
  assume "of_int n \<le> x"
  then have "n \<le> \<lfloor>x\<rfloor>" by (simp add: le_floor_iff)
  then show ?thesis by (auto simp: round_even_def Let_def)
qed

text \<open>The value of the digits that are written, and how far it is from the number.\<close>

definition written_value :: "nat \<Rightarrow> rat \<Rightarrow> rat" where
  "written_value n x = (case significant n x of (m, e) \<Rightarrow> of_int m * pow10 (e - int (n - 1)))"

lemma significant_digits:
  assumes x: "0 < x" and n: "0 < n" and me: "significant n x = (m, e)"
  shows "10 ^ (n - 1) \<le> m" "m < 10 ^ n" "\<bar>written_value n x - x\<bar> \<le> x / (2 * 10 ^ (n - 1))"
proof -
  define d where "d = decimal_exponent x"
  define u where "u = pow10 (d - int (n - 1))"
  define r where "r = round_even (x / u)"
  note bracket = decimal_exponent_bracket [OF x]
  have u: "0 < u" by (simp add: u_def)
  have unit: "10 ^ (n - 1) * u = pow10 d" using pow10_add [of "int (n - 1)" "d - int (n - 1)"] by (simp add: u_def pow10_nat)
  have "10 ^ n * u = pow10 (d + 1)"
  proof -
    have "int n + (d - int (n - 1)) = d + 1" using n by simp
    then show ?thesis using pow10_add [of "int n" "d - int (n - 1)"] by (simp add: u_def pow10_nat)
  qed
  then have "of_int (10 ^ (n - 1)) \<le> x / u" "x / u \<le> of_int (10 ^ n)"
    using bracket unit u by (simp_all add: d_def [symmetric] pos_le_divide_eq pos_divide_le_eq)
  then have r: "10 ^ (n - 1) \<le> r" "r \<le> 10 ^ n" using round_even_ge round_even_le unfolding r_def by blast+
  have s: "significant n x = (if 10 ^ n \<le> r then (r div 10, d + 1) else (r, d))"
    by (simp add: significant_def Let_def r_def u_def d_def)
  have ten: "(10::int) ^ n = 10 * 10 ^ (n - 1)" using n by (cases n) simp_all
  have v: "written_value n x = of_int r * u"
  proof (cases "10 ^ n \<le> r")
    case True
    then have "r = 10 ^ n" using r by simp
    then have "r = 10 * (r div 10)" using ten by simp
    then have "of_int r * u = of_int (r div 10) * (10 * u)" by (metis mult.assoc mult.commute of_int_mult of_int_numeral)
    moreover have "10 * u = pow10 (d + 1 - int (n - 1))" using pow10_add [of 1 "d - int (n - 1)"] by (simp add: u_def pow10_def [of 1] add.commute add_diff_eq)
    ultimately show ?thesis using True by (simp add: written_value_def s)
  next
    case False then show ?thesis by (simp add: written_value_def s u_def)
  qed
  have tenth: "(10::int) ^ n div 10 = 10 ^ (n - 1)" "(10::int) ^ (n - 1) < 10 ^ n" using n by (cases n; simp)+
  have "m = 10 ^ (n - 1) \<or> m = r \<and> r < 10 ^ n"
  proof (cases "10 ^ n \<le> r")
    case True
    then have "r = 10 ^ n" using r by simp
    then show ?thesis using True me tenth(1) by (simp add: s)
  qed (use me in \<open>simp add: s\<close>)
  then show "10 ^ (n - 1) \<le> m" "m < 10 ^ n" using r tenth(2) by auto
  have "written_value n x - x = (of_int r - x / u) * u" using u by (simp add: v left_diff_distrib)
  then have "\<bar>written_value n x - x\<bar> = \<bar>of_int r - x / u\<bar> * u" using u by (simp add: abs_mult)
  also have "\<dots> \<le> 1 / 2 * u" unfolding r_def using u by (intro mult_right_mono round_even_error) simp
  also have "\<dots> = pow10 d / (2 * 10 ^ (n - 1))" using unit [symmetric] by simp
  also have "\<dots> \<le> x / (2 * 10 ^ (n - 1))" using bracket by (intro divide_right_mono) (simp_all add: d_def)
  finally show "\<bar>written_value n x - x\<bar> \<le> x / (2 * 10 ^ (n - 1))" .
qed

section \<open>What is written\<close>

lemma all_digits_simps [simp]:
  "all_digits []" "all_digits (c # ds) \<longleftrightarrow> is_digit c \<and> all_digits ds" "all_digits (as @ bs) \<longleftrightarrow> all_digits as \<and> all_digits bs"
  by (auto simp: all_digits_def)

lemma all_digits_take: "all_digits ds \<Longrightarrow> all_digits (take k ds) \<and> all_digits (drop k ds)"
  by (auto simp: all_digits_def dest: in_set_takeD in_set_dropD)

lemma all_digits_strip: "all_digits ds \<Longrightarrow> all_digits (strip_zeros ds)"
  by (auto simp: all_digits_def strip_zeros_def dest: set_dropWhileD)

lemma with_point_literal: "ds @ with_point fs = literal ds (strip_zeros fs) None"
  "ds @ with_point fs @ exponent_text e = literal ds (strip_zeros fs) (Some e)"
  by (simp_all add: literal_def with_point_def)

lemma zero_digit [simp]: "is_digit (CHR ''0'')"
  by (simp add: is_digit_def)

lemma digits_value_zero: "digits_value (CHR ''0'' # replicate k CHR ''0'' @ ds) = digits_value ds"
  using digits_value_append [of "replicate (Suc k) CHR ''0''" ds] digits_value_zeros [of "Suc k"] by simp

lemma general_text_literal:
  assumes "x \<noteq> 0" "0 < n"
  obtains ds fs expo where "whole_part ds" "all_digits fs" "literal_value ds fs expo = written_value n \<bar>x\<bar>"
    "general_text n x = (if x < 0 then ''-'' else []) @ literal ds fs expo"
proof -
  obtain m e where me: "significant n \<bar>x\<bar> = (m, e)" by (cases "significant n \<bar>x\<bar>")
  have x: "0 < \<bar>x\<bar>" using assms(1) by simp
  define ds where "ds = nat_text (nat m)"
  note sig = significant_digits [OF x assms(2) me]
  have "0 < m" using sig(1) by (rule less_le_trans [rotated]) simp
  then have dsf: "ds \<noteq> []" "all_digits ds" "digits_value ds = m" "hd ds \<noteq> CHR ''0''"
    using nat_text_facts [of "nat m"] by (auto simp: ds_def all_digits_def)
  have len: "length ds = n"
  proof -
    have b: "10 ^ (length ds - 1) \<le> m" "m < 10 ^ length ds" 
    proof -
      have "10 ^ (length ds - 1) \<le> nat m \<and> nat m < 10 ^ length ds" using nat_text_length [of "nat m"] \<open>0 < m\<close> by (simp add: ds_def)
      then have "int (10 ^ (length ds - 1)) \<le> m \<and> m < int (10 ^ length ds)" using \<open>0 < m\<close> by linarith
      then show "10 ^ (length ds - 1) \<le> m" "m < 10 ^ length ds" by simp_all
    qed
    have "(10::int) ^ (length ds - 1) < 10 ^ n" "(10::int) ^ (n - 1) < 10 ^ length ds" using b sig(1,2) by linarith+
    then have "length ds - 1 < n" "n - 1 < length ds" by (simp_all only: power_strict_increasing_iff [of "10::int"])
    then show ?thesis using assms(2) dsf(1) by (cases ds) auto
  qed
  have w: "written_value n \<bar>x\<bar> = of_int m * pow10 (e - int (n - 1))" by (simp add: written_value_def me)
  have g: "general_text n x = (if x < 0 then ''-'' else []) @
      (if e < - 4 \<or> e \<ge> int n then [hd ds] @ with_point (tl ds) @ exponent_text e
       else if e \<ge> 0 then take (nat e + 1) ds @ with_point (drop (nat e + 1) ds)
       else ''0'' @ with_point (replicate (nat (- e) - 1) CHR ''0'' @ ds))"
    using assms(1) by (simp add: general_text_def me ds_def Let_def)
  consider (exponent) "e < - 4 \<or> e \<ge> int n" | (point) "0 \<le> e" "e < int n" | (zeros) "- 4 \<le> e" "e < 0" by linarith
  then show thesis
  proof cases
    case exponent
    have v: "literal_value [hd ds] (strip_zeros (tl ds)) (Some e) = written_value n \<bar>x\<bar>"
      unfolding literal_value_strip using dsf len by (simp add: literal_value_def w)
    have "is_digit (hd ds)" "all_digits (tl ds)" using dsf(1,2) by (cases ds; simp)+
    then show thesis using exponent dsf v all_digits_strip [of "tl ds"]
      by (intro that [of "[hd ds]" "strip_zeros (tl ds)" "Some e"]) (auto simp: whole_part_def g with_point_literal)
  next
    case point
    define k where "k = nat e + 1"
    have k: "0 < k" "k \<le> n" "int k = e + 1" using point by (simp_all add: k_def)
    have "e - int (n - 1) = - int (n - k)" using k assms(2) by linarith
    then have v: "literal_value (take k ds) (strip_zeros (drop k ds)) None = written_value n \<bar>x\<bar>"
      unfolding literal_value_strip using dsf(3) len by (simp add: literal_value_def w)
    have "whole_part (take k ds)" using dsf k by (cases ds; cases k) (auto simp: whole_part_def all_digits_take)
    moreover have "all_digits (strip_zeros (drop k ds))" using all_digits_take [OF dsf(2)] all_digits_strip by blast
    ultimately show thesis using point v
      by (intro that [of "take k ds" "strip_zeros (drop k ds)" None]) (auto simp: g with_point_literal k_def)
  next
    case zeros
    let ?fs = "replicate (nat (- e) - 1) CHR ''0'' @ ds"
    have "int (length ?fs) = - e - 1 + int n" using zeros len by simp
    then have "- int (length ?fs) = e - int (n - 1)" using assms(2) by linarith
    then have v: "literal_value ''0'' (strip_zeros ?fs) None = written_value n \<bar>x\<bar>"
      unfolding literal_value_strip using dsf(3) by (simp add: literal_value_def w digits_value_zero)
    have "all_digits (strip_zeros ?fs)" using dsf(2) by (intro all_digits_strip) (auto simp: all_digits_def)
    moreover have "whole_part ''0''" by (simp add: whole_part_def)
    ultimately show thesis using zeros v
      by (intro that [of "''0''" "strip_zeros ?fs" None]) (auto simp: g with_point_literal)
  qed
qed

definition written :: "nat \<Rightarrow> rat \<Rightarrow> rat" where
  "written n x = (if x = 0 then 0 else if x < 0 then - written_value n \<bar>x\<bar> else written_value n \<bar>x\<bar>)"

lemma general_text_number:
  assumes "0 < n"
  shows "scan_number (general_text n x) = Inr (general_text n x, [])" "decimal_value (general_text n x) = written n x"
proof -
  have zero: "scan_number ''0'' = Inr (''0'', [])" "decimal_value ''0'' = 0" by code_simp+
  show "scan_number (general_text n x) = Inr (general_text n x, [])"
  proof (cases "x = 0")
    case False
    obtain ds fs expo where l: "whole_part ds" "all_digits fs"
      "general_text n x = (if x < 0 then ''-'' else []) @ literal ds fs expo" using general_text_literal [OF False assms] .
    show ?thesis unfolding l(3) using scan_number_literal [OF l(1,2)] by simp
  qed (simp add: general_text_def zero)
  show "decimal_value (general_text n x) = written n x"
  proof (cases "x = 0")
    case False
    obtain ds fs expo where l: "whole_part ds" "all_digits fs" "literal_value ds fs expo = written_value n \<bar>x\<bar>"
      "general_text n x = (if x < 0 then ''-'' else []) @ literal ds fs expo" using general_text_literal [OF False assms] .
    show ?thesis using False l(3) decimal_value_literal [OF l(1,2)] by (simp add: l(4) written_def)
  qed (simp add: general_text_def written_def zero)
qed

section \<open>Reading back\<close>

text \<open>Durations that a double and its digits can hold.\<close>

definition printable :: "rat \<Rightarrow> bool" where
  "printable x \<longleftrightarrow> x = 0 \<or> 1 / 10 ^ 300 \<le> x \<and> x \<le> 10 ^ 300"

lemma range_constants: "pow2 (- 1022) \<le> 1 / (2 * 10 ^ 300)" "4 * 10 ^ 300 < pow2 1024"
proof -
  have "(2 * 10 ^ 300 :: rat) \<le> 2 ^ 1022" by simp
  then have "1 / 2 ^ 1022 \<le> 1 / (2 * 10 ^ 300 :: rat)" by (intro divide_left_mono) simp_all
  then show "pow2 (- 1022) \<le> 1 / (2 * 10 ^ 300)" by (simp add: pow2_def)
  have "(4 * 10 ^ 300 :: rat) < 2 ^ 1024" by simp
  then show "4 * 10 ^ 300 < pow2 1024" by (simp add: pow2_def)
qed

lemma stod_general:
  assumes "printable x" "2 \<le> n" "n \<le> 15"
  shows "\<exists>y. stod (general_text n x) = Some y \<and> \<bar>y - x\<bar> \<le> x / 10 ^ (n - 1)"
proof (cases "x = 0")
  case True
  have "stod ''0'' = Some 0" by code_simp
  then show ?thesis by (simp add: True general_text_def)
next
  case False
  have x: "1 / 10 ^ 300 \<le> x" "x \<le> 10 ^ 300" using assms(1) False by (simp_all add: printable_def)
  have pos: "0 < x" using x(1) by (rule less_le_trans [rotated]) simp
  obtain m e where me: "significant n x = (m, e)" by (cases "significant n x")
  define w where "w = written_value n x"
  have ten: "(10::rat) \<le> 10 ^ (n - 1)" "(10::rat) ^ (n - 1) \<le> 10 ^ 14"
    using power_increasing [of 1 "n - 1" "10::rat"] power_increasing [of "n - 1" 14 "10::rat"] assms(2,3) by simp_all
  have near: "\<bar>w - x\<bar> \<le> x / (2 * 10 ^ (n - 1))" unfolding w_def using significant_digits(3) [OF pos _ me] assms(2) by simp
  also have "\<dots> \<le> x / 20" using pos ten(1) by (intro divide_left_mono) simp_all
  finally have w: "x / 2 \<le> w" "w \<le> 2 * x" using pos by linarith+
  have low: "pow2 (- 1022) \<le> w"
  proof -
    have "1 / (2 * 10 ^ 300) \<le> x / 2" using x(1) by simp
    then show ?thesis using range_constants(1) w(1) by linarith
  qed
  note d = dbl_error [OF low]
  have wpos: "0 < w" using w(1) pos by linarith
  have "w / 2 ^ 53 \<le> w / 2" using wpos by (intro divide_left_mono) simp_all
  then have big: "w / 2 \<le> dbl w" "dbl w \<le> 2 * w" using d by linarith+
  have "dbl w < pow2 1024" using big(2) w(2) x(2) range_constants(2) by linarith
  moreover have "pow2 (- 1022) \<le> dbl w"
  proof -
    have bits: "pow2 (- 1022) \<le> pow2 (- 1021)" by (rule pow2_mono) simp
    have "pow2 (- 1021) \<le> 1 / (4 * 10 ^ 300)"
    proof -
      have "(4 * 10 ^ 300 :: rat) \<le> 2 ^ 1021" by simp
      then have "1 / 2 ^ 1021 \<le> 1 / (4 * 10 ^ 300 :: rat)" by (intro divide_left_mono) simp_all
      then show ?thesis by (simp add: pow2_def)
    qed
    moreover have "1 / (4 * 10 ^ 300) \<le> x / 4" using x(1) by simp
    ultimately show ?thesis using bits big(1) w(1) by linarith
  qed
  moreover have "decimal_value (general_text n x) = w"
    using general_text_number(2) [of n x] assms(2) pos by (simp add: written_def w_def)
  ultimately have "stod (general_text n x) = Some (dbl w)"
    using big(1) wpos by (simp add: stod_def Let_def flip: dbl_def)
  moreover have "\<bar>dbl w - x\<bar> \<le> x / 10 ^ (n - 1)"
  proof -
    have "w / 2 ^ 53 \<le> 2 * x / 2 ^ 53" using w(2) by (intro divide_right_mono) simp_all
    also have "\<dots> = x / 2 ^ 52" by simp
    also have "\<dots> \<le> x / (2 * 10 ^ (n - 1))" using pos ten(2) by (intro divide_left_mono) simp_all
    finally have "w / 2 ^ 53 \<le> x / (2 * 10 ^ (n - 1))" .
    then have "\<bar>dbl w - x\<bar> \<le> x / (2 * 10 ^ (n - 1)) + x / (2 * 10 ^ (n - 1))" using d near by linarith
    then show ?thesis by (simp add: field_simps)
  qed
  ultimately show ?thesis by blast
qed

end
