(* ===== verification/RF_Moe.thy ===== *)
theory RF_Moe
  imports RF_SpikeReport RF_JsonPrint
begin

text \<open>
  The recorder of routed experts (src/tools/moe_trace.cpp): for each request of a workload the
  prompt is decoded token by token and an answer is generated greedily; a callback on the graph's
  tensors captures which experts each layer selects for the token. llama.cpp and ggml are
  parameters; \<open>'c\<close> is the context with its sampler.
\<close>

section \<open>Options\<close>

record moe_options =
  mo_model_path :: string
  mo_data_path :: string
  mo_out_prefix :: string
  mo_limit :: nat
  mo_gpu_layers :: int
  mo_ctx_size :: int
  mo_max_tokens_override :: int

definition default_moe :: moe_options where
  "default_moe = \<lparr>mo_model_path = [], mo_data_path = [], mo_out_prefix = [], mo_limit = 0, mo_gpu_layers = 99,
     mo_ctx_size = 8192, mo_max_tokens_override = - 1\<rparr>"

definition set_moe_option :: "string \<Rightarrow> string \<Rightarrow> moe_options \<Rightarrow> string + moe_options" where
  "set_moe_option a v o1 =
     (if a = ''-m'' \<or> a = ''--model'' then Inr (o1\<lparr>mo_model_path := v\<rparr>)
      else if a = ''--data'' then Inr (o1\<lparr>mo_data_path := v\<rparr>)
      else if a = ''--out'' then Inr (o1\<lparr>mo_out_prefix := v\<rparr>)
      else if a = ''--limit'' then map_sum id (\<lambda>n. o1\<lparr>mo_limit := n\<rparr>) (stoul v)
      else if a = ''-ngl'' then map_sum id (\<lambda>n. o1\<lparr>mo_gpu_layers := n\<rparr>) (stoi v)
      else if a = ''-c'' \<or> a = ''--ctx-size'' then map_sum id (\<lambda>n. o1\<lparr>mo_ctx_size := n\<rparr>) (stoi v)
      else map_sum id (\<lambda>n. o1\<lparr>mo_max_tokens_override := n\<rparr>) (stoi v))"

fun moe_arguments :: "string list \<Rightarrow> moe_options \<Rightarrow> string + moe_options" where
  "moe_arguments [] o1 = Inr o1"
| "moe_arguments (a # rest) o1 =
     (if a \<in> {''-m'', ''--model'', ''--data'', ''--out'', ''--limit'', ''-ngl'', ''-c'', ''--ctx-size'', ''--max-tokens''} then
        (case rest of
           [] \<Rightarrow> Inl (''missing value for '' @ a)
         | v # rest' \<Rightarrow> (case set_moe_option a v o1 of Inl e \<Rightarrow> Inl e | Inr o2 \<Rightarrow> moe_arguments rest' o2))
      else Inl (''unknown argument: '' @ a))"

definition parse_moe_args :: "string list \<Rightarrow> string + moe_options" where
  "parse_moe_args arguments =
     (case moe_arguments arguments default_moe of
        Inl e \<Rightarrow> Inl e
      | Inr o1 \<Rightarrow>
          if mo_model_path o1 = [] \<or> mo_data_path o1 = [] \<or> mo_out_prefix o1 = []
          then Inl (''usage: moe_trace -m MODEL --data WORKLOAD.jsonl --out PREFIX [--limit N] [--max-tokens N] [-c CTX] [-ngl N]'')
          else Inr o1)"

section \<open>The capture of the routing\<close>

text \<open>
  A tensor as the callback sees it: name, layout, the sizes of its first two dimensions, and its
  elements row by row.
\<close>

record tensor =
  t_name :: string
  t_is_i32 :: bool
  t_contiguous :: bool
  t_ne0 :: int
  t_ne1 :: int
  t_data :: "int list"

text \<open>\<open>std::map\<close> is an association list in the order of its keys.\<close>

type_synonym layer_rows = "(int \<times> 8 word list) list"

record capture =
  cap_n_expert :: int
  cap_k :: int
  cap_n_tokens :: int
  cap_by_layer :: layer_rows

fun put_layer :: "int \<Rightarrow> 'a \<Rightarrow> (int \<times> 'a) list \<Rightarrow> (int \<times> 'a) list" where
  "put_layer l r [] = [(l, r)]"
| "put_layer l r ((l', r') # m) =
     (if l < l' then (l, r) # (l', r') # m else if l = l' then (l, r) # m else (l', r') # put_layer l r m)"

definition tensor_prefix :: string where
  "tensor_prefix = ''ffn_moe_argsort-''"

text \<open>
  The first \<open>k\<close> of the experts of each token. With more experts used than there are the last row is
  read behind its end; a negative \<open>k\<close> makes the resize throw.
\<close>

definition expert_rows :: "nat \<Rightarrow> nat \<Rightarrow> nat \<Rightarrow> int list \<Rightarrow> 8 word list" where
  "expert_rows n_expert k n_tokens ids =
     concat (map (\<lambda>tok. map (\<lambda>j. word_of_int (ids ! (tok * n_expert + j))) [0..<k]) [0..<n_tokens])"

definition on_tensor :: "tensor \<Rightarrow> bool \<Rightarrow> capture \<Rightarrow> (bool \<times> capture) outcome" where
  "on_tensor t ask cap =
     (if take 16 (t_name t) \<noteq> tensor_prefix then yields (\<not> ask, cap)
      else if ask then yields (True, cap)
      else if \<not> t_is_i32 t \<or> \<not> t_contiguous t then fail (''unexpected tensor layout for '' @ t_name t)
      else case atoi (drop 16 (t_name t)) of
        None \<Rightarrow> None
      | Some layer \<Rightarrow>
          let n_expert = t_ne0 t; n_tokens = t_ne1 t; k = cap_k cap in
          if n_expert > 256 then fail ''n_expert > 256 does not fit in uint8 trace''
          else if n_expert < 0 \<or> n_tokens < 0 \<or> int (length (t_data t)) < n_expert * n_tokens then None
          else if k < 0 \<and> n_tokens > 0 then fail ''vector::_M_default_append''
          else if k > n_expert \<and> n_tokens > 0 then None
          else yields (True, cap\<lparr>cap_n_expert := n_expert, cap_n_tokens := n_tokens,
                 cap_by_layer := put_layer layer (expert_rows (nat n_expert) (nat k) (nat n_tokens) (t_data t)) (cap_by_layer cap)\<rparr>))"

text \<open>
  The scheduler of ggml asks for each tensor whether the callback wants it, and calls it again with
  the computed tensor; it stops when that call says no.
\<close>

fun graph_callbacks :: "tensor list \<Rightarrow> capture \<Rightarrow> capture outcome" where
  "graph_callbacks [] cap = yields cap"
| "graph_callbacks (t # ts) cap =
     proceed (on_tensor t True cap) (\<lambda>(wanted, cap1).
       if wanted then proceed (on_tensor t False cap1) (\<lambda>(go_on, cap2). if go_on then graph_callbacks ts cap2 else yields cap2)
       else graph_callbacks ts cap1)"

definition moe_escape :: "string \<Rightarrow> string" where
  "moe_escape s = concat (map escape_char s)"

section \<open>Requests\<close>

record moe_request =
  mr_id :: string
  mr_family :: string
  mr_agent :: string
  mr_turn :: int
  mr_max_tokens :: int
  mr_messages :: "(string \<times> string) list"

text \<open>A conversion out of the range of \<open>int\<close> is undefined.\<close>

definition to_int32 :: "rat \<Rightarrow> int option" where
  "to_int32 x = (let i = truncate_rat x in if - 2147483648 \<le> i \<and> i \<le> 2147483647 then Some i else None)"

definition int_member :: "json \<Rightarrow> string \<Rightarrow> int \<Rightarrow> int option" where
  "int_member j key otherwise = (if json_contains j key then to_int32 (as_number (json_member j key)) else Some otherwise)"

definition read_moe_request :: "moe_options \<Rightarrow> string \<Rightarrow> moe_request outcome" where
  "read_moe_request o1 line =
     proceed (json_parse line) (\<lambda>j.
     proceed (map_option Inr (int_member j ''turn'' 0)) (\<lambda>turn.
     proceed (map_option Inr (int_member j ''max_tokens'' 128)) (\<lambda>max_tokens.
       let family = as_string (json_member j ''family'');
           r = \<lparr>mr_id = as_string (json_member j ''id''), mr_family = family,
                mr_agent = (if json_contains j ''agent'' then as_string (json_member j ''agent'') else family),
                mr_turn = turn,
                mr_max_tokens = (if mo_max_tokens_override o1 \<ge> 0 then mo_max_tokens_override o1 else max_tokens),
                mr_messages = map (\<lambda>m. (as_string (json_member m ''role''), as_string (json_member m ''content'')))
                  (as_array (json_member j ''messages''))\<rparr> in
       if mr_id r = [] \<or> mr_messages r = [] then fail (''request without id or messages: '' @ take 80 line) else yields r)))"

fun read_moe_lines :: "moe_options \<Rightarrow> nat \<Rightarrow> string list \<Rightarrow> moe_request list outcome" where
  "read_moe_lines o1 n [] = yields []"
| "read_moe_lines o1 n (line # lines) =
     (if line = [] then read_moe_lines o1 n lines
      else proceed (read_moe_request o1 line) (\<lambda>r.
        if mo_limit o1 \<noteq> 0 \<and> n + 1 \<ge> mo_limit o1 then yields [r]
        else proceed (read_moe_lines o1 (n + 1) lines) (\<lambda>rs. yields (r # rs))))"

definition read_moe_requests :: "moe_options \<Rightarrow> string option \<Rightarrow> moe_request list outcome" where
  "read_moe_requests o1 file_text =
     (case file_text of
        None \<Rightarrow> fail (''cannot open data file: '' @ mo_data_path o1)
      | Some text \<Rightarrow> read_moe_lines o1 0 (parts (CHR 0x0A) text))"

section \<open>llama.cpp\<close>

record 'c moe_api =
  moe_template :: "string option"
  moe_apply_template :: "string \<Rightarrow> (string \<times> string) list \<Rightarrow> nat \<Rightarrow> int \<times> string"
  moe_tokenize :: "string \<Rightarrow> nat \<Rightarrow> int \<times> token list"
  moe_piece :: "token \<Rightarrow> nat \<Rightarrow> int \<times> string"
  moe_decode_graph :: "batch_entry list \<Rightarrow> 'c \<Rightarrow> int \<times> tensor list \<times> 'c"
  moe_sample :: "'c \<Rightarrow> token \<times> 'c"
  moe_accept :: "token \<Rightarrow> 'c \<Rightarrow> 'c"
  moe_reset :: "'c \<Rightarrow> 'c"
  moe_clear :: "'c \<Rightarrow> 'c"
  moe_is_eog :: "token \<Rightarrow> bool"

definition render :: "'c moe_api \<Rightarrow> moe_request \<Rightarrow> string outcome" where
  "render api r =
     (case moe_template api of
        None \<Rightarrow> fail ''model has no chat template''
      | Some tmpl \<Rightarrow>
          let chat = map (\<lambda>(role, text). (c_str role, c_str text)) (mr_messages r);
              (n, written) = moe_apply_template api tmpl chat 16384;
              buf = overwrite written (replicate 16384 CHR 0x00);
              (n, buf) = (if n > 16384 then
                            (let (n2, written2) = moe_apply_template api tmpl chat (nat n) in
                             (n2, overwrite written2 (resize (nat n) CHR 0x00 buf)))
                          else (n, buf)) in
          if n < 0 then fail (''chat template failed for '' @ mr_id r)
          else if nat n > length buf then None else yields (take (nat n) buf))"

text \<open>A first call without a buffer only counts; a negative count cannot be a size.\<close>

definition moe_tokens :: "'c moe_api \<Rightarrow> string \<Rightarrow> token list outcome" where
  "moe_tokens api text =
     (let n = - fst (moe_tokenize api text 0) in
      if n < 0 then fail ''cannot create std::vector larger than max_size()''
      else let (n2, written) = moe_tokenize api text (nat n) in
        if n2 < 0 then fail ''tokenize failed'' else yields (overwrite written (replicate (nat n) 0)))"

definition piece_text :: "'c moe_api \<Rightarrow> token \<Rightarrow> string outcome" where
  "piece_text api tok =
     (let (n, written) = moe_piece api tok 256; buf = overwrite written (replicate 256 CHR 0x00) in
      if n > 0 then (if n > 256 then None else yields (take (nat n) buf)) else yields [])"

section \<open>Decoding with the trace\<close>

record 'c moe_state =
  ms_ctx :: 'c
  ms_cap :: capture
  ms_layers :: "int list"

text \<open>One token's experts in all layers, and the tokens of a decode.\<close>

fun layer_blocks :: "int list \<Rightarrow> nat \<Rightarrow> nat \<Rightarrow> layer_rows \<Rightarrow> 8 word list outcome" where
  "layer_blocks [] k tok rows = yields []"
| "layer_blocks (layer # layers) k tok rows =
     (case map_of rows layer of
        None \<Rightarrow> fail ''map::at''
      | Some row \<Rightarrow>
          if length row < (tok + 1) * k then None
          else proceed (layer_blocks layers k tok rows) (\<lambda>rest. yields (take k (drop (tok * k) row) @ rest)))"

fun token_blocks :: "int list \<Rightarrow> nat \<Rightarrow> nat list \<Rightarrow> layer_rows \<Rightarrow> 8 word list outcome" where
  "token_blocks layers k [] rows = yields []"
| "token_blocks layers k (tok # toks) rows =
     proceed (layer_blocks layers k tok rows) (\<lambda>b. proceed (token_blocks layers k toks rows) (\<lambda>bs. yields (b @ bs)))"

definition moe_decode ::
  "'c moe_api \<Rightarrow> token list \<Rightarrow> int \<Rightarrow> 8 word list \<Rightarrow> 'c moe_state \<Rightarrow> (8 word list \<times> 'c moe_state) outcome" where
  "moe_decode api toks pos trace st =
     (let n = length toks; cap0 = (ms_cap st)\<lparr>cap_by_layer := []\<rparr>;
          (rc, tensors, c) = moe_decode_graph api (spike_batch toks 0 pos) (ms_ctx st) in
      proceed (graph_callbacks tensors cap0) (\<lambda>cap.
        if rc \<noteq> 0 then fail (''llama_decode failed with code '' @ int_text rc)
        else if cap_n_tokens cap \<noteq> int n \<or> cap_by_layer cap = []
        then fail (''routing capture mismatch (expected '' @ nat_text n @ '', captured '' @ int_text (cap_n_tokens cap) @ '')'')
        else if ms_layers st \<noteq> [] \<and> length (cap_by_layer cap) \<noteq> length (ms_layers st)
        then fail ''MoE layer count changed between decodes''
        else
          let layers = (if ms_layers st = [] then map fst (cap_by_layer cap) else ms_layers st) in
          proceed (token_blocks layers (nat (cap_k cap)) [0..<n] (cap_by_layer cap)) (\<lambda>block.
            yields (trace @ block, \<lparr>ms_ctx = c, ms_cap = cap, ms_layers = layers\<rparr>))))"

fun moe_prefill ::
  "'c moe_api \<Rightarrow> token list \<Rightarrow> int \<Rightarrow> 8 word list \<Rightarrow> 'c moe_state \<Rightarrow> (8 word list \<times> 'c moe_state) outcome" where
  "moe_prefill api [] pos trace st = yields (trace, st)"
| "moe_prefill api (tok # toks) pos trace st =
     proceed (moe_decode api [tok] pos trace st) (\<lambda>(trace', st'). moe_prefill api toks (pos + 1) trace' st')"

text \<open>The last token that is allowed is emitted, but not decoded any more.\<close>

fun moe_generate ::
  "'c moe_api \<Rightarrow> nat \<Rightarrow> int \<Rightarrow> 8 word list \<Rightarrow> 'c moe_state \<Rightarrow> (token list \<times> string \<times> 8 word list \<times> 'c moe_state) outcome" where
  "moe_generate api 0 pos trace st = yields ([], [], trace, st)"
| "moe_generate api (Suc left) pos trace st =
     (let (tok, c) = moe_sample api (ms_ctx st); st1 = st\<lparr>ms_ctx := moe_accept api tok c\<rparr> in
      if moe_is_eog api tok then yields ([], [], trace, st1)
      else proceed (piece_text api tok) (\<lambda>text.
        if left = 0 then yields ([tok], text, trace, st1)
        else
          proceed (moe_decode api [tok] pos trace st1) (\<lambda>(trace', st2).
          proceed (moe_generate api left (pos + 1) trace' st2) (\<lambda>(toks, rest, trace'', st3).
            yields (tok # toks, text @ rest, trace'', st3)))))"

section \<open>A request\<close>

record moe_row =
  row_request :: moe_request
  row_prompt :: "token list"
  row_generated :: "token list"
  row_n_routed :: nat
  row_offset :: nat
  row_prefill_ms :: rat
  row_decode_ms :: rat
  row_text :: string
  row_trace :: "8 word list"

text \<open>
  \<open>None\<close> as the row: the prompt is too long and the request is skipped. A sum of prompt and limit
  out of the range of \<open>int\<close> is undefined, and so is the division when nothing was ever captured.
\<close>

definition run_request ::
  "'c moe_api \<Rightarrow> moe_options \<Rightarrow> rat \<times> rat \<Rightarrow> moe_request \<Rightarrow> nat \<Rightarrow> 'c moe_state \<Rightarrow> (moe_row option \<times> 'c moe_state) outcome" where
  "run_request api o1 elapsed r offset st =
     proceed (render api r) (\<lambda>text.
     proceed (moe_tokens api text) (\<lambda>prompt.
       if int (length prompt) + mr_max_tokens r > 2147483647 then None
       else if int (length prompt) + mr_max_tokens r > mo_ctx_size o1 then yields (None, st)
       else
         let st0 = st\<lparr>ms_ctx := moe_reset api (moe_clear api (ms_ctx st))\<rparr> in
         proceed (moe_prefill api prompt 0 [] st0) (\<lambda>(trace1, st1).
         proceed (moe_generate api (nat (mr_max_tokens r)) (int (length prompt)) trace1 st1) (\<lambda>(generated, text, trace, st2).
           let per_token = length (ms_layers st2) * nat (cap_k (ms_cap st2)) in
           if per_token = 0 then None
           else yields (Some \<lparr>row_request = r, row_prompt = prompt, row_generated = generated,
                  row_n_routed = length trace div per_token, row_offset = offset, row_prefill_ms = fst elapsed,
                  row_decode_ms = snd elapsed, row_text = text, row_trace = trace\<rparr>, st2)))))"

definition moe_row_text :: "moe_row \<Rightarrow> string" where
  \<open>moe_row_text row =
     (let r = row_request row in
      ''{"id":"'' @ moe_escape (mr_id r) @ ''","family":"'' @ moe_escape (mr_family r) @
      ''","agent":"'' @ moe_escape (mr_agent r) @ ''","turn":'' @ int_text (mr_turn r) @
      '',"n_prompt":'' @ nat_text (length (row_prompt row)) @ '',"n_gen":'' @ nat_text (length (row_generated row)) @
      '',"n_routed":'' @ nat_text (row_n_routed row) @ '',"offset":'' @ nat_text (row_offset row) @
      '',"prefill_ms":'' @ general_text 6 (row_prefill_ms row) @ '',"decode_ms":'' @ general_text 6 (row_decode_ms row) @
      '',"tokens":['' @ separated (map int_text (row_prompt row)) @ concat (map (\<lambda>tok. CHR '','' # int_text tok) (row_generated row)) @
      ''],"text":"'' @ moe_escape (row_text row) @ ''"}'' @ [CHR 0x0A])\<close>

text \<open>All requests: the rows, and the binary file in which the traces follow each other.\<close>

fun run_requests ::
  "'c moe_api \<Rightarrow> moe_options \<Rightarrow> (nat \<Rightarrow> rat \<times> rat) \<Rightarrow> nat \<Rightarrow> moe_request list \<Rightarrow> nat \<Rightarrow> 'c moe_state \<Rightarrow>
     (moe_row list \<times> 8 word list \<times> 'c moe_state) outcome" where
  "run_requests api o1 clocks i [] offset st = yields ([], [], st)"
| "run_requests api o1 clocks i (r # rs) offset st =
     proceed (run_request api o1 (clocks i) r offset st) (\<lambda>(row, st1).
       case row of
         None \<Rightarrow> run_requests api o1 clocks (Suc i) rs offset st1
       | Some row \<Rightarrow>
           proceed (run_requests api o1 clocks (Suc i) rs (offset + length (row_trace row)) st1) (\<lambda>(rows, bin, st2).
             yields (row # rows, row_trace row @ bin, st2)))"

definition meta_text :: "moe_options \<Rightarrow> string \<Rightarrow> 'c moe_state \<Rightarrow> string" where
  \<open>meta_text o1 desc st =
     ''{"model":"'' @ moe_escape (mo_model_path o1) @ ''","desc":"'' @ moe_escape desc @
     ''","n_expert":'' @ int_text (cap_n_expert (ms_cap st)) @ '',"k":'' @ int_text (cap_k (ms_cap st)) @
     '',"moe_layers":['' @ separated (map int_text (ms_layers st)) @
     ''],"dtype":"uint8","layout":"[n_routed][n_moe_layers][k]"}'' @ [CHR 0x0A]\<close>

section \<open>The program\<close>

text \<open>
  What \<open>main\<close> asks the system for. The metadata of the model is read into buffers of 64 and 32
  bytes, its description into one of 256. The context is created with its size as an unsigned
  number and with batches of 512.
\<close>

record ('m, 'c) moe_system =
  msys_read :: "string \<Rightarrow> string option"
  msys_load :: "string \<Rightarrow> int \<Rightarrow> 'm option"
  msys_meta :: "'m \<Rightarrow> string \<Rightarrow> string option"
  msys_init :: "'m \<Rightarrow> int \<Rightarrow> int \<Rightarrow> int \<Rightarrow> 'c option"
  msys_writable :: "string \<Rightarrow> bool"
  msys_desc :: "'m \<Rightarrow> string"

definition meta_value :: "nat \<Rightarrow> string option \<Rightarrow> string" where
  "meta_value cap v = (case v of None \<Rightarrow> [] | Some s \<Rightarrow> c_str (take (cap - 1) s))"

text \<open>The files it writes: the traces, the rows, and the description.\<close>

definition moe_main ::
  "'c moe_api \<Rightarrow> (nat \<Rightarrow> rat \<times> rat) \<Rightarrow> ('m, 'c) moe_system \<Rightarrow> string list \<Rightarrow> (8 word list \<times> string \<times> string) outcome" where
  "moe_main api clocks sys arguments =
     proceed (Some (parse_moe_args arguments)) (\<lambda>o1.
     proceed (read_moe_requests o1 (msys_read sys (mo_data_path o1))) (\<lambda>requests.
       case msys_load sys (mo_model_path o1) (mo_gpu_layers o1) of
         None \<Rightarrow> fail ''failed to load model''
       | Some model \<Rightarrow>
           let arch = meta_value 64 (msys_meta sys model ''general.architecture'');
               used = msys_meta sys model (arch @ ''.expert_used_count'') in
           if used = None then fail ''model has no expert_used_count: not a MoE?''
           else case atoi (meta_value 32 used) of
             None \<Rightarrow> None
           | Some k \<Rightarrow>
               (case msys_init sys model (mo_ctx_size o1 mod 2 ^ 32) 512 512 of
                  None \<Rightarrow> fail ''failed to create context''
                | Some c \<Rightarrow>
                    if \<not> msys_writable sys (mo_out_prefix o1) then fail (''cannot open output files for prefix '' @ mo_out_prefix o1)
                    else
                      proceed (run_requests api o1 clocks 0 requests 0
                          \<lparr>ms_ctx = c, ms_cap = \<lparr>cap_n_expert = 0, cap_k = k, cap_n_tokens = 0, cap_by_layer = []\<rparr>, ms_layers = []\<rparr>)
                        (\<lambda>(rows, bin, st). yields (bin, concat (map moe_row_text rows), meta_text o1 (c_str (take 255 (msys_desc sys model))) st)))))"

end
