(* ===== verification/RF_MoeProps.thy ===== *)
theory RF_MoeProps
  imports RF_Moe
begin

text \<open>
  The recorder of routed experts: where each expert of each token ends up in the trace, and where
  the trace of each request ends up in the file.
\<close>

section \<open>Lists of blocks\<close>

lemma blocks_length: "\<forall>x \<in> set xs. length (f x) = n \<Longrightarrow> length (concat (map f xs)) = length xs * n"
  by (induction xs) simp_all

lemma blocks_nth:
  "\<forall>x \<in> set xs. length (f x) = n \<Longrightarrow> i < length xs \<Longrightarrow> j < n \<Longrightarrow> concat (map f xs) ! (i * n + j) = f (xs ! i) ! j"
proof (induction xs arbitrary: i)
  case (Cons x xs)
  then show ?case by (cases i) (simp_all add: nth_append add.assoc)
qed simp

section \<open>The capture\<close>

lemma map_of_put: "map_of (put_layer l r m) = (map_of m)(l \<mapsto> r)"
  by (induction l r m rule: put_layer.induct) (auto simp: fun_eq_iff)

lemma on_tensor_cases:
  assumes "on_tensor t False cap = yields (b, cap')"
  obtains "take 16 (t_name t) \<noteq> tensor_prefix" "b" "cap' = cap"
  | layer where "take 16 (t_name t) = tensor_prefix" "atoi (drop 16 (t_name t)) = Some layer" "b"
    "0 \<le> t_ne0 t" "t_ne0 t \<le> 256" "0 \<le> t_ne1 t" "t_ne0 t * t_ne1 t \<le> int (length (t_data t))"
    "t_ne1 t = 0 \<or> 0 \<le> cap_k cap \<and> cap_k cap \<le> t_ne0 t"
    "cap' = cap\<lparr>cap_n_expert := t_ne0 t, cap_n_tokens := t_ne1 t,
       cap_by_layer := put_layer layer (expert_rows (nat (t_ne0 t)) (nat (cap_k cap)) (nat (t_ne1 t)) (t_data t)) (cap_by_layer cap)\<rparr>"
proof (cases "take 16 (t_name t) = tensor_prefix")
  case False
  then show ?thesis using that(1) assms by (simp add: on_tensor_def)
next
  case True
  then obtain layer where layer: "atoi (drop 16 (t_name t)) = Some layer"
    using assms by (auto simp: on_tensor_def split: if_splits option.splits)
  show ?thesis using assms True layer by (intro that(2) [of layer]) (auto simp: on_tensor_def Let_def split: if_splits)
qed

lemma on_tensor_k: "on_tensor t ask cap = yields (b, cap') \<Longrightarrow> cap_k cap' = cap_k cap"
  by (auto simp: on_tensor_def Let_def split: if_splits option.splits)

lemma callbacks_k: "graph_callbacks ts cap = yields cap' \<Longrightarrow> cap_k cap' = cap_k cap"
proof (induction ts arbitrary: cap)
  case (Cons t ts)
  obtain wanted cap1 where 1: "on_tensor t True cap = yields (wanted, cap1)"
    "(if wanted then proceed (on_tensor t False cap1) (\<lambda>(go_on, cap2). if go_on then graph_callbacks ts cap2 else yields cap2)
      else graph_callbacks ts cap1) = yields cap'" using Cons.prems by (auto simp: proceed_yields)
  show ?case
  proof (cases wanted)
    case True
    then obtain go_on cap2 where "on_tensor t False cap1 = yields (go_on, cap2)"
      "(if go_on then graph_callbacks ts cap2 else yields cap2) = yields cap'" using 1(2) by (auto simp: proceed_yields)
    then show ?thesis using on_tensor_k [OF 1(1)] on_tensor_k Cons.IH [of cap2] by (cases go_on) auto
  next
    case False
    then show ?thesis using 1 on_tensor_k [OF 1(1)] Cons.IH [of cap1] by simp
  qed
qed simp

lemma expert_rows_length: "length (expert_rows n_expert k n_tokens ids) = n_tokens * k"
  unfolding expert_rows_def by (subst blocks_length [where n = k]) simp_all

lemma expert_rows_nth: "tok < n_tokens \<Longrightarrow> j < k \<Longrightarrow> expert_rows n_expert k n_tokens ids ! (tok * k + j) = word_of_int (ids ! (tok * n_expert + j))"
  unfolding expert_rows_def by (subst blocks_nth [where n = k]) simp_all

text \<open>
  C1. The callback keeps, for each token and each of the \<open>k\<close> experts in use, the number that the
  tensor's row holds there, and as there are at most 256 experts nothing is lost in the byte. It
  keeps nothing else: other tensors leave the capture alone.
\<close>

theorem capture_exact:
  assumes "on_tensor t False cap = yields (b, cap')"
  shows "b \<and> cap_k cap' = cap_k cap \<and>
    (if take 16 (t_name t) \<noteq> tensor_prefix then cap' = cap
     else \<exists>layer row. atoi (drop 16 (t_name t)) = Some layer \<and> cap_by_layer cap' = put_layer layer row (cap_by_layer cap) \<and>
       map_of (cap_by_layer cap') = (map_of (cap_by_layer cap))(layer \<mapsto> row) \<and>
       int (length row) = t_ne1 t * int (nat (cap_k cap)) \<and> cap_n_tokens cap' = t_ne1 t \<and>
       (\<forall>tok j. int tok < t_ne1 t \<and> int j < cap_k cap \<longrightarrow>
          (let e = t_data t ! (tok * nat (t_ne0 t) + j) in
           tok * nat (t_ne0 t) + j < length (t_data t) \<and> row ! (tok * nat (cap_k cap) + j) = word_of_int e \<and>
           (0 \<le> e \<and> e < t_ne0 t \<longrightarrow> uint (row ! (tok * nat (cap_k cap) + j)) = e))))"
  using assms
proof (cases rule: on_tensor_cases)
  case 1 then show ?thesis by simp
next
  case (2 layer)
  let ?row = "expert_rows (nat (t_ne0 t)) (nat (cap_k cap)) (nat (t_ne1 t)) (t_data t)"
  have each: "tok * nat (t_ne0 t) + j < length (t_data t) \<and>
      ?row ! (tok * nat (cap_k cap) + j) = word_of_int (t_data t ! (tok * nat (t_ne0 t) + j))"
    if "int tok < t_ne1 t" "int j < cap_k cap" for tok j
  proof -
    have j: "j < nat (t_ne0 t)" "tok < nat (t_ne1 t)" "j < nat (cap_k cap)" using that 2(8) by linarith+
    have "tok * nat (t_ne0 t) + j < Suc tok * nat (t_ne0 t)" using j(1) by simp
    also have "\<dots> \<le> nat (t_ne1 t) * nat (t_ne0 t)" using j(2) by (intro mult_le_mono1) simp
    also have "\<dots> \<le> length (t_data t)" using 2(4,6,7) by (simp flip: nat_mult_distrib add: mult.commute nat_le_iff)
    finally show ?thesis using expert_rows_nth [OF j(2,3)] by simp
  qed
  have small: "uint (word_of_int e :: 8 word) = e" if "0 \<le> e" "e < t_ne0 t" for e
    using that 2(5) by (simp add: uint_word_of_int_eq take_bit_eq_mod)
  have "\<exists>layer row. atoi (drop 16 (t_name t)) = Some layer \<and> cap_by_layer cap' = put_layer layer row (cap_by_layer cap) \<and>
       map_of (cap_by_layer cap') = (map_of (cap_by_layer cap))(layer \<mapsto> row) \<and>
       int (length row) = t_ne1 t * int (nat (cap_k cap)) \<and> cap_n_tokens cap' = t_ne1 t \<and>
       (\<forall>tok j. int tok < t_ne1 t \<and> int j < cap_k cap \<longrightarrow>
          (let e = t_data t ! (tok * nat (t_ne0 t) + j) in
           tok * nat (t_ne0 t) + j < length (t_data t) \<and> row ! (tok * nat (cap_k cap) + j) = word_of_int e \<and>
           (0 \<le> e \<and> e < t_ne0 t \<longrightarrow> uint (row ! (tok * nat (cap_k cap) + j)) = e)))"
    by (rule exI [of _ layer], rule exI [of _ ?row])
      (use 2(2,6) each small in \<open>simp add: 2(9) map_of_put expert_rows_length Let_def\<close>)
  then show ?thesis using 2(1,3) by (simp add: 2(9))
qed

section \<open>The trace of a request\<close>

text \<open>\<open>rows\<close> is what the callback captured when \<open>tok\<close> was decoded at \<open>pos\<close>.\<close>

definition routes :: "'c moe_api \<Rightarrow> int \<Rightarrow> token \<Rightarrow> int \<Rightarrow> layer_rows \<Rightarrow> bool" where
  "routes api k tok pos rows \<longleftrightarrow> (\<exists>c ts c' cap cap'. cap_k cap = k \<and>
     moe_decode_graph api (spike_batch [tok] 0 pos) c = (0, ts, c') \<and>
     graph_callbacks ts (cap\<lparr>cap_by_layer := []\<rparr>) = yields cap' \<and> cap_n_tokens cap' = 1 \<and> cap_by_layer cap' = rows)"

definition full_rows :: "int list \<Rightarrow> nat \<Rightarrow> layer_rows \<Rightarrow> bool" where
  "full_rows layers k rows \<longleftrightarrow> (\<forall>l \<in> set layers. \<exists>row. map_of rows l = Some row \<and> k \<le> length row)"

definition token_block :: "int list \<Rightarrow> nat \<Rightarrow> layer_rows \<Rightarrow> 8 word list" where
  "token_block layers k rows = concat (map (\<lambda>l. take k (the (map_of rows l))) layers)"

lemma layer_blocks_one: "layer_blocks layers k 0 rows = yields b \<Longrightarrow> b = token_block layers k rows \<and> full_rows layers k rows"
  by (induction layers arbitrary: b) (auto simp: token_block_def full_rows_def proceed_yields split: option.splits if_splits)

lemma token_block_length: "full_rows layers k rows \<Longrightarrow> length (token_block layers k rows) = length layers * k"
  unfolding token_block_def full_rows_def by (subst blocks_length [where n = k]) auto

lemma token_block_nth:
  assumes "full_rows layers k rows" "l < length layers" "j < k"
  shows "token_block layers k rows ! (l * k + j) = the (map_of rows (layers ! l)) ! j"
proof -
  have "\<forall>l \<in> set layers. length (take k (the (map_of rows l))) = k" using assms(1) by (auto simp: full_rows_def)
  from blocks_nth [OF this assms(2,3)] show ?thesis using assms(3) by (simp add: token_block_def)
qed

text \<open>The trace \<open>trace\<close> of the tokens \<open>toks\<close>, decoded from position 0 on.\<close>

definition traced :: "'c moe_api \<Rightarrow> token list \<Rightarrow> 8 word list \<Rightarrow> 'c moe_state \<Rightarrow> bool" where
  "traced api toks trace st \<longleftrightarrow> (toks \<noteq> [] \<longrightarrow> ms_layers st \<noteq> []) \<and> (\<exists>caps. length caps = length toks \<and>
     (\<forall>p < length toks. routes api (cap_k (ms_cap st)) (toks ! p) (int p) (caps ! p)) \<and>
     (\<forall>rows \<in> set caps. full_rows (ms_layers st) (nat (cap_k (ms_cap st))) rows) \<and>
     trace = concat (map (token_block (ms_layers st) (nat (cap_k (ms_cap st)))) caps))"

definition steady :: "'c moe_state \<Rightarrow> 'c moe_state \<Rightarrow> bool" where
  "steady st st' \<longleftrightarrow> cap_k (ms_cap st') = cap_k (ms_cap st) \<and> (ms_layers st \<noteq> [] \<longrightarrow> ms_layers st' = ms_layers st)"

lemma steady_trans: "steady a b \<Longrightarrow> steady b c \<Longrightarrow> steady a c"
  by (auto simp: steady_def)

lemma steady_refl [simp]: "steady st st" "steady st (st\<lparr>ms_ctx := c\<rparr>)"
  by (simp_all add: steady_def)

lemma moe_decode_traced:
  assumes run: "moe_decode api [tok] (int (length toks)) trace st = yields (trace', st')" and t: "traced api toks trace st"
  shows "traced api (toks @ [tok]) trace' st' \<and> steady st st'"
proof -
  obtain rc ts c where d: "moe_decode_graph api (spike_batch [tok] 0 (int (length toks))) (ms_ctx st) = (rc, ts, c)"
    by (cases "moe_decode_graph api (spike_batch [tok] 0 (int (length toks))) (ms_ctx st)")
  obtain cap block where cap: "graph_callbacks ts ((ms_cap st)\<lparr>cap_by_layer := []\<rparr>) = yields cap"
    and ok: "rc = 0" "cap_n_tokens cap = 1" "cap_by_layer cap \<noteq> []"
    and b: "layer_blocks (ms_layers st') (nat (cap_k cap)) 0 (cap_by_layer cap) = yields block" "trace' = trace @ block"
    and st': "st' = \<lparr>ms_ctx = c, ms_cap = cap, ms_layers = (if ms_layers st = [] then map fst (cap_by_layer cap) else ms_layers st)\<rparr>"
    using run by (auto simp: moe_decode_def d proceed_yields Let_def split: if_splits)
  note block = layer_blocks_one [OF b(1)]
  have k: "cap_k cap = cap_k (ms_cap st)" using callbacks_k [OF cap] by simp
  have r: "routes api (cap_k (ms_cap st)) tok (int (length toks)) (cap_by_layer cap)"
    unfolding routes_def using d cap ok by blast
  have s: "steady st st'" by (simp add: steady_def st' k)
  obtain caps where caps: "length caps = length toks" "\<forall>p < length toks. routes api (cap_k (ms_cap st)) (toks ! p) (int p) (caps ! p)"
    "\<forall>rows \<in> set caps. full_rows (ms_layers st) (nat (cap_k (ms_cap st))) rows"
    "trace = concat (map (token_block (ms_layers st) (nat (cap_k (ms_cap st)))) caps)" "toks \<noteq> [] \<Longrightarrow> ms_layers st \<noteq> []"
    using t unfolding traced_def by blast
  have same: "ms_layers st' = ms_layers st" if "caps \<noteq> []"
  proof -
    have "toks \<noteq> []" using that caps(1) by auto
    from caps(5) [OF this] show ?thesis by (simp add: st')
  qed
  have old: "\<forall>rows \<in> set caps. full_rows (ms_layers st') (nat (cap_k (ms_cap st))) rows"
    "trace = concat (map (token_block (ms_layers st') (nat (cap_k (ms_cap st)))) caps)"
    using caps(3,4) same by (cases "caps = []"; simp)+
  have new: "length (caps @ [cap_by_layer cap]) = length (toks @ [tok])"
    "\<forall>p < length (toks @ [tok]). routes api (cap_k (ms_cap st)) ((toks @ [tok]) ! p) (int p) ((caps @ [cap_by_layer cap]) ! p)"
    "\<forall>rows \<in> set (caps @ [cap_by_layer cap]). full_rows (ms_layers st') (nat (cap_k (ms_cap st))) rows"
    "trace' = concat (map (token_block (ms_layers st') (nat (cap_k (ms_cap st)))) (caps @ [cap_by_layer cap]))"
    using caps(1,2) r old block b(2) k by (auto simp: nth_append less_Suc_eq)
  have "ms_layers st' \<noteq> []" using ok(3) by (simp add: st')
  moreover have "cap_k (ms_cap st') = cap_k (ms_cap st)" using k by (simp add: st')
  ultimately have "traced api (toks @ [tok]) trace' st'" unfolding traced_def using new by metis
  then show ?thesis using s by simp
qed

lemma moe_prefill_traced:
  "moe_prefill api prompt (int (length toks)) trace st = yields (trace', st') \<Longrightarrow> traced api toks trace st \<Longrightarrow>
   traced api (toks @ prompt) trace' st' \<and> steady st st'"
proof (induction prompt arbitrary: toks trace st)
  case (Cons tok prompt)
  obtain trace1 st1 where 1: "moe_decode api [tok] (int (length toks)) trace st = yields (trace1, st1)"
    "moe_prefill api prompt (int (length toks) + 1) trace1 st1 = yields (trace', st')"
    using Cons.prems(1) by (auto simp: proceed_yields)
  note one = moe_decode_traced [OF 1(1) Cons.prems(2)]
  have "moe_prefill api prompt (int (length (toks @ [tok]))) trace1 st1 = yields (trace', st')" using 1(2) by (simp add: add.commute)
  from Cons.IH [OF this] one show ?case by (auto intro: steady_trans)
qed simp

text \<open>The generated tokens that are decoded: not the last one, if the limit ended the answer.\<close>

definition routed_part :: "nat \<Rightarrow> token list \<Rightarrow> token list" where
  "routed_part limit gen = (if length gen = limit then butlast gen else gen)"

lemma traced_ctx: "traced api toks trace (st\<lparr>ms_ctx := c\<rparr>) = traced api toks trace st"
  by (simp add: traced_def)

lemma moe_generate_traced:
  "moe_generate api left (int (length toks)) trace st = yields (gen, said, trace', st') \<Longrightarrow> traced api toks trace st \<Longrightarrow>
   traced api (toks @ routed_part left gen) trace' st' \<and> steady st st' \<and> length gen \<le> left"
proof (induction left arbitrary: toks trace st gen said)
  case 0
  then show ?case by (simp add: routed_part_def)
next
  case (Suc left)
  obtain tok c where tok: "moe_sample api (ms_ctx st) = (tok, c)" by (cases "moe_sample api (ms_ctx st)")
  let ?st1 = "st\<lparr>ms_ctx := moe_accept api tok c\<rparr>"
  show ?case
  proof (cases "moe_is_eog api tok \<or> left = 0")
    case True
    then show ?thesis using Suc.prems by (auto simp: tok proceed_yields routed_part_def traced_ctx Let_def split: if_splits)
  next
    case False
    then obtain trace1 st2 gen1 text1 where 1: "moe_decode api [tok] (int (length toks)) trace ?st1 = yields (trace1, st2)"
      "moe_generate api left (int (length toks) + 1) trace1 st2 = yields (gen1, text1, trace', st')" "gen = tok # gen1"
      using Suc.prems(1) by (auto simp: tok proceed_yields Let_def)
    have one: "traced api (toks @ [tok]) trace1 st2 \<and> steady ?st1 st2"
      using moe_decode_traced [OF 1(1)] Suc.prems(2) by (simp add: traced_ctx)
    have "moe_generate api left (int (length (toks @ [tok]))) trace1 st2 = yields (gen1, text1, trace', st')"
      using 1(2) by (simp add: add.commute)
    from Suc.IH [OF this] one
    have "traced api ((toks @ [tok]) @ routed_part left gen1) trace' st' \<and> steady st2 st' \<and> length gen1 \<le> left" by blast
    moreover have "(toks @ [tok]) @ routed_part left gen1 = toks @ routed_part (Suc left) gen"
      using False 1(3) by (auto simp: routed_part_def)
    ultimately show ?thesis using one 1(3) steady_trans [of st st2 st'] by (simp add: steady_def)
  qed
qed

lemma request_run:
  assumes "run_request api o1 elapsed r offset st = yields (Some row, st')"
  shows "traced api (row_prompt row @ routed_part (nat (mr_max_tokens r)) (row_generated row)) (row_trace row) st' \<and> steady st st' \<and>
    0 < length (ms_layers st') * nat (cap_k (ms_cap st')) \<and>
    row_n_routed row = length (row_trace row) div (length (ms_layers st') * nat (cap_k (ms_cap st'))) \<and>
    row_offset row = offset \<and> row_request row = r \<and> length (row_generated row) \<le> nat (mr_max_tokens r)"
proof -
  obtain said prompt where "render api r = yields said" "moe_tokens api said = yields prompt"
    and run: "\<not> int (length prompt) + mr_max_tokens r > 2147483647" "\<not> int (length prompt) + mr_max_tokens r > mo_ctx_size o1"
      "proceed (moe_prefill api prompt 0 [] (st\<lparr>ms_ctx := moe_reset api (moe_clear api (ms_ctx st))\<rparr>)) (\<lambda>(trace1, st1).
         proceed (moe_generate api (nat (mr_max_tokens r)) (int (length prompt)) trace1 st1) (\<lambda>(generated, text, trace, st2).
           let per_token = length (ms_layers st2) * nat (cap_k (ms_cap st2)) in
           if per_token = 0 then None
           else yields (Some \<lparr>row_request = r, row_prompt = prompt, row_generated = generated,
                  row_n_routed = length trace div per_token, row_offset = offset, row_prefill_ms = fst elapsed,
                  row_decode_ms = snd elapsed, row_text = text, row_trace = trace\<rparr>, st2))) = yields (Some row, st')"
    using assms unfolding run_request_def by (auto simp: proceed_yields Let_def split: if_split_asm)
  let ?st0 = "st\<lparr>ms_ctx := moe_reset api (moe_clear api (ms_ctx st))\<rparr>"
  obtain trace1 st1 gen t trace where p: "moe_prefill api prompt 0 [] ?st0 = yields (trace1, st1)"
    and g: "moe_generate api (nat (mr_max_tokens r)) (int (length prompt)) trace1 st1 = yields (gen, t, trace, st')"
    and row: "length (ms_layers st') * nat (cap_k (ms_cap st')) \<noteq> 0" "row = \<lparr>row_request = r, row_prompt = prompt, row_generated = gen,
        row_n_routed = length trace div (length (ms_layers st') * nat (cap_k (ms_cap st'))), row_offset = offset,
        row_prefill_ms = fst elapsed, row_decode_ms = snd elapsed, row_text = t, row_trace = trace\<rparr>"
    using run(3) by (auto simp: proceed_yields Let_def split: if_split_asm)
  have "traced api [] [] ?st0" by (simp add: traced_def)
  from moe_prefill_traced [of api prompt "[]", simplified, OF p this]
  have 1: "traced api prompt trace1 st1" "steady ?st0 st1" by simp_all
  from moe_generate_traced [OF g 1(1)] steady_trans [of ?st0 st1 st'] 1(2) row show ?thesis by (simp add: steady_def)
qed

text \<open>
  C38. The recorded trace is what the file's description says, a row of layers and experts for each
  decoded token: of every token of the prompt and of every generated token, except the last one
  when the limit ended the answer, the experts captured at its own position stand at the place
  \<open>(p * n_layers + l) * k + j\<close>, and the row counts the tokens exactly.
\<close>

theorem trace_layout:
  assumes "run_request api o1 elapsed r offset st = yields (Some row, st')"
  shows "let layers = ms_layers st'; k = nat (cap_k (ms_cap st')); trace = row_trace row;
      toks = row_prompt row @ routed_part (nat (mr_max_tokens r)) (row_generated row) in
    row_n_routed row = length toks \<and> length trace = length toks * length layers * k \<and>
    (\<exists>caps. length caps = length toks \<and> (\<forall>p < length toks. routes api (int k) (toks ! p) (int p) (caps ! p) \<and>
      (\<forall>l < length layers. \<forall>j < k. trace ! ((p * length layers + l) * k + j) = the (map_of (caps ! p) (layers ! l)) ! j)))"
proof -
  let ?L = "ms_layers st'" and ?k = "nat (cap_k (ms_cap st'))"
  let ?toks = "row_prompt row @ routed_part (nat (mr_max_tokens r)) (row_generated row)"
  note run = request_run [OF assms]
  then have k: "int ?k = cap_k (ms_cap st')" by simp
  obtain caps where caps: "length caps = length ?toks" "\<forall>p < length ?toks. routes api (cap_k (ms_cap st')) (?toks ! p) (int p) (caps ! p)"
    "\<forall>rows \<in> set caps. full_rows ?L ?k rows" "row_trace row = concat (map (token_block ?L ?k) caps)"
    using run unfolding traced_def by blast
  have each: "\<forall>rows \<in> set caps. length (token_block ?L ?k rows) = length ?L * ?k" using caps(3) token_block_length by blast
  have len: "length (row_trace row) = length ?toks * (length ?L * ?k)" using blocks_length [OF each] caps(1,4) by simp
  have at: "row_trace row ! ((p * length ?L + l) * ?k + j) = the (map_of (caps ! p) (?L ! l)) ! j"
    if "p < length ?toks" "l < length ?L" "j < ?k" for p l j
  proof -
    have "l * ?k + j < Suc l * ?k" using that(3) by simp
    also have "\<dots> \<le> length ?L * ?k" using that(2) by (intro mult_le_mono1) simp
    finally have "concat (map (token_block ?L ?k) caps) ! (p * (length ?L * ?k) + (l * ?k + j)) = token_block ?L ?k (caps ! p) ! (l * ?k + j)"
      using that(1) caps(1) by (intro blocks_nth [OF each]) simp_all
    also have "\<dots> = the (map_of (caps ! p) (?L ! l)) ! j"
      using caps(3) that(1) caps(1) by (intro token_block_nth [OF _ that(2,3)]) simp
    finally show ?thesis by (simp add: caps(4) algebra_simps)
  qed
  have "row_n_routed row = length ?toks" using run by (simp add: len)
  then show ?thesis using len caps(1,2) at k by (auto simp: Let_def mult.assoc)
qed

section \<open>The file of all traces\<close>

lemma request_skipped: "run_request api o1 elapsed r offset st = yields (None, st') \<Longrightarrow> st' = st"
  unfolding run_request_def by (auto simp: proceed_yields Let_def split: if_split_asm)

lemma request_length:
  assumes "run_request api o1 elapsed r offset st = yields (Some row, st')"
  shows "length (row_trace row) = row_n_routed row * (length (ms_layers st') * nat (cap_k (ms_cap st')))"
proof -
  let ?toks = "row_prompt row @ routed_part (nat (mr_max_tokens r)) (row_generated row)"
  obtain caps where caps: "length caps = length ?toks"
    "\<forall>rows \<in> set caps. full_rows (ms_layers st') (nat (cap_k (ms_cap st'))) rows"
    "row_trace row = concat (map (token_block (ms_layers st') (nat (cap_k (ms_cap st')))) caps)"
    using request_run [OF assms] unfolding traced_def by blast
  have "\<forall>rows \<in> set caps. length (token_block (ms_layers st') (nat (cap_k (ms_cap st'))) rows) = length (ms_layers st') * nat (cap_k (ms_cap st'))"
    using caps(2) token_block_length by blast
  from blocks_length [OF this] request_run [OF assms] show ?thesis by (simp add: caps(3))
qed

lemma requests_steady: "run_requests api o1 clocks i rs offset st = yields (rows, bin, st') \<Longrightarrow> steady st st'"
proof (induction rs arbitrary: i offset st rows bin)
  case (Cons r rs)
  obtain row st1 where 1: "run_request api o1 (clocks i) r offset st = yields (row, st1)"
    "(case row of None \<Rightarrow> run_requests api o1 clocks (Suc i) rs offset st1
       | Some row \<Rightarrow> proceed (run_requests api o1 clocks (Suc i) rs (offset + length (row_trace row)) st1) (\<lambda>(rows, bin, st2).
             yields (row # rows, row_trace row @ bin, st2))) = yields (rows, bin, st')"
    using Cons.prems by (auto simp: proceed_yields)
  have s: "steady st st1" using 1(1) request_run [of api o1 "clocks i" r offset st _ st1] request_skipped [of api o1 "clocks i" r offset st st1]
    by (cases row) auto
  have "steady st1 st'" using 1(2) Cons.IH by (cases row) (auto simp: proceed_yields)
  with s show ?case by (rule steady_trans)
qed simp

lemma requests_located:
  "run_requests api o1 clocks i rs offset st = yields (rows, bin, st') \<Longrightarrow>
   bin = concat (map row_trace rows) \<and>
   (\<forall>n < length rows. row_offset (rows ! n) = offset + length (concat (map row_trace (take n rows))) \<and>
      length (row_trace (rows ! n)) = row_n_routed (rows ! n) * (length (ms_layers st') * nat (cap_k (ms_cap st'))))"
proof (induction rs arbitrary: i offset st rows bin)
  case (Cons r rs)
  obtain row st1 where 1: "run_request api o1 (clocks i) r offset st = yields (row, st1)"
    "(case row of None \<Rightarrow> run_requests api o1 clocks (Suc i) rs offset st1
       | Some row \<Rightarrow> proceed (run_requests api o1 clocks (Suc i) rs (offset + length (row_trace row)) st1) (\<lambda>(rows, bin, st2).
             yields (row # rows, row_trace row @ bin, st2))) = yields (rows, bin, st')"
    using Cons.prems by (auto simp: proceed_yields)
  show ?case
  proof (cases row)
    case None
    then show ?thesis using 1(2) Cons.IH by simp
  next
    case (Some row1)
    then obtain rows1 bin1 where 2: "run_requests api o1 clocks (Suc i) rs (offset + length (row_trace row1)) st1 = yields (rows1, bin1, st')"
      "rows = row1 # rows1" "bin = row_trace row1 @ bin1" using 1(2) by (auto simp: proceed_yields)
    note run = request_run [OF 1(1) [unfolded Some]] and len = request_length [OF 1(1) [unfolded Some]]
    have "length (ms_layers st') = length (ms_layers st1)" "cap_k (ms_cap st') = cap_k (ms_cap st1)"
      using requests_steady [OF 2(1)] run by (auto simp: steady_def)
    note same = this and ih = Cons.IH [OF 2(1)]
    have "row_offset (rows ! n) = offset + length (concat (map row_trace (take n rows))) \<and>
        length (row_trace (rows ! n)) = row_n_routed (rows ! n) * (length (ms_layers st') * nat (cap_k (ms_cap st')))"
      if "n < length rows" for n
    proof (cases n)
      case 0 then show ?thesis using run len same by (simp add: 2(2))
    next
      case (Suc m) then show ?thesis using ih that by (simp add: 2(2) add.assoc del: length_concat)
    qed
    then show ?thesis using ih by (simp add: 2(2,3) del: length_concat)
  qed
qed simp

lemma concat_slice:
  "n < length xs \<Longrightarrow> take (length (f (xs ! n))) (drop (length (concat (map f (take n xs)))) (concat (map f xs))) = f (xs ! n)"
proof -
  assume n: "n < length xs"
  have "concat (map f xs) = concat (map f (take n xs)) @ f (xs ! n) @ concat (map f (drop (Suc n) xs))"
    using arg_cong [OF id_take_nth_drop [OF n], of "\<lambda>ys. concat (map f ys)"] by simp
  then show ?thesis by simp
qed

text \<open>
  C39. The description of each row locates its trace in the file of all traces: it starts at the
  offset of the row and is as long as its tokens, the layers and the experts in use, which are the
  same for all rows, make it; the traces follow each other without gaps.
\<close>

theorem traces_located:
  assumes "run_requests api o1 clocks i rs 0 st = yields (rows, bin, st')"
  shows "bin = concat (map row_trace rows) \<and>
    (\<forall>n < length rows. take (row_n_routed (rows ! n) * (length (ms_layers st') * nat (cap_k (ms_cap st')))) (drop (row_offset (rows ! n)) bin) =
       row_trace (rows ! n))"
proof -
  note l = requests_located [OF assms]
  then show ?thesis using concat_slice [of _ rows row_trace] by auto
qed

section \<open>A small model\<close>

definition demo_tensor :: "string \<Rightarrow> batch_entry list \<Rightarrow> tensor" where
  "demo_tensor name batch = \<lparr>t_name = name, t_is_i32 = True, t_contiguous = True, t_ne0 = 3, t_ne1 = int (length batch),
     t_data = concat (map (\<lambda>e. [b_token e mod 3, b_pos e mod 3, 0]) batch)\<rparr>"

definition demo_moe :: "nat moe_api" where
  "demo_moe = \<lparr>moe_template = Some ''t'', moe_apply_template = (\<lambda>_ ms _. (int (length (concat (map snd ms))), concat (map snd ms))),
     moe_tokenize = (\<lambda>s cap. if cap < length s then (- int (length s), []) else (int (length s), map of_char s)),
     moe_piece = (\<lambda>_ _. (1, ''x'')),
     moe_decode_graph = (\<lambda>batch c. (0, [demo_tensor ''ffn_moe_argsort-5'' batch, demo_tensor ''norm-1'' batch,
        demo_tensor ''ffn_moe_argsort-2'' batch], Suc c)),
     moe_sample = (\<lambda>c. (int c, c)), moe_accept = (\<lambda>_ c. c), moe_reset = (\<lambda>c. c), moe_clear = (\<lambda>_. 0), moe_is_eog = (\<lambda>t. t = 4)\<rparr>"

definition demo_request :: "string \<Rightarrow> int \<Rightarrow> moe_request" where
  "demo_request said limit = \<lparr>mr_id = ''r'', mr_family = ''f'', mr_agent = ''a'', mr_turn = 0, mr_max_tokens = limit,
     mr_messages = [(''user'', said)]\<rparr>"

definition demo_state :: "nat moe_state" where
  "demo_state = \<lparr>ms_ctx = 7, ms_cap = \<lparr>cap_n_expert = 0, cap_k = 2, cap_n_tokens = 0, cap_by_layer = []\<rparr>, ms_layers = []\<rparr>"

lemma demo_render: "length said \<le> 16384 \<Longrightarrow> said \<noteq> [] \<Longrightarrow> CHR 0x00 \<notin> set said \<Longrightarrow> render demo_moe (demo_request said limit) = yields said"
proof -
  assume a: "length said \<le> 16384" "CHR 0x00 \<notin> set said"
  have "c_str said = said" using a(2) by (simp add: c_str_def takeWhile_eq_all_conv) metis
  then show ?thesis using a by (simp add: render_def demo_moe_def demo_request_def overwrite_def)
qed

definition demo_row :: moe_row where
  "demo_row = \<lparr>row_request = demo_request ''ab'' 2, row_prompt = [97, 98], row_generated = [2, 3], row_n_routed = 3, row_offset = 0,
     row_prefill_ms = 0, row_decode_ms = 0, row_text = ''xx'', row_trace = [1, 0, 1, 0, 2, 1, 2, 1, 2, 2, 2, 2]\<rparr>"

lemma demo_run: "\<exists>st. run_request demo_moe default_moe (0, 0) (demo_request ''ab'' 2) 0 demo_state = yields (Some demo_row, st) \<and>
    ms_layers st = [2, 5] \<and> cap_k (ms_cap st) = 2"
proof -
  let ?st0 = "demo_state\<lparr>ms_ctx := 0\<rparr>"
  have r: "render demo_moe (demo_request ''ab'' 2) = yields ''ab''" by (rule demo_render) simp_all
  have t: "moe_tokens demo_moe ''ab'' = yields [97, 98]" by code_simp
  have z: "moe_reset demo_moe (moe_clear demo_moe x) = 0" for x by (simp add: demo_moe_def)
  have "map_option (map_sum id (\<lambda>(gen, said, trace, st). (gen, said, trace, ms_layers st, cap_k (ms_cap st))))
      (proceed (moe_prefill demo_moe [97, 98] 0 [] ?st0) (\<lambda>(trace1, st1). moe_generate demo_moe 2 2 trace1 st1)) =
      yields ([2, 3], ''xx'', [1, 0, 1, 0, 2, 1, 2, 1, 2, 2, 2, 2], [2, 5], 2)" by code_simp
  then obtain trace1 st1 st where p: "moe_prefill demo_moe [97, 98] 0 [] ?st0 = yields (trace1, st1)"
    and g: "moe_generate demo_moe 2 2 trace1 st1 = yields ([2, 3], ''xx'', [1, 0, 1, 0, 2, 1, 2, 1, 2, 2, 2, 2], st)"
    and st: "ms_layers st = [2, 5]" "cap_k (ms_cap st) = 2"
    unfolding mapped_yields proceed_yields by auto
  have "mr_max_tokens (demo_request ''ab'' 2) = 2" "mo_ctx_size default_moe = 8192" by (simp_all add: demo_request_def default_moe_def)
  then have "run_request demo_moe default_moe (0, 0) (demo_request ''ab'' 2) 0 demo_state = yields (Some demo_row, st)"
    by (simp add: run_request_def r t z p g st demo_row_def del: moe_prefill.simps moe_generate.simps)
  then show ?thesis using st by blast
qed

theorem trace_layout_witness:
  "\<exists>st. run_request demo_moe default_moe (0, 0) (demo_request ''ab'' 2) 0 demo_state = yields (Some demo_row, st) \<and>
    length (row_trace demo_row) = 3 * 2 * 2 \<and>
    (\<exists>caps. length caps = 3 \<and> routes demo_moe 2 98 1 (caps ! 1) \<and> row_trace demo_row ! ((1 * 2 + 1) * 2 + 0) = the (map_of (caps ! 1) 5) ! 0)"
proof -
  obtain st where st: "run_request demo_moe default_moe (0, 0) (demo_request ''ab'' 2) 0 demo_state = yields (Some demo_row, st)"
    "ms_layers st = [2, 5]" "cap_k (ms_cap st) = 2" using demo_run by blast
  have row: "row_prompt demo_row @ routed_part (nat (mr_max_tokens (demo_request ''ab'' 2))) (row_generated demo_row) = [97, 98, 2]"
    by (simp add: demo_row_def demo_request_def routed_part_def)
  obtain caps where caps: "length caps = length [97, 98, 2::int]"
    "\<forall>p < length [97, 98, 2::int]. routes demo_moe (int (nat 2)) ([97, 98, 2] ! p) (int p) (caps ! p) \<and>
      (\<forall>l < length [2, 5::int]. \<forall>j < nat 2. row_trace demo_row ! ((p * length [2, 5::int] + l) * nat 2 + j) = the (map_of (caps ! p) ([2, 5] ! l)) ! j)"
    using trace_layout [OF st(1)] unfolding row Let_def st(2,3) by blast
  have "1 < length [97, 98, 2::int]" by simp
  note one = caps(2) [rule_format, OF this]
  have "routes demo_moe 2 98 1 (caps ! 1) \<and> row_trace demo_row ! ((1 * 2 + 1) * 2 + 0) = the (map_of (caps ! 1) 5) ! 0"
    using conjunct1 [OF one] conjunct2 [OF one, rule_format, of 1 0] by simp
  then show ?thesis using st(1) caps(1) by (auto simp: demo_row_def numeral_3_eq_3)
qed

theorem traces_located_witness:
  "\<exists>rows bin st. run_requests demo_moe default_moe (\<lambda>_. (0, 0)) 0 [demo_request ''ab'' 2] 0 demo_state = yields (rows, bin, st) \<and>
    rows = [demo_row] \<and> bin = row_trace demo_row \<and>
    take (row_n_routed (rows ! 0) * (length (ms_layers st) * nat (cap_k (ms_cap st)))) (drop (row_offset (rows ! 0)) bin) = row_trace (rows ! 0)"
proof -
  obtain st where st: "run_request demo_moe default_moe (0, 0) (demo_request ''ab'' 2) 0 demo_state = yields (Some demo_row, st)"
    using demo_run by blast
  then have run: "run_requests demo_moe default_moe (\<lambda>_. (0, 0)) 0 [demo_request ''ab'' 2] 0 demo_state = yields ([demo_row], row_trace demo_row, st)"
    by simp
  from traces_located [OF this] have "take (row_n_routed ([demo_row] ! 0) * (length (ms_layers st) * nat (cap_k (ms_cap st))))
      (drop (row_offset ([demo_row] ! 0)) (row_trace demo_row)) = row_trace ([demo_row] ! 0)" by force
  with run show ?thesis by blast
qed

theorem capture_exact_witness:
  "\<exists>cap'. on_tensor (demo_tensor ''ffn_moe_argsort-5'' (spike_batch [98] 0 1)) False (ms_cap demo_state) = yields (True, cap') \<and>
    cap_k cap' = 2 \<and> cap_by_layer cap' = [(5, [2, 1])]"
proof -
  let ?t = "demo_tensor ''ffn_moe_argsort-5'' (spike_batch [98] 0 1)"
  have "map_option (map_sum id (\<lambda>(b, cap'). (b, cap_by_layer cap'))) (on_tensor ?t False (ms_cap demo_state)) = yields (True, [(5, [2, 1])])"
    by code_simp
  then obtain cap' where c: "on_tensor ?t False (ms_cap demo_state) = yields (True, cap')" "cap_by_layer cap' = [(5, [2, 1])]"
    unfolding mapped_yields by auto
  from capture_exact [OF c(1)] have "cap_k cap' = cap_k (ms_cap demo_state)" by blast
  then show ?thesis using c by (simp add: demo_state_def)
qed

end
