(* ===== verification/RF_MoeRows.thy ===== *)
theory RF_MoeRows
  imports RF_Decimal RF_MoeProps
begin

text \<open>
  The description of a trace, a line of the file of rows, is a document of JSON that says what the row
  holds.
\<close>

definition row_doc :: "moe_row \<Rightarrow> document" where
  "row_doc row = (let r = row_request row in JObject
     [(''id'', JString (mr_id r)), (''family'', JString (mr_family r)), (''agent'', JString (mr_agent r)), (''turn'', int_doc (mr_turn r)),
      (''n_prompt'', int_doc (int (length (row_prompt row)))), (''n_gen'', int_doc (int (length (row_generated row)))),
      (''n_routed'', int_doc (int (row_n_routed row))), (''offset'', int_doc (int (row_offset row))),
      (''prefill_ms'', JNumber (general_text 6 (row_prefill_ms row))), (''decode_ms'', JNumber (general_text 6 (row_decode_ms row))),
      (''tokens'', JArray (map int_doc (row_prompt row @ row_generated row))), (''text'', JString (row_text row))])"

text \<open>The row of a prompt with at least one token, with values that their types can hold.\<close>

definition row_fits :: "moe_row \<Rightarrow> bool" where
  "row_fits row \<longleftrightarrow> row_prompt row \<noteq> [] \<and> printable (row_prefill_ms row) \<and> printable (row_decode_ms row) \<and>
     \<bar>mr_turn (row_request row)\<bar> < 2 ^ 53 \<and> length (row_prompt row) < 2 ^ 53 \<and> length (row_generated row) < 2 ^ 53 \<and>
     row_n_routed row < 2 ^ 53 \<and> row_offset row < 2 ^ 53 \<and> (\<forall>t \<in> set (row_prompt row @ row_generated row). \<bar>t\<bar> < 2 ^ 53)"

lemma int_text_nat: "int_text (int k) = nat_text k"
  by (simp add: int_text_def)

lemma separated_Cons: "separated (x # xs) = x @ concat (map (\<lambda>y. CHR '','' # y) xs)"
  by (induction xs arbitrary: x) simp_all

lemma separated_tokens:
  assumes "ps \<noteq> []"
  shows "separated (map int_text ps) @ concat (map (\<lambda>tok. CHR '','' # int_text tok) gs) = separated (map print_doc (map int_doc (ps @ gs)))"
proof -
  obtain q qs where "ps = q # qs" using assms by (cases ps) auto
  then show ?thesis by (simp add: separated_Cons int_doc_def comp_def)
qed

lemma row_keys:
  "json_escape ''id'' = ''id''" "json_escape ''family'' = ''family''"
  "json_escape ''agent'' = ''agent''" "json_escape ''turn'' = ''turn''"
  "json_escape ''n_prompt'' = ''n_prompt''" "json_escape ''n_gen'' = ''n_gen''"
  "json_escape ''n_routed'' = ''n_routed''" "json_escape ''offset'' = ''offset''"
  "json_escape ''prefill_ms'' = ''prefill_ms''" "json_escape ''decode_ms'' = ''decode_ms''"
  "json_escape ''tokens'' = ''tokens''" "json_escape ''text'' = ''text''"
  by code_simp+

lemma moe_escape_json: "moe_escape s = json_escape s"
  by (simp add: moe_escape_def json_escape_def)

lemma row_text_print:
  assumes "row_prompt row \<noteq> []"
  shows "moe_row_text row = print_doc (row_doc row) @ [CHR 0x0A]"
  unfolding moe_row_text_def row_doc_def Let_def separated_tokens [OF assms, symmetric, of "row_generated row"] print_doc.simps
  by (simp add: quoted_def row_keys moe_escape_json int_doc_def int_text_nat separated_tokens [OF assms] del: map_append)

lemma row_doc_ok:
  assumes "row_fits row"
  shows "doc_ok (row_doc row)" "json_depth (row_doc row) \<le> kMaxDepth"
proof -
  have i: "doc_ok (int_doc i)" if "\<bar>i\<bar> < 2 ^ 53" for i using stod_int [OF that] by (simp add: int_doc_def scan_number_int)
  have g: "doc_ok (JNumber (general_text 6 x))" if "printable x" for x
    using stod_general [OF that, of 6] general_text_number(1) [of 6 x] by auto
  have small: "\<bar>int k\<bar> < 2 ^ 53" if "k < 2 ^ 53" for k using that by simp
  have toks: "Ball (set (map int_doc (row_prompt row @ row_generated row))) doc_ok" using assms i by (auto simp: row_fits_def)
  have rest: "doc_ok (int_doc (mr_turn (row_request row)))" "doc_ok (int_doc (int (length (row_prompt row))))"
    "doc_ok (int_doc (int (length (row_generated row))))" "doc_ok (int_doc (int (row_n_routed row)))" "doc_ok (int_doc (int (row_offset row)))"
    "doc_ok (JNumber (general_text 6 (row_prefill_ms row)))" "doc_ok (JNumber (general_text 6 (row_decode_ms row)))"
    using assms i g small unfolding row_fits_def by blast+
  show "doc_ok (row_doc row)" using toks rest by (simp add: row_doc_def Let_def del: map_append set_map)
  have "foldr max (map (\<lambda>t. 0::nat) ts) 0 = 0" for ts :: "int list" by (induction ts) simp_all
  moreover have "json_depth (int_doc i) = 0" for i by (simp add: int_doc_def)
  ultimately show "json_depth (row_doc row) \<le> kMaxDepth"
    by (simp add: row_doc_def Let_def kMaxDepth_def comp_def)
qed

definition member_text :: "json \<Rightarrow> string \<Rightarrow> string" where
  "member_text v key = as_string (json_member v key)"

definition member_number :: "json \<Rightarrow> string \<Rightarrow> rat" where
  "member_number v key = as_number (json_member v key)"

lemmas row_members = row_doc_def doc_value_def member_text_def member_number_def json_member_def int_doc_def

text \<open>
  C40. Each line of the file of rows can be read: it is a JSON object of which the parser gives back the
  texts of the request and of the answer byte for byte, the tokens of prompt and answer, the number of
  routed tokens and the offset of the trace exactly, and the durations to six digits.
\<close>

theorem row_reads_back:
  assumes "row_fits row"
  shows "\<exists>line v. moe_row_text row = line @ [CHR 0x0A] \<and> json_parse line = Some (Inr v) \<and>
    member_text v ''id'' = mr_id (row_request row) \<and> member_text v ''agent'' = mr_agent (row_request row) \<and>
    member_text v ''family'' = mr_family (row_request row) \<and> member_text v ''text'' = row_text row \<and>
    map as_number (as_array (json_member v ''tokens'')) = map of_int (row_prompt row @ row_generated row) \<and>
    member_number v ''n_prompt'' = of_nat (length (row_prompt row)) \<and> member_number v ''n_gen'' = of_nat (length (row_generated row)) \<and>
    member_number v ''n_routed'' = of_nat (row_n_routed row) \<and> member_number v ''offset'' = of_nat (row_offset row) \<and>
    \<bar>member_number v ''prefill_ms'' - row_prefill_ms row\<bar> \<le> row_prefill_ms row / 10 ^ 5 \<and>
    \<bar>member_number v ''decode_ms'' - row_decode_ms row\<bar> \<le> row_decode_ms row / 10 ^ 5"
proof (intro exI conjI)
  let ?v = "doc_value (row_doc row)"
  have ok: "row_prompt row \<noteq> []" using assms by (simp add: row_fits_def)
  show "moe_row_text row = print_doc (row_doc row) @ [CHR 0x0A]" by (rule row_text_print [OF ok])
  show "json_parse (print_doc (row_doc row)) = Some (Inr ?v)" by (rule json_parse_print [OF row_doc_ok [OF assms]])
  show "member_text ?v ''id'' = mr_id (row_request row)" "member_text ?v ''agent'' = mr_agent (row_request row)"
    "member_text ?v ''family'' = mr_family (row_request row)" "member_text ?v ''text'' = row_text row"
    by (simp_all add: row_members Let_def)
  have small: "\<bar>int k\<bar> < 2 ^ 53" if "k < 2 ^ 53" for k using that by simp
  show "member_number ?v ''n_prompt'' = of_nat (length (row_prompt row))" "member_number ?v ''n_gen'' = of_nat (length (row_generated row))"
    "member_number ?v ''n_routed'' = of_nat (row_n_routed row)" "member_number ?v ''offset'' = of_nat (row_offset row)"
    using assms by (simp_all add: row_members Let_def row_fits_def stod_int [OF small])
  show "map as_number (as_array (json_member ?v ''tokens'')) = map of_int (row_prompt row @ row_generated row)"
    using assms by (simp add: row_members Let_def row_fits_def stod_int)
  have ms: "\<bar>the (stod (general_text 6 x)) - x\<bar> \<le> x / 10 ^ 5" if "printable x" for x
    using stod_general [OF that, of 6] by auto
  show "\<bar>member_number ?v ''prefill_ms'' - row_prefill_ms row\<bar> \<le> row_prefill_ms row / 10 ^ 5"
    "\<bar>member_number ?v ''decode_ms'' - row_decode_ms row\<bar> \<le> row_decode_ms row / 10 ^ 5"
    using assms ms [of "row_prefill_ms row"] ms [of "row_decode_ms row"] by (simp_all add: row_members Let_def row_fits_def)
qed

definition timed_row :: moe_row where
  "timed_row = demo_row\<lparr>row_prefill_ms := 1234567 / 1000, row_offset := 12, row_text := [CHR 0x22, CHR 0x0A]\<rparr>"

theorem row_reads_back_witness:
  "\<exists>line v. moe_row_text timed_row = line @ [CHR 0x0A] \<and> json_parse line = Some (Inr v) \<and>
     member_text v ''text'' = [CHR 0x22, CHR 0x0A] \<and> member_number v ''offset'' = 12 \<and>
     \<bar>member_number v ''prefill_ms'' - 1234567 / 1000\<bar> \<le> 1234567 / 100000000"
proof -
  have "row_fits timed_row" by (simp add: row_fits_def timed_row_def demo_row_def demo_request_def printable_def)
  from row_reads_back [OF this] show ?thesis by (auto simp: timed_row_def demo_row_def)
qed

text \<open>
  The premise on the prompt is needed: each generated token is written behind a comma, so the tokens
  of a row without a prompt are no JSON array.
\<close>

theorem row_without_prompt:
  \<open>moe_row_text (demo_row\<lparr>row_prompt := [], row_generated := [5]\<rparr>) =
     ''{"id":"r","family":"f","agent":"a","turn":0,"n_prompt":0,"n_gen":1,"n_routed":3,"offset":0,"prefill_ms":0,"decode_ms":0,"tokens":[,5],"text":"xx"}'' @ [CHR 0x0A]\<close>
  by code_simp

end
