(* ===== verification/RF_Perf.thy ===== *)
theory RF_Perf
  imports RF_Bridge
begin

text \<open>
  The timing counters of \<open>--debug-metrics\<close> where they are written (src/worker.cpp and
  src/llama_bridge.cpp), and the rest of the bridge: sampling, the calls into the KV memory, and
  what is created and freed. Elapsed times in microseconds are arguments.
\<close>

section \<open>Counters\<close>

text \<open>\<open>fetch_add\<close> on \<open>std::atomic<uint64_t>\<close>.\<close>

definition fetch_add :: "nat \<Rightarrow> nat \<Rightarrow> nat" where
  "fetch_add n x = (x + n) mod 2 ^ 64"

definition no_time :: perf_metrics where
  "no_time = \<lparr>queue_wait_us = 0, queue_wait_requests = 0, tokenize_us = 0, tokenize_calls = 0, cache_lookup_us = 0,
     cache_lookup_calls = 0, cache_insert_us = 0, cache_insert_calls = 0, prefill_decode_us = 0, prefill_decode_tokens = 0,
     generation_decode_us = 0, generation_decode_tokens = 0, sync_us = 0, sync_calls = 0, sampler_us = 0, sampler_calls = 0,
     callback_us = 0, callback_calls = 0, sse_write_us = 0, sse_writes = 0\<rparr>"

text \<open>The wait of a request in the queue counts once, also when the request is queued again.\<close>

definition record_queue_wait :: "nat \<Rightarrow> bool \<Rightarrow> perf_metrics \<Rightarrow> bool \<times> perf_metrics" where
  "record_queue_wait elapsed recorded p =
     (if recorded then (recorded, p)
      else (True, p\<lparr>queue_wait_us := fetch_add elapsed (queue_wait_us p), queue_wait_requests := fetch_add 1 (queue_wait_requests p)\<rparr>))"

definition record_lookup :: "nat \<Rightarrow> perf_metrics \<Rightarrow> perf_metrics" where
  "record_lookup elapsed p =
     p\<lparr>cache_lookup_us := fetch_add elapsed (cache_lookup_us p), cache_lookup_calls := fetch_add 1 (cache_lookup_calls p)\<rparr>"

definition record_insert :: "nat \<Rightarrow> perf_metrics \<Rightarrow> perf_metrics" where
  "record_insert elapsed p =
     p\<lparr>cache_insert_us := fetch_add elapsed (cache_insert_us p), cache_insert_calls := fetch_add 1 (cache_insert_calls p)\<rparr>"

definition record_callback :: "nat \<Rightarrow> perf_metrics \<Rightarrow> perf_metrics" where
  "record_callback elapsed p =
     p\<lparr>callback_us := fetch_add elapsed (callback_us p), callback_calls := fetch_add 1 (callback_calls p)\<rparr>"

text \<open>
  The time of one decode is split between its prompt tokens and its generated tokens; the product
  and the difference are computed with 64 bits.
\<close>

definition prefill_share :: "nat \<Rightarrow> nat \<Rightarrow> nat \<Rightarrow> nat" where
  "prefill_share elapsed n_prompt n_decoding = (elapsed * n_prompt mod 2 ^ 64) div (n_decoding + n_prompt)"

definition record_decode :: "nat \<Rightarrow> nat \<Rightarrow> nat \<Rightarrow> perf_metrics \<Rightarrow> perf_metrics" where
  "record_decode elapsed n_prompt n_decoding p =
     (if n_decoding + n_prompt > 0 then
        let prefill_us = prefill_share elapsed n_prompt n_decoding;
            rest = nat ((int elapsed - int prefill_us) mod 2 ^ 64) in
        p\<lparr>prefill_decode_us := fetch_add prefill_us (prefill_decode_us p),
          prefill_decode_tokens := fetch_add n_prompt (prefill_decode_tokens p),
          generation_decode_us := fetch_add rest (generation_decode_us p),
          generation_decode_tokens := fetch_add n_decoding (generation_decode_tokens p)\<rparr>
      else p)"

definition record_tokenize :: "nat \<Rightarrow> perf_metrics \<Rightarrow> perf_metrics" where
  "record_tokenize elapsed p =
     p\<lparr>tokenize_us := fetch_add elapsed (tokenize_us p), tokenize_calls := fetch_add 1 (tokenize_calls p)\<rparr>"

section \<open>The rest of the bridge\<close>

text \<open>With counters the context is synchronized first, so that the sampler's own time is measured.\<close>

definition bridge_sample ::
  "('c \<Rightarrow> 'c) \<Rightarrow> ('s \<Rightarrow> int \<Rightarrow> 'c \<Rightarrow> token \<times> 'c) \<Rightarrow> nat \<times> nat \<Rightarrow> 's \<Rightarrow> int \<Rightarrow> perf_metrics option \<Rightarrow> 'c \<Rightarrow>
     token \<times> perf_metrics option \<times> 'c" where
  "bridge_sample synchronize sampler_sample elapsed sampler logits_index perf c =
     (case perf of
        None \<Rightarrow> (let (tok, c1) = sampler_sample sampler logits_index c in (tok, None, c1))
      | Some p \<Rightarrow>
          (let c1 = synchronize c;
               p1 = p\<lparr>sync_us := fetch_add (fst elapsed) (sync_us p), sync_calls := fetch_add 1 (sync_calls p)\<rparr>;
               (tok, c2) = sampler_sample sampler logits_index c1;
               p2 = p1\<lparr>sampler_us := fetch_add (snd elapsed) (sampler_us p1), sampler_calls := fetch_add 1 (sampler_calls p1)\<rparr> in
           (tok, Some p2, c2)))"

text \<open>The operations of the mapper on the memory of the bridge; the result of the removal is ignored.\<close>

definition bridge_kv_ops ::
  "(seq_id \<Rightarrow> seq_id \<Rightarrow> int \<Rightarrow> int \<Rightarrow> 'm \<Rightarrow> 'm) \<Rightarrow> (seq_id \<Rightarrow> int \<Rightarrow> int \<Rightarrow> 'm \<Rightarrow> bool \<times> 'm) \<Rightarrow> 'm kv_ops" where
  "bridge_kv_ops memory_seq_cp memory_seq_rm =
     \<lparr>seq_cp = memory_seq_cp, seq_rm = (\<lambda>s p0 p1 mem. snd (memory_seq_rm s p0 p1 mem))\<rparr>"

text \<open>What a bridge creates and frees, from its constructor to its destructor.\<close>

datatype llama_call = BackendInit | ModelLoad | ContextInit | ContextFree | ModelFree | BackendFree

definition bridge_opens :: "(string \<Rightarrow> int \<Rightarrow> 'm option) \<Rightarrow> ('m \<Rightarrow> context_params \<Rightarrow> 'c option) \<Rightarrow> config \<Rightarrow> llama_call list" where
  "bridge_opens load init cfg =
     [BackendInit, ModelLoad] @
     (case load (model_path cfg) (n_gpu_layers cfg) of
        None \<Rightarrow> []
      | Some model \<Rightarrow> [ContextInit] @ (if init model (bridge_context_params cfg) = None then [ModelFree] else []))"

definition bridge_closes :: "llama_call list" where
  "bridge_closes = [ContextFree, ModelFree, BackendFree]"

definition bridge_life :: "(string \<Rightarrow> int \<Rightarrow> 'm option) \<Rightarrow> ('m \<Rightarrow> context_params \<Rightarrow> 'c option) \<Rightarrow> config \<Rightarrow> llama_call list" where
  "bridge_life load init cfg =
     bridge_opens load init cfg @ (case open_bridge load init cfg of Inl e \<Rightarrow> [] | Inr mc \<Rightarrow> bridge_closes)"

section \<open>Time is counted once\<close>

lemma fetch_add_exact: "x + n < 2 ^ 64 \<Longrightarrow> fetch_add n x = x + n"
  by (simp add: fetch_add_def)

text \<open>The share of the prompt is the proportional part of the time, rounded down.\<close>

lemma prefill_share_bounds:
  assumes "elapsed * n_prompt < 2 ^ 64" "0 < n_decoding + n_prompt"
  shows "prefill_share elapsed n_prompt n_decoding \<le> elapsed"
    and "prefill_share elapsed n_prompt n_decoding = elapsed * n_prompt div (n_decoding + n_prompt)"
proof -
  show share: "prefill_share elapsed n_prompt n_decoding = elapsed * n_prompt div (n_decoding + n_prompt)"
    using assms(1) by (simp add: prefill_share_def)
  have "elapsed * n_prompt \<le> elapsed * (n_decoding + n_prompt)" by simp
  then have "elapsed * n_prompt div (n_decoding + n_prompt) \<le> elapsed * (n_decoding + n_prompt) div (n_decoding + n_prompt)"
    by (rule div_le_mono)
  then show "prefill_share elapsed n_prompt n_decoding \<le> elapsed" using assms(2) share
    by (simp only: nonzero_mult_div_cancel_right)
qed

definition decode_time :: "(nat \<times> nat \<times> nat) list \<Rightarrow> nat" where
  "decode_time ds = (\<Sum>(elapsed, n_prompt, n_decoding) \<leftarrow> ds. elapsed)"

fun record_decodes :: "(nat \<times> nat \<times> nat) list \<Rightarrow> perf_metrics \<Rightarrow> perf_metrics" where
  "record_decodes [] p = p"
| "record_decodes ((elapsed, n_prompt, n_decoding) # ds) p = record_decodes ds (record_decode elapsed n_prompt n_decoding p)"

definition real_decode :: "nat \<times> nat \<times> nat \<Rightarrow> bool" where
  "real_decode d \<longleftrightarrow> (case d of (elapsed, n_prompt, n_decoding) \<Rightarrow>
     elapsed * n_prompt < 2 ^ 64 \<and> 0 < n_decoding + n_prompt)"

lemma record_decode_sum:
  assumes "real_decode (elapsed, n_prompt, n_decoding)" "prefill_decode_us p + generation_decode_us p + elapsed < 2 ^ 64"
  shows "prefill_decode_us (record_decode elapsed n_prompt n_decoding p) + generation_decode_us (record_decode elapsed n_prompt n_decoding p)
    = prefill_decode_us p + generation_decode_us p + elapsed"
proof -
  let ?s = "prefill_share elapsed n_prompt n_decoding"
  have s: "?s \<le> elapsed" using prefill_share_bounds(1) assms(1) by (simp add: real_decode_def)
  have "int elapsed < int (2 ^ 64)" using assms(2) by (simp only: of_nat_less_iff)
  then have "int elapsed - int ?s < 2 ^ 64" by simp
  then have "(int elapsed - int ?s) mod 2 ^ 64 = int (elapsed - ?s)" using s by (simp add: mod_pos_pos_trivial of_nat_diff)
  then have "nat ((int elapsed - int ?s) mod 2 ^ 64) = elapsed - ?s" by (simp only: nat_int)
  then have "record_decode elapsed n_prompt n_decoding p = p\<lparr>prefill_decode_us := fetch_add ?s (prefill_decode_us p),
      prefill_decode_tokens := fetch_add n_prompt (prefill_decode_tokens p),
      generation_decode_us := fetch_add (elapsed - ?s) (generation_decode_us p),
      generation_decode_tokens := fetch_add n_decoding (generation_decode_tokens p)\<rparr>"
    using assms(1) by (simp only: record_decode_def Let_def) (simp add: real_decode_def)
  moreover have "fetch_add ?s (prefill_decode_us p) = prefill_decode_us p + ?s"
    "fetch_add (elapsed - ?s) (generation_decode_us p) = generation_decode_us p + (elapsed - ?s)"
    using s assms(2) by (simp_all add: fetch_add_exact)
  ultimately show ?thesis using s by simp
qed

lemma record_decodes_sum:
  assumes "\<forall>d \<in> set ds. real_decode d" "prefill_decode_us p + generation_decode_us p + decode_time ds < 2 ^ 64"
  shows "prefill_decode_us (record_decodes ds p) + generation_decode_us (record_decodes ds p)
    = prefill_decode_us p + generation_decode_us p + decode_time ds"
  using assms
proof (induction ds p rule: record_decodes.induct)
  case (2 elapsed n_prompt n_decoding ds p)
  then show ?case using record_decode_sum [of elapsed n_prompt n_decoding p] by (simp add: decode_time_def)
qed (simp add: decode_time_def)

text \<open>Every model and context that a bridge creates is freed once, the context before its model.\<close>

lemma bridge_life_balanced:
  "bridge_life load init cfg \<in> {[BackendInit, ModelLoad], [BackendInit, ModelLoad, ContextInit, ModelFree],
     [BackendInit, ModelLoad, ContextInit, ContextFree, ModelFree, BackendFree]}"
  by (auto simp: bridge_life_def bridge_opens_def bridge_closes_def open_bridge_def split: option.splits)

end
