(* ===== verification/RF_Lifecycle.thy ===== *)
theory RF_Lifecycle
  imports RF_Perf RF_MainProps RF_WorkerRun
begin

text \<open>
  The life of the program (\<open>main\<close> of src/main.cpp with \<open>start\<close> and \<open>stop\<close> of the server and of the
  worker): how it is launched, and the interleaving of its threads. The main thread waits for a
  signal and takes everything down, the server thread listens, each connection has a handler
  thread of the HTTP library, and the worker thread runs the worker. Handlers wait for the worker,
  the worker waits on its condition variable for requests, and the main thread waits for both.
\<close>

section \<open>The threads\<close>

text \<open>
  Where the threads are. \<open>Closing\<close>: the HTTP library accepts no more connections and waits for its
  handlers. \<open>BeforeQueue\<close>: the worker has seen its flag and is about to take the mutex of the queue;
  \<open>AboutToWait\<close>: it holds the mutex and has found nothing to do; \<open>Waiting\<close>: it waits on the condition
  variable, without the mutex.
\<close>

datatype main_point =
    AwaitSignal | BeginDrain | DrainWait | StopServer | JoinServer | StopWorker | NotifyWorker | JoinWorker | MainReturned

datatype server_point = ServerStarts | SettingUp | CallsListen | Listening | Closing | ServerReturned

datatype worker_point = LoopHead | BeforeQueue | AboutToWait | Waiting | WorkerExited

record handler =
  h_req :: inference_request
  h_streams :: bool

abbreviation h_id :: "handler \<Rightarrow> nat" where
  "h_id h \<equiv> rq_id (h_req h)"

text \<open>
  \<open>stop_set\<close>: \<open>stop_fn_\<close> holds a function. \<open>http_stopped\<close>: the HTTP library was told to stop.
  \<open>entered\<close>: handlers that have passed the check of \<open>accepting_\<close> but have not enqueued their
  requests yet; \<open>waiting\<close>: handlers that wait for their answers. \<open>next_id\<close> numbers the requests. The
  worker's state is \<open>None\<close> once one of its steps was undefined.
\<close>

record ('kv, 'w) program =
  main_at :: main_point
  server_at :: server_point
  worker_at :: worker_point
  signalled :: bool
  the_server :: server
  stop_set :: bool
  http_stopped :: bool
  next_id :: nat
  entered :: "handler list"
  waiting :: "handler list"
  worker_flag :: bool
  worker_now :: "('kv, 'w) worker_state option"

text \<open>The state when the worker and the server thread have just been started.\<close>

definition launched :: "config \<Rightarrow> 'kv \<Rightarrow> 'w \<Rightarrow> ('kv, 'w) program" where
  "launched cfg kv0 w = \<lparr>main_at = AwaitSignal, server_at = ServerStarts, worker_at = LoopHead, signalled = False,
     the_server = new_server, stop_set = False, http_stopped = False, next_id = 0, entered = [], waiting = [],
     worker_flag = True, worker_now = Some (new_worker cfg kv0 w)\<rparr>"

subsection \<open>The main thread\<close>

text \<open>
  \<open>stop\<close> calls the HTTP library only if \<open>stop_fn_\<close> is set; the library's own \<open>stop\<close> reaches a
  server that listens, and with \<open>early\<close> also one that does not listen yet.
\<close>

definition call_stop :: "bool \<Rightarrow> ('kv, 'w) program \<Rightarrow> ('kv, 'w) program" where
  "call_stop early p =
     (let p1 = (if stop_set p \<and> (early \<or> server_at p = Listening) then p\<lparr>http_stopped := True\<rparr> else p) in
      p1\<lparr>the_server := stop_server (the_server p1)\<rparr>)"

text \<open>A notification wakes a thread that waits, and is lost otherwise.\<close>

definition notify :: "('kv, 'w) program \<Rightarrow> ('kv, 'w) program" where
  "notify p = (if worker_at p = Waiting then p\<lparr>worker_at := BeforeQueue\<rparr> else p)"

text \<open>\<open>stop\<close> of the worker clears its flag, notifies its thread and joins it, without the mutex.\<close>

definition clear_worker_flag :: "('kv, 'w) program \<Rightarrow> ('kv, 'w) program" where
  "clear_worker_flag p = p\<lparr>worker_flag := False\<rparr>"

text \<open>A step is \<open>None\<close> while the thread is blocked; \<open>is_idle\<close> takes the mutex of the queue.\<close>

definition main_step :: "bool \<Rightarrow> bool \<Rightarrow> ('kv, 'w) program \<Rightarrow> ('kv, 'w) program option" where
  "main_step early before_deadline p =
     (case main_at p of
        AwaitSignal \<Rightarrow> if signalled p then Some (p\<lparr>main_at := BeginDrain\<rparr>) else Some p
      | BeginDrain \<Rightarrow> Some (p\<lparr>the_server := begin_drain (the_server p), main_at := DrainWait\<rparr>)
      | DrainWait \<Rightarrow>
          (if worker_at p = AboutToWait then None
           else case worker_now p of
             None \<Rightarrow> None
           | Some ws \<Rightarrow> if drain_waits ws before_deadline then Some p else Some (p\<lparr>main_at := StopServer\<rparr>))
      | StopServer \<Rightarrow> Some ((call_stop early p)\<lparr>main_at := JoinServer\<rparr>)
      | JoinServer \<Rightarrow> if server_at p = ServerReturned then Some (p\<lparr>main_at := StopWorker\<rparr>) else None
      | StopWorker \<Rightarrow> Some ((clear_worker_flag p)\<lparr>main_at := NotifyWorker\<rparr>)
      | NotifyWorker \<Rightarrow> Some ((notify p)\<lparr>main_at := JoinWorker\<rparr>)
      | JoinWorker \<Rightarrow> if worker_at p = WorkerExited then Some (p\<lparr>main_at := MainReturned\<rparr>) else None
      | MainReturned \<Rightarrow> None)"

subsection \<open>The server thread\<close>

text \<open>
  \<open>listen\<close> goes on until the library was told to stop, and returns when its handler threads have
  returned. It can also fail, when it binds the port or later.
\<close>

definition server_step :: "('kv, 'w) program \<Rightarrow> ('kv, 'w) program option" where
  "server_step p =
     (case server_at p of
        ServerStarts \<Rightarrow> Some (p\<lparr>the_server := start_server (the_server p), server_at := SettingUp\<rparr>)
      | SettingUp \<Rightarrow> Some (p\<lparr>stop_set := True, server_at := CallsListen\<rparr>)
      | CallsListen \<Rightarrow> Some (p\<lparr>server_at := Listening\<rparr>)
      | Listening \<Rightarrow> if http_stopped p then Some (p\<lparr>server_at := Closing\<rparr>) else None
      | Closing \<Rightarrow>
          if entered p = [] \<and> waiting p = []
          then Some (p\<lparr>the_server := listen_returned (the_server p), server_at := ServerReturned\<rparr>) else None
      | ServerReturned \<Rightarrow> None)"

definition listen_fails :: "('kv, 'w) program \<Rightarrow> ('kv, 'w) program option" where
  "listen_fails p = (if server_at p \<in> {CallsListen, Listening} then Some (p\<lparr>server_at := Closing\<rparr>) else None)"

subsection \<open>The handlers\<close>

text \<open>A completion request is read; it is answered at once or goes on as a request.\<close>

definition handler_enters :: "config \<Rightarrow> string \<Rightarrow> ('kv, 'w) program \<Rightarrow> ('kv, 'w) program option" where
  "handler_enters cfg body p =
     (if server_at p = Listening \<and> \<not> http_stopped p
      then do { h \<leftarrow> handle_completion cfg (the_server p) (next_id p) body;
                let enter = (\<lambda>h. p\<lparr>next_id := Suc (next_id p), entered := entered p @ [h]\<rparr>);
                Some (case h of Answer res \<Rightarrow> p | Streaming req \<Rightarrow> enter \<lparr>h_req = req, h_streams = True\<rparr>
                      | Collecting req \<Rightarrow> enter \<lparr>h_req = req, h_streams = False\<rparr>) }
      else None)"

text \<open>The request is put into the queue under its mutex, and the worker is notified.\<close>

definition handler_enqueues :: "nat \<Rightarrow> ('kv, 'w) program \<Rightarrow> ('kv, 'w) program option" where
  "handler_enqueues i p =
     (if worker_at p = AboutToWait then None
      else do { h \<leftarrow> find (\<lambda>h. h_id h = i) (entered p);
                Some (notify (p\<lparr>entered := remove1 h (entered p), waiting := waiting p @ [h],
                                worker_now := map_option (enqueue (h_req h)) (worker_now p)\<rparr>)) })"

text \<open>
  Both kinds of handler wait until a callback has set \<open>done\<close>, which the last piece and an error do.
  \<open>hist w i\<close> are the callbacks of request \<open>i\<close> so far.
\<close>

definition ends_answer :: "stream_event \<Rightarrow> bool" where
  "ends_answer ev = (case ev of FinalPiece p s \<Rightarrow> True | Problem m n \<Rightarrow> True | _ \<Rightarrow> False)"

definition handler_answered :: "('w \<Rightarrow> nat \<Rightarrow> stream_event list) \<Rightarrow> nat \<Rightarrow> ('kv, 'w) program \<Rightarrow> ('kv, 'w) program option" where
  "handler_answered hist i p =
     do { h \<leftarrow> find (\<lambda>h. h_id h = i) (waiting p);
          ws \<leftarrow> worker_now p;
          if list_ex ends_answer (hist (cw (wcore ws)) i) then Some (p\<lparr>waiting := remove1 h (waiting p)\<rparr>) else None }"

text \<open>
  Otherwise a streaming handler returns only when its connection is dead, and a collecting one when
  the time of \<open>--request-timeout\<close> is over.
\<close>

definition handler_gives_up :: "nat \<Rightarrow> ('kv, 'w) program \<Rightarrow> ('kv, 'w) program option" where
  "handler_gives_up i p =
     do { h \<leftarrow> find (\<lambda>h. h_id h = i) (waiting p); Some (p\<lparr>waiting := remove1 h (waiting p)\<rparr>) }"

subsection \<open>The worker thread\<close>

text \<open>
  One step of \<open>run\<close>. The worker takes the mutex and, if it is idle and the queue is empty, evaluates
  the condition of its wait: it waits while the flag is set, and a notification makes it evaluate
  the condition again. Then it leaves the loop, if the flag is cleared and the queue is empty, or
  does one iteration. What follows the loop is the last step.
\<close>

definition nothing_to_do :: "('kv, 'w) worker_state \<Rightarrow> bool" where
  "nothing_to_do ws \<longleftrightarrow> active ws = [] \<and> prefilling ws = [] \<and> queue ws = []"

definition leave_loop :: "('kv, 'w) worker_env \<Rightarrow> ('kv, 'w) program \<Rightarrow> ('kv, 'w) program" where
  "leave_loop env p = p\<lparr>worker_now := Option.bind (worker_now p) (shutdown env), worker_at := WorkerExited\<rparr>"

definition worker_step :: "('kv, 'w) worker_env \<Rightarrow> ('kv, 'w) program \<Rightarrow> ('kv, 'w) program option" where
  "worker_step env p =
     (case worker_at p of
        LoopHead \<Rightarrow> Some (if worker_flag p then p\<lparr>worker_at := BeforeQueue\<rparr> else leave_loop env p)
      | BeforeQueue \<Rightarrow>
          (case worker_now p of
             None \<Rightarrow> None
           | Some ws \<Rightarrow>
               if nothing_to_do ws \<and> worker_flag p then Some (p\<lparr>worker_at := AboutToWait\<rparr>)
               else if \<not> worker_flag p \<and> queue ws = [] then Some (leave_loop env p)
               else Some (p\<lparr>worker_now := run_iteration env ws, worker_at := LoopHead\<rparr>))
      | AboutToWait \<Rightarrow> Some (p\<lparr>worker_at := Waiting\<rparr>)
      | Waiting \<Rightarrow> None
      | WorkerExited \<Rightarrow> None)"

text \<open>A condition variable may also wake up without a notification.\<close>

definition spurious_wakeup :: "('kv, 'w) program \<Rightarrow> ('kv, 'w) program option" where
  "spurious_wakeup p = (if worker_at p = Waiting then Some (notify p) else None)"

subsection \<open>All threads\<close>

datatype program_action =
    Signal
  | MainThread bool
  | ServerThread
  | ListenFails
  | HandlerEnters string
  | HandlerEnqueues nat
  | HandlerAnswered nat
  | HandlerGivesUp nat
  | WorkerThread
  | SpuriousWakeup

text \<open>What the program runs with: the environment of the worker, and what is known of the library.\<close>

record ('kv, 'w) setting =
  set_env :: "('kv, 'w) worker_env"
  set_cfg :: config
  set_early :: bool
  set_hist :: "'w \<Rightarrow> nat \<Rightarrow> stream_event list"

definition perform :: "('kv, 'w) setting \<Rightarrow> program_action \<Rightarrow> ('kv, 'w) program \<Rightarrow> ('kv, 'w) program option" where
  "perform st a p =
     (if main_at p = MainReturned then None
      else case a of
        Signal \<Rightarrow> Some (p\<lparr>signalled := True\<rparr>)
      | MainThread before_deadline \<Rightarrow> main_step (set_early st) before_deadline p
      | ServerThread \<Rightarrow> server_step p
      | ListenFails \<Rightarrow> listen_fails p
      | HandlerEnters body \<Rightarrow> handler_enters (set_cfg st) body p
      | HandlerEnqueues i \<Rightarrow> handler_enqueues i p
      | HandlerAnswered i \<Rightarrow> handler_answered (set_hist st) i p
      | HandlerGivesUp i \<Rightarrow> handler_gives_up i p
      | WorkerThread \<Rightarrow> worker_step (set_env st) p
      | SpuriousWakeup \<Rightarrow> spurious_wakeup p)"

text \<open>A step of any thread whose action is among the ones that may happen.\<close>

inductive moves :: "('kv, 'w) setting \<Rightarrow> program_action set \<Rightarrow> ('kv, 'w) program \<Rightarrow> ('kv, 'w) program \<Rightarrow> bool"
  for st may where
  "a \<in> may \<Longrightarrow> perform st a p = Some p' \<Longrightarrow> moves st may p p'"

fun perform_all :: "('kv, 'w) setting \<Rightarrow> program_action list \<Rightarrow> ('kv, 'w) program \<Rightarrow> ('kv, 'w) program option" where
  "perform_all st [] p = Some p"
| "perform_all st (a # acts) p = Option.bind (perform st a p) (perform_all st acts)"

lemma perform_all_moves: "perform_all st acts p = Some p' \<Longrightarrow> set acts \<subseteq> may \<Longrightarrow> (moves st may)\<^sup>*\<^sup>* p p'"
proof (induction acts arbitrary: p)
  case (Cons a acts)
  then obtain p1 where "perform st a p = Some p1" "perform_all st acts p1 = Some p'"
    by (auto simp: bind_eq_Some_conv)
  then show ?case using Cons by (auto intro: converse_rtranclp_into_rtranclp moves.intros)
qed simp

section \<open>The launch\<close>

text \<open>
  \<open>main\<close> up to the start of the threads. A bridge that cannot be opened throws, and nothing in
  \<open>main\<close> catches it.
\<close>

datatype ('m, 'c, 'kv, 'w) launch = ShowUsage | Terminated string | Launched config 'm 'c severity "perf_metrics option" "('kv, 'w) program"

definition launch ::
  "(string \<Rightarrow> int \<Rightarrow> 'm option) \<Rightarrow> ('m \<Rightarrow> context_params \<Rightarrow> 'c option) \<Rightarrow> ('c \<Rightarrow> 'kv) \<Rightarrow> 'w \<Rightarrow> string list \<Rightarrow>
     ('m, 'c, 'kv, 'w) launch option" where
  "launch load init memory w args =
     (case main_options args of
        None \<Rightarrow> None
      | Some Usage \<Rightarrow> Some ShowUsage
      | Some (Parsed c) \<Rightarrow>
          do { cfg \<leftarrow> started_config c;
               Some (case open_bridge load init cfg of
                 Inl e \<Rightarrow> Terminated e
               | Inr (model, ctx) \<Rightarrow> Launched cfg model ctx (log_threshold cfg) (if debug_metrics cfg then Some no_time else None)
                                       (launched cfg (memory ctx) w)) })"

end
