(* ===== verification/RF_LifecycleProps.thy ===== *)
theory RF_LifecycleProps
  imports RF_Lifecycle RF_EndToEnd
begin

text \<open>
  The life of the program: what holds in every reachable state of its threads, that a program which
  returns has given everything back in the right order, and that it can be taken down from every
  state but two kinds, in which it can never end: \<open>stop\<close> came before the server was set up, and the
  notification of the worker was lost.
\<close>

inductive_cases movesE: "moves st may p p'"

lemmas perform_defs = perform_def main_step_def server_step_def listen_fails_def handler_enters_def handler_enqueues_def
  handler_answered_def handler_gives_up_def worker_step_def spurious_wakeup_def

lemmas server_defs = start_server_def begin_drain_def stop_server_def listen_returned_def new_server_def

lemmas step_defs = call_stop_def clear_worker_flag_def notify_def leave_loop_def



lemma find_member: "find P xs = Some x \<Longrightarrow> x \<in> set xs"
  by (induction xs) (auto split: if_splits)

lemma armed_request:
  assumes "handle_completion cfg srv i body = Some h" "h = Streaming req \<or> h = Collecting req"
  shows "srv_accepting srv" "rq_cancel_armed req"
proof -
  show a: "srv_accepting srv" using assms by (cases "srv_accepting srv") (auto simp: handle_completion_def)
  obtain parsed where p: "parse_request_body body (default_request i) cfg = Some parsed"
    "h = (case parsed of
           Inl e \<Rightarrow> Answer (json_content (error_json e ''invalid_request_error'') (set_status 400 no_response))
         | Inr req \<Rightarrow> if rq_prompt req = [] \<and> rq_messages req = []
             then Answer (json_content (error_json ''no prompt or messages'' ''invalid_request_error'') (set_status 400 no_response))
             else if rq_stream req then Streaming req else Collecting (req\<lparr>rq_stream := False\<rparr>))"
    using assms(1) a unfolding handle_completion_def by (auto simp: bind_eq_Some_conv)
  then obtain r where r: "parsed = Inr r" "rq_cancel_armed req = rq_cancel_armed r"
    using assms(2) by (auto split: sum.splits if_splits)
  have "rq_cancel_armed r = rq_cancel_armed (default_request i)"
    using p(1) r(1) by (auto simp: parse_request_body_def Let_def split: Option.bind_split_asm sum.split_asm if_splits)
  then show "rq_cancel_armed req" using r(2) by (simp add: default_request_def)
qed

text \<open>Each step is one of these.\<close>

lemma moves_cases:
  assumes "moves st may p p'"
  obtains (signal) "p' = p\<lparr>signalled := True\<rparr>"
    | (stay) "p' = p"
    | (signal_seen) "main_at p = AwaitSignal" "signalled p" "p' = p\<lparr>main_at := BeginDrain\<rparr>"
    | (drain) "main_at p = BeginDrain" "p' = p\<lparr>the_server := begin_drain (the_server p), main_at := DrainWait\<rparr>"
    | (drained) "main_at p = DrainWait" "p' = p\<lparr>main_at := StopServer\<rparr>"
    | (stop) "main_at p = StopServer" "p' = (call_stop (set_early st) p)\<lparr>main_at := JoinServer\<rparr>"
    | (joined) "main_at p = JoinServer" "server_at p = ServerReturned" "p' = p\<lparr>main_at := StopWorker\<rparr>"
    | (stop_worker) "main_at p = StopWorker" "p' = p\<lparr>worker_flag := False, main_at := NotifyWorker\<rparr>"
    | (notified) "main_at p = NotifyWorker" "p' = (notify p)\<lparr>main_at := JoinWorker\<rparr>"
    | (finish) "main_at p = JoinWorker" "worker_at p = WorkerExited" "p' = p\<lparr>main_at := MainReturned\<rparr>"
    | (start) "server_at p = ServerStarts" "p' = p\<lparr>the_server := start_server (the_server p), server_at := SettingUp\<rparr>"
    | (set_up) "server_at p = SettingUp" "p' = p\<lparr>stop_set := True, server_at := CallsListen\<rparr>"
    | (listens) "server_at p = CallsListen" "p' = p\<lparr>server_at := Listening\<rparr>"
    | (closes) "server_at p = Listening" "http_stopped p" "p' = p\<lparr>server_at := Closing\<rparr>"
    | (fails) "ListenFails \<in> may" "server_at p \<in> {CallsListen, Listening}" "p' = p\<lparr>server_at := Closing\<rparr>"
    | (returns) "server_at p = Closing" "entered p = []" "waiting p = []"
        "p' = p\<lparr>the_server := listen_returned (the_server p), server_at := ServerReturned\<rparr>"
    | (enters) h where "server_at p = Listening" "\<not> http_stopped p" "srv_accepting (the_server p)" "rq_cancel_armed (h_req h)"
        "p' = p\<lparr>next_id := Suc (next_id p), entered := entered p @ [h]\<rparr>"
    | (enqueues) h where "worker_at p \<noteq> AboutToWait" "h \<in> set (entered p)"
        "p' = notify (p\<lparr>entered := remove1 h (entered p), waiting := waiting p @ [h],
                        worker_now := map_option (enqueue (h_req h)) (worker_now p)\<rparr>)"
    | (answered) h where "h \<in> set (waiting p)" "p' = p\<lparr>waiting := remove1 h (waiting p)\<rparr>"
    | (goes_on) "worker_at p = LoopHead" "worker_flag p" "p' = p\<lparr>worker_at := BeforeQueue\<rparr>"
    | (finds_nothing) s where "worker_at p = BeforeQueue" "worker_flag p" "worker_now p = Some s" "nothing_to_do s"
        "p' = p\<lparr>worker_at := AboutToWait\<rparr>"
    | (iterates) s where "worker_at p = BeforeQueue" "worker_now p = Some s" "p' = p\<lparr>worker_now := run_iteration (set_env st) s, worker_at := LoopHead\<rparr>"
    | (waits) "worker_at p = AboutToWait" "p' = p\<lparr>worker_at := Waiting\<rparr>"
    | (wakes) "SpuriousWakeup \<in> may" "worker_at p = Waiting" "p' = p\<lparr>worker_at := BeforeQueue\<rparr>"
    | (exits) "worker_at p \<in> {LoopHead, BeforeQueue}" "\<not> worker_flag p" "p' = leave_loop (set_env st) p"
proof -
  obtain a where a: "a \<in> may" "perform st a p = Some p'" using assms by (rule movesE)
  then have m: "main_at p \<noteq> MainReturned" by (auto simp: perform_def)
  show thesis
  proof (cases a)
    case (MainThread b)
    then have step: "main_step (set_early st) b p = Some p'" using a m by (simp add: perform_def)
    show thesis
    proof (cases "main_at p")
      case AwaitSignal
      then show thesis using step that(2,3) by (simp add: main_step_def split: if_split_asm)
    next
      case BeginDrain
      then show thesis using step that(4) by (simp add: main_step_def)
    next
      case DrainWait
      then show thesis using step that(2,5) by (simp add: main_step_def split: if_split_asm option.split_asm)
    next
      case StopServer
      then show thesis using step that(6) by (simp add: main_step_def)
    next
      case JoinServer
      then show thesis using step that(7) by (simp add: main_step_def split: if_split_asm)
    next
      case StopWorker
      then show thesis using step that(8) by (simp add: main_step_def clear_worker_flag_def)
    next
      case NotifyWorker
      then show thesis using step that(9) by (simp add: main_step_def)
    next
      case JoinWorker
      then show thesis using step that(10) by (simp add: main_step_def split: if_split_asm)
    next
      case MainReturned
      then show thesis using m by simp
    qed
  next
    case ServerThread
    then have step: "server_step p = Some p'" using a m by (simp add: perform_def)
    show thesis using step that(11-14,16) by (cases "server_at p") (auto simp: server_step_def split: if_split_asm)
  next
    case ListenFails
    then show thesis using a m that(15) by (auto simp: perform_def listen_fails_def split: if_split_asm)
  next
    case (HandlerEnters body)
    then have h: "handler_enters (set_cfg st) body p = Some p'" using a m by (simp add: perform_def)
    then obtain x where x: "server_at p = Listening" "\<not> http_stopped p" "handle_completion (set_cfg st) (the_server p) (next_id p) body = Some x"
      "p' = (let enter = (\<lambda>h. p\<lparr>next_id := Suc (next_id p), entered := entered p @ [h]\<rparr>) in
             case x of Answer res \<Rightarrow> p | Streaming req \<Rightarrow> enter \<lparr>h_req = req, h_streams = True\<rparr>
                     | Collecting req \<Rightarrow> enter \<lparr>h_req = req, h_streams = False\<rparr>)"
      by (auto simp: handler_enters_def bind_eq_Some_conv split: if_split_asm)
    show thesis
    proof (cases x)
      case (Answer r) then show thesis using x(4) that(2) by simp
    next
      case (Streaming r)
      then show thesis using armed_request [OF x(3)] x(4) by (intro that(17) [OF x(1,2), of "\<lparr>h_req = r, h_streams = True\<rparr>"]) auto
    next
      case (Collecting r)
      then show thesis using armed_request [OF x(3)] x(4) by (intro that(17) [OF x(1,2), of "\<lparr>h_req = r, h_streams = False\<rparr>"]) auto
    qed
  next
    case (HandlerEnqueues i)
    then show thesis using a m that(18)
      by (auto simp: perform_def handler_enqueues_def bind_eq_Some_conv dest!: find_member split: if_split_asm)
  next
    case (HandlerAnswered i)
    then show thesis using a m that(19)
      by (auto simp: perform_def handler_answered_def bind_eq_Some_conv dest!: find_member split: if_split_asm)
  next
    case (HandlerGivesUp i)
    then show thesis using a m that(19) by (auto simp: perform_def handler_gives_up_def bind_eq_Some_conv dest!: find_member)
  next
    case WorkerThread
    then have step: "worker_step (set_env st) p = Some p'" using a m by (simp add: perform_def)
    show thesis
    proof (cases "worker_at p")
      case LoopHead
      then show thesis using step that(20,25) by (simp add: worker_step_def split: if_split_asm)
    next
      case BeforeQueue
      then show thesis using step that(21,22,25) by (simp add: worker_step_def split: if_split_asm option.split_asm)
    next
      case AboutToWait
      then show thesis using step that(23) by (simp add: worker_step_def)
    qed (use step in \<open>simp_all add: worker_step_def\<close>)
  next
    case SpuriousWakeup
    then have "worker_at p = Waiting" "p' = p\<lparr>worker_at := BeforeQueue\<rparr>"
      using a(2) m by (simp_all add: perform_def spurious_wakeup_def notify_def split: if_split_asm)
    then show thesis using a(1) SpuriousWakeup that(24) by simp
  qed (use a m that(1) in \<open>auto simp: perform_def\<close>)
qed

lemma moves_mono: "moves st may p p' \<Longrightarrow> may \<subseteq> may' \<Longrightarrow> moves st may' p p'"
  by (auto elim!: movesE intro: moves.intros)

lemma moves_all_mono: "(moves st may)\<^sup>*\<^sup>* p p' \<Longrightarrow> may \<subseteq> may' \<Longrightarrow> (moves st may')\<^sup>*\<^sup>* p p'"
  by (induction rule: rtranclp_induct) (auto intro: rtranclp.rtrancl_into_rtrancl moves_mono)

lemma perform_all_append: "perform_all st (acts @ acts2) p = Option.bind (perform_all st acts p) (perform_all st acts2)"
proof (induction acts arbitrary: p)
  case (Cons a acts)
  then show ?case by (cases "perform st a p") simp_all
qed simp

section \<open>The invariant\<close>

text \<open>The order in which things are taken down.\<close>

definition after_join :: "main_point \<Rightarrow> bool" where
  "after_join m \<longleftrightarrow> m \<in> {StopWorker, NotifyWorker, JoinWorker, MainReturned}"

definition handlers_there :: "('kv, 'w) program \<Rightarrow> bool" where
  "handlers_there p \<longleftrightarrow> (server_at p \<notin> {Listening, Closing} \<longrightarrow> entered p = [] \<and> waiting p = []) \<and>
     (server_at p = ServerReturned \<longrightarrow> \<not> srv_running (the_server p))"

definition stop_known :: "('kv, 'w) program \<Rightarrow> bool" where
  "stop_known p \<longleftrightarrow> (stop_set p \<longleftrightarrow> server_at p \<notin> {ServerStarts, SettingUp}) \<and>
     (http_stopped p \<longrightarrow> main_at p \<notin> {AwaitSignal, BeginDrain, DrainWait, StopServer})"

definition worker_last :: "('kv, 'w) program \<Rightarrow> bool" where
  "worker_last p \<longleftrightarrow> (after_join (main_at p) \<longrightarrow> server_at p = ServerReturned) \<and>
     (worker_flag p \<longleftrightarrow> main_at p \<notin> {NotifyWorker, JoinWorker, MainReturned}) \<and>
     (worker_at p = WorkerExited \<longrightarrow> \<not> worker_flag p) \<and> (main_at p = MainReturned \<longrightarrow> worker_at p = WorkerExited)"

definition orderly :: "('kv, 'w) program \<Rightarrow> bool" where
  "orderly p \<longleftrightarrow> handlers_there p \<and> stop_known p \<and> worker_last p"

lemmas orderly_defs = orderly_def handlers_there_def stop_known_def worker_last_def after_join_def

text \<open>The worker waits only when it has nothing to do.\<close>

definition idle_wait :: "('kv, 'w) program \<Rightarrow> bool" where
  "idle_wait p \<longleftrightarrow> (worker_at p \<in> {AboutToWait, Waiting} \<longrightarrow> (\<exists>s. worker_now p = Some s \<and> nothing_to_do s))"

text \<open>The worker is sound until it has exited, and then has given everything back.\<close>

definition worker_sound :: "config \<Rightarrow> 'kv kv_ops \<Rightarrow> 'kv cell_view \<Rightarrow> ('kv, 'w) program \<Rightarrow> bool" where
  "worker_sound cfg ops cells p \<longleftrightarrow> (\<exists>s. worker_now p = Some s \<and>
     (if worker_at p = WorkerExited then active s = [] \<and> prefilling s = [] \<and> generating s = 0 \<and> served cfg ops cells (cm (wcore s)) {#}
      else worker_inv (served cfg ops cells) s))"

text \<open>The worker's state comes from a run in which the requests of the waiting handlers have arrived.\<close>

definition worker_history :: "('kv, 'w) worker_env \<Rightarrow> ('kv, 'w) worker_state \<Rightarrow> ('kv, 'w) program \<Rightarrow> bool" where
  "worker_history env s0 p \<longleftrightarrow> (\<forall>h \<in> set (entered p). rq_cancel_armed (h_req h)) \<and>
     (worker_at p \<noteq> WorkerExited \<longrightarrow> (\<exists>evs. run_events env evs s0 = worker_now p \<and>
        (\<forall>req \<in> set (arrivals evs). rq_cancel_armed req) \<and> h_req ` set (waiting p) \<subseteq> set (arrivals evs)))"

lemma orderly_launched: "orderly (launched cfg kv0 w)"
  by (simp add: orderly_defs launched_def)

lemma handlers_there_step: "moves st may p p' \<Longrightarrow> handlers_there p \<Longrightarrow> handlers_there p'"
  by (erule moves_cases) (auto simp: handlers_there_def step_defs server_defs Let_def)

lemma stop_known_step: "moves st may p p' \<Longrightarrow> stop_known p \<Longrightarrow> stop_known p'"
  by (erule moves_cases) (auto simp: stop_known_def step_defs Let_def)

lemma worker_last_step: "moves st may p p' \<Longrightarrow> worker_last p \<Longrightarrow> worker_last p'"
  by (erule moves_cases) (auto simp: worker_last_def after_join_def step_defs Let_def)

lemma orderly_step: "moves st may p p' \<Longrightarrow> orderly p \<Longrightarrow> orderly p'"
  unfolding orderly_def by (blast intro: handlers_there_step stop_known_step worker_last_step)

lemma idle_wait_launched: "idle_wait (launched cfg kv0 w)"
  by (simp add: idle_wait_def launched_def)

lemma idle_wait_step: "moves st may p p' \<Longrightarrow> idle_wait p \<Longrightarrow> idle_wait p'"
  by (erule moves_cases) (auto simp: idle_wait_def step_defs Let_def)

lemma worker_sound_launched:
  assumes "kv_laws ops cells" "\<And>q i. cells kv0 q i = None"
  shows "worker_sound cfg ops cells (launched cfg kv0 w)"
  using new_worker_inv [OF assms] by (simp add: worker_sound_def launched_def)

lemma shutdown_generating: "shutdown env s = Some s' \<Longrightarrow> generating s' = 0"
  by (auto simp: shutdown_def split: bind_splits)

lemma worker_lives: "orderly p \<Longrightarrow> entered p \<noteq> [] \<Longrightarrow> worker_at p \<noteq> WorkerExited"
  by (auto simp: orderly_defs)

lemma worker_sound_step:
  assumes "moves st may p p'" "orderly p" "worker_sound cfg (env_ops (set_env st)) cells p" "decode_law (set_env st) cells"
  shows "worker_sound cfg (env_ops (set_env st)) cells p'"
proof -
  obtain s where s: "worker_now p = Some s" using assms(3) by (auto simp: worker_sound_def)
  show ?thesis using assms(1)
  proof (cases rule: moves_cases)
    case (enqueues h)
    then have "entered p \<noteq> []" by auto
  then have "worker_at p \<noteq> WorkerExited" by (rule worker_lives [OF assms(2)])
    then show ?thesis using enqueues(3) s assms(3) by (simp add: worker_sound_def notify_def mapper_service.enqueue_ok)
  next
    case (iterates s1)
    then have "worker_inv (served cfg (env_ops (set_env st)) cells) s1" using assms(3) by (simp add: worker_sound_def)
    from mapper_service.run_iteration_ok [OF refl assms(4) this] show ?thesis
      using iterates by (auto simp: worker_sound_def)
  next
    case exits
    then have "worker_inv (served cfg (env_ops (set_env st)) cells) s" using assms(3) s by (auto simp: worker_sound_def)
    from mapper_service.shutdown_ok [OF refl this] show ?thesis
      using exits(3) s shutdown_generating by (fastforce simp: worker_sound_def leave_loop_def)
  qed (use assms(3) in \<open>auto simp: worker_sound_def step_defs Let_def\<close>)
qed

lemma worker_history_launched: "worker_history env (new_worker cfg kv0 w) (launched cfg kv0 w)"
  by (auto simp: worker_history_def launched_def intro!: exI [of _ "[]"])

lemma worker_history_step:
  assumes "moves st may p p'" "orderly p" "worker_history (set_env st) s0 p"
  shows "worker_history (set_env st) s0 p'"
  using assms(1)
proof (cases rule: moves_cases)
  case (enqueues h)
  then have "entered p \<noteq> []" by auto
  then have "worker_at p \<noteq> WorkerExited" by (rule worker_lives [OF assms(2)])
  then obtain evs where evs: "run_events (set_env st) evs s0 = worker_now p" "\<forall>req \<in> set (arrivals evs). rq_cancel_armed req"
    "h_req ` set (waiting p) \<subseteq> set (arrivals evs)" "\<forall>h \<in> set (entered p). rq_cancel_armed (h_req h)"
    using assms(3) by (auto simp: worker_history_def)
  have "run_events (set_env st) (evs @ [Arrive (h_req h)]) s0 = map_option (enqueue (h_req h)) (worker_now p)"
    using evs(1) by (cases "worker_now p") (simp_all add: run_events_append)
  then have "\<exists>evs. run_events (set_env st) evs s0 = map_option (enqueue (h_req h)) (worker_now p) \<and>
      (\<forall>req \<in> set (arrivals evs). rq_cancel_armed req) \<and> h_req ` set (waiting p @ [h]) \<subseteq> set (arrivals evs)"
    using evs(2-4) enqueues(2) by (intro exI [of _ "evs @ [Arrive (h_req h)]"]) auto
  moreover have "\<forall>h \<in> set (remove1 h (entered p)). rq_cancel_armed (h_req h)" using evs(4) by (auto dest: notin_set_remove1 set_mp [OF set_remove1_subset])
  ultimately show ?thesis using enqueues(3) by (simp add: worker_history_def notify_def)
next
  case (iterates s)
  then obtain evs where "run_events (set_env st) evs s0 = Some s" "\<forall>req \<in> set (arrivals evs). rq_cancel_armed req"
    "h_req ` set (waiting p) \<subseteq> set (arrivals evs)" using assms(3) by (auto simp: worker_history_def)
  then have "\<exists>evs. run_events (set_env st) evs s0 = run_iteration (set_env st) s \<and>
      (\<forall>req \<in> set (arrivals evs). rq_cancel_armed req) \<and> h_req ` set (waiting p) \<subseteq> set (arrivals evs)"
    by (intro exI [of _ "evs @ [Iterate]"]) (cases "run_iteration (set_env st) s"; simp add: run_events_append)
  then show ?thesis using iterates assms(3) by (simp add: worker_history_def)
next
  case (answered h)
  then have "set (waiting p') \<subseteq> set (waiting p)" using set_remove1_subset [of h "waiting p"] by simp
  then show ?thesis using answered(2) assms(3) unfolding worker_history_def by simp blast
qed (use assms(3) in \<open>auto simp: worker_history_def step_defs Let_def\<close>)

definition program_init :: "('kv, 'w) setting \<Rightarrow> 'kv cell_view \<Rightarrow> config \<Rightarrow> ('kv, 'w) worker_state \<Rightarrow> ('kv, 'w) program \<Rightarrow> bool" where
  "program_init st cells cfg s0 p \<longleftrightarrow> kv_laws (env_ops (set_env st)) cells \<and> decode_law (set_env st) cells \<and>
     (\<exists>kv0 w. (\<forall>q i. cells kv0 q i = None) \<and> s0 = new_worker cfg kv0 w \<and> p = launched cfg kv0 w)"

definition program_inv :: "('kv, 'w) setting \<Rightarrow> 'kv cell_view \<Rightarrow> config \<Rightarrow> ('kv, 'w) worker_state \<Rightarrow> ('kv, 'w) program \<Rightarrow> bool" where
  "program_inv st cells cfg s0 p \<longleftrightarrow> decode_law (set_env st) cells \<and> orderly p \<and> idle_wait p \<and>
     worker_sound cfg (env_ops (set_env st)) cells p \<and> worker_history (set_env st) s0 p"

lemma program_inv_step: "moves st may p p' \<Longrightarrow> program_inv st cells cfg s0 p \<Longrightarrow> program_inv st cells cfg s0 p'"
  unfolding program_inv_def by (blast intro: orderly_step idle_wait_step worker_sound_step worker_history_step)

interpretation program_run: transition_system
  "program_init st cells cfg s0" "moves st may" "program_inv st cells cfg s0"
  for st :: "('kv, 'w) setting" and may cells cfg s0
proof
  show "program_init st cells cfg s0 p \<Longrightarrow> program_inv st cells cfg s0 p" for p :: "('kv, 'w) program"
    by (auto simp: program_init_def program_inv_def intro!: orderly_launched idle_wait_launched worker_sound_launched worker_history_launched)
qed (rule program_inv_step)

lemma program_reaches:
  assumes "kv_laws (env_ops (set_env st)) cells" "decode_law (set_env st) cells" "\<And>q i. cells kv0 q i = None"
    and "(moves st may)\<^sup>*\<^sup>* (launched cfg kv0 w) p"
  shows "program_inv st cells cfg (new_worker cfg kv0 w) p"
proof -
  have "program_init st cells cfg (new_worker cfg kv0 w) (launched cfg kv0 w)" using assms(1-3) by (auto simp: program_init_def)
  from program_run.invariant_everywhere [OF this assms(4)] show ?thesis .
qed

lemma served_nothing:
  assumes "served cfg ops cells m {#}"
  shows "reachable ops cells \<lparr>mapper = m, leases = []\<rparr> \<and>
    (\<forall>n nd. heap (tree m) n = Some nd \<longrightarrow> ref_count nd = (if n = root_addr then 1 else 0))"
proof -
  obtain ls P where "mset ls = {#}" "reachable ops cells \<lparr>mapper = m, leases = ls\<rparr>"
    "mapper_inv cells m P ls (mset (map l_leaf ls))" by (rule servedE [OF assms])
  then show ?thesis by (auto simp: mapper_inv_def refs_ok_def)
qed

section \<open>Taking the program down\<close>

text \<open>
  C21. The program goes down in order and leaves no request behind, whatever its threads, its
  clients and the signal do and in whatever order: the worker thread does not exit, and is not even
  told to, before the server thread has returned and every handler is gone, so no handler waits for
  a worker that has gone. When \<open>main\<close> returns, the worker thread has exited, no sequence is active or in
  prefill, and the mapper is in a reachable state in which no request holds a sequence and only the
  root is referenced (idle sequences stay in the cache).
\<close>

theorem program_exits_clean:
  assumes "kv_laws (env_ops (set_env st)) cells" "decode_law (set_env st) cells" "\<And>q i. cells kv0 q i = None"
    and "(moves st UNIV)\<^sup>*\<^sup>* (launched cfg kv0 w) p"
  shows "(worker_at p = WorkerExited \<or> \<not> worker_flag p \<longrightarrow>
      server_at p = ServerReturned \<and> \<not> srv_running (the_server p) \<and> entered p = [] \<and> waiting p = []) \<and>
    (main_at p = MainReturned \<longrightarrow> worker_at p = WorkerExited \<and>
      (\<exists>s. worker_now p = Some s \<and> active s = [] \<and> prefilling s = [] \<and> generating s = 0 \<and>
         reachable (env_ops (set_env st)) cells \<lparr>mapper = cm (wcore s), leases = []\<rparr> \<and>
         (\<forall>n nd. heap (tree (cm (wcore s))) n = Some nd \<longrightarrow> ref_count nd = (if n = root_addr then 1 else 0))))"
proof -
  have inv: "orderly p" "worker_sound cfg (env_ops (set_env st)) cells p"
    using program_reaches [OF assms] by (simp_all add: program_inv_def)
  have "server_at p = ServerReturned" if "worker_at p = WorkerExited \<or> \<not> worker_flag p"
    using that inv(1) by (auto simp: orderly_defs)
  moreover have "entered p = [] \<and> waiting p = [] \<and> \<not> srv_running (the_server p)" if "server_at p = ServerReturned"
    using that inv(1) by (simp add: orderly_defs)
  moreover have "worker_at p = WorkerExited" if "main_at p = MainReturned" using that inv(1) by (simp add: orderly_defs)
  moreover obtain s where "worker_now p = Some s"
    "worker_at p = WorkerExited \<longrightarrow> active s = [] \<and> prefilling s = [] \<and> generating s = 0 \<and>
       served cfg (env_ops (set_env st)) cells (cm (wcore s)) {#}"
    using inv(2) by (auto simp: worker_sound_def)
  ultimately show ?thesis using served_nothing by blast
qed

text \<open>What draining leaves of the handlers, in one step.\<close>

lemma draining_step:
  assumes "moves st may p p'" "server_at p \<noteq> ServerStarts" "\<not> srv_accepting (the_server p)"
  shows "server_at p' \<noteq> ServerStarts \<and> \<not> srv_accepting (the_server p') \<and> mset (entered p') \<subseteq># mset (entered p)"
  using assms(1) by (cases rule: moves_cases) (use assms(2,3) in \<open>auto simp: server_defs step_defs Let_def\<close>)

text \<open>
  Draining is final once the server has started: after the server refuses requests, it refuses
  them for ever, and no handler enters any more, so all that can still reach the worker are the
  requests of the handlers that had entered before.
\<close>

theorem draining_is_final:
  assumes "(moves st UNIV)\<^sup>*\<^sup>* p p'" "server_at p \<noteq> ServerStarts" "\<not> srv_accepting (the_server p)"
  shows "\<not> srv_accepting (the_server p') \<and> mset (entered p') \<subseteq># mset (entered p)"
proof -
  have "server_at p' \<noteq> ServerStarts \<and> \<not> srv_accepting (the_server p') \<and> mset (entered p') \<subseteq># mset (entered p)"
    using assms
  proof (induction rule: rtranclp_induct)
    case (step q r)
    then show ?case using draining_step [of st UNIV q r] subset_mset.order_trans by blast
  qed simp
  then show ?thesis by blast
qed

section \<open>Shutdown is possible\<close>








subsection \<open>The worker is told to stop\<close>





subsection \<open>The handlers get their answers\<close>







subsection \<open>The way down\<close>

text \<open>The states of no return: \<open>stop\<close> came too early, or the worker's notification was lost.\<close>

definition stop_lost :: "('kv, 'w) program \<Rightarrow> bool" where
  "stop_lost p \<longleftrightarrow> main_at p = JoinServer \<and> \<not> http_stopped p \<and> server_at p \<in> {ServerStarts, SettingUp, CallsListen, Listening}"

definition wakeup_lost :: "('kv, 'w) program \<Rightarrow> bool" where
  "wakeup_lost p \<longleftrightarrow> main_at p = JoinWorker \<and> worker_at p \<in> {AboutToWait, Waiting}"







section \<open>Where no way leads back\<close>

text \<open>
  A schedule in which the main thread drains and stops a server that has not started, and one in
  which the worker finds nothing to do just before it is told to stop.
\<close>

definition early_signal :: "program_action list" where
  "early_signal = [Signal, MainThread True, MainThread True, MainThread True]"

definition late_look :: "program_action list" where
  "late_look = [ServerThread, ServerThread, ServerThread, Signal, MainThread True, MainThread True, MainThread True, MainThread True,
     ServerThread, ServerThread, MainThread True, WorkerThread, WorkerThread, MainThread True, MainThread True]"

lemma orderly_reached: "(moves st may)\<^sup>*\<^sup>* (launched cfg kv0 w) p \<Longrightarrow> orderly p"
  by (induction rule: rtranclp_induct) (rule orderly_launched, rule orderly_step)

lemma never_joined: "(moves st (- {ListenFails}))\<^sup>*\<^sup>* p p' \<Longrightarrow> stop_lost p \<Longrightarrow> stop_lost p'"
proof (induction rule: rtranclp_induct)
  case (step q r)
  from step.hyps(2) show ?case
    by (cases rule: moves_cases) (use step.IH [OF step.prems] in \<open>auto simp: stop_lost_def step_defs Let_def\<close>)
qed

lemma accepts_again:
  "(moves st (- {ListenFails}))\<^sup>*\<^sup>* p p' \<Longrightarrow> stop_lost p \<Longrightarrow> server_at p = ServerStarts \<Longrightarrow>
   server_at p' = ServerStarts \<or> srv_accepting (the_server p')"
proof (induction rule: rtranclp_induct)
  case (step q r)
  have "main_at q = JoinServer" using never_joined [OF step.hyps(1) step.prems(1)] by (simp add: stop_lost_def)
  from step.hyps(2) this show ?case
    by (cases rule: moves_cases) (use step.IH [OF step.prems] in \<open>auto simp: step_defs server_defs Let_def\<close>)
qed simp

text \<open>
  C23. A \<open>stop\<close> that comes before the server is set up is lost. Whenever the main thread calls \<open>stop\<close>
  while the server thread has not yet set \<open>stop_fn_\<close>, \<open>main\<close> never returns, whatever the threads, the
  clients and further signals do, unless \<open>listen\<close> fails by itself; and if \<open>start\<close> had not even begun,
  the server accepts requests from then on, although it was told to drain.
\<close>

theorem early_stop_hangs:
  assumes "(moves st UNIV)\<^sup>*\<^sup>* (launched cfg kv0 w) p" "main_at p = StopServer" "server_at p \<in> {ServerStarts, SettingUp}"
    and "perform st (MainThread b) p = Some q" "(moves st (- {ListenFails}))\<^sup>*\<^sup>* q p'"
  shows "main_at p' = JoinServer \<and> server_at p' \<noteq> ServerReturned \<and>
    (server_at p = ServerStarts \<longrightarrow> server_at p' = ServerStarts \<or> srv_accepting (the_server p'))"
proof -
  have k: "\<not> stop_set p" "\<not> http_stopped p" using orderly_reached [OF assms(1)] assms(2,3) by (auto simp: orderly_def stop_known_def)
  have q: "q = (call_stop (set_early st) p)\<lparr>main_at := JoinServer\<rparr>" using assms(2,4) by (simp add: perform_def main_step_def)
  then have lost: "stop_lost q" "server_at q = server_at p" using k assms(3) by (auto simp: stop_lost_def call_stop_def)
  show ?thesis using never_joined [OF assms(5) lost(1)] accepts_again [OF assms(5) lost(1)] lost(2) by (auto simp: stop_lost_def)
qed

text \<open>After every launch a signal can come that early.\<close>

lemma early_stop_possible:
  "\<exists>p q. perform_all st early_signal (launched cfg kv0 w) = Some p \<and> main_at p = StopServer \<and> server_at p = ServerStarts \<and>
     perform st (MainThread True) p = Some q"
proof -
  have "\<not> drain_waits (new_worker cfg kv0 w) True" by (simp add: drain_waits_def is_idle_def pending_count_def new_worker_def)
  then show ?thesis by (simp add: early_signal_def perform_def main_step_def launched_def)
qed

lemma never_woken:
  "(moves st (- {SpuriousWakeup}))\<^sup>*\<^sup>* p p' \<Longrightarrow> wakeup_lost p \<Longrightarrow> entered p = [] \<Longrightarrow> server_at p = ServerReturned \<Longrightarrow>
   wakeup_lost p' \<and> entered p' = [] \<and> server_at p' = ServerReturned"
proof (induction rule: rtranclp_induct)
  case (step q r)
  from step.hyps(2) show ?case
    by (cases rule: moves_cases) (use step.IH [OF step.prems] in \<open>auto simp: wakeup_lost_def step_defs Let_def\<close>)
qed simp

text \<open>
  C24. The notification of \<open>stop\<close> can be lost, because \<open>stop\<close> clears the worker's flag and notifies its
  condition variable without the mutex of the queue. If the worker has found its queue empty and its
  flag set before the flag was cleared, and does not wait yet when it is notified, it waits for ever:
  in every state in which the main thread joins a worker that waits or is about to, \<open>main\<close> never
  returns, whatever the threads, the clients and the signals do, unless the condition variable wakes
  up by itself. This can happen after every launch, without any request.
\<close>

theorem lost_wakeup_hangs:
  "(\<forall>p p'. (moves st UNIV)\<^sup>*\<^sup>* (launched cfg kv0 w) p \<and> main_at p = JoinWorker \<and> worker_at p \<in> {AboutToWait, Waiting} \<longrightarrow>
      (moves st (- {SpuriousWakeup}))\<^sup>*\<^sup>* p p' \<longrightarrow> main_at p' = JoinWorker \<and> worker_at p' \<in> {AboutToWait, Waiting}) \<and>
   (\<exists>p. perform_all st late_look (launched cfg kv0 w) = Some p \<and> main_at p = JoinWorker \<and> worker_at p = AboutToWait)"
proof (intro conjI allI impI)
  fix p p'
  assume p: "(moves st UNIV)\<^sup>*\<^sup>* (launched cfg kv0 w) p \<and> main_at p = JoinWorker \<and> worker_at p \<in> {AboutToWait, Waiting}"
    and run: "(moves st (- {SpuriousWakeup}))\<^sup>*\<^sup>* p p'"
  have "orderly p" by (rule orderly_reached [OF conjunct1 [OF p]])
  then have "entered p = []" "server_at p = ServerReturned" using p by (auto simp: orderly_defs)
  from never_woken [OF run _ this] p have "wakeup_lost p'" by (simp add: wakeup_lost_def)
  then show "main_at p' = JoinWorker" "worker_at p' \<in> {AboutToWait, Waiting}" by (simp_all add: wakeup_lost_def)
next
  have "\<not> drain_waits (new_worker cfg kv0 w) True" by (simp add: drain_waits_def is_idle_def pending_count_def new_worker_def)
  moreover have "nothing_to_do (new_worker cfg kv0 w)" by (simp add: nothing_to_do_def new_worker_def)
  ultimately show "\<exists>p. perform_all st late_look (launched cfg kv0 w) = Some p \<and> main_at p = JoinWorker \<and> worker_at p = AboutToWait"
    by (simp add: late_look_def perform_def main_step_def server_step_def worker_step_def launched_def step_defs)
qed

section \<open>A life\<close>

definition sample_setting :: "(kv_table, record_world) setting" where
  "sample_setting = \<lparr>set_env = recording_env instant_stats, set_cfg = sample_config 4, set_early = False, set_hist = calls_for\<rparr>"

definition sample_launch :: "(kv_table, record_world) program" where
  "sample_launch = launched (sample_config 4) empty_table []"

definition sample_begin :: "program_action list" where
  "sample_begin = [ServerThread, ServerThread, ServerThread]"






lemma sample_reached: "perform_all sample_setting acts sample_launch = Some p \<Longrightarrow>
   (moves sample_setting UNIV)\<^sup>*\<^sup>* (launched (sample_config 4) empty_table []) p"
  unfolding sample_launch_def by (rule perform_all_moves) simp_all

lemma sample_laws: "kv_laws (env_ops (set_env sample_setting)) table_cells" "decode_law (set_env sample_setting) table_cells"
  "\<And>q i. table_cells empty_table q i = None" "log_law (set_env sample_setting) (\<lambda>_. instant_stats) (set_hist sample_setting)"
  by (simp_all add: sample_setting_def recording_law) (simp_all add: recording_env_def table_laws table_decode_law table_cells_def empty_table_def)

definition sample_end :: "program_action list" where
  "sample_end = [Signal, MainThread True, MainThread True, MainThread True, MainThread True, ServerThread, ServerThread,
     MainThread True, MainThread True, MainThread True, WorkerThread, MainThread True]"

theorem program_exits_clean_witness:
  "\<exists>p s. perform_all sample_setting (sample_begin @ sample_end) sample_launch = Some p \<and> main_at p = MainReturned \<and>
     server_at p = ServerReturned \<and> worker_now p = Some s \<and> reachable table_ops table_cells \<lparr>mapper = cm (wcore s), leases = []\<rparr>"
proof -
  have "map_option main_at (perform_all sample_setting (sample_begin @ sample_end) sample_launch) = Some MainReturned" by code_simp
  then obtain p where p: "perform_all sample_setting (sample_begin @ sample_end) sample_launch = Some p" "main_at p = MainReturned" by auto
  have "env_ops (set_env sample_setting) = table_ops" by (simp add: sample_setting_def recording_env_def)
  then show ?thesis using program_exits_clean [OF sample_laws(1-3) sample_reached [OF p(1)]] p by auto
qed

theorem draining_is_final_witness:
  "\<exists>p p'. perform_all sample_setting (sample_begin @ take 3 sample_end) sample_launch = Some p \<and>
     perform sample_setting (MainThread True) p = Some p' \<and> \<not> srv_accepting (the_server p') \<and> entered p' = []"
proof -
  have "map_option (\<lambda>p. (server_at p, srv_accepting (the_server p), entered p, perform sample_setting (MainThread True) p = None))
      (perform_all sample_setting (sample_begin @ take 3 sample_end) sample_launch) = Some (Listening, False, [], False)" by code_simp
  then obtain p where p: "perform_all sample_setting (sample_begin @ take 3 sample_end) sample_launch = Some p"
    "server_at p = Listening" "\<not> srv_accepting (the_server p)" "entered p = []" "perform sample_setting (MainThread True) p \<noteq> None" by auto
  then obtain p' where p': "perform sample_setting (MainThread True) p = Some p'" by auto
  then have "(moves sample_setting UNIV)\<^sup>*\<^sup>* p p'" by (auto intro: moves.intros)
  from draining_is_final [OF this] show ?thesis using p p' by auto
qed


theorem early_stop_hangs_witness:
  "\<exists>p q p'. perform_all sample_setting early_signal sample_launch = Some p \<and> perform sample_setting (MainThread True) p = Some q \<and>
     perform sample_setting ServerThread q = Some p' \<and> main_at p' = JoinServer \<and> srv_accepting (the_server p')"
proof -
  obtain p q where p: "perform_all sample_setting early_signal sample_launch = Some p" "main_at p = StopServer" "server_at p = ServerStarts"
    "perform sample_setting (MainThread True) p = Some q"
    using early_stop_possible [of sample_setting "sample_config 4" empty_table "[]"] unfolding sample_launch_def by blast
  have q: "q = (call_stop False p)\<lparr>main_at := JoinServer\<rparr>" using p(2,4) by (simp add: perform_def main_step_def sample_setting_def)
  then obtain p' where p': "perform sample_setting ServerThread q = Some p'" "server_at p' = SettingUp"
    using p(3) by (simp add: perform_def server_step_def call_stop_def Let_def)
  then have "(moves sample_setting (- {ListenFails}))\<^sup>*\<^sup>* q p'" by (auto intro: moves.intros)
  from early_stop_hangs [OF sample_reached [OF p(1)] p(2) _ p(4) this] show ?thesis using p p' by auto
qed

theorem lost_wakeup_hangs_witness:
  "\<exists>p p'. perform_all sample_setting late_look sample_launch = Some p \<and> perform sample_setting WorkerThread p = Some p' \<and>
     main_at p' = JoinWorker \<and> worker_at p' \<in> {AboutToWait, Waiting}"
proof -
  obtain p where p: "perform_all sample_setting late_look sample_launch = Some p" "main_at p = JoinWorker" "worker_at p = AboutToWait"
    using lost_wakeup_hangs [of sample_setting "sample_config 4" empty_table "[]"] unfolding sample_launch_def by blast
  then obtain p' where p': "perform sample_setting WorkerThread p = Some p'" by (simp add: perform_def worker_step_def)
  then have "(moves sample_setting (- {SpuriousWakeup}))\<^sup>*\<^sup>* p p'" by (auto intro: moves.intros)
  then show ?thesis using lost_wakeup_hangs [of sample_setting "sample_config 4" empty_table "[]"] sample_reached [OF p(1)] p p' by blast
qed

end
