(* ===== verification/RF_Fuzz.thy ===== *)
theory RF_Fuzz
  imports RF_JsonPrint RF_Server
begin

text \<open>
  The fuzz targets (fuzz/fuzz_json.cpp, fuzz/fuzz_openai_request.cpp): they give arbitrary bytes to the
  parser and to the reader of request bodies, and swallow every exception. A target returns zero, or its
  behaviour is undefined (\<open>None\<close>), which is what a fuzzer looks for.
\<close>

definition fuzz_json :: "string \<Rightarrow> int option" where
  "fuzz_json data = (case json_parse data of None \<Rightarrow> None | Some r \<Rightarrow> Some 0)"

definition fuzz_openai :: "string \<Rightarrow> int option" where
  "fuzz_openai data = (case parse_request_body data (default_request 0) default_config of None \<Rightarrow> None | Some r \<Rightarrow> Some 0)"

text \<open>The program around a target reads the files it is given; a file that cannot be read is empty.\<close>

fun fuzz_files :: "(string \<Rightarrow> int option) \<Rightarrow> (string \<Rightarrow> string option) \<Rightarrow> string list \<Rightarrow> int option" where
  "fuzz_files target read [] = Some 0"
| "fuzz_files target read (path # paths) =
     do { r \<leftarrow> target (case read path of None \<Rightarrow> [] | Some data \<Rightarrow> data); fuzz_files target read paths }"

text \<open>No input makes the parser's target fail.\<close>

lemma fuzz_json_passes: "fuzz_json data = Some 0"
  using json_parse_defined [of data] by (auto simp: fuzz_json_def)

text \<open>
  The only undefined behaviour the target of request bodies can find is the conversion of a number
  out of the range of \<open>float\<close>, and a body as short as this one finds it.
\<close>

lemma fuzz_openai_fails:
  "fuzz_openai data = None \<longleftrightarrow>
     (\<exists>body n. json_parse data = Some (Inr body) \<and> body_max_tokens body default_config = Inr n \<and>
       (body_float body ''temperature'' (cfg_temperature default_config) = None \<or> body_float body ''top_p'' (cfg_top_p default_config) = None))"
proof -
  obtain r where r: "json_parse data = Some r" using json_parse_defined by blast
  show ?thesis
    by (cases r) (auto simp: fuzz_openai_def parse_request_body_def r Let_def bind_eq_None_conv split: sum.splits option.splits)
qed

definition hot_document :: document where
  "hot_document = JObject [(''temperature'', JNumber ''1e39'')]"

lemma fuzz_openai_finds: "fuzz_openai (print_doc hot_document) = None"
proof -
  have "scan_number ''1e39'' = Inr (''1e39'', [])" by code_simp
  moreover have "map_option to_float (stod ''1e39'') = Some None" by code_simp
  then obtain x where x: "stod ''1e39'' = Some x" "to_float x = None" by (cases "stod ''1e39''") simp_all
  ultimately have "json_parse (print_doc hot_document) = Some (Inr (doc_value hot_document))"
    by (intro json_parse_print) (simp_all add: hot_document_def kMaxDepth_def)
  moreover have "body_float (doc_value hot_document) ''temperature'' (cfg_temperature default_config) = None"
    "body_max_tokens (doc_value hot_document) default_config = Inr (cfg_max_tokens default_config)"
    using x by (simp_all add: hot_document_def doc_value_def body_float_def body_max_tokens_def json_contains_def json_member_def)
  ultimately show ?thesis unfolding fuzz_openai_fails by blast
qed

end
