(* ===== verification/Spec2Isabelle.thy ===== *)
theory Spec2Isabelle
  imports RF_Service RF_WorkerProgress RF_EndToEnd RF_ServerProps RF_MainProps RF_Bridge RF_TreeJson RF_SpikePrompt
    RF_SpikeReport RF_SpikeScores RF_MoeRows RF_LifecycleProps RF_Fuzz
begin

text \<open>
  Verification of radixforge, a server for language models that keeps the KV memory of earlier
  prompts in a radix tree and serves an OpenAI-compatible interface over HTTP.

  \<^bold>\<open>The program.\<close> \<open>RadixTree\<close> (src/radix_tree.cpp) stores the token prefixes of prompts and which
  physical KV sequences hold them. \<open>KVMapper\<close> (src/kv_mapper.cpp) leases sequences to requests,
  copies cached prefixes into them, keeps idle sequences as cache and evicts the least recently
  used ones. \<open>InferenceWorker\<close> (src/worker.cpp) is the only thread that calls the mapper: it
  admits requests, decodes chunks of prompts together with one token of each active sequence, and
  ends requests. \<open>Server\<close> (src/http_server.cpp) reads a request body with the JSON parser
  (include/radixforge/json_minimal.h) through src/openai_api.cpp, enqueues the request with
  callbacks, and sends what the callbacks bring as events or as one text. src/main.cpp reads the
  options, and src/llama_bridge.cpp wraps llama.cpp. Two programs measure ideas for the cache:
  tools/chunk_spike.cpp assembles prompts from separately cached chunks and compares the answers
  with those of the whole prompt; tools/moe_trace.cpp records which experts each token uses.

  \<^bold>\<open>The theories.\<close>
  \<^item> \<open>RF_Prelude\<close>: names of machine types, generic lemmas, the collection \<open>bind_split\<close>.
  \<^item> \<open>RF_RadixTree\<close>: the tree's data and operations over a heap of nodes. \<open>RF_RadixInv\<close>,
    \<open>RF_RadixSearch\<close>, \<open>RF_RadixRelease\<close>, \<open>RF_RadixLookup\<close>: the shape invariant with ghost paths,
    and what each operation does to it. \<open>RF_TreeContract\<close>: the contract without ghost paths, with
    the locale \<open>prefix_store\<close>. \<open>RF_TreeJson\<close>: the dump for the administration endpoint.
  \<^item> \<open>RF_Config\<close>: the configuration. \<open>RF_KVMapper\<close>: the mapper. \<open>RF_MapperInv\<close>, \<open>RF_MapperEvict\<close>,
    \<open>RF_MapperAlloc\<close> (locale \<open>reclaimer\<close>), \<open>RF_MapperPrepare\<close>, \<open>RF_MapperLife\<close>: its invariant
    together with the leases of requests. \<open>RF_Protocol\<close>: the step relation \<open>serve\<close> of all calls for
    all requests, in the locale \<open>transition_system\<close>. \<open>RF_Service\<close>: the properties of the reachable
    states.
  \<^item> \<open>RF_Worker\<close>: the worker. \<open>RF_WorkerEnd\<close> states what it relies on as the locale
    \<open>sequence_service\<close>; \<open>RF_WorkerBatch\<close>, \<open>RF_WorkerStep\<close> prove its steps inside it; \<open>RF_WorkerRun\<close>
    interprets it by the mapper and runs the worker; \<open>RF_WorkerAnswer\<close> (no request is lost),
    \<open>RF_WorkerLimits\<close> (capacities), \<open>RF_WorkerStats\<close> (the reported counts), \<open>RF_WorkerProgress\<close> (the worker drains),
    \<open>RF_WorkerServes\<close> (it serves the whole queue), \<open>RF_WorkerProtocol\<close> (the calls of each request's
    callbacks are in order). \<open>RF_EndToEnd\<close> puts the worker and the answers together.
  \<^item> \<open>RF_Json\<close>: the parser. \<open>RF_JsonTotal\<close>: it returns. \<open>RF_OpenAI\<close>: the texts. \<open>RF_JsonPrint\<close>: the
    parser reads printed documents back (locale \<open>value_codec\<close>). \<open>RF_Numbers\<close>: rounding to binary
    floating point. \<open>RF_OpenAIText\<close>, \<open>RF_OpenAIProps\<close>: the server's texts as documents, requests
    and answers. \<open>RF_Utf8\<close>: UTF-8 as in the standard, and the split of a text.
  \<^item> \<open>RF_Stream\<close>: the streamed answer. \<open>RF_StreamProps\<close>: what the client reads, and the life of the
    sink. \<open>RF_Server\<close>: the handlers. \<open>RF_ServerProps\<close>: the answers of the completion endpoints.
  \<^item> \<open>RF_Main\<close>, \<open>RF_MainProps\<close>: the command line. \<open>RF_Bridge\<close>, \<open>RF_Perf\<close>: the wrapper of llama.cpp, and
    the timing counters. \<open>RF_Lifecycle\<close>: the launch, and the threads of main, server, handlers and
    worker as steps that interleave, with what each waits for: the main thread for the server and the
    worker, the server for its handlers, the handlers for their answers, the worker on its condition
    variable. \<open>RF_LifecycleProps\<close>: what they can reach, with the locale \<open>transition_system\<close> again.
    \<open>RF_Fuzz\<close>: the fuzz targets.
  \<^item> \<open>RF_Spike\<close>, \<open>RF_SpikeRun\<close>, \<open>RF_SpikeReport\<close>: the chunk experiment: its texts and scores, the runs
    of its variants, the files it writes and its main program. \<open>RF_SpikeLayout\<close>: the cells of a
    sequence with the tokens they were computed behind, and the laws of llama.cpp's memory.
    \<open>RF_SpikeAssembly\<close>, \<open>RF_SpikePrompt\<close>: the assembled prompt. \<open>RF_SpikeScores\<close>: its scores.
    \<open>RF_SpikeDemo\<close>: a memory that satisfies the laws.
  \<^item> \<open>RF_Moe\<close>, \<open>RF_MoeProps\<close>: the recorder of experts, and the layout of its files. \<open>RF_Decimal\<close>: doubles printed
    with a number of digits are literals of JSON. \<open>RF_MoeRows\<close>: a row read back.

  \<^bold>\<open>Conventions.\<close> An operation that dereferences pointers or that may loop has an option as its
  result: \<open>None\<close> is undefined behaviour (a dangling node, an undefined conversion) or a loop that
  does not end, so a theorem of the form \<open>f x = Some y\<close> says that the code returns. Exceptions are
  \<open>Inl\<close>. Loops are recursions on their data or \<open>partial_function (option)\<close>; no fuel is used. The
  recursion of the parser ends by its limit \<open>kMaxDepth\<close> of 64, its loops because each value consumes
  input. Integers of the code are \<open>int\<close> or \<open>nat\<close> where their ranges are stated or follow from an
  invariant, and words where the code works on bits (the escapes of JSON). Doubles and floats are
  the rational numbers they stand for, with the rounding of each conversion written out. Bytes are
  Isabelle characters. Concrete runs are evaluated in the kernel by \<open>code_simp\<close>.

  \<^bold>\<open>Parameters.\<close> llama.cpp: its KV memory, changed through \<open>seq_cp\<close> and \<open>seq_rm\<close>, with the laws
  \<open>kv_laws\<close>; the decoder with \<open>decode_law\<close> (a successful decode appends the cells of the batch, a
  failed one adds none); tokenizer, sampler and chat template as arbitrary functions. The callbacks
  of a request and the clients are arbitrary functions on a world. The sink of cpp-httplib answers
  each call by an arbitrary function of the calls before. \<open>table_ops\<close> and \<open>table_decode\<close> are a
  concrete KV memory and decoder that satisfy the laws. The experiments use more of llama.cpp (the
  record \<open>llama_api\<close>, with the laws \<open>memory_laws\<close>, under which cells that two sequences share must not
  be shifted); \<open>demo_api\<close> satisfies them. Nothing is assumed of the values of logits. Saved cells are values of an arbitrary type. Clock readings, \<open>exp\<close> and \<open>log\<close> are arguments.

  \<^bold>\<open>What is shown.\<close>
  \<^item> C1-C13: the cache. In every state that any order of calls can reach, the requests being served
    keep their nodes, sequences and cells, the cache offers only what the KV memory holds, and every
    operation returns and does what it promises. C13 shows a limit of the code: with a pool of one id a
    refusal for ever although an idle sequence exists.
  \<^item> C14-C18: the worker refines that service on every run; no request is lost; it serves its whole
    queue, if it has three sequence ids (with one id C13 shows that it may not); batches, slots and
    positions are within bounds.
  \<^item> C19 and C20: worker and answers composed. The calls of each request's callbacks follow the
    protocol, and, with three sequence ids, every client that stays reads its answer.
  \<^item> C21-C24: the life of the program, with its threads in any order. The worker goes down after the
    server and its handlers, and a program that returns leaves no request behind; from every state but
    two kinds it can be taken down without a timeout; in those two, \<open>stop\<close> came before the server was
    set up, or the notification of the worker was lost, and \<open>main\<close> never returns.
  \<^item> C25-C30: the parser returns on every input and reads printed documents back exactly up to its
    nesting limit; answers and requests survive the transport byte for byte; what any body leads to,
    and when the code's conversions are undefined; the split of a text agrees with the standard's UTF-8.
  \<^item> C31-C35: the sink is not used after the provider has returned; streamed and collected answers
    are what the worker generated, for all interleavings and failures of the connection; refusals
    explain themselves; the options are in range.
  \<^item> C36 and C37: the chunk experiment assembles exactly the prompt it means to, for every variant, and
    touches no other sequence; its score is exact up to rounding.
  \<^item> C38-C40: the recorded traces hold the experts of each token where the files say, and each line of
    the description reads back as what it describes.
  \<^item> Further theorems that are no properties of their own show limits of the code on concrete runs
    (\<open>cells_overcounted_after_split\<close>, \<open>completed_request_counted_cancelled\<close>, \<open>split_leaf_stays\<close>) or
    exact gauges and counters (\<open>gauges_exact\<close>, \<open>counters_exact\<close>, \<open>record_decodes_sum\<close>), what
    draining and shutdown keep (\<open>draining_is_final\<close>, \<open>shutdown_gives_back\<close>), and that the experiment's
    variant which recomputes everything makes the calls of the reference (\<open>rall_calls_as_full\<close>).

  \<^bold>\<open>Not modelled.\<close> Locks: each critical section is one atomic step, which is how the code uses its
  mutexes (one exception, noted in \<open>RF_Server\<close>: the collected answer reads its cancellation flag
  before it takes the lock). The threads of the program interleave in \<open>RF_Lifecycle\<close>, where an
  iteration of the worker is one step; the wait for its queue, with the mutex, takes several. Lack of
  memory, and with it the clauses of the worker that catch any other exception. Clocks: what depends on time is an event (\<open>Wake\<close>) or an
  argument. cpp-httplib's routing and sockets, the usage text, and the output of log messages. The
  progress lines of the experiments, and the part of their files written before an exception; doubles
  that overflow to infinity.
\<close>

end
